(* ===== verification/Prelude.thy ===== *)
theory Prelude
  imports Main "HOL-Library.Word"
begin

text \<open>
  Shared material of the development: the machine integer types of
  \<^verbatim>\<open>src/engine-uring/src/types.h\<close>, the fatal check of \<^verbatim>\<open>src/engine-uring/src/check.h\<close> as an
  error value, \<^verbatim>\<open>memcpy\<close> into a byte array, little-endian byte images of words (the
  repository blits structs and assumes x86), and the generic lemmas on lists and on
  power-of-two masks that the component theories share.
\<close>

unbundle bit_operations_syntax

section \<open>Machine integers\<close>

text \<open>\<^verbatim>\<open>types.h\<close>: the aliases used throughout the sources. Signed and unsigned integers of one
  width share a representation; \<open>sint\<close> reads the signed value, \<open>unat\<close> the unsigned one.\<close>

type_synonym byte = "8 word"
type_synonym u08 = "8 word"
type_synonym u16 = "16 word"
type_synonym u32 = "32 word"
type_synonym u64 = "64 word"
type_synonym i32 = "32 word"
type_synonym i64 = "64 word"
type_synonym usize = "64 word"

named_theorems word_conv \<open>conversions of word expressions to natural numbers\<close>
named_theorems mem_simps \<open>rewriting of byte-array updates\<close>

section \<open>Fatal checks\<close>

text \<open>\<^verbatim>\<open>check.h\<close>: a failed \<^verbatim>\<open>LNX_CHECK\<close> executes a trap instruction and control does not come
  back. It is the value \<open>Inl Check_Trap\<close>; \<open>Inl Undefined\<close> stands for behaviour the C++
  standard leaves undefined (an access outside an array, a null dereference).\<close>

datatype fault = Check_Trap | Undefined

type_synonym 'a res = "fault + 'a"

definition LNX_CHECK :: "bool \<Rightarrow> 'a res \<Rightarrow> 'a res" where
  "LNX_CHECK c k = (if c then k else Inl Check_Trap)"

lemma LNX_CHECK_True [simp]: "LNX_CHECK True k = k"
  by (simp add: LNX_CHECK_def)

lemma LNX_CHECK_False [simp]: "LNX_CHECK False k = Inl Check_Trap"
  by (simp add: LNX_CHECK_def)

lemma LNX_CHECK_Inr_iff [simp]: "LNX_CHECK c k = Inr x \<longleftrightarrow> c \<and> k = Inr x"
  by (simp add: LNX_CHECK_def)

section \<open>Copying into a byte array\<close>

text \<open>\<^verbatim>\<open>memcpy(dst + off, src, n)\<close> on an array, with \<open>n = length src\<close>; callers keep
  \<open>off + length src \<le> length dst\<close>, which the components prove of their calls.\<close>

definition mem_copy :: "'a list \<Rightarrow> nat \<Rightarrow> 'a list \<Rightarrow> 'a list" where
  "mem_copy dst off src = take off dst @ src @ drop (off + length src) dst"

lemma length_mem_copy [simp, mem_simps]:
  "off + length src \<le> length dst \<Longrightarrow> length (mem_copy dst off src) = length dst"
  by (simp add: mem_copy_def)

lemma mem_copy_Nil [simp, mem_simps]: "mem_copy dst off [] = dst"
  by (simp add: mem_copy_def)

lemma nth_mem_copy [mem_simps]:
  assumes "off + length src \<le> length dst" "i < length dst"
  shows "mem_copy dst off src ! i =
    (if off \<le> i \<and> i < off + length src then src ! (i - off) else dst ! i)"
  using assms by (auto simp: mem_copy_def nth_append min_def)

section \<open>Lists\<close>

lemma map_nth_shift_append:
  "map f [0..<m + n] = map f [0..<m] @ map (\<lambda>i. f (m + i)) [0..<n]"
  by (rule nth_equalityI) (auto simp: nth_append)

lemma take_map_upt: "k \<le> n \<Longrightarrow> take k (map f [0..<n]) = map f [0..<k]"
  by (simp add: take_map)

lemma drop_map_upt: "drop k (map f [0..<n]) = map (\<lambda>i. f (k + i)) [0..<n - k]"
  by (rule nth_equalityI) auto

section \<open>Power-of-two masks\<close>

text \<open>\<^verbatim>\<open>cursor & (N - 1)\<close> for \<open>N = 2 ^ k\<close> is the remainder modulo \<open>N\<close>.\<close>

lemma and_mask_pow2 [word_conv]:
  fixes c :: usize
  assumes "k < 64"
  shows "unat (c AND (of_nat (2 ^ k) - 1)) = unat c mod 2 ^ k"
proof -
  have "c AND (of_nat (2 ^ k) - 1) = take_bit k c"
    by (simp add: take_bit_eq_mask mask_eq_exp_minus_1)
  then have "unat (c AND (of_nat (2 ^ k) - 1)) = take_bit k (unat c)"
    by (simp only: unsigned_take_bit_eq)
  then show ?thesis
    by (simp only: take_bit_eq_mod)
qed

lemma pow2_dvd_2_64: "k \<le> 64 \<Longrightarrow> (2::nat) ^ k dvd 2 ^ 64"
  by (rule le_imp_power_dvd)

lemma unat_add_mod_pow2:
  fixes c d :: usize
  assumes "k \<le> 64"
  shows "unat (c + d) mod 2 ^ k = (unat c + unat d) mod 2 ^ k"
  using pow2_dvd_2_64 [OF assms] by (simp add: unat_word_ariths mod_mod_cancel)

lemma pow2_of_and_pred:
  "N AND (N - 1) = 0 \<Longrightarrow> 0 < N \<Longrightarrow> \<exists>k. N = 2 ^ k" for N :: nat
proof (induction N rule: less_induct)
  case (less N)
  show ?case
  proof (cases "even N")
    case True
    then obtain m where m: "N = 2 * m" by (elim evenE)
    with less.prems(2) have pos: "0 < m" by simp
    then have half: "(2 * m - 1) div 2 = m - 1" and odd: "odd (2 * m - 1)" by auto
    have "2 * (m AND (m - 1)) = N AND (N - 1)"
      using half odd by (subst and_rec [of N]) (simp add: m)
    with less.prems(1) have "m AND (m - 1) = 0" by simp
    with less.IH [of m] pos m obtain k where "m = 2 ^ k" by auto
    with m show ?thesis by (intro exI [of _ "Suc k"]) simp
  next
    case False
    then obtain m where m: "N = 2 * m + 1" by (elim oddE)
    have "N AND (N - 1) = 2 * m" by (subst and_rec) (simp add: m)
    with less.prems(1) m show ?thesis by (intro exI [of _ 0]) simp
  qed
qed

lemma mod_add_neq:
  fixes x i j N :: nat
  assumes "i < j" "j - i < N"
  shows "(x + i) mod N \<noteq> (x + j) mod N"
proof
  assume "(x + i) mod N = (x + j) mod N"
  then have "N dvd (x + j) - (x + i)"
    using assms(1) mod_eq_dvd_iff_nat [of "x + i" "x + j" N] by simp
  with assms show False by (auto dest: nat_dvd_not_less)
qed

lemma mod_add_mod_nat: "((c mod N) + i) mod N = (c + i) mod (N::nat)"
  by (simp add: mod_simps)

lemma unat_of_nat_usize [simp, word_conv]: "n < 2 ^ 64 \<Longrightarrow> unat (of_nat n :: usize) = n"
  by (simp add: unat_of_nat take_bit_nat_eq_self)

lemma u16_bound: "unat (s :: u16) < 65536"
  using unsigned_less [of s, where ?'a = nat] by simp

lemma u32_bound: "unat (s :: u32) < 4294967296"
  using unsigned_less [of s, where ?'a = nat] by simp

lemma unat_ucast_u16_usize [simp, word_conv]: "unat (ucast (s :: u16) :: usize) = unat s"
  using u16_bound [of s] by (simp add: unsigned_ucast_eq take_bit_nat_eq_self)

lemma unat_of_nat_u16 [word_conv]: "n < 2 ^ 16 \<Longrightarrow> unat (of_nat n :: u16) = n"
  by (simp add: unat_of_nat take_bit_nat_eq_self)

lemma unat_sub_eq_nat:
  fixes a b :: usize
  shows "unat ((a + of_nat n) - b) = (unat (a - b) + n) mod 2 ^ 64"
proof -
  have "(a + of_nat n) - b = (a - b) + of_nat n" by simp
  then show ?thesis
    by (simp only: unat_word_ariths) (simp add: unat_of_nat take_bit_eq_mod mod_simps)
qed

section \<open>Little-endian byte images\<close>

text \<open>The sources copy integers with \<^verbatim>\<open>memcpy\<close> on a little-endian machine: byte \<open>i\<close> of the
  image holds bits \<open>8 i\<close> to \<open>8 i + 7\<close>.\<close>

definition le_bytes :: "'a::len word \<Rightarrow> byte list" where
  "le_bytes w = map (\<lambda>i. ucast (drop_bit (8 * i) w)) [0..<LENGTH('a) div 8]"

primrec le_word :: "byte list \<Rightarrow> 'a::len word" where
  "le_word [] = 0"
| "le_word (b # bs) = ucast b OR push_bit 8 (le_word bs)"

lemma length_le_bytes [simp]: "length (le_bytes (w :: 'a::len word)) = LENGTH('a) div 8"
  by (simp add: le_bytes_def)

lemma bit_le_word:
  "bit (le_word bs :: 'a::len word) n \<longleftrightarrow>
     n < LENGTH('a) \<and> n div 8 < length bs \<and> bit (bs ! (n div 8)) (n mod 8)"
proof (induction bs arbitrary: n)
  case Nil
  then show ?case by simp
next
  case (Cons b bs)
  show ?case
  proof (cases "n < 8")
    case True
    then show ?thesis
      by (auto simp: bit_or_iff bit_push_bit_iff bit_unsigned_iff)
  next
    case False
    then obtain m where n: "n = m + 8"
      by (metis le_add_diff_inverse2 not_less)
    have "\<not> bit b n" and "(m + 8) div 8 = Suc (m div 8)"
      using False by (auto dest: bit_imp_le_length)
    then show ?thesis
      using Cons.IH [of m] by (auto simp: n bit_or_iff bit_push_bit_iff bit_unsigned_iff)
  qed
qed

lemma le_word_le_bytes [simp]:
  assumes "8 dvd LENGTH('a)"
  shows "le_word (le_bytes (w :: 'a::len word)) = w"
proof (rule bit_word_eqI)
  fix n
  assume n: "n < LENGTH('a)"
  with assms have "n div 8 < LENGTH('a) div 8"
    by (metis dvd_mult_div_cancel less_mult_imp_div_less mult.commute)
  then show "bit (le_word (le_bytes w) :: 'a word) n \<longleftrightarrow> bit w n"
    using n by (simp add: bit_le_word le_bytes_def bit_unsigned_iff bit_drop_bit_eq)
qed

lemma le_word_le_bytes_append:
  assumes "8 dvd LENGTH('a)"
  shows "le_word (take (LENGTH('a) div 8) (le_bytes (w :: 'a::len word) @ xs)) = w"
  using assms by simp

end
