(* ===== verification/BytePipe.thy ===== *)
theory BytePipe
  imports Prelude
begin

text \<open>
  The byte interface that the framing code of \<^verbatim>\<open>src/server-uring/src/mesh.h\<close> is a template over
  (\<^verbatim>\<open>template <typename Pipe>\<close>): the operations a pipe type has to provide, as a record of
  functions, and the contract the framing relies on, as a locale. \<open>RingBuffer\<close> provides the
  operations and discharges the contract.
\<close>

record 'p pipe_ops =
  op_enqueue2 :: "byte list \<Rightarrow> byte list \<Rightarrow> 'p \<Rightarrow> usize \<times> 'p"
  op_used_size :: "'p \<Rightarrow> usize"
  op_peek :: "usize \<Rightarrow> 'p \<Rightarrow> byte list"
  op_dequeue :: "usize \<Rightarrow> 'p \<Rightarrow> byte list \<times> 'p"

locale byte_pipe =
  fixes ops :: "'p pipe_ops"
    and bytes :: "'p \<Rightarrow> byte list"
    and cap :: "'p \<Rightarrow> nat"
    and ok :: "'p \<Rightarrow> bool"
  assumes cap_bound: "ok p \<Longrightarrow> cap p < 2 ^ 63"
    and bytes_bound: "ok p \<Longrightarrow> length (bytes p) \<le> cap p"
    and enqueue2_full: "ok p \<Longrightarrow> length a + length b < 2 ^ 63 \<Longrightarrow>
      cap p < length (bytes p) + (length a + length b) \<Longrightarrow> op_enqueue2 ops a b p = (0, p)"
    and enqueue2_count: "ok p \<Longrightarrow> length (bytes p) + (length a + length b) \<le> cap p \<Longrightarrow>
      fst (op_enqueue2 ops a b p) = of_nat (length a + length b)"
    and enqueue2_bytes: "ok p \<Longrightarrow> length (bytes p) + (length a + length b) \<le> cap p \<Longrightarrow>
      bytes (snd (op_enqueue2 ops a b p)) = bytes p @ a @ b"
    and enqueue2_ok: "ok p \<Longrightarrow> length (bytes p) + (length a + length b) \<le> cap p \<Longrightarrow>
      ok (snd (op_enqueue2 ops a b p)) \<and> cap (snd (op_enqueue2 ops a b p)) = cap p"
    and used_size: "ok p \<Longrightarrow> unat (op_used_size ops p) = length (bytes p)"
    and peek: "ok p \<Longrightarrow> op_peek ops n p = take (unat n) (bytes p)"
    and dequeue_out: "ok p \<Longrightarrow> fst (op_dequeue ops n p) = take (unat n) (bytes p)"
    and dequeue_bytes: "ok p \<Longrightarrow> bytes (snd (op_dequeue ops n p)) = drop (unat n) (bytes p)"
    and dequeue_ok: "ok p \<Longrightarrow> ok (snd (op_dequeue ops n p)) \<and> cap (snd (op_dequeue ops n p)) = cap p"

end
