(* ===== verification/RingBuffer.thy ===== *)
theory RingBuffer
  imports BytePipe
begin

text \<open>
  \<^verbatim>\<open>src/engine-uring/src/sds/ring_buffer.h\<close> (and its second name,
  \<^verbatim>\<open>src/engine-uring/src/sds/pipe.h\<close>): a bounded byte ring over two 64-bit cursors. The cursors
  are 64-bit words, every \<^verbatim>\<open>usize\<close> expression of the source is word arithmetic, and the storage
  is a list of \<open>N\<close> bytes. The operations of one thread are functions here; the two-thread
  interleavings of the \<^verbatim>\<open>spsc\<close> policy are in theory \<open>SpscPipe\<close>.
\<close>

section \<open>State\<close>

text \<open>\<open>ring_N\<close> is the template parameter \<^verbatim>\<open>N\<close>; \<open>enqueue_cur\<close> and \<open>dequeue_cur\<close> are the cursors of
  the synchronisation policy, \<open>ring_buf\<close> the storage.\<close>

record ring =
  ring_N :: nat
  enqueue_cur :: i64
  dequeue_cur :: i64
  ring_buf :: "byte list"

text \<open>The two \<^verbatim>\<open>static_assert\<close>s on \<^verbatim>\<open>N\<close>, with the language's own bound on the size of an array
  object (\<^verbatim>\<open>PTRDIFF_MAX\<close>).\<close>

definition ring_static_ok :: "nat \<Rightarrow> bool" where
  "ring_static_ok N \<longleftrightarrow> 2 \<le> N \<and> N AND (N - 1) = 0 \<and> N < 2 ^ 63"

definition ring_MASK :: "ring \<Rightarrow> usize" where
  "ring_MASK r = of_nat (ring_N r) - 1"

section \<open>Synchronisation policy\<close>

text \<open>The role-named cursor accesses; both policies read and write the same two cursors and
  differ in memory order only.\<close>

definition p_own :: "ring \<Rightarrow> i64" where "p_own r = enqueue_cur r"
definition p_peer :: "ring \<Rightarrow> i64" where "p_peer r = dequeue_cur r"
definition p_publish :: "i64 \<Rightarrow> ring \<Rightarrow> ring" where "p_publish v r = r\<lparr>enqueue_cur := v\<rparr>"
definition c_own :: "ring \<Rightarrow> i64" where "c_own r = dequeue_cur r"
definition c_peer :: "ring \<Rightarrow> i64" where "c_peer r = enqueue_cur r"
definition c_publish :: "i64 \<Rightarrow> ring \<Rightarrow> ring" where "c_publish v r = r\<lparr>dequeue_cur := v\<rparr>"

lemmas ring_sync_defs = p_own_def p_peer_def p_publish_def c_own_def c_peer_def c_publish_def

section \<open>Operations\<close>

definition umin :: "usize \<Rightarrow> usize \<Rightarrow> usize" where
  "umin a b = (if a < b then a else b)"

text \<open>\<^verbatim>\<open>copy\<close>: a \<^verbatim>\<open>memcpy\<close> guarded against \<open>n = 0\<close>.\<close>

definition copy :: "byte list \<Rightarrow> nat \<Rightarrow> byte list \<Rightarrow> byte list" where
  "copy dst off src = (if src \<noteq> [] then mem_copy dst off src else dst)"

definition write_at :: "i64 \<Rightarrow> byte list \<Rightarrow> ring \<Rightarrow> ring" where
  "write_at cursor src r =
     (let n = of_nat (length src);
          off = cursor AND ring_MASK r;
          first = umin n (of_nat (ring_N r) - off);
          b1 = copy (ring_buf r) (unat off) (take (unat first) src);
          b2 = copy b1 0 (drop (unat first) src)
      in r\<lparr>ring_buf := b2\<rparr>)"

definition ring_init :: "nat \<Rightarrow> byte list \<Rightarrow> ring" where
  "ring_init N garbage = \<lparr>ring_N = N, enqueue_cur = 0, dequeue_cur = 0, ring_buf = garbage\<rparr>"

definition ring_capacity :: "ring \<Rightarrow> usize" where
  "ring_capacity r = of_nat (ring_N r)"

definition free_size :: "ring \<Rightarrow> usize" where
  "free_size r = of_nat (ring_N r) - (p_own r - p_peer r)"

definition is_full :: "ring \<Rightarrow> bool" where
  "is_full r \<longleftrightarrow> free_size r = 0"

definition enqueue :: "byte list \<Rightarrow> ring \<Rightarrow> usize \<times> ring" where
  "enqueue src r =
     (let w = p_own r; n = of_nat (length src)
      in if (w - p_peer r) + n > of_nat (ring_N r) then (0, r)
         else (n, p_publish (w + n) (write_at w src r)))"

definition enqueue2 :: "byte list \<Rightarrow> byte list \<Rightarrow> ring \<Rightarrow> usize \<times> ring" where
  "enqueue2 a b r =
     (let w = p_own r; na = of_nat (length a); nb = of_nat (length b); n = na + nb
      in if (w - p_peer r) + n > of_nat (ring_N r) then (0, r)
         else (n, p_publish (w + n) (write_at (w + na) b (write_at w a r))))"

text \<open>The zero-copy hooks: a pointer is its offset into the storage.\<close>

definition direct_enqueue_ptr :: "ring \<Rightarrow> usize" where
  "direct_enqueue_ptr r = p_own r AND ring_MASK r"

definition direct_enqueue_size :: "ring \<Rightarrow> usize" where
  "direct_enqueue_size r =
     (let w = p_own r; free = of_nat (ring_N r) - (w - p_peer r);
          to_end = of_nat (ring_N r) - (w AND ring_MASK r)
      in umin free to_end)"

definition commit_enqueue :: "usize \<Rightarrow> ring \<Rightarrow> ring" where
  "commit_enqueue k r = p_publish (p_own r + k) r"

definition used_size :: "ring \<Rightarrow> usize" where
  "used_size r = c_peer r - c_own r"

definition is_empty :: "ring \<Rightarrow> bool" where
  "is_empty r \<longleftrightarrow> used_size r = 0"

text \<open>The bytes \<^verbatim>\<open>dequeue\<close> and \<^verbatim>\<open>peek\<close> copy out for a request of \<open>n\<close>, already clamped.\<close>

definition ring_read :: "ring \<Rightarrow> usize \<Rightarrow> byte list" where
  "ring_read r n =
     (let off = c_own r AND ring_MASK r;
          first = umin n (of_nat (ring_N r) - off)
      in take (unat first) (drop (unat off) (ring_buf r)) @ take (unat (n - first)) (ring_buf r))"

definition dequeue :: "usize \<Rightarrow> ring \<Rightarrow> byte list \<times> ring" where
  "dequeue n r =
     (let k = umin n (c_peer r - c_own r)
      in (ring_read r k, c_publish (c_own r + k) r))"

definition peek :: "usize \<Rightarrow> ring \<Rightarrow> byte list" where
  "peek n r = ring_read r (umin n (c_peer r - c_own r))"

definition direct_dequeue_ptr :: "ring \<Rightarrow> usize" where
  "direct_dequeue_ptr r = c_own r AND ring_MASK r"

definition direct_dequeue_size :: "ring \<Rightarrow> usize" where
  "direct_dequeue_size r =
     (let r0 = c_own r; avail = c_peer r - r0;
          to_end = of_nat (ring_N r) - (r0 AND ring_MASK r)
      in umin avail to_end)"

definition commit_dequeue :: "usize \<Rightarrow> ring \<Rightarrow> ring" where
  "commit_dequeue k r = c_publish (c_own r + k) r"

section \<open>Invariant and abstraction\<close>

definition ring_inv :: "ring \<Rightarrow> bool" where
  "ring_inv r \<longleftrightarrow> ring_static_ok (ring_N r) \<and> length (ring_buf r) = ring_N r
     \<and> unat (enqueue_cur r - dequeue_cur r) \<le> ring_N r"

text \<open>The queued bytes, oldest first: the abstract value of a ring.\<close>

definition used :: "ring \<Rightarrow> nat" where
  "used r = unat (enqueue_cur r - dequeue_cur r)"

definition contents :: "ring \<Rightarrow> byte list" where
  "contents r = map (\<lambda>i. ring_buf r ! ((unat (dequeue_cur r) + i) mod ring_N r)) [0..<used r]"

lemma length_contents [simp]: "length (contents r) = used r"
  by (simp add: contents_def)

lemma ring_static_pow2:
  assumes "ring_static_ok N"
  obtains k where "N = 2 ^ k" "k < 63"
proof -
  from assms obtain k where k: "N = 2 ^ k"
    using pow2_of_and_pred [of N] by (auto simp: ring_static_ok_def)
  moreover from assms k have "(2::nat) ^ k < 2 ^ 63" by (simp add: ring_static_ok_def)
  then have "k < 63" by (subst (asm) power_strict_increasing_iff) simp_all
  ultimately show thesis by (rule that)
qed

lemma ring_invD:
  assumes "ring_inv r"
  shows "0 < ring_N r" "ring_N r < 2 ^ 63" "length (ring_buf r) = ring_N r" "used r \<le> ring_N r"
  using assms by (auto simp: ring_inv_def ring_static_ok_def used_def)

text \<open>The two facts through which every proof below sees the word arithmetic: the storage offset
  of a cursor is the cursor modulo \<open>N\<close>, and moving a cursor by \<open>n\<close> moves its offset by \<open>n\<close>
  even across the 64-bit wrap, because \<open>N\<close> divides \<open>2 ^ 64\<close>.\<close>

lemma ring_off [word_conv]:
  assumes "ring_static_ok (ring_N r)"
  shows "unat (c AND ring_MASK r) = unat c mod ring_N r"
proof -
  from assms obtain k where k: "ring_N r = 2 ^ k" "k < 63" by (rule ring_static_pow2)
  then show ?thesis using and_mask_pow2 [of k c] by (simp add: ring_MASK_def)
qed

lemma ring_off_add:
  fixes c :: usize
  assumes "ring_static_ok N"
  shows "unat (c + of_nat n) mod N = (unat c + n) mod N"
proof -
  from assms obtain k where k: "N = 2 ^ k" "k < 63" by (rule ring_static_pow2)
  then have "unat (c + of_nat n) mod N = (unat c + unat (of_nat n :: usize)) mod N"
    by (simp add: unat_add_mod_pow2)
  also have "unat (of_nat n :: usize) mod N = n mod N"
    using pow2_dvd_2_64 [of k] k by (simp add: unat_of_nat take_bit_eq_mod mod_mod_cancel)
  then have "(unat c + unat (of_nat n :: usize)) mod N = (unat c + n) mod N"
    by (metis mod_add_right_eq)
  finally show ?thesis .
qed

section \<open>Writing and reading across the wrap\<close>

lemma unat_umin [word_conv]: "unat (umin a b) = min (unat a) (unat b)"
  by (auto simp: umin_def word_less_nat_alt)

lemma unat_N_minus_off [word_conv]:
  assumes "ring_inv r"
  shows "unat (of_nat (ring_N r) - (c AND ring_MASK r)) = ring_N r - unat c mod ring_N r"
proof -
  have N: "0 < ring_N r" "ring_N r < 2 ^ 63" and ok: "ring_static_ok (ring_N r)"
    using assms by (auto simp: ring_inv_def ring_static_ok_def)
  have un: "unat (of_nat (ring_N r) :: usize) = ring_N r" using N by simp
  have "unat (c AND ring_MASK r) \<le> unat (of_nat (ring_N r) :: usize)"
    using ring_off [OF ok, of c] N by (simp add: un less_imp_le)
  then show ?thesis
    using ring_off [OF ok, of c] by (simp add: unat_sub word_le_nat_alt un)
qed

lemma copy_eq_mem_copy: "copy dst off src = mem_copy dst off src"
  by (simp add: copy_def)

text \<open>What \<^verbatim>\<open>write_at\<close> leaves in the storage, as a plain two-part copy at the offset modulo \<open>N\<close>.\<close>

lemma write_at_eq:
  assumes "ring_inv r" "length src \<le> ring_N r"
  shows "write_at c src r =
    (let off = unat c mod ring_N r; first = min (length src) (ring_N r - off)
     in r\<lparr>ring_buf := mem_copy (mem_copy (ring_buf r) off (take first src)) 0 (drop first src)\<rparr>)"
proof -
  have N: "0 < ring_N r" "ring_N r < 2 ^ 63" using assms(1) by (auto dest: ring_invD)
  with assms have "unat (of_nat (length src) :: usize) = length src" by simp
  with assms(1) show ?thesis
    by (simp add: write_at_def Let_def copy_eq_mem_copy unat_umin unat_N_minus_off
        ring_off ring_inv_def)
qed

lemma write_at_frame [simp]:
  "ring_N (write_at c src r) = ring_N r"
  "enqueue_cur (write_at c src r) = enqueue_cur r"
  "dequeue_cur (write_at c src r) = dequeue_cur r"
  by (simp_all add: write_at_def Let_def)

text \<open>The wrapped copy on plain lists, with the offset \<open>off < N\<close> already reduced.\<close>

lemma wrap_copy_nth:
  fixes buf src :: "'a list"
  assumes "length buf = N" "off < N" "length src \<le> N" "j < N"
  defines "first \<equiv> min (length src) (N - off)"
  shows "mem_copy (mem_copy buf off (take first src)) 0 (drop first src) ! j =
    (if off \<le> j \<and> j < off + length src then src ! (j - off)
     else if j + N < off + length src then src ! (j + N - off) else buf ! j)"
proof (cases "off + length src \<le> N")
  case True
  then have "first = length src" by (simp add: first_def)
  with True assms(1-4) show ?thesis by (simp add: nth_mem_copy)
next
  case False
  then have f: "first = N - off" by (simp add: first_def)
  have "length (mem_copy buf off (take first src)) = N"
    using False assms(1-3) by (simp add: f)
  with False assms(1-4) f show ?thesis
    by (auto simp: nth_mem_copy min_def add.commute)
qed

lemma wrap_copy_length:
  assumes "length buf = N" "off < N" "length src \<le> N"
  defines "first \<equiv> min (length src) (N - off)"
  shows "length (mem_copy (mem_copy buf off (take first src)) 0 (drop first src)) = N"
proof -
  have "off + length (take first src) \<le> length buf" using assms by (simp add: first_def)
  then have "length (mem_copy buf off (take first src)) = N" using assms(1) by simp
  moreover have "length (drop first src) \<le> N" using assms(3) by simp
  ultimately show ?thesis by simp
qed

lemma wrap_index:
  fixes c i N :: nat
  assumes "i < N"
  shows "(c + i) mod N = (if c mod N + i < N then c mod N + i else c mod N + i - N)"
proof -
  have off: "c mod N < N" using assms by simp
  have eq: "(c + i) mod N = (c mod N + i) mod N" by (simp add: mod_simps)
  show ?thesis
  proof (cases "c mod N + i < N")
    case True
    with eq show ?thesis by simp
  next
    case False
    then have "(c mod N + i) mod N = (c mod N + i - N) mod N" by (simp add: le_mod_geq)
    also have "\<dots> = c mod N + i - N" using False off assms by (intro mod_less) linarith
    finally show ?thesis using eq False by simp
  qed
qed

lemma length_write_at [simp]:
  assumes "ring_inv r" "length src \<le> ring_N r"
  shows "length (ring_buf (write_at c src r)) = ring_N r"
  using assms wrap_copy_length [of "ring_buf r" "ring_N r" "unat c mod ring_N r" src]
  by (simp add: write_at_eq Let_def ring_invD)

lemma nth_write_at:
  fixes c :: usize
  assumes "ring_inv r" "length src \<le> ring_N r" "j < ring_N r"
  defines "off \<equiv> unat c mod ring_N r"
  shows "ring_buf (write_at c src r) ! j =
    (if off \<le> j \<and> j < off + length src then src ! (j - off)
     else if j + ring_N r < off + length src then src ! (j + ring_N r - off) else ring_buf r ! j)"
  using assms(1-3) wrap_copy_nth [of "ring_buf r" "ring_N r" off src j]
  by (simp add: write_at_eq Let_def ring_invD off_def)

lemma nth_write_at_in:
  assumes "ring_inv r" "length src \<le> ring_N r" "i < length src"
  shows "ring_buf (write_at c src r) ! ((unat c + i) mod ring_N r) = src ! i"
proof -
  define off where "off = unat c mod ring_N r"
  have off: "off < ring_N r" using assms(1) by (simp add: ring_invD off_def)
  have j: "(unat c + i) mod ring_N r = (if off + i < ring_N r then off + i else off + i - ring_N r)"
    using assms by (simp add: wrap_index off_def)
  have lt: "(unat c + i) mod ring_N r < ring_N r" using off by simp
  show ?thesis
    using off assms(2,3)
    by (subst nth_write_at [OF assms(1,2) lt]) (simp add: j off_def [symmetric] not_less)
qed

lemma nth_write_at_out:
  assumes "ring_inv r" "length src \<le> ring_N r" "j < ring_N r"
    and out: "\<And>i. i < length src \<Longrightarrow> (unat c + i) mod ring_N r \<noteq> j"
  shows "ring_buf (write_at c src r) ! j = ring_buf r ! j"
proof -
  define off where "off = unat c mod ring_N r"
  have off: "off < ring_N r" using assms(1) by (simp add: ring_invD off_def)
  have j: "(unat c + i) mod ring_N r = (if off + i < ring_N r then off + i else off + i - ring_N r)"
    if "i < ring_N r" for i using that by (simp add: wrap_index off_def)
  have "\<not> (off \<le> j \<and> j < off + length src)"
    using out [of "j - off"] j [of "j - off"] assms(2,3) by force
  moreover have "\<not> j + ring_N r < off + length src"
  proof
    assume "j + ring_N r < off + length src"
    then have "j + ring_N r - off < length src" using off by linarith
    then show False
      using out [of "j + ring_N r - off"] j [of "j + ring_N r - off"] off assms(2) by simp
  qed
  ultimately show ?thesis
    by (subst nth_write_at [OF assms(1-3)]) (auto simp: off_def [symmetric])
qed

section \<open>The ring implements a bounded byte queue\<close>

lemma enqueue_cur_eq: "enqueue_cur r = dequeue_cur r + of_nat (used r)"
  by (simp add: used_def)

lemma enqueue_off:
  assumes "ring_inv r"
  shows "(unat (enqueue_cur r) + i) mod ring_N r = (unat (dequeue_cur r) + (used r + i)) mod ring_N r"
proof -
  have "unat (enqueue_cur r) mod ring_N r = (unat (dequeue_cur r) + used r) mod ring_N r"
    using assms by (subst enqueue_cur_eq) (simp add: ring_off_add ring_inv_def)
  then show ?thesis
    by (metis add.assoc mod_add_left_eq)
qed

lemma used_advance:
  assumes "ring_inv r" "used r + n \<le> ring_N r" "enqueue_cur r' = enqueue_cur r + of_nat n"
    "dequeue_cur r' = dequeue_cur r"
  shows "used r' = used r + n"
proof -
  have "used r + n < 2 ^ 64" using assms(1,2) by (auto dest: ring_invD(2))
  then show ?thesis
    using assms(3,4) unat_sub_eq_nat [of "enqueue_cur r" n "dequeue_cur r"] by (simp add: used_def)
qed

lemma contents_extend:
  assumes inv: "ring_inv r" and fits: "used r + length src \<le> ring_N r"
    and same: "ring_N r' = ring_N r" "dequeue_cur r' = dequeue_cur r"
      "enqueue_cur r' = enqueue_cur r + of_nat (length src)"
    and inside: "\<And>i. i < length src \<Longrightarrow>
      ring_buf r' ! ((unat (enqueue_cur r) + i) mod ring_N r) = src ! i"
    and outside: "\<And>j. j < ring_N r \<Longrightarrow>
      (\<And>i. i < length src \<Longrightarrow> (unat (enqueue_cur r) + i) mod ring_N r \<noteq> j) \<Longrightarrow>
      ring_buf r' ! j = ring_buf r ! j"
  shows "contents r' = contents r @ src"
proof -
  let ?at = "\<lambda>q i. ring_buf q ! ((unat (dequeue_cur r) + i) mod ring_N r)"
  have used': "used r' = used r + length src"
    using used_advance [OF inv fits same(3,2)] .
  have old: "?at r' i = ?at r i" if i: "i < used r" for i
  proof (rule outside)
    show "(unat (dequeue_cur r) + i) mod ring_N r < ring_N r"
      using inv by (simp add: ring_invD)
    fix k assume "k < length src"
    then have "i < used r + k" "(used r + k) - i < ring_N r" using i fits by auto
    then show "(unat (enqueue_cur r) + k) mod ring_N r \<noteq> (unat (dequeue_cur r) + i) mod ring_N r"
      using mod_add_neq [of i "used r + k" "ring_N r" "unat (dequeue_cur r)"]
        enqueue_off [OF inv, of k] by simp
  qed
  have new: "?at r' (used r + i) = src ! i" if "i < length src" for i
    using inside [OF that] enqueue_off [OF inv, of i] by (simp add: add.assoc)
  have "contents r' = map (?at r') [0..<used r + length src]"
    by (simp add: contents_def same used')
  also have "\<dots> = map (?at r') [0..<used r] @ map (\<lambda>i. ?at r' (used r + i)) [0..<length src]"
    by (rule map_nth_shift_append)
  also have "map (?at r') [0..<used r] = contents r"
    using old by (simp add: contents_def)
  also have "map (\<lambda>i. ?at r' (used r + i)) [0..<length src] = src"
    using new by (intro nth_equalityI) auto
  finally show ?thesis .
qed

lemma fits_iff:
  assumes "ring_inv r" "n < 2 ^ 63"
  shows "(p_own r - p_peer r) + of_nat n > of_nat (ring_N r) \<longleftrightarrow> used r + n > ring_N r"
proof -
  have "ring_N r < 2 ^ 63" "used r \<le> ring_N r" using assms(1) by (auto dest: ring_invD)
  moreover have "unat ((p_own r - p_peer r) + of_nat n) = (used r + n) mod 2 ^ 64"
    using assms(2) by (simp add: unat_word_ariths used_def p_own_def p_peer_def)
  ultimately show ?thesis
    using assms(2) by (simp add: word_less_nat_alt)
qed

lemma enqueue_refuse:
  assumes "ring_inv r" "length src < 2 ^ 63" "used r + length src > ring_N r"
  shows "enqueue src r = (0, r)"
  using assms fits_iff [OF assms(1,2)] by (simp add: enqueue_def Let_def)

lemma enqueue_accept_eq:
  assumes "ring_inv r" "used r + length src \<le> ring_N r"
  shows "enqueue src r = (of_nat (length src),
    (write_at (enqueue_cur r) src r)\<lparr>enqueue_cur := enqueue_cur r + of_nat (length src)\<rparr>)"
proof -
  have "length src < 2 ^ 63" using assms by (auto dest: ring_invD(2))
  then show ?thesis
    using fits_iff [OF assms(1), of "length src"] assms
    by (simp add: enqueue_def Let_def ring_sync_defs not_less [symmetric])
qed

lemma enqueue_accept:
  assumes inv: "ring_inv r" and fits: "used r + length src \<le> ring_N r"
  shows "fst (enqueue src r) = of_nat (length src)"
    and "contents (snd (enqueue src r)) = contents r @ src"
    and "ring_inv (snd (enqueue src r))"
    and "ring_N (snd (enqueue src r)) = ring_N r"
proof -
  let ?r' = "snd (enqueue src r)"
  have len: "length src \<le> ring_N r" using fits by simp
  note eq = enqueue_accept_eq [OF inv fits]
  show "fst (enqueue src r) = of_nat (length src)" and N: "ring_N ?r' = ring_N r"
    by (simp_all add: eq)
  show "contents ?r' = contents r @ src"
    using inv fits len by (intro contents_extend) (simp_all add: eq nth_write_at_in nth_write_at_out)
  have "used ?r' = used r + length src"
    using inv fits by (rule used_advance) (simp_all add: eq)
  then show "ring_inv ?r'"
    using inv fits len by (simp add: ring_inv_def used_def) (simp add: eq ring_inv_def)
qed

text \<open>The gather form is one enqueue of the concatenation: no staging buffer, same bytes.\<close>

lemma write_at_append:
  assumes inv: "ring_inv r" and len: "length a + length b \<le> ring_N r"
  shows "write_at (c + of_nat (length a)) b (write_at c a r) = write_at c (a @ b) r"
proof -
  let ?r1 = "write_at c a r" and ?N = "ring_N r"
  let ?c' = "c + of_nat (length a)"
  have inv1: "ring_inv ?r1" using inv len length_write_at [OF inv, of a c] by (simp add: ring_inv_def)
  have off: "(unat ?c' + i) mod ?N = (unat c + (length a + i)) mod ?N" for i
  proof -
    have "unat ?c' mod ?N = (unat c + length a) mod ?N"
      using inv by (simp add: ring_off_add ring_inv_def)
    then show ?thesis by (metis add.assoc mod_add_left_eq)
  qed
  have nthb: "ring_buf (write_at ?c' b ?r1) ! j = ring_buf (write_at c (a @ b) r) ! j"
    if j: "j < ?N" for j
  proof (cases "\<exists>i < length (a @ b). (unat c + i) mod ?N = j")
    case True
    then obtain i where i: "i < length (a @ b)" "(unat c + i) mod ?N = j" by blast
    have "ring_buf (write_at c (a @ b) r) ! j = (a @ b) ! i"
      using nth_write_at_in [OF inv, of "a @ b" i c] i len by simp
    moreover have "ring_buf (write_at ?c' b ?r1) ! j = (a @ b) ! i"
    proof (cases "i < length a")
      case True
      have "ring_buf (write_at ?c' b ?r1) ! j = ring_buf ?r1 ! j"
      proof (rule nth_write_at_out [OF inv1])
        fix k assume "k < length b"
        then have "(length a + k) - i < ?N" using len True by linarith
        then show "(unat ?c' + k) mod ring_N ?r1 \<noteq> j"
          using off [of k] i(2) mod_add_neq [of i "length a + k" ?N "unat c"] True
          by (simp add: eq_commute)
      qed (use j len in simp_all)
      then show ?thesis
        using nth_write_at_in [OF inv, of a i c] True i len by (simp add: nth_append)
    next
      case False
      with i off [of "i - length a"] show ?thesis
        using nth_write_at_in [OF inv1, of b "i - length a" ?c'] len by (simp add: nth_append)
    qed
    ultimately show ?thesis by simp
  next
    case False
    then have none: "(unat c + i) mod ?N \<noteq> j" if "i < length a + length b" for i
      using that by auto
    have "ring_buf (write_at ?c' b ?r1) ! j = ring_buf ?r1 ! j"
      using none off j len by (intro nth_write_at_out [OF inv1]) simp_all
    also have "\<dots> = ring_buf r ! j"
      using none j len by (intro nth_write_at_out [OF inv]) simp_all
    also have "\<dots> = ring_buf (write_at c (a @ b) r) ! j"
      using none j len by (intro nth_write_at_out [OF inv, symmetric]) simp_all
    finally show ?thesis .
  qed
  have "ring_buf (write_at ?c' b ?r1) = ring_buf (write_at c (a @ b) r)"
    using nthb inv inv1 len by (intro nth_equalityI) simp_all
  then show ?thesis by (intro ring.equality) simp_all
qed

lemma enqueue2_eq_enqueue:
  assumes "ring_inv r" "length a + length b < 2 ^ 63"
  shows "enqueue2 a b r = enqueue (a @ b) r"
proof (cases "used r + length (a @ b) \<le> ring_N r")
  case True
  then show ?thesis
    using assms by (simp add: enqueue2_def enqueue_def Let_def ring_sync_defs write_at_append add.assoc)
next
  case False
  then show ?thesis
    using assms fits_iff [of r "length a + length b"]
    by (simp add: enqueue2_def enqueue_def Let_def)
qed

section \<open>Reading\<close>

lemma ring_read_contents:
  assumes inv: "ring_inv r" and k: "unat k \<le> used r"
  shows "ring_read r k = take (unat k) (contents r)"
proof -
  define off where "off = unat (dequeue_cur r) mod ring_N r"
  define first where "first = min (unat k) (ring_N r - off)"
  have N: "0 < ring_N r" "length (ring_buf r) = ring_N r" "used r \<le> ring_N r"
    and offN: "off < ring_N r"
    using inv by (auto simp: ring_invD off_def)
  have "unat (k - umin k (of_nat (ring_N r) - (dequeue_cur r AND ring_MASK r))) = unat k - first"
    using inv by (subst unat_sub) (simp_all add: umin_def unat_umin [symmetric] word_le_nat_alt,
      auto simp: umin_def first_def off_def unat_N_minus_off min_def word_less_nat_alt)
  then have read: "ring_read r k = take first (drop off (ring_buf r)) @ take (unat k - first) (ring_buf r)"
    using inv by (simp add: ring_read_def Let_def c_own_def unat_umin unat_N_minus_off ring_off
        ring_inv_def off_def first_def)
  show ?thesis
  proof (rule nth_equalityI)
    show "length (ring_read r k) = length (take (unat k) (contents r))"
      using N offN k by (simp add: read first_def)
    fix i assume "i < length (ring_read r k)"
    then have i: "i < unat k" using N offN k by (simp add: read first_def split: if_splits)
    have "(unat (dequeue_cur r) + i) mod ring_N r =
      (if off + i < ring_N r then off + i else off + i - ring_N r)"
      using i k N by (simp add: wrap_index off_def)
    then show "ring_read r k ! i = take (unat k) (contents r) ! i"
      using i k N offN by (auto simp: read first_def contents_def nth_append min_def add.commute)
  qed
qed

lemma unat_clamp:
  assumes "ring_inv r"
  shows "unat (umin n (c_peer r - c_own r)) = min (unat n) (used r)"
  by (simp add: unat_umin used_def c_peer_def c_own_def)

lemma used_retire:
  assumes "ring_inv r" "unat k \<le> used r" "dequeue_cur r' = dequeue_cur r + k"
    "enqueue_cur r' = enqueue_cur r"
  shows "used r' = used r - unat k"
proof -
  have "enqueue_cur r' - dequeue_cur r' = (enqueue_cur r - dequeue_cur r) - k"
    using assms(3,4) by simp
  then show ?thesis
    using assms(2) by (simp add: used_def unat_sub word_le_nat_alt)
qed

lemma contents_retire:
  assumes inv: "ring_inv r" and k: "unat k \<le> used r"
  shows "contents (r\<lparr>dequeue_cur := dequeue_cur r + k\<rparr>) = drop (unat k) (contents r)"
    and "ring_inv (r\<lparr>dequeue_cur := dequeue_cur r + k\<rparr>)"
proof -
  let ?r' = "r\<lparr>dequeue_cur := dequeue_cur r + k\<rparr>"
  have u: "used ?r' = used r - unat k" using inv k by (rule used_retire) simp_all
  have "(unat (dequeue_cur r + k) + i) mod ring_N r
      = (unat (dequeue_cur r) + (unat k + i)) mod ring_N r" for i
    using inv ring_off_add [of "ring_N r" "dequeue_cur r" "unat k"]
    by (simp add: ring_inv_def) (metis add.assoc mod_add_left_eq)
  then show "contents ?r' = drop (unat k) (contents r)"
    by (simp add: contents_def u drop_map_upt)
  show "ring_inv ?r'" using inv u by (simp add: ring_inv_def used_def le_diff_conv trans_le_add1)
qed

lemma dequeue_correct:
  fixes n :: usize
  assumes inv: "ring_inv r"
  defines "k \<equiv> min (unat n) (used r)"
  shows "fst (dequeue n r) = take k (contents r)"
    and "contents (snd (dequeue n r)) = drop k (contents r)"
    and "ring_inv (snd (dequeue n r))"
    and "ring_N (snd (dequeue n r)) = ring_N r"
  using inv unat_clamp [OF inv, of n]
    contents_retire [OF inv, of "umin n (c_peer r - c_own r)"]
  by (simp_all add: dequeue_def Let_def ring_read_contents k_def c_publish_def c_own_def c_peer_def)

lemma peek_correct:
  assumes "ring_inv r"
  shows "peek n r = take (min (unat n) (used r)) (contents r)"
  using assms unat_clamp [OF assms, of n] by (simp add: peek_def ring_read_contents)

section \<open>Zero-copy regions\<close>

text \<open>The contiguous region handed to the kernel for a receive lies inside the storage and inside
  the free space; filling its first \<open>k\<close> bytes and committing \<open>k\<close> appends exactly those bytes.\<close>

lemma unat_direct_enqueue_size:
  assumes inv: "ring_inv r"
  shows "unat (direct_enqueue_size r) =
    min (ring_N r - used r) (ring_N r - unat (enqueue_cur r) mod ring_N r)"
proof -
  have "unat (of_nat (ring_N r) - (enqueue_cur r - dequeue_cur r)) = ring_N r - used r"
    using ring_invD [OF inv] by (subst unat_sub) (simp_all add: used_def word_le_nat_alt)
  then show ?thesis
    using inv by (simp add: direct_enqueue_size_def Let_def p_own_def p_peer_def unat_umin
        unat_N_minus_off)
qed

lemma unat_direct_enqueue_ptr:
  "ring_inv r \<Longrightarrow> unat (direct_enqueue_ptr r) = unat (enqueue_cur r) mod ring_N r"
  by (simp add: direct_enqueue_ptr_def p_own_def ring_off ring_inv_def)

lemma direct_enqueue_correct:
  assumes inv: "ring_inv r" and k: "length src \<le> unat (direct_enqueue_size r)"
  defines "r' \<equiv> commit_enqueue (of_nat (length src))
    (r\<lparr>ring_buf := mem_copy (ring_buf r) (unat (direct_enqueue_ptr r)) src\<rparr>)"
  shows "contents r' = contents r @ src" and "ring_inv r'"
    and "unat (direct_enqueue_ptr r) + length src \<le> ring_N r"
proof -
  define off where "off = unat (enqueue_cur r) mod ring_N r"
  have offN: "off < ring_N r" using inv by (simp add: off_def ring_invD)
  have fits: "used r + length src \<le> ring_N r" and flat: "off + length src \<le> ring_N r"
    using k offN ring_invD(4) [OF inv] by (auto simp: unat_direct_enqueue_size [OF inv] off_def)
  show "unat (direct_enqueue_ptr r) + length src \<le> ring_N r"
    using flat by (simp add: unat_direct_enqueue_ptr [OF inv] off_def)
  have eq: "r' = (write_at (enqueue_cur r) src r)\<lparr>enqueue_cur := enqueue_cur r + of_nat (length src)\<rparr>"
    using inv flat
    by (simp add: r'_def commit_enqueue_def p_publish_def p_own_def unat_direct_enqueue_ptr
        write_at_eq Let_def off_def min_def)
  then have "r' = snd (enqueue src r)" using enqueue_accept_eq [OF inv fits] by simp
  then show "contents r' = contents r @ src" and "ring_inv r'"
    using enqueue_accept [OF inv fits] by simp_all
qed

text \<open>The contiguous region handed out for a send or an in-place parse is a prefix of the queued
  bytes, and committing \<open>k\<close> of them drops exactly those.\<close>

lemma direct_dequeue_correct:
  assumes inv: "ring_inv r" and k: "k \<le> direct_dequeue_size r"
  shows "take (unat k) (drop (unat (direct_dequeue_ptr r)) (ring_buf r)) = take (unat k) (contents r)"
    and "unat k \<le> used r"
    and "unat (direct_dequeue_ptr r) + unat k \<le> ring_N r"
    and "contents (commit_dequeue k r) = drop (unat k) (contents r)"
    and "ring_inv (commit_dequeue k r)"
proof -
  define off where "off = unat (dequeue_cur r) mod ring_N r"
  have offN: "off < ring_N r" using inv by (simp add: off_def ring_invD)
  have ptr: "unat (direct_dequeue_ptr r) = off"
    using inv by (simp add: direct_dequeue_ptr_def c_own_def ring_off ring_inv_def off_def)
  have "unat (direct_dequeue_size r) = min (used r) (ring_N r - off)"
    using inv by (simp add: direct_dequeue_size_def Let_def c_own_def c_peer_def unat_umin
        unat_N_minus_off used_def off_def)
  with k have ku: "unat k \<le> used r" and kf: "off + unat k \<le> ring_N r"
    using offN by (auto simp: word_le_nat_alt)
  show "unat k \<le> used r" by (rule ku)
  show "unat (direct_dequeue_ptr r) + unat k \<le> ring_N r" using kf by (simp add: ptr)
  show "take (unat k) (drop (unat (direct_dequeue_ptr r)) (ring_buf r)) = take (unat k) (contents r)"
  proof (rule nth_equalityI)
    show "length (take (unat k) (drop (unat (direct_dequeue_ptr r)) (ring_buf r))) =
      length (take (unat k) (contents r))"
      using ku kf inv by (simp add: ptr ring_invD)
    fix i assume "i < length (take (unat k) (drop (unat (direct_dequeue_ptr r)) (ring_buf r)))"
    then have i: "i < unat k" by simp
    then have "(unat (dequeue_cur r) + i) mod ring_N r = off + i"
      using kf offN by (subst wrap_index) (simp_all add: off_def)
    then show "take (unat k) (drop (unat (direct_dequeue_ptr r)) (ring_buf r)) ! i =
      take (unat k) (contents r) ! i"
      using i ku kf inv by (simp add: ptr contents_def ring_invD)
  qed
  show "contents (commit_dequeue k r) = drop (unat k) (contents r)" and "ring_inv (commit_dequeue k r)"
    using contents_retire [OF inv ku] by (simp_all add: commit_dequeue_def c_publish_def c_own_def)
qed

section \<open>The ring as a byte pipe\<close>

text \<open>\<^verbatim>\<open>sds::pipe<N>\<close> is \<^verbatim>\<open>ring_buffer<N, spsc>\<close>; its operations satisfy the contract of the framing
  layer.\<close>

definition ring_ops :: "ring pipe_ops" where
  "ring_ops = \<lparr>op_enqueue2 = enqueue2, op_used_size = used_size, op_peek = peek,
     op_dequeue = dequeue\<rparr>"

lemma used_size_correct: "unat (used_size r) = length (contents r)"
  by (simp add: used_size_def used_def c_peer_def c_own_def)

lemma take_clamp: "take (min n (length xs)) xs = take n xs" "drop (min n (length xs)) xs = drop n xs"
  by (simp_all add: min_def)

interpretation ring: byte_pipe ring_ops contents ring_N ring_inv
proof (unfold_locales, goal_cases)
  case (3 p a b)
  then show ?case by (simp add: ring_ops_def enqueue2_eq_enqueue enqueue_refuse)
next
  case (4 p a b)
  then show ?case using ring_invD(2) [of p] by (simp add: ring_ops_def enqueue2_eq_enqueue enqueue_accept)
next
  case (5 p a b)
  then show ?case using ring_invD(2) [of p] by (simp add: ring_ops_def enqueue2_eq_enqueue enqueue_accept)
next
  case (6 p a b)
  then show ?case using ring_invD(2) [of p] by (simp add: ring_ops_def enqueue2_eq_enqueue enqueue_accept)
next
  case (8 p n)
  then show ?case using take_clamp [of "unat n" "contents p"] by (simp add: ring_ops_def peek_correct)
next
  case (9 p n)
  then show ?case using take_clamp [of "unat n" "contents p"] by (simp add: ring_ops_def dequeue_correct)
next
  case (10 p n)
  then show ?case using take_clamp [of "unat n" "contents p"] by (simp add: ring_ops_def dequeue_correct)
qed (use ring_invD(2) in \<open>auto simp: ring_ops_def ring_invD used_size_correct dequeue_correct\<close>)

section \<open>Operation sequences\<close>

text \<open>A run of ring operations next to a run of the abstract bounded queue: what a caller sees is the
  returned count and the bytes copied out.\<close>

datatype ring_op = R_enqueue "byte list" | R_enqueue2 "byte list" "byte list"
  | R_dequeue usize | R_peek usize

fun ring_step :: "ring_op \<Rightarrow> ring \<Rightarrow> (usize \<times> byte list) \<times> ring" where
  "ring_step (R_enqueue src) r = (let (n, r') = enqueue src r in ((n, []), r'))"
| "ring_step (R_enqueue2 a b) r = (let (n, r') = enqueue2 a b r in ((n, []), r'))"
| "ring_step (R_dequeue n) r = (let (out, r') = dequeue n r in ((of_nat (length out), out), r'))"
| "ring_step (R_peek n) r = (let out = peek n r in ((of_nat (length out), out), r))"

fun ring_run :: "ring_op list \<Rightarrow> ring \<Rightarrow> (usize \<times> byte list) list \<times> ring" where
  "ring_run [] r = ([], r)"
| "ring_run (c # cs) r = (let (o1, r1) = ring_step c r; (os, r2) = ring_run cs r1 in (o1 # os, r2))"

text \<open>The specification: a byte list of at most \<open>N\<close> bytes.\<close>

definition queue_put :: "nat \<Rightarrow> byte list \<Rightarrow> byte list \<Rightarrow> (usize \<times> byte list) \<times> byte list" where
  "queue_put N src q =
     (if length q + length src \<le> N then ((of_nat (length src), []), q @ src) else ((0, []), q))"

fun queue_step :: "nat \<Rightarrow> ring_op \<Rightarrow> byte list \<Rightarrow> (usize \<times> byte list) \<times> byte list" where
  "queue_step N (R_enqueue src) q = queue_put N src q"
| "queue_step N (R_enqueue2 a b) q = queue_put N (a @ b) q"
| "queue_step N (R_dequeue n) q =
     ((of_nat (length (take (unat n) q)), take (unat n) q), drop (unat n) q)"
| "queue_step N (R_peek n) q = ((of_nat (length (take (unat n) q)), take (unat n) q), q)"

fun queue_run :: "nat \<Rightarrow> ring_op list \<Rightarrow> byte list \<Rightarrow> (usize \<times> byte list) list \<times> byte list" where
  "queue_run N [] q = ([], q)"
| "queue_run N (c # cs) q =
     (let (o1, q1) = queue_step N c q; (os, q2) = queue_run N cs q1 in (o1 # os, q2))"

text \<open>The argument of an operation is an object in memory, hence shorter than \<open>2 ^ 63\<close> bytes.\<close>

fun ring_op_ok :: "ring_op \<Rightarrow> bool" where
  "ring_op_ok (R_enqueue src) \<longleftrightarrow> length src < 2 ^ 63"
| "ring_op_ok (R_enqueue2 a b) \<longleftrightarrow> length a + length b < 2 ^ 63"
| "ring_op_ok _ \<longleftrightarrow> True"

lemma ring_step_refines:
  assumes inv: "ring_inv r" and c: "ring_op_ok c"
  shows "fst (ring_step c r) = fst (queue_step (ring_N r) c (contents r))"
    and "contents (snd (ring_step c r)) = snd (queue_step (ring_N r) c (contents r))"
    and "ring_inv (snd (ring_step c r))" and "ring_N (snd (ring_step c r)) = ring_N r"
proof -
  have put: "length src < 2 ^ 63 \<Longrightarrow>
      (fst (enqueue src r), []) = fst (queue_put (ring_N r) src (contents r)) \<and>
      contents (snd (enqueue src r)) = snd (queue_put (ring_N r) src (contents r)) \<and>
      ring_inv (snd (enqueue src r)) \<and> ring_N (snd (enqueue src r)) = ring_N r" for src
    using inv enqueue_accept [OF inv, of src] enqueue_refuse [OF inv, of src]
    by (cases "used r + length src \<le> ring_N r") (simp_all add: queue_put_def)
  show "fst (ring_step c r) = fst (queue_step (ring_N r) c (contents r))"
    and "contents (snd (ring_step c r)) = snd (queue_step (ring_N r) c (contents r))"
    and "ring_inv (snd (ring_step c r))" and "ring_N (snd (ring_step c r)) = ring_N r"
    using c inv put take_clamp [of _ "contents r"] ring_op_ok.simps
    by (cases c; simp add: split_beta Let_def enqueue2_eq_enqueue dequeue_correct peek_correct)+
qed

lemma ring_run_refines:
  assumes "ring_inv r" "list_all ring_op_ok cs"
  shows "fst (ring_run cs r) = fst (queue_run (ring_N r) cs (contents r))
    \<and> contents (snd (ring_run cs r)) = snd (queue_run (ring_N r) cs (contents r))"
  using assms
proof (induction cs arbitrary: r)
  case Nil
  then show ?case by simp
next
  case (Cons c cs)
  then show ?case
    using ring_step_refines [of r c] Cons.IH [of "snd (ring_step c r)"]
    by (simp add: split_beta Let_def)
qed

text \<open>C1. For every sequence of \<^verbatim>\<open>enqueue\<close>, \<^verbatim>\<open>enqueue2\<close>, \<^verbatim>\<open>dequeue\<close> and \<^verbatim>\<open>peek\<close> calls, from any
  state of the ring that satisfies its invariant, the counts and bytes the caller sees are those of
  a first-in first-out byte queue holding at most \<open>N\<close> bytes: writes are all or nothing, nothing
  is lost, duplicated or reordered across the wrap of the storage or of the 64-bit cursors.\<close>

theorem ring_refines_byte_queue:
  assumes "ring_inv r" "list_all ring_op_ok cs"
  shows "fst (ring_run cs r) = fst (queue_run (ring_N r) cs (contents r))
    \<and> contents (snd (ring_run cs r)) = snd (queue_run (ring_N r) cs (contents r))"
  using assms by (rule ring_run_refines)

text \<open>A four-byte ring whose cursors stand just below the 64-bit wrap and which holds one byte.\<close>

definition wrapping_ring :: ring where
  "wrapping_ring = \<lparr>ring_N = 4, enqueue_cur = - 1, dequeue_cur = - 2, ring_buf = [0, 0, 7, 0]\<rparr>"

theorem ring_refines_byte_queue_witness:
  "ring_inv wrapping_ring
   \<and> fst (ring_run [R_enqueue [1, 2], R_enqueue [3, 4], R_dequeue 2, R_enqueue2 [8] [9], R_peek 9]
        wrapping_ring) = [(2, []), (0, []), (2, [7, 1]), (2, []), (3, [2, 8, 9])]"
proof -
  have inv: "ring_inv wrapping_ring"
    by (simp add: ring_inv_def ring_static_ok_def wrapping_ring_def)
  have "contents wrapping_ring = [7]"
    by (simp add: contents_def used_def wrapping_ring_def)
  then show ?thesis
    using inv ring_refines_byte_queue [OF inv,
      of "[R_enqueue [1, 2], R_enqueue [3, 4], R_dequeue 2, R_enqueue2 [8] [9], R_peek 9]"]
    by (simp add: queue_put_def wrapping_ring_def Let_def)
qed

text \<open>C26. The zero-copy receive path: the region \<^verbatim>\<open>direct_enqueue_ptr\<close>/\<^verbatim>\<open>direct_enqueue_size\<close> lies
  inside the storage, and when the kernel fills its first bytes with \<open>src\<close> and the owner commits
  that many, exactly \<open>src\<close> is appended to the queue and the ring invariant still holds.\<close>

theorem direct_enqueue_appends:
  assumes "ring_inv r" "length src \<le> unat (direct_enqueue_size r)"
  defines "r' \<equiv> commit_enqueue (of_nat (length src))
    (r\<lparr>ring_buf := mem_copy (ring_buf r) (unat (direct_enqueue_ptr r)) src\<rparr>)"
  shows "contents r' = contents r @ src \<and> ring_inv r'
    \<and> unat (direct_enqueue_ptr r) + length src \<le> length (ring_buf r)"
  using direct_enqueue_correct [OF assms(1,2)] assms(1) by (simp add: r'_def ring_invD(3))

theorem direct_enqueue_appends_witness:
  "unat (direct_enqueue_size wrapping_ring) = 1
   \<and> contents (commit_enqueue 1 (wrapping_ring\<lparr>ring_buf := mem_copy (ring_buf wrapping_ring) 3 [5]\<rparr>)) = [7, 5]"
proof -
  have inv: "ring_inv wrapping_ring"
    by (simp add: ring_inv_def ring_static_ok_def wrapping_ring_def)
  have sz: "unat (direct_enqueue_size wrapping_ring) = 1" and "unat (direct_enqueue_ptr wrapping_ring) = 3"
    by (simp_all add: direct_enqueue_size_def direct_enqueue_ptr_def wrapping_ring_def p_own_def
        p_peer_def ring_MASK_def umin_def Let_def)
  moreover have "contents wrapping_ring = [7]"
    by (simp add: contents_def used_def wrapping_ring_def)
  ultimately show ?thesis
    using direct_enqueue_appends [OF inv, of "[5]"] by simp
qed

end
