(* ===== verification/SpscPipe.thy ===== *)
theory SpscPipe
  imports RingBuffer
begin

text \<open>
  The \<^verbatim>\<open>spsc\<close> policy of \<^verbatim>\<open>src/engine-uring/src/sds/ring_buffer.h\<close>: one producer thread in
  \<^verbatim>\<open>enqueue\<close>/\<^verbatim>\<open>enqueue2\<close> and one consumer thread in \<^verbatim>\<open>dequeue\<close>/\<^verbatim>\<open>peek\<close>, interleaved at the
  granularity of single cursor accesses and single byte copies. Each thread's position inside its
  operation is explicit. The executions are sequentially consistent; the data-race theorem below
  is what makes that adequate for the acquire/release cursors of the source: no byte is ever
  written by the producer while the consumer is entitled to read it.
\<close>

section \<open>State and steps\<close>

text \<open>\<open>P_copy w src i\<close>: the producer loaded its own cursor \<open>w\<close>, passed the room check against the
  peer cursor, and has copied \<open>i\<close> of the bytes \<open>src\<close>. \<open>C_copy k got\<close>: the consumer
  loaded the peer cursor, clamped its request to \<open>k\<close>, and has copied \<open>got\<close>; the flag tells
  \<^verbatim>\<open>dequeue\<close> (which will publish) from \<^verbatim>\<open>peek\<close> (which will not).\<close>

datatype producer = P_idle | P_copy i64 "byte list" nat
datatype consumer = C_idle | C_copy bool usize "byte list"

text \<open>\<open>frames\<close> and \<open>recvd\<close> are history variables: the frames published so far, oldest first,
  and the bytes the consumer has dequeued so far.\<close>

record spsc =
  pipe :: ring
  prod :: producer
  cons :: consumer
  frames :: "byte list list"
  recvd :: "byte list"

text \<open>The storage index of the byte at distance \<open>i\<close> from cursor \<open>c\<close>.\<close>

definition slot_at :: "ring \<Rightarrow> i64 \<Rightarrow> nat \<Rightarrow> nat" where
  "slot_at r c i = unat ((c + of_nat i) AND ring_MASK r)"

definition spsc_init :: "nat \<Rightarrow> byte list \<Rightarrow> spsc" where
  "spsc_init N garbage =
     \<lparr>pipe = ring_init N garbage, prod = P_idle, cons = C_idle, frames = [], recvd = []\<rparr>"

inductive spsc_step :: "spsc \<Rightarrow> spsc \<Rightarrow> bool" where
  p_refuse: "prod s = P_idle \<Longrightarrow>
     (p_own (pipe s) - p_peer (pipe s)) + of_nat (length (src :: byte list)) > of_nat (ring_N (pipe s)) \<Longrightarrow>
     spsc_step s s"
| p_begin: "prod s = P_idle \<Longrightarrow> length src < 2 ^ 63 \<Longrightarrow>
     \<not> (p_own (pipe s) - p_peer (pipe s)) + of_nat (length src) > of_nat (ring_N (pipe s)) \<Longrightarrow>
     spsc_step s (s\<lparr>prod := P_copy (p_own (pipe s)) src 0\<rparr>)"
| p_byte: "prod s = P_copy w src i \<Longrightarrow> i < length src \<Longrightarrow>
     spsc_step s (s\<lparr>pipe := (pipe s)\<lparr>ring_buf := (ring_buf (pipe s))[slot_at (pipe s) w i := src ! i]\<rparr>,
       prod := P_copy w src (Suc i)\<rparr>)"
| p_done: "prod s = P_copy w src i \<Longrightarrow> i = length src \<Longrightarrow>
     spsc_step s (s\<lparr>pipe := p_publish (w + of_nat (length src)) (pipe s), prod := P_idle,
       frames := frames s @ [src]\<rparr>)"
| c_begin: "cons s = C_idle \<Longrightarrow>
     spsc_step s (s\<lparr>cons := C_copy take_it (umin n (c_peer (pipe s) - c_own (pipe s))) []\<rparr>)"
| c_byte: "cons s = C_copy take_it k got \<Longrightarrow> length got < unat k \<Longrightarrow>
     spsc_step s (s\<lparr>cons := C_copy take_it k
       (got @ [ring_buf (pipe s) ! slot_at (pipe s) (c_own (pipe s)) (length got)])\<rparr>)"
| c_dequeued: "cons s = C_copy True k got \<Longrightarrow> length got = unat k \<Longrightarrow>
     spsc_step s (s\<lparr>pipe := c_publish (c_own (pipe s) + k) (pipe s), cons := C_idle,
       recvd := recvd s @ got\<rparr>)"
| c_peeked: "cons s = C_copy False k got \<Longrightarrow> length got = unat k \<Longrightarrow>
     spsc_step s (s\<lparr>cons := C_idle\<rparr>)"

inductive spsc_reachable :: "nat \<Rightarrow> spsc \<Rightarrow> bool" for N where
  start: "ring_static_ok N \<Longrightarrow> length garbage = N \<Longrightarrow> spsc_reachable N (spsc_init N garbage)"
| step: "spsc_reachable N s \<Longrightarrow> spsc_step s t \<Longrightarrow> spsc_reachable N t"

section \<open>Invariant\<close>

definition prod_inv :: "spsc \<Rightarrow> bool" where
  "prod_inv s \<longleftrightarrow> (case prod s of P_idle \<Rightarrow> True
     | P_copy w src i \<Rightarrow> w = enqueue_cur (pipe s) \<and> i \<le> length src
         \<and> used (pipe s) + length src \<le> ring_N (pipe s)
         \<and> (\<forall>j<i. ring_buf (pipe s) ! ((unat w + j) mod ring_N (pipe s)) = src ! j))"

definition cons_inv :: "spsc \<Rightarrow> bool" where
  "cons_inv s \<longleftrightarrow> (case cons s of C_idle \<Rightarrow> True
     | C_copy _ k got \<Rightarrow> unat k \<le> used (pipe s) \<and> length got \<le> unat k
         \<and> got = take (length got) (contents (pipe s)))"

definition spsc_inv :: "spsc \<Rightarrow> bool" where
  "spsc_inv s \<longleftrightarrow> ring_inv (pipe s) \<and> prod_inv s \<and> cons_inv s
     \<and> concat (frames s) = recvd s @ contents (pipe s)"

lemma slot_at_eq:
  assumes "ring_inv r"
  shows "slot_at r c i = (unat c + i) mod ring_N r"
  using assms by (simp add: slot_at_def ring_off ring_inv_def ring_off_add)

lemma slot_in_buffer: "ring_inv r \<Longrightarrow> slot_at r c i < length (ring_buf r)"
  by (simp add: slot_at_eq ring_inv_def ring_static_ok_def)

text \<open>The frame property at the heart of the proof: a byte written at or past the producer cursor,
  within the free space, is outside every slot that holds a queued byte.\<close>

lemma free_slot_not_queued:
  assumes "ring_inv r" "i < used r" "used r + j < ring_N r"
  shows "(unat (dequeue_cur r) + i) mod ring_N r \<noteq> (unat (enqueue_cur r) + j) mod ring_N r"
  using assms mod_add_neq [of i "used r + j" "ring_N r" "unat (dequeue_cur r)"]
    enqueue_off [OF assms(1), of j] by simp

lemma contents_write_free:
  assumes "ring_inv r" "used r + j < ring_N r"
  shows "contents (r\<lparr>ring_buf := (ring_buf r)[(unat (enqueue_cur r) + j) mod ring_N r := b]\<rparr>) = contents r"
  using not_sym [OF free_slot_not_queued [OF assms(1) _ assms(2)]]
  by (auto simp: contents_def used_def)

lemma spsc_inv_init:
  "ring_static_ok N \<Longrightarrow> length garbage = N \<Longrightarrow> spsc_inv (spsc_init N garbage)"
  by (simp add: spsc_inv_def spsc_init_def ring_init_def ring_inv_def prod_inv_def cons_inv_def
      contents_def used_def)

lemma p_byte_inv:
  assumes inv: "spsc_inv s" and pr: "prod s = P_copy w src i" "i < length src"
  shows "spsc_inv (s\<lparr>pipe := (pipe s)\<lparr>ring_buf := (ring_buf (pipe s))[slot_at (pipe s) w i := src ! i]\<rparr>,
       prod := P_copy w src (Suc i)\<rparr>)"
proof -
  let ?r = "pipe s"
  let ?r' = "?r\<lparr>ring_buf := (ring_buf ?r)[slot_at ?r w i := src ! i]\<rparr>"
  have ri: "ring_inv ?r" and w: "w = enqueue_cur ?r" and room: "used ?r + length src \<le> ring_N ?r"
    and cop: "\<And>j. j < i \<Longrightarrow> ring_buf ?r ! ((unat w + j) mod ring_N ?r) = src ! j"
    using inv pr by (auto simp: spsc_inv_def prod_inv_def)
  have slot: "slot_at ?r w i = (unat w + i) mod ring_N ?r" using ri by (rule slot_at_eq)
  have cont: "contents ?r' = contents ?r"
    using contents_write_free [OF ri, of i "src ! i"] pr(2) room unfolding slot by (simp add: w)
  have u: "used ?r' = used ?r" and ri': "ring_inv ?r'"
    using ri by (simp_all add: used_def ring_inv_def)
  have new: "ring_buf ?r' ! ((unat w + j) mod ring_N ?r) = src ! j" if "j < Suc i" for j
  proof (cases "j = i")
    case True
    then show ?thesis using ri by (simp add: slot ring_invD)
  next
    case False
    with that have "j < i" by simp
    moreover then have "i - j < ring_N ?r" using pr(2) room by linarith
    ultimately show ?thesis
      using not_sym [OF mod_add_neq [of j i "ring_N ?r" "unat w"]] cop by (simp add: slot)
  qed
  show ?thesis
    using inv pr cont u ri' new room w by (auto simp: spsc_inv_def prod_inv_def cons_inv_def split: consumer.splits)
qed

lemma p_done_inv:
  assumes inv: "spsc_inv s" and pr: "prod s = P_copy w src (length src)"
  shows "spsc_inv (s\<lparr>pipe := p_publish (w + of_nat (length src)) (pipe s), prod := P_idle,
       frames := frames s @ [src]\<rparr>)"
proof -
  let ?r = "pipe s"
  let ?r' = "p_publish (w + of_nat (length src)) ?r"
  have ri: "ring_inv ?r" and w: "w = enqueue_cur ?r" and room: "used ?r + length src \<le> ring_N ?r"
    and cop: "\<And>j. j < length src \<Longrightarrow> ring_buf ?r ! ((unat w + j) mod ring_N ?r) = src ! j"
    using inv pr by (auto simp: spsc_inv_def prod_inv_def)
  have cont: "contents ?r' = contents ?r @ src"
    using ri room cop by (intro contents_extend) (simp_all add: p_publish_def w)
  have u: "used ?r' = used ?r + length src"
    using ri room by (rule used_advance) (simp_all add: p_publish_def w)
  then have "ring_inv ?r'" using ri room by (simp add: ring_inv_def used_def) (simp add: p_publish_def)
  then show ?thesis
    using inv cont u by (auto simp: spsc_inv_def prod_inv_def cons_inv_def split: consumer.splits)
qed

lemma c_byte_inv:
  assumes inv: "spsc_inv s" and c: "cons s = C_copy t k got" "length got < unat k"
  shows "spsc_inv (s\<lparr>cons := C_copy t k
       (got @ [ring_buf (pipe s) ! slot_at (pipe s) (c_own (pipe s)) (length got)])\<rparr>)"
proof -
  let ?r = "pipe s"
  have ri: "ring_inv ?r" and ku: "unat k \<le> used ?r" and got: "got = take (length got) (contents ?r)"
    using inv c by (auto simp: spsc_inv_def cons_inv_def)
  have "ring_buf ?r ! slot_at ?r (c_own ?r) (length got) = contents ?r ! length got"
    using ri ku c(2) by (simp add: slot_at_eq c_own_def contents_def)
  moreover have "take (Suc (length got)) (contents ?r) = got @ [contents ?r ! length got]"
    using got ku c(2) by (simp add: take_Suc_conv_app_nth)
  ultimately show ?thesis
    using inv c ku by (auto simp: spsc_inv_def cons_inv_def prod_inv_def split: producer.splits)
qed

lemma c_dequeued_inv:
  assumes inv: "spsc_inv s" and c: "cons s = C_copy True k got" "length got = unat k"
  shows "spsc_inv (s\<lparr>pipe := c_publish (c_own (pipe s) + k) (pipe s), cons := C_idle,
       recvd := recvd s @ got\<rparr>)"
proof -
  let ?r = "pipe s"
  let ?r' = "c_publish (c_own ?r + k) ?r"
  have ri: "ring_inv ?r" and ku: "unat k \<le> used ?r" and got: "got = take (unat k) (contents ?r)"
    using inv c by (auto simp: spsc_inv_def cons_inv_def)
  have r': "?r' = ?r\<lparr>dequeue_cur := dequeue_cur ?r + k\<rparr>" by (simp add: c_publish_def c_own_def)
  have cont: "contents ?r' = drop (unat k) (contents ?r)" and ri': "ring_inv ?r'"
    using contents_retire [OF ri ku] by (simp_all add: r')
  have "used ?r' = used ?r - unat k"
    using ri ku by (rule used_retire) (simp_all add: r')
  then have "prod_inv (s\<lparr>pipe := ?r', cons := C_idle, recvd := recvd s @ got\<rparr>)"
    using inv by (auto simp: spsc_inv_def prod_inv_def r' split: producer.splits)
  then show ?thesis
    using inv cont ri' by (simp add: spsc_inv_def cons_inv_def got)
qed

lemma spsc_step_inv: "spsc_step s t \<Longrightarrow> spsc_inv s \<Longrightarrow> spsc_inv t"
proof (induction rule: spsc_step.induct)
  case (p_begin s src)
  then show ?case
    using fits_iff [of "pipe s" "length src"]
    by (auto simp: spsc_inv_def prod_inv_def cons_inv_def p_own_def split: consumer.splits)
next
  case (c_begin s take_it n)
  then show ?case
    by (auto simp: spsc_inv_def prod_inv_def cons_inv_def unat_clamp split: producer.splits)
next
  case (c_peeked s k got)
  then show ?case by (auto simp: spsc_inv_def prod_inv_def cons_inv_def split: producer.splits)
qed (simp_all add: p_byte_inv p_done_inv c_byte_inv c_dequeued_inv)

lemma spsc_reachable_inv: "spsc_reachable N s \<Longrightarrow> spsc_inv s"
  by (induction rule: spsc_reachable.induct) (auto intro: spsc_inv_init spsc_step_inv)

section \<open>The sequential operations are runs of these steps\<close>

lemma p_bytes_run:
  assumes "ring_inv (pipe s)" "prod s = P_copy (enqueue_cur (pipe s)) src i" "i \<le> length src"
    "length src \<le> ring_N (pipe s)"
    "\<And>j. j < ring_N (pipe s) \<Longrightarrow> ring_buf (pipe s) ! j =
       ring_buf (write_at (enqueue_cur r0) (take i src) r0) ! j"
    "ring_inv r0" "ring_N r0 = ring_N (pipe s)" "enqueue_cur r0 = enqueue_cur (pipe s)"
    "dequeue_cur r0 = dequeue_cur (pipe s)"
  shows "spsc_step\<^sup>*\<^sup>* s (s\<lparr>pipe := write_at (enqueue_cur r0) src r0,
    prod := P_copy (enqueue_cur r0) src (length src)\<rparr>)"
  using assms
proof (induction "length src - i" arbitrary: s i)
  case 0
  then have "i = length src" by simp
  with 0 have "ring_buf (pipe s) = ring_buf (write_at (enqueue_cur r0) src r0)"
    by (intro nth_equalityI) (simp_all add: ring_invD(3))
  then have "pipe s = write_at (enqueue_cur r0) src r0"
    using 0 by (intro ring.equality) simp_all
  moreover have "prod s = P_copy (enqueue_cur r0) src (length src)"
    using 0 \<open>i = length src\<close> by simp
  ultimately have "s\<lparr>pipe := write_at (enqueue_cur r0) src r0,
    prod := P_copy (enqueue_cur r0) src (length src)\<rparr> = s"
    by (intro spsc.equality) simp_all
  then show ?case by simp
next
  case (Suc m)
  let ?r = "pipe s" and ?w = "enqueue_cur (pipe s)"
  let ?s' = "s\<lparr>pipe := ?r\<lparr>ring_buf := (ring_buf ?r)[slot_at ?r ?w i := src ! i]\<rparr>,
       prod := P_copy ?w src (Suc i)\<rparr>"
  have i: "i < length src" using Suc.hyps(2) by simp
  have step: "spsc_step s ?s'" using Suc.prems(2) i by (rule spsc_step.p_byte)
  have slot: "slot_at ?r ?w i = (unat ?w + i) mod ring_N ?r" using Suc.prems(1) by (rule slot_at_eq)
  have eq: "write_at ?w (take (Suc i) src) r0
      = write_at (?w + of_nat (length (take i src))) [src ! i] (write_at ?w (take i src) r0)"
    using i Suc.prems by (subst write_at_append) (simp_all add: take_Suc_conv_app_nth)
  have inv1: "ring_inv (write_at ?w (take i src) r0)"
    using Suc.prems i length_write_at [of r0 "take i src" ?w] by (simp add: ring_inv_def)
  have off: "unat (?w + of_nat i) mod ring_N ?r = (unat ?w + i) mod ring_N ?r"
    using Suc.prems(1) by (simp add: ring_off_add ring_inv_def)
  have nth': "ring_buf (pipe ?s') ! j = ring_buf (write_at ?w (take (Suc i) src) r0) ! j"
    if j: "j < ring_N ?r" for j
  proof (cases "j = (unat ?w + i) mod ring_N ?r")
    case True
    then show ?thesis
      using nth_write_at_in [OF inv1, of "[src ! i]" 0 "?w + of_nat i"] Suc.prems i j off
      by (simp add: eq slot ring_invD)
  next
    case False
    then show ?thesis
      using nth_write_at_out [OF inv1, of "[src ! i]" j "?w + of_nat i"] Suc.prems i j off
      by (simp add: eq slot ring_invD)
  qed
  have "spsc_step\<^sup>*\<^sup>* ?s' (?s'\<lparr>pipe := write_at (enqueue_cur r0) src r0,
    prod := P_copy (enqueue_cur r0) src (length src)\<rparr>)"
    using Suc.hyps(2) Suc.prems i nth' by (intro Suc.hyps(1)) (auto simp: ring_inv_def)
  then have "spsc_step\<^sup>*\<^sup>* ?s' (s\<lparr>pipe := write_at (enqueue_cur r0) src r0,
    prod := P_copy (enqueue_cur r0) src (length src)\<rparr>)" by simp
  with step show ?case by (rule converse_rtranclp_into_rtranclp)
qed

lemma run3:
  "spsc_step a b \<Longrightarrow> spsc_step\<^sup>*\<^sup>* b c \<Longrightarrow> spsc_step c d \<Longrightarrow> spsc_step\<^sup>*\<^sup>* a d"
  by (meson converse_rtranclp_into_rtranclp rtranclp.rtrancl_into_rtrancl)

lemma producer_run_is_enqueue:
  assumes inv: "ring_inv (pipe s)" and idle: "prod s = P_idle"
    and fits: "used (pipe s) + length src \<le> ring_N (pipe s)"
  shows "spsc_step\<^sup>*\<^sup>* s (s\<lparr>pipe := snd (enqueue src (pipe s)), frames := frames s @ [src]\<rparr>)"
proof (rule run3)
  let ?r = "pipe s"
  let ?s1 = "s\<lparr>prod := P_copy (enqueue_cur ?r) src 0\<rparr>"
  let ?s2 = "?s1\<lparr>pipe := write_at (enqueue_cur ?r) src ?r, prod := P_copy (enqueue_cur ?r) src (length src)\<rparr>"
  have "length src < 2 ^ 63" using fits ring_invD(2) [OF inv] by simp
  then show "spsc_step s ?s1"
    using spsc_step.p_begin [OF idle, of src] fits_iff [OF inv, of "length src"] fits
    by (simp add: p_own_def)
  have nil: "write_at (enqueue_cur ?r) (take 0 src) ?r = ?r"
    by (simp add: write_at_def Let_def copy_def)
  show "spsc_step\<^sup>*\<^sup>* ?s1 ?s2"
    by (rule p_bytes_run [where i = 0]) (use inv fits in \<open>simp_all only: nil, simp_all\<close>)
  have e: "snd (enqueue src ?r) = p_publish (enqueue_cur ?r + of_nat (length src)) (pipe ?s2)"
    by (simp add: enqueue_accept_eq [OF inv fits] p_publish_def)
  have "spsc_step ?s2 (?s2\<lparr>pipe := snd (enqueue src ?r), prod := P_idle, frames := frames ?s2 @ [src]\<rparr>)"
    unfolding e by (rule spsc_step.p_done) simp_all
  moreover have "?s2\<lparr>pipe := snd (enqueue src ?r), prod := P_idle, frames := frames ?s2 @ [src]\<rparr> =
    s\<lparr>pipe := snd (enqueue src ?r), frames := frames s @ [src]\<rparr>"
    by (intro spsc.equality) (simp_all add: idle)
  ultimately show "spsc_step ?s2 (s\<lparr>pipe := snd (enqueue src ?r), frames := frames s @ [src]\<rparr>)"
    by metis
qed

lemma c_bytes_run:
  assumes "ring_inv (pipe s)" "cons s = C_copy t k got" "unat k \<le> used (pipe s)"
    "length got \<le> unat k" "got = take (length got) (contents (pipe s))"
  shows "spsc_step\<^sup>*\<^sup>* s (s\<lparr>cons := C_copy t k (take (unat k) (contents (pipe s)))\<rparr>)"
  using assms
proof (induction "unat k - length got" arbitrary: s got)
  case 0
  then have "s\<lparr>cons := C_copy t k (take (unat k) (contents (pipe s)))\<rparr> = s"
    by (intro spsc.equality) simp_all
  then show ?case by simp
next
  case (Suc m)
  let ?r = "pipe s"
  let ?got = "got @ [ring_buf ?r ! slot_at ?r (c_own ?r) (length got)]"
  have lt: "length got < unat k" using Suc.hyps(2) by simp
  have "ring_buf ?r ! slot_at ?r (c_own ?r) (length got) = contents ?r ! length got"
    using Suc.prems(1,3) lt by (simp add: slot_at_eq c_own_def contents_def)
  moreover have "take (Suc (length got)) (contents ?r) = got @ [contents ?r ! length got]"
    using Suc.prems(3,5) lt by (simp add: take_Suc_conv_app_nth)
  ultimately have "spsc_step\<^sup>*\<^sup>* (s\<lparr>cons := C_copy t k ?got\<rparr>)
    (s\<lparr>cons := C_copy t k ?got, cons := C_copy t k (take (unat k) (contents ?r))\<rparr>)"
    using Suc.hyps(2) Suc.prems(1,3) lt Suc.hyps(1) [of ?got "s\<lparr>cons := C_copy t k ?got\<rparr>"] by simp
  with spsc_step.c_byte [OF Suc.prems(2) lt] show ?case
    by (simp add: converse_rtranclp_into_rtranclp)
qed

lemma consumer_run_is_dequeue:
  assumes inv: "ring_inv (pipe s)" and idle: "cons s = C_idle"
  shows "spsc_step\<^sup>*\<^sup>* s (s\<lparr>pipe := snd (dequeue n (pipe s)), recvd := recvd s @ fst (dequeue n (pipe s))\<rparr>)"
proof (rule run3)
  let ?r = "pipe s"
  define k where "k = umin n (c_peer ?r - c_own ?r)"
  let ?s1 = "s\<lparr>cons := C_copy True k []\<rparr>"
  let ?s2 = "?s1\<lparr>cons := C_copy True k (take (unat k) (contents ?r))\<rparr>"
  have ku: "unat k \<le> used ?r" using unat_clamp [OF inv, of n] by (simp add: k_def)
  show "spsc_step s ?s1"
    unfolding k_def using idle by (rule spsc_step.c_begin)
  show "spsc_step\<^sup>*\<^sup>* ?s1 ?s2"
    using c_bytes_run [of ?s1 True k "[]"] inv ku by simp
  have d: "dequeue n ?r = (take (unat k) (contents ?r), c_publish (c_own ?r + k) ?r)"
    using ring_read_contents [OF inv ku] by (simp add: dequeue_def Let_def k_def [symmetric])
  have "spsc_step ?s2 (?s2\<lparr>pipe := snd (dequeue n ?r), cons := C_idle,
       recvd := recvd ?s2 @ fst (dequeue n ?r)\<rparr>)"
    using spsc_step.c_dequeued [of ?s2 k] ku by (simp add: d)
  moreover have "?s2\<lparr>pipe := snd (dequeue n ?r), cons := C_idle, recvd := recvd ?s2 @ fst (dequeue n ?r)\<rparr> =
    s\<lparr>pipe := snd (dequeue n ?r), recvd := recvd s @ fst (dequeue n ?r)\<rparr>"
    by (intro spsc.equality) (simp_all add: idle)
  ultimately show "spsc_step ?s2
      (s\<lparr>pipe := snd (dequeue n ?r), recvd := recvd s @ fst (dequeue n ?r)\<rparr>)"
    by metis
qed

section \<open>Properties of every interleaving\<close>

text \<open>C2. However the two threads interleave, the bytes the consumer has dequeued followed by the
  bytes still queued are exactly the published frames in order: nothing is lost, duplicated or
  reordered, and the consumer's view always ends at a frame boundary (a torn frame is never
  visible).\<close>

theorem spsc_fifo:
  assumes "spsc_reachable N s"
  shows "recvd s @ contents (pipe s) = concat (frames s)"
  using spsc_reachable_inv [OF assms] by (simp add: spsc_inv_def)

lemma spsc_reachable_run: "spsc_step\<^sup>*\<^sup>* s t \<Longrightarrow> spsc_reachable N s \<Longrightarrow> spsc_reachable N t"
  by (induction rule: rtranclp_induct) (auto intro: spsc_reachable.step)

text \<open>A four-byte pipe after one enqueue of two bytes, and after one more dequeue of one byte.\<close>

definition demo_start :: spsc where
  "demo_start = spsc_init 4 [0, 0, 0, 0]"

definition demo_sent :: spsc where
  "demo_sent = demo_start\<lparr>pipe := snd (enqueue [1, 2] (pipe demo_start)),
     frames := frames demo_start @ [[1, 2]]\<rparr>"

definition demo_read :: spsc where
  "demo_read = demo_sent\<lparr>pipe := snd (dequeue 1 (pipe demo_sent)),
     recvd := recvd demo_sent @ fst (dequeue 1 (pipe demo_sent))\<rparr>"

lemma demo_reachable: "spsc_reachable 4 demo_sent" "spsc_reachable 4 demo_read"
proof -
  have start: "spsc_reachable 4 demo_start"
    unfolding demo_start_def by (rule spsc_reachable.start) (simp_all add: ring_static_ok_def)
  have "spsc_step\<^sup>*\<^sup>* demo_start demo_sent"
    unfolding demo_sent_def
    by (rule producer_run_is_enqueue)
      (simp_all add: demo_start_def spsc_init_def ring_init_def ring_inv_def ring_static_ok_def used_def)
  then show sent: "spsc_reachable 4 demo_sent" using start by (rule spsc_reachable_run)
  have "cons demo_sent = C_idle" by (simp add: demo_sent_def demo_start_def spsc_init_def)
  moreover have "ring_inv (pipe demo_sent)"
    using spsc_reachable_inv [OF sent] by (simp add: spsc_inv_def)
  ultimately have "spsc_step\<^sup>*\<^sup>* demo_sent demo_read"
    unfolding demo_read_def by (intro consumer_run_is_dequeue)
  then show "spsc_reachable 4 demo_read" using sent by (rule spsc_reachable_run)
qed

theorem spsc_fifo_witness:
  "spsc_reachable 4 demo_read \<and> recvd demo_read @ contents (pipe demo_read) = [1, 2]
   \<and> recvd demo_read = [1]"
  using demo_reachable(2) spsc_fifo [OF demo_reachable(2)]
  by (simp add: demo_read_def demo_sent_def demo_start_def spsc_init_def ring_init_def enqueue_def
      dequeue_def ring_read_def write_at_def copy_def mem_copy_def ring_sync_defs ring_MASK_def
      umin_def Let_def)

text \<open>C24. No data race on the storage: while the producer is copying a frame in and the consumer is
  copying bytes out, every slot the producer writes in this call differs from every slot the
  consumer reads in its call, and all of them are inside the ring's buffer.\<close>

theorem spsc_no_data_race:
  assumes "spsc_reachable N s" "prod s = P_copy w src i" "m < length src"
    "cons s = C_copy t k got" "j < unat k"
  shows "slot_at (pipe s) w m \<noteq> slot_at (pipe s) (c_own (pipe s)) j
    \<and> slot_at (pipe s) w m < length (ring_buf (pipe s))
    \<and> slot_at (pipe s) (c_own (pipe s)) j < length (ring_buf (pipe s))"
proof -
  from spsc_reachable_inv [OF assms(1)] have inv: "spsc_inv s" .
  then have ri: "ring_inv (pipe s)" and "w = enqueue_cur (pipe s)" "j < used (pipe s)"
    "used (pipe s) + m < ring_N (pipe s)"
    using assms(2-5) by (auto simp: spsc_inv_def prod_inv_def cons_inv_def)
  then show ?thesis
    using free_slot_not_queued [of "pipe s" j m] slot_in_buffer [OF ri] by (simp add: slot_at_eq c_own_def)
qed

theorem spsc_no_data_race_witness:
  "slot_at (pipe demo_sent) 2 0 \<noteq> slot_at (pipe demo_sent) (c_own (pipe demo_sent)) 1"
proof -
  let ?s1 = "demo_sent\<lparr>cons := C_copy True (umin 2 (c_peer (pipe demo_sent) - c_own (pipe demo_sent))) []\<rparr>"
  let ?s2 = "?s1\<lparr>prod := P_copy (p_own (pipe ?s1)) [9] 0\<rparr>"
  have cur: "enqueue_cur (pipe demo_sent) = 2" "dequeue_cur (pipe demo_sent) = 0"
    "ring_N (pipe demo_sent) = 4" "prod demo_sent = P_idle" "cons demo_sent = C_idle"
    by (simp_all add: demo_sent_def demo_start_def spsc_init_def ring_init_def enqueue_def
        ring_sync_defs Let_def)
  have "spsc_reachable 4 ?s1"
    using demo_reachable(1) by (rule spsc_reachable.step) (rule spsc_step.c_begin, simp add: cur)
  then have r: "spsc_reachable 4 ?s2"
    by (rule spsc_reachable.step) (rule spsc_step.p_begin, simp_all add: cur ring_sync_defs)
  then show ?thesis
    using spsc_no_data_race [OF r, of 2 "[9]" 0 0 True 2 "[]" 1]
    by (simp add: cur ring_sync_defs umin_def)
qed

end
