(* ===== verification/Mesh.thy ===== *)
theory Mesh
  imports RingBuffer
begin

text \<open>
  \<^verbatim>\<open>src/server-uring/src/message.h\<close> and \<^verbatim>\<open>src/server-uring/src/mesh.h\<close>: the mesh vocabulary as plain
  structs blitted to bytes, and the length-prefixed framing over a byte pipe. \<open>mesh_post\<close> and
  \<open>mesh_try_recv\<close> are templates over the pipe type, so here they take the pipe operations as an
  argument; their lemmas are proved once from the contract of \<open>BytePipe\<close> and reach the ring by its
  interpretation.
\<close>

section \<open>Message vocabulary\<close>

datatype app_msg_type = adopt_session | session_closed | stop

fun app_msg_code :: "app_msg_type \<Rightarrow> u16" where
  "app_msg_code adopt_session = 1"
| "app_msg_code session_closed = 2"
| "app_msg_code stop = 3"

record app_msg_header =
  hdr_size :: u16
  hdr_type :: u16

definition header_bytes :: "app_msg_header \<Rightarrow> byte list" where
  "header_bytes h = le_bytes (hdr_size h) @ le_bytes (hdr_type h)"

definition header_of_bytes :: "byte list \<Rightarrow> app_msg_header" where
  "header_of_bytes bs = \<lparr>hdr_size = le_word (take 2 bs), hdr_type = le_word (take 2 (drop 2 bs))\<rparr>"

text \<open>The two bodies, with the x86-64 layout of the structs: the compiler's padding bytes have
  unspecified contents and appear as arguments of the image.\<close>

record adopt_session_msg =
  as_fd :: i32
  as_id :: u64
  as_generation :: u32
  as_account :: u64
  as_initial_room :: u32

definition adopt_session_bytes :: "u32 \<Rightarrow> u32 \<Rightarrow> u32 \<Rightarrow> adopt_session_msg \<Rightarrow> byte list" where
  "adopt_session_bytes pad1 pad2 pad3 m =
     le_bytes (as_fd m) @ le_bytes pad1 @ le_bytes (as_id m) @ le_bytes (as_generation m) @
     le_bytes pad2 @ le_bytes (as_account m) @ le_bytes (as_initial_room m) @ le_bytes pad3"

definition adopt_session_of_bytes :: "byte list \<Rightarrow> adopt_session_msg" where
  "adopt_session_of_bytes bs =
     \<lparr>as_fd = le_word (take 4 bs), as_id = le_word (take 8 (drop 8 bs)),
      as_generation = le_word (take 4 (drop 16 bs)), as_account = le_word (take 8 (drop 24 bs)),
      as_initial_room = le_word (take 4 (drop 32 bs))\<rparr>"

record session_closed_msg =
  sc_id :: u64
  sc_generation :: u32
  sc_worker :: u32
  sc_reason :: u32

definition session_closed_bytes :: "u32 \<Rightarrow> session_closed_msg \<Rightarrow> byte list" where
  "session_closed_bytes pad m =
     le_bytes (sc_id m) @ le_bytes (sc_generation m) @ le_bytes (sc_worker m) @
     le_bytes (sc_reason m) @ le_bytes pad"

definition session_closed_of_bytes :: "byte list \<Rightarrow> session_closed_msg" where
  "session_closed_of_bytes bs =
     \<lparr>sc_id = le_word (take 8 bs), sc_generation = le_word (take 4 (drop 8 bs)),
      sc_worker = le_word (take 4 (drop 12 bs)), sc_reason = le_word (take 4 (drop 16 bs))\<rparr>"

section \<open>Framing\<close>

definition k_mesh_body_max :: nat where "k_mesh_body_max = 1024"

definition mesh_frame_size :: "usize \<Rightarrow> usize" where
  "mesh_frame_size body_len = 4 + body_len"

text \<open>\<open>mesh_post\<close>: \<open>body\<close> is the \<^verbatim>\<open>body_len\<close> bytes the caller points at.\<close>

definition mesh_post :: "'p pipe_ops \<Rightarrow> app_msg_type \<Rightarrow> byte list \<Rightarrow> 'p \<Rightarrow> bool \<times> 'p" where
  "mesh_post ops ty body p =
     (let body_len = (of_nat (length body) :: u16);
          hdr = \<lparr>hdr_size = body_len, hdr_type = app_msg_code ty\<rparr>;
          want = mesh_frame_size (ucast body_len);
          (n, p') = op_enqueue2 ops (header_bytes hdr) body p
      in (n = want, p'))"

text \<open>\<open>mesh_post_msg\<close> posts the image of a message struct; its \<^verbatim>\<open>static_assert\<close> bounds the size.\<close>

definition mesh_post_msg :: "'p pipe_ops \<Rightarrow> app_msg_type \<Rightarrow> byte list \<Rightarrow> 'p \<Rightarrow> bool \<times> 'p" where
  "mesh_post_msg ops ty img p = mesh_post ops ty img p"

definition mesh_try_recv ::
    "'p pipe_ops \<Rightarrow> usize \<Rightarrow> 'p \<Rightarrow> ((app_msg_header \<times> byte list) option \<times> 'p) res" where
  "mesh_try_recv ops body_cap p =
     (if op_used_size ops p < 4 then Inr (None, p)
      else let got = op_peek ops 4 p; hdr = header_of_bytes got in
        LNX_CHECK (length got = 4)
          (if op_used_size ops p < mesh_frame_size (ucast (hdr_size hdr)) then Inr (None, p)
           else LNX_CHECK (ucast (hdr_size hdr) \<le> body_cap)
             (let p1 = snd (op_dequeue ops 4 p);
                  (body, p2) = (if hdr_size hdr \<noteq> 0 then op_dequeue ops (ucast (hdr_size hdr)) p1
                                else ([], p1))
              in Inr (Some (hdr, body), p2))))"

text \<open>The concrete edges, and the constants of the close-notify \<^verbatim>\<open>static_assert\<close>
  (\<^verbatim>\<open>config::k_session_capacity\<close> is in \<^verbatim>\<open>src/server-uring/src/config.h\<close>).\<close>

definition k_session_capacity :: nat where "k_session_capacity = 256"
definition acceptor_to_worker_pipe_N :: nat where "acceptor_to_worker_pipe_N = 64 * 1024"
definition worker_to_acceptor_pipe_N :: nat where "worker_to_acceptor_pipe_N = 16 * 1024"

section \<open>Byte images decode to what was encoded\<close>

lemma header_roundtrip:
  "length (header_bytes h) = 4" "header_of_bytes (header_bytes h @ xs) = h"
  by (simp_all add: header_bytes_def header_of_bytes_def)

lemma adopt_session_image:
  "length (adopt_session_bytes p1 p2 p3 m) = 40"
  "adopt_session_of_bytes (adopt_session_bytes p1 p2 p3 m) = m"
  by (simp_all add: adopt_session_bytes_def adopt_session_of_bytes_def)

lemma session_closed_image:
  "length (session_closed_bytes p m) = 24"
  "session_closed_of_bytes (session_closed_bytes p m) = m"
  by (simp_all add: session_closed_bytes_def session_closed_of_bytes_def)

section \<open>The framing over any pipe\<close>

definition frame :: "app_msg_type \<Rightarrow> byte list \<Rightarrow> byte list" where
  "frame ty body = header_bytes \<lparr>hdr_size = of_nat (length body), hdr_type = app_msg_code ty\<rparr> @ body"

lemma length_frame [simp]: "length (frame ty body) = 4 + length body"
  by (simp add: frame_def header_roundtrip)

lemma unat_frame_size:
  fixes s :: u16
  shows "unat (mesh_frame_size (ucast s)) = 4 + unat s"
  using u16_bound [of s] by (simp add: mesh_frame_size_def unat_word_ariths)

context byte_pipe
begin

lemma post_accept:
  assumes "ok p" "length body < 2 ^ 16" "length (bytes p) + length (frame ty body) \<le> cap p"
  shows "fst (mesh_post ops ty body p)"
    and "bytes (snd (mesh_post ops ty body p)) = bytes p @ frame ty body"
    and "ok (snd (mesh_post ops ty body p))" and "cap (snd (mesh_post ops ty body p)) = cap p"
proof -
  let ?h = "header_bytes \<lparr>hdr_size = of_nat (length body), hdr_type = app_msg_code ty\<rparr>"
  have fits: "length (bytes p) + (length ?h + length body) \<le> cap p"
    using assms(3) by (simp add: header_roundtrip)
  have "mesh_frame_size (ucast (of_nat (length body) :: u16)) = of_nat (length ?h + length body)"
    using assms(2) unat_frame_size [of "of_nat (length body)"]
    by (intro word_unat_eq_iff [THEN iffD2])
      (simp add: header_roundtrip unat_of_nat_u16 del: of_nat_add)
  then show "fst (mesh_post ops ty body p)"
    using enqueue2_count [OF assms(1) fits]
    by (simp add: mesh_post_def Let_def split_beta)
  show "bytes (snd (mesh_post ops ty body p)) = bytes p @ frame ty body"
    using enqueue2_bytes [OF assms(1) fits] by (simp add: mesh_post_def Let_def split_beta frame_def)
  show "ok (snd (mesh_post ops ty body p))" and "cap (snd (mesh_post ops ty body p)) = cap p"
    using enqueue2_ok [OF assms(1) fits] by (simp_all add: mesh_post_def Let_def split_beta)
qed

lemma post_refuse:
  assumes "ok p" "length body < 2 ^ 16" "length (bytes p) + length (frame ty body) > cap p"
  shows "mesh_post ops ty body p = (False, p)"
proof -
  have "mesh_frame_size (ucast (of_nat (length body) :: u16)) \<noteq> 0"
    by (simp add: unat_eq_zero [symmetric] unat_frame_size)
  then show ?thesis
    using assms by (simp add: mesh_post_def Let_def enqueue2_full header_roundtrip)
qed

lemma recv_short:
  assumes "ok p" "length (bytes p) < 4"
  shows "mesh_try_recv ops c p = Inr (None, p)"
  using assms by (simp add: mesh_try_recv_def word_less_nat_alt used_size)

lemma recv_partial:
  assumes "ok p" "4 \<le> length (bytes p)"
    "length (bytes p) < 4 + unat (hdr_size (header_of_bytes (take 4 (bytes p))))"
  shows "mesh_try_recv ops c p = Inr (None, p)"
  using assms
  by (simp add: mesh_try_recv_def Let_def word_less_nat_alt used_size peek unat_frame_size)

lemma recv_frame:
  assumes p: "ok p" "bytes p = frame ty body @ rest" and len: "length body < 2 ^ 16"
    and cap: "length body \<le> unat c"
  obtains p' where "mesh_try_recv ops c p =
      Inr (Some (\<lparr>hdr_size = of_nat (length body), hdr_type = app_msg_code ty\<rparr>, body), p')"
    "ok p'" "bytes p' = rest" "cap p' = cap p"
proof -
  let ?h = "\<lparr>hdr_size = of_nat (length body), hdr_type = app_msg_code ty\<rparr>"
  let ?p1 = "snd (op_dequeue ops 4 p)"
  have sz: "unat (of_nat (length body) :: u16) = length body"
    using len by (simp add: unat_of_nat_u16)
  have b: "bytes p = header_bytes ?h @ body @ rest" using p(2) by (simp add: frame_def)
  have got: "op_peek ops 4 p = header_bytes ?h"
    using p(1) by (simp add: peek b header_roundtrip)
  have hdr: "header_of_bytes (header_bytes ?h) = ?h" using header_roundtrip(2) [of ?h "[]"] by simp
  have p1: "ok ?p1" "bytes ?p1 = body @ rest" "cap ?p1 = cap p"
    using p(1) by (simp_all add: dequeue_bytes dequeue_ok b header_roundtrip)
  let ?p2 = "if (of_nat (length body) :: u16) \<noteq> 0
    then snd (op_dequeue ops (ucast (of_nat (length body) :: u16)) ?p1) else ?p1"
  have zero: "(of_nat (length body) :: u16) = 0 \<longleftrightarrow> body = []"
    using sz by (metis length_0_conv unat_eq_zero)
  have usz: "unat (ucast (of_nat (length body) :: u16) :: usize) = length body"
    using sz by simp
  have used: "unat (op_used_size ops p) = 4 + (length body + length rest)"
    using p(1) by (simp add: used_size p(2))
  have "mesh_try_recv ops c p = Inr (Some (?h, body), ?p2)"
    using p1 used cap usz zero
    by (auto simp: mesh_try_recv_def Let_def got hdr header_roundtrip word_less_nat_alt word_le_nat_alt
        unat_frame_size sz dequeue_out split_beta)
  moreover have "ok ?p2" "bytes ?p2 = rest" "cap ?p2 = cap p"
    using p1 usz zero by (auto simp: dequeue_ok dequeue_bytes)
  ultimately show thesis by (rule that)
qed

lemma recv_oversize:
  assumes p: "ok p" "bytes p = frame ty body @ rest" and len: "length body < 2 ^ 16"
    and cap: "unat c < length body"
  shows "mesh_try_recv ops c p = Inl Check_Trap"
proof -
  let ?h = "\<lparr>hdr_size = of_nat (length body), hdr_type = app_msg_code ty\<rparr>"
  have sz: "unat (of_nat (length body) :: u16) = length body"
    using len by (simp add: unat_of_nat_u16)
  have "take 4 (bytes p) = header_bytes ?h" using p(2) by (simp add: frame_def header_roundtrip)
  moreover have "header_of_bytes (header_bytes ?h) = ?h" using header_roundtrip(2) [of ?h "[]"] by simp
  ultimately show ?thesis
    using p cap
    by (simp add: mesh_try_recv_def Let_def peek header_roundtrip word_less_nat_alt word_le_nat_alt
        used_size unat_frame_size sz)
qed

end

section \<open>Message sequences\<close>

text \<open>Any interleaving of posts and receives on one edge, against a queue of messages bounded by the
  bytes their frames occupy.\<close>

type_synonym mesh_msg = "app_msg_type \<times> byte list"

datatype mesh_op = M_post app_msg_type "byte list" | M_recv
datatype mesh_out = Posted bool | Received "(app_msg_header \<times> byte list) option"

fun mesh_step :: "'p pipe_ops \<Rightarrow> usize \<Rightarrow> mesh_op \<Rightarrow> 'p \<Rightarrow> (mesh_out \<times> 'p) res" where
  "mesh_step ops c (M_post ty body) p = (let (b, p') = mesh_post ops ty body p in Inr (Posted b, p'))"
| "mesh_step ops c M_recv p =
     (case mesh_try_recv ops c p of Inl e \<Rightarrow> Inl e | Inr (m, p') \<Rightarrow> Inr (Received m, p'))"

fun mesh_run :: "'p pipe_ops \<Rightarrow> usize \<Rightarrow> mesh_op list \<Rightarrow> 'p \<Rightarrow> (mesh_out list \<times> 'p) res" where
  "mesh_run ops c [] p = Inr ([], p)"
| "mesh_run ops c (x # xs) p =
     (case mesh_step ops c x p of Inl e \<Rightarrow> Inl e
      | Inr (y, p1) \<Rightarrow> (case mesh_run ops c xs p1 of Inl e \<Rightarrow> Inl e
          | Inr (ys, p2) \<Rightarrow> Inr (y # ys, p2)))"

definition msgs_bytes :: "mesh_msg list \<Rightarrow> byte list" where
  "msgs_bytes ms = concat (map (\<lambda>(ty, body). frame ty body) ms)"

definition msg_seen :: "mesh_msg \<Rightarrow> app_msg_header \<times> byte list" where
  "msg_seen m = (\<lparr>hdr_size = of_nat (length (snd m)), hdr_type = app_msg_code (fst m)\<rparr>, snd m)"

fun mq_step :: "nat \<Rightarrow> mesh_op \<Rightarrow> mesh_msg list \<Rightarrow> mesh_out \<times> mesh_msg list" where
  "mq_step N (M_post ty body) ms =
     (if length (msgs_bytes ms) + length (frame ty body) \<le> N
      then (Posted True, ms @ [(ty, body)]) else (Posted False, ms))"
| "mq_step N M_recv [] = (Received None, [])"
| "mq_step N M_recv (m # ms) = (Received (Some (msg_seen m)), ms)"

fun mq_run :: "nat \<Rightarrow> mesh_op list \<Rightarrow> mesh_msg list \<Rightarrow> mesh_out list \<times> mesh_msg list" where
  "mq_run N [] ms = ([], ms)"
| "mq_run N (x # xs) ms =
     (let (y, ms1) = mq_step N x ms; (ys, ms2) = mq_run N xs ms1 in (y # ys, ms2))"

text \<open>The bodies of the protocol fit the receive buffer (\<open>c\<close> bytes) and the 16-bit length.\<close>

definition body_ok :: "usize \<Rightarrow> byte list \<Rightarrow> bool" where
  "body_ok c body \<longleftrightarrow> length body < 2 ^ 16 \<and> length body \<le> unat c"

fun mesh_op_ok :: "usize \<Rightarrow> mesh_op \<Rightarrow> bool" where
  "mesh_op_ok c (M_post ty body) \<longleftrightarrow> body_ok c body"
| "mesh_op_ok c M_recv \<longleftrightarrow> True"

lemma msgs_bytes_simps [simp]:
  "msgs_bytes [] = []" "msgs_bytes ((ty, body) # ms) = frame ty body @ msgs_bytes ms"
  "msgs_bytes (ms @ ms') = msgs_bytes ms @ msgs_bytes ms'"
  by (simp_all add: msgs_bytes_def)

context byte_pipe
begin

lemma mesh_step_refines:
  assumes p: "ok p" "bytes p = msgs_bytes ms" and ms: "list_all (\<lambda>m. body_ok c (snd m)) ms"
    and x: "mesh_op_ok c x"
  obtains p' where "mesh_step ops c x p = Inr (fst (mq_step (cap p) x ms), p')"
    "ok p'" "bytes p' = msgs_bytes (snd (mq_step (cap p) x ms))" "cap p' = cap p"
    "list_all (\<lambda>m. body_ok c (snd m)) (snd (mq_step (cap p) x ms))"
proof (cases x)
  case (M_post ty body)
  then have b: "length body < 2 ^ 16" using x by (simp add: body_ok_def)
  show ?thesis
  proof (cases "length (bytes p) + length (frame ty body) \<le> cap p")
    case True
    show ?thesis
      using post_accept [OF p(1) b True] True M_post p ms x
      by (intro that [of "snd (mesh_post ops ty body p)"]) (simp_all add: split_beta Let_def)
  next
    case False
    then show ?thesis
      using post_refuse [OF p(1) b] M_post p ms by (intro that [of p]) simp_all
  qed
next
  case M_recv
  show ?thesis
  proof (cases ms)
    case Nil
    then show ?thesis using recv_short [OF p(1)] M_recv p by (intro that [of p]) simp_all
  next
    case (Cons m ms')
    obtain ty body where m: "m = (ty, body)" by (cases m)
    with Cons ms have "length body < 2 ^ 16" "length body \<le> unat c" by (simp_all add: body_ok_def)
    moreover from Cons m p have "bytes p = frame ty body @ msgs_bytes ms'" by simp
    ultimately obtain p' where "mesh_try_recv ops c p = Inr (Some (msg_seen m), p')"
      "ok p'" "bytes p' = msgs_bytes ms'" "cap p' = cap p"
      using p(1) m by (auto simp: msg_seen_def elim: recv_frame)
    then show ?thesis
      using M_recv Cons ms by (intro that [of p']) simp_all
  qed
qed

lemma mesh_run_refines:
  assumes "ok p" "bytes p = msgs_bytes ms" "list_all (\<lambda>m. body_ok c (snd m)) ms"
    "list_all (mesh_op_ok c) xs"
  shows "\<exists>p'. mesh_run ops c xs p = Inr (fst (mq_run (cap p) xs ms), p')
    \<and> bytes p' = msgs_bytes (snd (mq_run (cap p) xs ms))"
  using assms
proof (induction xs arbitrary: p ms)
  case Nil
  then show ?case by simp
next
  case (Cons x xs)
  from Cons.prems obtain p1 where p1: "mesh_step ops c x p = Inr (fst (mq_step (cap p) x ms), p1)"
    "ok p1" "bytes p1 = msgs_bytes (snd (mq_step (cap p) x ms))" "cap p1 = cap p"
    "list_all (\<lambda>m. body_ok c (snd m)) (snd (mq_step (cap p) x ms))"
    by (auto elim: mesh_step_refines)
  from Cons.IH [OF p1(2,3,5)] Cons.prems(4) p1(4) obtain p2 where
    "mesh_run ops c xs p1 = Inr (fst (mq_run (cap p) xs (snd (mq_step (cap p) x ms))), p2)"
    "bytes p2 = msgs_bytes (snd (mq_run (cap p) xs (snd (mq_step (cap p) x ms))))"
    by auto
  with p1 show ?case by (simp add: split_beta Let_def)
qed

end

section \<open>Properties of the mesh edges\<close>

text \<open>C3. Any interleaving of posts and receives on a mesh edge behaves as a bounded queue of whole
  messages: a post succeeds exactly when the whole frame fits and otherwise changes nothing, a
  receive returns the oldest message with its type and body unchanged or nothing at all, no call
  traps, and the pipe always holds whole frames.\<close>

theorem mesh_refines_message_queue:
  assumes "ring_inv p" "contents p = msgs_bytes ms" "list_all (\<lambda>m. body_ok c (snd m)) ms"
    "list_all (mesh_op_ok c) xs"
  shows "\<exists>p'. mesh_run ring_ops c xs p = Inr (fst (mq_run (ring_N p) xs ms), p')
    \<and> contents p' = msgs_bytes (snd (mq_run (ring_N p) xs ms))"
  using assms by (rule ring.mesh_run_refines)

definition small_pipe :: ring where
  "small_pipe = ring_init 16 (replicate 16 0)"

lemma small_pipe_ok: "ring_inv small_pipe" "contents small_pipe = []"
proof -
  have "(16::nat) AND 15 = 0" by simp
  then show "ring_inv small_pipe"
    by (simp add: small_pipe_def ring_init_def ring_inv_def ring_static_ok_def)
  show "contents small_pipe = []"
    by (simp add: small_pipe_def ring_init_def contents_def used_def)
qed

theorem mesh_refines_message_queue_witness:
  "\<exists>p'. mesh_run ring_ops 1024
     [M_post stop [], M_post adopt_session [1, 2, 3], M_post stop [0, 0], M_recv, M_recv, M_recv] small_pipe =
   Inr ([Posted True, Posted True, Posted False,
         Received (Some (\<lparr>hdr_size = 0, hdr_type = 3\<rparr>, [])),
         Received (Some (\<lparr>hdr_size = 3, hdr_type = 1\<rparr>, [1, 2, 3])), Received None], p')"
proof -
  have "ring_N small_pipe = 16" by (simp add: small_pipe_def ring_init_def)
  then show ?thesis
    using mesh_refines_message_queue [OF small_pipe_ok(1), of "[]" 1024
      "[M_post stop [], M_post adopt_session [1, 2, 3], M_post stop [0, 0], M_recv, M_recv, M_recv]"]
    by (auto simp: small_pipe_ok body_ok_def msg_seen_def Let_def)
qed

text \<open>C6. The close-notify edge never drops: with fewer than \<^verbatim>\<open>k_session_capacity\<close> close messages
  still queued on a worker-to-acceptor pipe, posting one more always succeeds and appends exactly
  its frame.\<close>

theorem close_notify_never_drops:
  assumes "ring_inv p" "ring_N p = worker_to_acceptor_pipe_N"
    "contents p = msgs_bytes (map (\<lambda>(pad, m). (session_closed, session_closed_bytes pad m)) ms)"
    "length ms < k_session_capacity"
  shows "fst (mesh_post_msg ring_ops session_closed (session_closed_bytes pad m) p)
    \<and> contents (snd (mesh_post_msg ring_ops session_closed (session_closed_bytes pad m) p))
        = contents p @ frame session_closed (session_closed_bytes pad m)"
proof -
  have "length (msgs_bytes (map (\<lambda>(pad, m). (session_closed, session_closed_bytes pad m)) ms))
      = 28 * length ms"
    by (induction ms) (auto simp: session_closed_image)
  then have "length (contents p) + length (frame session_closed (session_closed_bytes pad m)) \<le> ring_N p"
    using assms(2-4) by (simp add: worker_to_acceptor_pipe_N_def k_session_capacity_def session_closed_image)
  then show ?thesis
    using ring.post_accept [OF assms(1)] by (simp add: mesh_post_msg_def session_closed_image)
qed

theorem close_notify_never_drops_witness:
  "\<exists>p. ring_inv p \<and> ring_N p = worker_to_acceptor_pipe_N \<and> contents p = []
     \<and> fst (mesh_post_msg ring_ops session_closed
         (session_closed_bytes 0 \<lparr>sc_id = 1, sc_generation = 1, sc_worker = 0, sc_reason = 0\<rparr>) p)"
proof -
  let ?p = "ring_init worker_to_acceptor_pipe_N (replicate worker_to_acceptor_pipe_N 0)"
  have p: "ring_inv ?p" "ring_N ?p = worker_to_acceptor_pipe_N" "contents ?p = []"
    by (simp_all add: ring_init_def ring_inv_def ring_static_ok_def worker_to_acceptor_pipe_N_def
        contents_def used_def)
  then show ?thesis
    using close_notify_never_drops [OF p(1,2), of "[]"] by (intro exI [of _ ?p])
      (simp add: k_session_capacity_def)
qed

text \<open>C25. The session handoff survives the trip: an \<^verbatim>\<open>adopt_session_msg\<close> posted on an empty edge with
  room for it is received, under a protocol-sized buffer, as one frame of type \<^verbatim>\<open>adopt_session\<close>
  whose body decodes to the same fd, id, generation, account and room whatever the padding bytes
  were, and the edge is empty again.\<close>

theorem adopt_session_roundtrip:
  assumes "ring_inv p" "contents p = []" "44 \<le> ring_N p"
  shows "\<exists>h body p'. mesh_try_recv ring_ops (of_nat k_mesh_body_max)
      (snd (mesh_post_msg ring_ops adopt_session (adopt_session_bytes a b c m) p)) = Inr (Some (h, body), p')
    \<and> hdr_type h = app_msg_code adopt_session \<and> adopt_session_of_bytes body = m \<and> contents p' = []"
proof -
  let ?img = "adopt_session_bytes a b c m"
  have post: "ring_inv (snd (mesh_post ring_ops adopt_session ?img p))"
    "contents (snd (mesh_post ring_ops adopt_session ?img p)) = frame adopt_session ?img @ []"
    using ring.post_accept [OF assms(1), of ?img adopt_session] assms
    by (simp_all add: adopt_session_image)
  have "length ?img < 2 ^ 16" "length ?img \<le> unat (of_nat k_mesh_body_max :: usize)"
    by (simp_all add: adopt_session_image k_mesh_body_max_def)
  then obtain p' where "mesh_try_recv ring_ops (of_nat k_mesh_body_max)
      (snd (mesh_post ring_ops adopt_session ?img p)) = Inr (Some (\<lparr>hdr_size = of_nat (length ?img),
        hdr_type = app_msg_code adopt_session\<rparr>, ?img), p')" "contents p' = []"
    by (rule ring.recv_frame [OF post])
  then show ?thesis
    by (simp add: mesh_post_msg_def adopt_session_image)
qed

theorem adopt_session_roundtrip_witness:
  "\<exists>p. ring_inv p \<and> 44 \<le> ring_N p \<and> (\<exists>h body p'. mesh_try_recv ring_ops (of_nat k_mesh_body_max)
      (snd (mesh_post_msg ring_ops adopt_session (adopt_session_bytes 7 8 9
        \<lparr>as_fd = 5, as_id = 1, as_generation = 1, as_account = 1, as_initial_room = 0\<rparr>) p)) =
      Inr (Some (h, body), p')
    \<and> adopt_session_of_bytes body =
        \<lparr>as_fd = 5, as_id = 1, as_generation = 1, as_account = 1, as_initial_room = 0\<rparr>)"
proof -
  let ?p = "ring_init acceptor_to_worker_pipe_N (replicate acceptor_to_worker_pipe_N 0)"
  have p: "ring_inv ?p" "contents ?p = []" "44 \<le> ring_N ?p"
    by (simp_all add: ring_init_def ring_inv_def ring_static_ok_def acceptor_to_worker_pipe_N_def
        contents_def used_def)
  then show ?thesis
    using adopt_session_roundtrip [OF p, of 7 8 9] by (intro exI [of _ ?p]) blast
qed

end
