(* ===== verification/SessionTable.thy ===== *)
theory SessionTable
  imports Mesh
begin

text \<open>
  \<^verbatim>\<open>src/server-uring/src/session_table.h\<close> and \<^verbatim>\<open>.cpp\<close> with \<^verbatim>\<open>session_record.h\<close>, \<^verbatim>\<open>session_id.h\<close> and
  \<^verbatim>\<open>config.h\<close>: the acceptor's authority table, a fixed array of slots scanned linearly. A pointer
  to a record is the index of its slot. The table refines a finite map from session ids to records.
\<close>

section \<open>Records and table\<close>

datatype session_state = accepted | assigning | in_world | disconnecting | closed

record session_record =
  rec_id :: u64
  generation :: u32
  account :: u64
  owner_worker :: i32
  rec_state :: session_state

definition k_invalid_session :: u64 where "k_invalid_session = 0"

record session_table =
  slots :: "session_record list"
  next_id :: u64
  count :: u32

definition session_table_init :: session_table where
  "session_table_init =
     \<lparr>slots = replicate k_session_capacity
        \<lparr>rec_id = k_invalid_session, generation = 0, account = 0, owner_worker = - 1, rec_state = closed\<rparr>,
      next_id = 1, count = 0\<rparr>"

text \<open>The range-for scans of the source: the index of the first slot that satisfies a test.\<close>

fun first_slot :: "(session_record \<Rightarrow> bool) \<Rightarrow> session_record list \<Rightarrow> nat option" where
  "first_slot P [] = None"
| "first_slot P (s # ss) = (if P s then Some 0 else map_option Suc (first_slot P ss))"

definition slot_of :: "session_table \<Rightarrow> u64 \<Rightarrow> nat option" where
  "slot_of t sid = (if sid = k_invalid_session then None else first_slot (\<lambda>s. rec_id s = sid) (slots t))"

definition allocate :: "u64 \<Rightarrow> session_table \<Rightarrow> nat option \<times> session_table" where
  "allocate acct t =
     (case first_slot (\<lambda>s. rec_id s = k_invalid_session) (slots t) of
        None \<Rightarrow> (None, t)
      | Some i \<Rightarrow> (Some i,
          t\<lparr>slots := (slots t)[i := (slots t ! i)\<lparr>rec_id := next_id t,
                generation := generation (slots t ! i) + 1, account := acct,
                owner_worker := - 1, rec_state := accepted\<rparr>],
            next_id := next_id t + 1, count := count t + 1\<rparr>))"

definition find :: "session_table \<Rightarrow> u64 \<Rightarrow> nat option" where
  "find t sid = slot_of t sid"

definition validate :: "session_table \<Rightarrow> u64 \<Rightarrow> u32 \<Rightarrow> bool" where
  "validate t sid gen = (case slot_of t sid of None \<Rightarrow> False
     | Some i \<Rightarrow> generation (slots t ! i) = gen)"

definition mark_assigning :: "u64 \<Rightarrow> i32 \<Rightarrow> session_table \<Rightarrow> bool \<times> session_table" where
  "mark_assigning sid worker t = (case slot_of t sid of None \<Rightarrow> (False, t)
     | Some i \<Rightarrow> (True, t\<lparr>slots := (slots t)[i :=
         (slots t ! i)\<lparr>owner_worker := worker, rec_state := assigning\<rparr>]\<rparr>))"

definition mark_in_world :: "u64 \<Rightarrow> session_table \<Rightarrow> bool \<times> session_table" where
  "mark_in_world sid t = (case slot_of t sid of None \<Rightarrow> (False, t)
     | Some i \<Rightarrow> (True, t\<lparr>slots := (slots t)[i := (slots t ! i)\<lparr>rec_state := in_world\<rparr>]\<rparr>))"

definition remove :: "u64 \<Rightarrow> session_table \<Rightarrow> bool \<times> session_table" where
  "remove sid t = (case slot_of t sid of None \<Rightarrow> (False, t)
     | Some i \<Rightarrow> (True, t\<lparr>slots := (slots t)[i := (slots t ! i)\<lparr>rec_id := k_invalid_session,
         owner_worker := - 1, rec_state := closed\<rparr>], count := count t - 1\<rparr>))"

section \<open>Invariant and abstraction\<close>

definition live_ids :: "session_table \<Rightarrow> u64 list" where
  "live_ids t = filter (\<lambda>i. i \<noteq> k_invalid_session) (map rec_id (slots t))"

definition table_inv :: "session_table \<Rightarrow> bool" where
  "table_inv t \<longleftrightarrow> length (slots t) = k_session_capacity \<and> distinct (live_ids t)
     \<and> (\<forall>i \<in> set (live_ids t). i < next_id t) \<and> next_id t \<noteq> k_invalid_session
     \<and> unat (count t) = length (live_ids t)"

text \<open>The abstract table: a finite map from ids to records.\<close>

definition authority :: "session_table \<Rightarrow> u64 \<rightharpoonup> session_record" where
  "authority t sid = (case slot_of t sid of None \<Rightarrow> None | Some i \<Rightarrow> Some (slots t ! i))"

section \<open>The scans\<close>

lemma first_slot_Some:
  "first_slot P ss = Some i \<Longrightarrow> i < length ss \<and> P (ss ! i) \<and> (\<forall>j<i. \<not> P (ss ! j))"
proof (induction ss arbitrary: i)
  case Nil
  then show ?case by simp
next
  case (Cons s ss)
  then show ?case by (auto simp: less_Suc_eq_0_disj split: if_splits)
qed

lemma first_slot_None: "first_slot P ss = None \<longleftrightarrow> (\<forall>s \<in> set ss. \<not> P s)"
  by (induction ss) auto

lemma first_slot_unique:
  assumes "i < length ss" "P (ss ! i)" "\<And>j. j < length ss \<Longrightarrow> P (ss ! j) \<Longrightarrow> j = i"
  shows "first_slot P ss = Some i"
proof (cases "first_slot P ss")
  case None
  then have "\<forall>s \<in> set ss. \<not> P s" by (simp add: first_slot_None)
  then show ?thesis using assms(1,2) by simp
next
  case (Some j)
  then show ?thesis using first_slot_Some [OF Some] assms(3) [of j] by simp
qed

text \<open>Live ids are pairwise distinct as list positions.\<close>

lemma distinct_filter_map_nth:
  assumes "distinct (filter Q (map f xs))" "i < length xs" "j < length xs" "f (xs ! i) = f (xs ! j)"
    "Q (f (xs ! i))"
  shows "i = j"
  using assms
proof (induction xs arbitrary: i j)
  case Nil
  then show ?case by simp
next
  case (Cons x xs)
  have tl: "distinct (filter Q (map f xs))" using Cons.prems(1) by (simp split: if_splits)
  have hd: "f x \<notin> f ` set xs" if "Q (f x)" using Cons.prems(1) that by auto
  show ?case
  proof (cases i)
    case 0
    then show ?thesis using Cons.prems hd by (cases j) auto
  next
    case (Suc i')
    show ?thesis
    proof (cases j)
      case 0
      then show ?thesis using Cons.prems hd Suc by (metis imageI length_Cons nth_Cons_0 nth_Cons_Suc
            nth_mem Suc_less_eq)
    next
      case (Suc j')
      then show ?thesis using Cons.IH [OF tl, of i' j'] Cons.prems \<open>i = Suc i'\<close> by simp
    qed
  qed
qed

lemma live_slot_unique:
  assumes "table_inv t" "i < length (slots t)" "j < length (slots t)"
    "rec_id (slots t ! i) = rec_id (slots t ! j)" "rec_id (slots t ! i) \<noteq> k_invalid_session"
  shows "i = j"
proof (rule distinct_filter_map_nth)
  show "distinct (filter (\<lambda>i. i \<noteq> k_invalid_session) (map rec_id (slots t)))"
    using assms(1) by (simp only: table_inv_def live_ids_def)
qed (use assms(2-5) in simp_all)

lemma slot_of_Some:
  "slot_of t sid = Some i \<Longrightarrow> i < length (slots t) \<and> rec_id (slots t ! i) = sid \<and> sid \<noteq> k_invalid_session"
  by (auto simp: slot_of_def dest: first_slot_Some split: if_splits)

lemma slot_of_eq_SomeI:
  assumes "table_inv t" "i < length (slots t)" "rec_id (slots t ! i) = sid" "sid \<noteq> k_invalid_session"
  shows "slot_of t sid = Some i"
proof -
  have "first_slot (\<lambda>s. rec_id s = sid) (slots t) = Some i"
  proof (rule first_slot_unique)
    fix j assume j: "j < length (slots t)" "rec_id (slots t ! j) = sid"
    show "j = i"
      by (rule live_slot_unique [OF assms(1) j(1) assms(2)]) (simp_all add: j assms)
  qed (simp_all add: assms)
  with assms(4) show ?thesis by (simp add: slot_of_def)
qed

lemma slot_of_None: "slot_of t sid = None \<longleftrightarrow> sid \<notin> set (live_ids t)"
  by (auto simp: slot_of_def live_ids_def first_slot_None)

lemma dom_authority: "dom (authority t) = set (live_ids t)"
  using slot_of_None [of t] by (auto simp: authority_def dom_def split: option.splits)

section \<open>Updating one slot\<close>

definition live_of :: "session_record list \<Rightarrow> u64 list" where
  "live_of ss = filter (\<lambda>i. i \<noteq> k_invalid_session) (map rec_id ss)"

lemma live_of_append: "live_of (xs @ ys) = live_of xs @ live_of ys"
  by (simp add: live_of_def)

lemma live_of_split:
  "i < length ss \<Longrightarrow> live_of ss = live_of (take i ss) @ live_of [ss ! i] @ live_of (drop (Suc i) ss)"
  by (metis id_take_nth_drop live_of_append append_Cons append_Nil)

lemma live_of_update:
  "i < length ss \<Longrightarrow> live_of (ss[i := r]) = live_of (take i ss) @ live_of [r] @ live_of (drop (Suc i) ss)"
  by (metis upd_conv_take_nth_drop live_of_append append_Cons append_Nil)

lemma live_ids_live_of: "live_ids t = live_of (slots t)"
  by (simp only: live_ids_def live_of_def)

lemma live_of_same_id:
  assumes "i < length ss" "rec_id r = rec_id (ss ! i)"
  shows "live_of (ss[i := r]) = live_of ss"
proof -
  have "live_of [r] = live_of [ss ! i]" using assms(2) by (simp add: live_of_def)
  then show ?thesis using assms(1) live_of_split live_of_update by metis
qed

text \<open>A slot update that keeps the slot's id keeps the invariant and updates the map at that id.\<close>

lemma update_same_id:
  assumes inv: "table_inv t" and sid: "slot_of t sid = Some i" and r: "rec_id r = sid"
  defines "t' \<equiv> t\<lparr>slots := (slots t)[i := r]\<rparr>"
  shows "table_inv t'" and "authority t' = (authority t)(sid \<mapsto> r)"
proof -
  have i: "i < length (slots t)" "rec_id (slots t ! i) = sid" "sid \<noteq> k_invalid_session"
    using slot_of_Some [OF sid] by simp_all
  have live: "live_ids t' = live_ids t"
    using live_of_same_id [of i "slots t" r] i r by (simp add: live_ids_live_of t'_def)
  then show inv': "table_inv t'" using inv by (simp add: table_inv_def t'_def)
  show "authority t' = (authority t)(sid \<mapsto> r)"
  proof
    fix x
    show "authority t' x = ((authority t)(sid \<mapsto> r)) x"
    proof (cases "x = sid")
      case True
      have "slot_of t' sid = Some i"
        by (rule slot_of_eq_SomeI [OF inv']) (use i r in \<open>simp_all add: t'_def\<close>)
      then show ?thesis using True i by (simp add: authority_def t'_def)
    next
      case False
      show ?thesis
      proof (cases "slot_of t x")
        case None
        then have "slot_of t' x = None" using live by (simp add: slot_of_None)
        with None False show ?thesis by (simp add: authority_def)
      next
        case (Some j)
        then have j: "j < length (slots t)" "rec_id (slots t ! j) = x" "x \<noteq> k_invalid_session"
          using slot_of_Some by blast+
        then have "j \<noteq> i" using i False by auto
        then have "slot_of t' x = Some j"
          by (intro slot_of_eq_SomeI [OF inv']) (use j in \<open>simp_all add: t'_def\<close>)
        with Some False \<open>j \<noteq> i\<close> show ?thesis by (simp add: authority_def t'_def)
      qed
    qed
  qed
qed

lemma authority_other_slot:
  assumes inv: "table_inv t" and inv': "table_inv t'" and same: "slots t' = (slots t)[i := r]"
    and x: "x \<noteq> rec_id r" "i < length (slots t)" "x \<noteq> rec_id (slots t ! i)"
  shows "authority t' x = authority t x"
proof (cases "slot_of t x")
  case None
  then have "x \<notin> set (live_of (slots t))" by (simp add: slot_of_None live_ids_live_of)
  then have "x \<notin> set (live_of (take i (slots t)))" "x \<notin> set (live_of (drop (Suc i) (slots t)))"
    using live_of_split [OF x(2)] by auto
  moreover have "x \<notin> set (live_of [r])" using x(1) by (simp add: live_of_def)
  ultimately have "x \<notin> set (live_of (slots t'))"
    using live_of_update [OF x(2), of r] by (simp only: same set_append Un_iff simp_thms)
  then have "slot_of t' x = None" by (simp add: slot_of_None live_ids_live_of)
  with None show ?thesis by (simp add: authority_def)
next
  case (Some j)
  then have j: "j < length (slots t)" "rec_id (slots t ! j) = x" "x \<noteq> k_invalid_session"
    using slot_of_Some by blast+
  with x have "j \<noteq> i" by auto
  then have "slot_of t' x = Some j"
    by (intro slot_of_eq_SomeI [OF inv']) (use j in \<open>simp_all add: same\<close>)
  with Some \<open>j \<noteq> i\<close> show ?thesis by (simp add: authority_def same)
qed

section \<open>Operations as map operations\<close>

lemma word_less_plus_1: "(x :: u64) \<noteq> - 1 \<Longrightarrow> x < x + 1"
proof -
  assume "x \<noteq> - 1"
  then have "x < - 1" using max_word_max [of x] by (simp add: order_le_less)
  moreover have "unat (- 1 :: u64) = 2 ^ 64 - 1"
    by (simp add: unsigned_minus_1_eq_mask mask_eq_exp_minus_1)
  ultimately show ?thesis by (simp add: word_less_nat_alt unat_word_ariths)
qed

lemma length_live_of_le: "length (live_of ss) \<le> length ss"
  unfolding live_of_def by (metis length_filter_le length_map)

lemma length_filter_all: "length (filter P xs) = length xs \<longleftrightarrow> (\<forall>x \<in> set xs. P x)"
  by (induction xs) (auto simp: le_imp_less_Suc less_imp_neq)

lemma allocate_None: "fst (allocate acct t) = None \<longleftrightarrow> (\<forall>s \<in> set (slots t). rec_id s \<noteq> k_invalid_session)"
  using first_slot_None [of "\<lambda>s. rec_id s = k_invalid_session" "slots t"]
  by (cases "first_slot (\<lambda>s. rec_id s = k_invalid_session) (slots t)") (simp_all add: allocate_def)

lemma allocate_full_iff:
  assumes inv: "table_inv t"
  shows "fst (allocate acct t) = None \<longleftrightarrow> unat (count t) = k_session_capacity"
proof -
  have cnt: "unat (count t) = length (filter (\<lambda>s. rec_id s \<noteq> k_invalid_session) (slots t))"
    using inv by (simp add: table_inv_def live_ids_def filter_map comp_def)
  have len: "length (slots t) = k_session_capacity" using inv by (simp add: table_inv_def)
  show ?thesis
    unfolding allocate_None cnt len [symmetric]
    by (rule length_filter_all [symmetric])
qed

lemma allocate_Some:
  assumes inv: "table_inv t" and room: "next_id t \<noteq> - 1" and al: "allocate acct t = (Some i, t')"
  defines "r \<equiv> (slots t ! i)\<lparr>rec_id := next_id t, generation := generation (slots t ! i) + 1,
    account := acct, owner_worker := - 1, rec_state := accepted\<rparr>"
  shows "table_inv t'" and "slots t' ! i = r" and "next_id t' = next_id t + 1"
    and "authority t (next_id t) = None" and "authority t' = (authority t)(next_id t \<mapsto> r)"
proof -
  have i: "i < length (slots t)" "rec_id (slots t ! i) = k_invalid_session"
    and t': "t' = t\<lparr>slots := (slots t)[i := r], next_id := next_id t + 1, count := count t + 1\<rparr>"
    using al by (auto simp: allocate_def r_def dest: first_slot_Some split: option.splits)
  have nz: "next_id t \<noteq> k_invalid_session" and len: "length (slots t) = k_session_capacity"
    and cnt: "unat (count t) = length (live_of (slots t))"
    using inv by (simp_all add: table_inv_def live_ids_live_of)
  have fresh: "next_id t \<notin> set (live_of (slots t))"
    using inv by (auto simp: table_inv_def live_ids_live_of)
  have lt: "x < next_id t + 1" if "x = next_id t \<or> x \<in> set (live_of (slots t))" for x
  proof -
    have "next_id t < next_id t + 1" using room by (rule word_less_plus_1)
    moreover have "x \<le> next_id t" using that inv by (auto simp: table_inv_def live_ids_live_of)
    ultimately show ?thesis by simp
  qed
  have old: "live_of (slots t) = live_of (take i (slots t)) @ live_of (drop (Suc i) (slots t))"
    using live_of_split [OF i(1)] i(2) by (simp add: live_of_def)
  have new: "live_of (slots t') = live_of (take i (slots t)) @ [next_id t] @ live_of (drop (Suc i) (slots t))"
    using live_of_update [OF i(1), of r] nz by (simp add: t' live_of_def r_def)
  have "length (live_of (slots t)) < length (slots t)"
    using i length_live_of_le [of "take i (slots t)"] length_live_of_le [of "drop (Suc i) (slots t)"]
    by (simp add: old)
  then have "unat (count t + 1) = Suc (unat (count t))"
    using len cnt by (simp add: k_session_capacity_def unat_word_ariths)
  moreover have "next_id t + 1 \<noteq> 0" using word_less_plus_1 [OF room] by auto
  ultimately show inv': "table_inv t'"
    using inv new old fresh lt cnt len
    by (auto simp: table_inv_def live_ids_live_of t' k_invalid_session_def)
  show "slots t' ! i = r" and "next_id t' = next_id t + 1" using i by (simp_all add: t')
  show none: "authority t (next_id t) = None"
    using fresh dom_authority [of t] by (auto simp: live_ids_live_of)
  show "authority t' = (authority t)(next_id t \<mapsto> r)"
  proof
    fix x
    have "slot_of t' (next_id t) = Some i"
      by (rule slot_of_eq_SomeI [OF inv']) (use i nz in \<open>simp_all add: t' r_def\<close>)
    then have same: "authority t' (next_id t) = Some r" using i by (simp add: authority_def t')
    have "authority t' k_invalid_session = authority t k_invalid_session"
      by (simp add: authority_def slot_of_def)
    then show "authority t' x = ((authority t)(next_id t \<mapsto> r)) x"
      using same authority_other_slot [OF inv inv', of i r x] i
      by (cases "x = k_invalid_session") (auto simp: t' r_def nz)
  qed
qed

lemma remove_Some:
  assumes inv: "table_inv t" and sid: "slot_of t sid = Some i"
  shows "table_inv (snd (remove sid t))" and "authority (snd (remove sid t)) = (authority t)(sid := None)"
proof -
  define r where "r = (slots t ! i)\<lparr>rec_id := k_invalid_session, owner_worker := - 1, rec_state := closed\<rparr>"
  let ?t' = "snd (remove sid t)"
  have i: "i < length (slots t)" "rec_id (slots t ! i) = sid" "sid \<noteq> k_invalid_session"
    using slot_of_Some [OF sid] by simp_all
  have t': "?t' = t\<lparr>slots := (slots t)[i := r], count := count t - 1\<rparr>"
    using sid by (simp add: remove_def r_def)
  have old: "live_of (slots t) = live_of (take i (slots t)) @ [sid] @ live_of (drop (Suc i) (slots t))"
    using live_of_split [OF i(1)] i by (simp add: live_of_def)
  have new: "live_of (slots ?t') = live_of (take i (slots t)) @ live_of (drop (Suc i) (slots t))"
    using live_of_update [OF i(1), of r] by (simp add: t' live_of_def r_def)
  have "0 < unat (count t)" using inv old by (simp add: table_inv_def live_ids_live_of)
  then have "unat (count t - 1) = unat (count t) - 1"
    by (simp add: unat_sub word_le_nat_alt)
  then show inv': "table_inv ?t'"
    using inv old new by (auto simp: table_inv_def live_ids_live_of t')
  have gone: "authority ?t' sid = None"
    using inv old new dom_authority [of ?t'] by (auto simp: table_inv_def live_ids_live_of)
  have "authority ?t' k_invalid_session = authority t k_invalid_session"
    by (simp add: authority_def slot_of_def)
  then have "authority ?t' x = authority t x" if "x \<noteq> sid" for x
    using that authority_other_slot [OF inv inv', of i r x] i
    by (cases "x = k_invalid_session") (auto simp: t' r_def)
  with gone show "authority ?t' = (authority t)(sid := None)" by auto
qed

lemma mark_assigning_Some:
  assumes "table_inv t" "slot_of t sid = Some i"
  shows "table_inv (snd (mark_assigning sid w t))"
    and "authority (snd (mark_assigning sid w t)) =
      (authority t)(sid \<mapsto> (slots t ! i)\<lparr>owner_worker := w, rec_state := assigning\<rparr>)"
  using update_same_id [OF assms, of "(slots t ! i)\<lparr>owner_worker := w, rec_state := assigning\<rparr>"]
    slot_of_Some [OF assms(2)] assms(2)
  by (simp_all add: mark_assigning_def)

lemma mark_in_world_Some:
  assumes "table_inv t" "slot_of t sid = Some i"
  shows "table_inv (snd (mark_in_world sid t))"
    and "authority (snd (mark_in_world sid t)) = (authority t)(sid \<mapsto> (slots t ! i)\<lparr>rec_state := in_world\<rparr>)"
  using update_same_id [OF assms, of "(slots t ! i)\<lparr>rec_state := in_world\<rparr>"]
    slot_of_Some [OF assms(2)] assms(2)
  by (simp_all add: mark_in_world_def)

lemma session_table_init_inv: "table_inv session_table_init" "authority session_table_init = Map.empty"
proof -
  have live: "live_ids session_table_init = []"
    by (simp add: live_ids_def session_table_init_def)
  show "table_inv session_table_init"
    unfolding table_inv_def live by (simp add: session_table_init_def k_invalid_session_def)
  have "dom (authority session_table_init) = {}" by (simp add: dom_authority live)
  then show "authority session_table_init = Map.empty" by simp
qed

section \<open>Sequences of operations\<close>

datatype table_op = Allocate u64 | Mark_Assigning u64 i32 | Mark_In_World u64 | Remove u64

fun table_apply :: "table_op \<Rightarrow> session_table \<Rightarrow> session_table" where
  "table_apply (Allocate acct) t = snd (allocate acct t)"
| "table_apply (Mark_Assigning sid w) t = snd (mark_assigning sid w t)"
| "table_apply (Mark_In_World sid) t = snd (mark_in_world sid t)"
| "table_apply (Remove sid) t = snd (remove sid t)"

text \<open>What each operation does to the abstract map; \<^term>\<open>k\<close> is the id the next allocation mints and
  \<^term>\<open>g\<close> the generation of the slot it lands in, if a slot is free.\<close>

fun authority_apply ::
  "u64 \<Rightarrow> u32 option \<Rightarrow> table_op \<Rightarrow> (u64 \<rightharpoonup> session_record) \<Rightarrow> (u64 \<rightharpoonup> session_record)" where
  "authority_apply k None (Allocate acct) m = m"
| "authority_apply k (Some g) (Allocate acct) m = m(k \<mapsto>
     \<lparr>rec_id = k, generation = g, account = acct, owner_worker = - 1, rec_state = accepted\<rparr>)"
| "authority_apply k _ (Mark_Assigning sid w) m = (case m sid of None \<Rightarrow> m
     | Some r \<Rightarrow> m(sid \<mapsto> r\<lparr>owner_worker := w, rec_state := assigning\<rparr>))"
| "authority_apply k _ (Mark_In_World sid) m = (case m sid of None \<Rightarrow> m
     | Some r \<Rightarrow> m(sid \<mapsto> r\<lparr>rec_state := in_world\<rparr>))"
| "authority_apply k _ (Remove sid) m = m(sid := None)"

text \<open>The generation the next allocation stamps: one more than the generation of the free slot.\<close>

definition next_generation :: "session_table \<Rightarrow> u32 option" where
  "next_generation t = map_option (\<lambda>i. generation (slots t ! i) + 1)
     (first_slot (\<lambda>s. rec_id s = k_invalid_session) (slots t))"

lemma authority_slot: "slot_of t sid = Some i \<Longrightarrow> authority t sid = Some (slots t ! i)"
  by (simp add: authority_def)

lemma authority_absent: "slot_of t sid = None \<Longrightarrow> authority t sid = None"
  by (simp add: authority_def)

lemma table_apply_allocate:
  assumes "table_inv t" "next_id t \<noteq> - 1"
  shows "table_inv (table_apply (Allocate a) t)
    \<and> authority (table_apply (Allocate a) t) = authority_apply (next_id t) (next_generation t) (Allocate a) (authority t)
    \<and> next_id t \<le> next_id (table_apply (Allocate a) t) \<and> next_id (table_apply (Allocate a) t) \<le> next_id t + 1"
proof (cases "first_slot (\<lambda>s. rec_id s = k_invalid_session) (slots t)")
  case None
  then show ?thesis using assms word_less_plus_1 [of "next_id t"] by (simp add: allocate_def next_generation_def)
next
  case (Some i)
  then obtain t' where t': "allocate a t = (Some i, t')" by (simp add: allocate_def)
  have r: "(slots t ! i)\<lparr>rec_id := k, generation := g, account := a, owner_worker := w, rec_state := st\<rparr>
      = \<lparr>rec_id = k, generation = g, account = a, owner_worker = w, rec_state = st\<rparr>" for k g w st
    by simp
  show ?thesis
    using allocate_Some [OF assms t'] t' Some word_less_plus_1 [OF assms(2)]
    by (simp add: next_generation_def r)
qed

lemma table_apply_step:
  assumes inv: "table_inv t" and room: "next_id t \<noteq> - 1"
  shows "table_inv (table_apply op t)
    \<and> authority (table_apply op t) = authority_apply (next_id t) (next_generation t) op (authority t)
    \<and> next_id t \<le> next_id (table_apply op t) \<and> next_id (table_apply op t) \<le> next_id t + 1"
proof (cases op)
  case (Allocate a)
  then show ?thesis using table_apply_allocate [OF assms] by simp
next
  case (Mark_Assigning sid w)
  then show ?thesis
    using inv word_less_plus_1 [OF room] mark_assigning_Some [OF inv, of sid _ w]
    by (cases "slot_of t sid")
      (simp_all add: authority_slot authority_absent mark_assigning_def)
next
  case (Mark_In_World sid)
  then show ?thesis
    using inv word_less_plus_1 [OF room] mark_in_world_Some [OF inv, of sid]
    by (cases "slot_of t sid") (simp_all add: authority_slot authority_absent mark_in_world_def)
next
  case (Remove sid)
  then show ?thesis
    using inv word_less_plus_1 [OF room] remove_Some [OF inv, of sid]
    by (cases "slot_of t sid") (auto simp: authority_slot authority_absent remove_def)
qed

lemma unat_next_id_neq: "unat (x :: u64) + n < 2 ^ 64 - 1 \<Longrightarrow> x \<noteq> - 1"
  by (auto simp: unsigned_minus_1_eq_mask mask_eq_exp_minus_1)

lemma table_run:
  assumes "table_inv t" "unat (next_id t) + length ops < 2 ^ 64 - 1"
  shows "table_inv (fold table_apply ops t) \<and> next_id t \<le> next_id (fold table_apply ops t)
    \<and> unat (next_id (fold table_apply ops t)) \<le> unat (next_id t) + length ops"
  using assms
proof (induction ops arbitrary: t)
  case Nil
  then show ?case by simp
next
  case (Cons op ops)
  let ?u = "table_apply op t"
  have room: "next_id t \<noteq> - 1" by (rule unat_next_id_neq [OF Cons.prems(2)])
  note step = table_apply_step [OF Cons.prems(1) room, of op]
  have "unat (next_id ?u) \<le> unat (next_id t + 1)" using step by (simp add: word_le_nat_alt)
  also have "\<dots> \<le> Suc (unat (next_id t))" by (simp add: unat_word_ariths)
  finally have bound: "unat (next_id ?u) \<le> Suc (unat (next_id t))" .
  have "table_inv (fold table_apply ops ?u) \<and> next_id ?u \<le> next_id (fold table_apply ops ?u)
      \<and> unat (next_id (fold table_apply ops ?u)) \<le> unat (next_id ?u) + length ops"
    using step bound Cons.prems(2) by (intro Cons.IH) simp_all
  then show ?case using step bound by (auto intro: order_trans)
qed

text \<open>An id below the counter that is not live stays dead: the counter only mints ids above it.\<close>

lemma dead_id_step:
  assumes "table_inv t" "next_id t \<noteq> - 1" "sid < next_id t" "authority t sid = None"
  shows "authority (table_apply op t) sid = None"
proof -
  have "authority (table_apply op t) sid = authority_apply (next_id t) (next_generation t) op (authority t) sid"
    using table_apply_step [OF assms(1,2)] by simp
  also have "\<dots> = None"
    using assms(3,4) by (cases op; cases "next_generation t") (auto split: option.splits)
  finally show ?thesis .
qed

lemma dead_id_run:
  assumes "table_inv t" "unat (next_id t) + length ops < 2 ^ 64 - 1" "sid < next_id t" "authority t sid = None"
  shows "authority (fold table_apply ops t) sid = None"
  using assms
proof (induction ops rule: rev_induct)
  case Nil
  then show ?case by simp
next
  case (snoc op ops)
  let ?t = "fold table_apply ops t"
  note run = table_run [OF snoc.prems(1), of ops]
  have "authority (table_apply op ?t) sid = None"
  proof (rule dead_id_step)
    show "table_inv ?t" using run snoc.prems(2) by simp
    show "next_id ?t \<noteq> - 1"
      by (rule unat_next_id_neq [where n = 0]) (use run snoc.prems(2) in simp)
    show "sid < next_id ?t" using run snoc.prems(2,3) by (auto intro: order.strict_trans2)
    show "authority ?t sid = None" using snoc by simp
  qed
  then show ?case by simp
qed

lemma next_generation_None:
  assumes "table_inv t"
  shows "next_generation t = None \<longleftrightarrow> card (dom (authority t)) = k_session_capacity"
proof -
  have "next_generation t = None \<longleftrightarrow> fst (allocate acct t) = None" for acct
    by (simp add: next_generation_def allocate_def split: option.splits)
  then have "next_generation t = None \<longleftrightarrow> unat (count t) = k_session_capacity"
    using allocate_full_iff [OF assms] by simp
  then show ?thesis
    using assms by (simp add: table_inv_def dom_authority distinct_card)
qed

lemma find_authority: "map_option (\<lambda>i. slots t ! i) (find t sid) = authority t sid"
  by (simp add: find_def authority_def split: option.splits)

text \<open>
  C7. The acceptor's fixed-capacity array implements a finite map from session ids to records.
  From the constructor on, after any sequence of allocate, mark_assigning, mark_in_world and remove
  calls (too few to wrap the 64-bit id counter), the invariant holds, and every further operation acts
  on the map exactly as the specification says: allocate binds an id that was not in the map to a
  fresh record in state accepted, unless every one of the 256 slots is taken; the two marks update one
  record; remove deletes one; find returns the slot that holds the record.
\<close>

theorem session_table_refines_map:
  assumes "length ops < 2 ^ 64 - 2"
  defines "t \<equiv> fold table_apply ops session_table_init"
  shows "table_inv t \<and> table_inv (table_apply op t)
    \<and> authority (table_apply op t) = authority_apply (next_id t) (next_generation t) op (authority t)
    \<and> authority t (next_id t) = None
    \<and> (next_generation t = None \<longleftrightarrow> card (dom (authority t)) = k_session_capacity)
    \<and> map_option (\<lambda>i. slots t ! i) (find t sid) = authority t sid"
proof -
  have n: "next_id session_table_init = 1" by (simp add: session_table_init_def)
  have run: "table_inv t" "unat (next_id t) \<le> 1 + length ops"
    using table_run [OF session_table_init_inv(1), of ops] assms(1) by (simp_all add: t_def n)
  have room: "next_id t \<noteq> - 1"
    by (rule unat_next_id_neq [where n = 0]) (use run assms(1) in simp)
  have "next_id t \<notin> set (live_ids t)" using run(1) by (auto simp: table_inv_def)
  then have "authority t (next_id t) = None" using dom_authority [of t] by auto
  then show ?thesis
    using run(1) table_apply_step [OF run(1) room] next_generation_None [OF run(1)]
    by (simp add: find_authority)
qed

theorem session_table_refines_map_witness:
  "authority (fold table_apply [Allocate 7, Allocate 8, Remove 1, Allocate 9] session_table_init) 3 =
     Some \<lparr>rec_id = 3, generation = 2, account = 9, owner_worker = - 1, rec_state = accepted\<rparr>"
proof -
  let ?ops = "[Allocate 7, Allocate 8, Remove 1]"
  let ?t = "fold table_apply ?ops session_table_init"
  have t: "next_id ?t = 3" "next_generation ?t = Some 2"
    by code_simp+
  have "authority (table_apply (Allocate 9) ?t) =
      authority_apply (next_id ?t) (next_generation ?t) (Allocate 9) (authority ?t)"
    using session_table_refines_map [of ?ops "Allocate 9"] by simp
  then show ?thesis using t by simp
qed

text \<open>
  C8. A handle to a removed session never passes the stale-handle guard again: once remove has
  succeeded on an id, validate refuses that id with every generation after any further sequence
  of table operations (too few to wrap the id counter), however often its slot is reused.
\<close>

theorem removed_session_never_validates:
  assumes "length pre + length post < 2 ^ 64 - 3"
    and "fst (remove sid (fold table_apply pre session_table_init))"
  shows "\<not> validate (fold table_apply (pre @ Remove sid # post) session_table_init) sid gen"
proof -
  let ?t = "fold table_apply pre session_table_init"
  let ?u = "table_apply (Remove sid) ?t"
  have n: "next_id session_table_init = 1" by (simp add: session_table_init_def)
  have run: "table_inv ?t" "unat (next_id ?t) \<le> 1 + length pre"
    using table_run [OF session_table_init_inv(1), of pre] assms(1) by (simp_all add: n)
  obtain i where i: "slot_of ?t sid = Some i"
    using assms(2) by (auto simp: remove_def split: option.splits)
  have "sid \<in> set (live_ids ?t)" using i slot_of_None [of ?t sid] by simp
  then have lt: "sid < next_id ?t" using run(1) by (simp add: table_inv_def)
  have u: "table_inv ?u" "authority ?u sid = None" "next_id ?u = next_id ?t"
    using remove_Some [OF run(1) i] i by (simp_all add: remove_def)
  have "authority (fold table_apply post ?u) sid = None"
    by (rule dead_id_run) (use u lt run(2) assms(1) in simp_all)
  then show ?thesis by (auto simp: validate_def authority_def split: option.splits)
qed

theorem removed_session_never_validates_witness:
  "validate (fold table_apply [Allocate 7] session_table_init) 1 1
   \<and> \<not> validate (fold table_apply ([Allocate 7] @ Remove 1 # [Allocate 8]) session_table_init) 1 1"
proof
  show "validate (fold table_apply [Allocate 7] session_table_init) 1 1" by code_simp
  have "fst (remove 1 (fold table_apply [Allocate 7] session_table_init))" by code_simp
  then show "\<not> validate (fold table_apply ([Allocate 7] @ Remove 1 # [Allocate 8]) session_table_init) 1 1"
    using removed_session_never_validates [of "[Allocate 7]" "[Allocate 8]" 1 1] by simp
qed

end
