(* ===== verification/Atomic.thy ===== *)
theory Atomic
  imports Prelude
begin

text \<open>
  \<^verbatim>\<open>src/engine-uring/src/sync/atomic.h\<close>: the atomic cells. A cell is its value; every method is one
  indivisible step, a function from the old value to the returned value and the new value. The
  methods of \<^verbatim>\<open>atomic32\<close> and \<^verbatim>\<open>atomic64\<close> differ in the width only, so they are polymorphic in it;
  \<^verbatim>\<open>atomic_ptr\<close> has the value-generic ones. The compiler built-ins behind the methods are total
  orders on one cell, whatever the memory order argument, so the order argument is not part of the
  value semantics; what acquire and release order across cells is discussed in \<open>SpscPipe\<close>.
\<close>

section \<open>The methods\<close>

definition load :: "'v \<Rightarrow> 'v" where "load c = c"
definition load_relaxed :: "'v \<Rightarrow> 'v" where "load_relaxed c = c"
definition load_acquire :: "'v \<Rightarrow> 'v" where "load_acquire c = c"
definition store :: "'v \<Rightarrow> 'v \<Rightarrow> 'v" where "store v c = v"
definition store_relaxed :: "'v \<Rightarrow> 'v \<Rightarrow> 'v" where "store_relaxed v c = v"
definition store_release :: "'v \<Rightarrow> 'v \<Rightarrow> 'v" where "store_release v c = v"

definition fetch_add :: "'a::len word \<Rightarrow> 'a word \<Rightarrow> 'a word \<times> 'a word" where
  "fetch_add v c = (c, c + v)"
definition fetch_sub :: "'a::len word \<Rightarrow> 'a word \<Rightarrow> 'a word \<times> 'a word" where
  "fetch_sub v c = (c, c - v)"
definition fetch_and :: "'a::len word \<Rightarrow> 'a word \<Rightarrow> 'a word \<times> 'a word" where
  "fetch_and v c = (c, c AND v)"
definition fetch_or :: "'a::len word \<Rightarrow> 'a word \<Rightarrow> 'a word \<times> 'a word" where
  "fetch_or v c = (c, c OR v)"
definition fetch_xor :: "'a::len word \<Rightarrow> 'a word \<Rightarrow> 'a word \<times> 'a word" where
  "fetch_xor v c = (c, c XOR v)"

definition increment :: "'a::len word \<Rightarrow> 'a word \<times> 'a word" where
  "increment c = (c + 1, c + 1)"
definition decrement :: "'a::len word \<Rightarrow> 'a word \<times> 'a word" where
  "decrement c = (c - 1, c - 1)"

definition exchange :: "'v \<Rightarrow> 'v \<Rightarrow> 'v \<times> 'v" where
  "exchange v c = (c, v)"

text \<open>The built-in overwrites \<^verbatim>\<open>observed\<close> with the current value when the comparison fails.\<close>

definition compare_exchange :: "'v \<Rightarrow> 'v \<Rightarrow> 'v \<Rightarrow> 'v \<times> 'v" where
  "compare_exchange desired expected c =
     (let observed = expected in
      if c = observed then (observed, desired) else (c, c))"

text \<open>The overloaded operators, as the class bodies spell them.\<close>

definition op_add_assign :: "'a::len word \<Rightarrow> 'a word \<Rightarrow> 'a word \<times> 'a word" where
  "op_add_assign v c = (c + v, c + v)"
definition op_sub_assign :: "'a::len word \<Rightarrow> 'a word \<Rightarrow> 'a word \<times> 'a word" where
  "op_sub_assign v c = (c - v, c - v)"
definition op_and_assign :: "'a::len word \<Rightarrow> 'a word \<Rightarrow> 'a word \<times> 'a word" where
  "op_and_assign v c = (c AND v, c AND v)"
definition op_or_assign :: "'a::len word \<Rightarrow> 'a word \<Rightarrow> 'a word \<times> 'a word" where
  "op_or_assign v c = (c OR v, c OR v)"
definition op_xor_assign :: "'a::len word \<Rightarrow> 'a word \<Rightarrow> 'a word \<times> 'a word" where
  "op_xor_assign v c = (c XOR v, c XOR v)"

section \<open>One cell under a sequence of calls\<close>

text \<open>All the calls a thread can make on one integer cell.\<close>

datatype 'w atomic_op = A_load | A_store 'w
  | A_fetch_add 'w | A_fetch_sub 'w | A_fetch_and 'w | A_fetch_or 'w
  | A_fetch_xor 'w | A_increment | A_decrement | A_exchange 'w
  | A_compare_exchange 'w 'w | A_post_increment | A_post_decrement
  | A_add_assign 'w | A_sub_assign 'w | A_and_assign 'w
  | A_or_assign 'w | A_xor_assign 'w

fun atomic_apply :: "'a::len word atomic_op \<Rightarrow> 'a word \<Rightarrow> 'a word \<times> 'a word" where
  "atomic_apply A_load c = (load c, c)"
| "atomic_apply (A_store v) c = (v, store v c)"
| "atomic_apply (A_fetch_add v) c = fetch_add v c"
| "atomic_apply (A_fetch_sub v) c = fetch_sub v c"
| "atomic_apply (A_fetch_and v) c = fetch_and v c"
| "atomic_apply (A_fetch_or v) c = fetch_or v c"
| "atomic_apply (A_fetch_xor v) c = fetch_xor v c"
| "atomic_apply A_increment c = increment c"
| "atomic_apply A_decrement c = decrement c"
| "atomic_apply (A_exchange v) c = exchange v c"
| "atomic_apply (A_compare_exchange d e) c = compare_exchange d e c"
| "atomic_apply A_post_increment c = fetch_add 1 c"
| "atomic_apply A_post_decrement c = fetch_sub 1 c"
| "atomic_apply (A_add_assign v) c = op_add_assign v c"
| "atomic_apply (A_sub_assign v) c = op_sub_assign v c"
| "atomic_apply (A_and_assign v) c = op_and_assign v c"
| "atomic_apply (A_or_assign v) c = op_or_assign v c"
| "atomic_apply (A_xor_assign v) c = op_xor_assign v c"

lemmas atomic_defs = load_def load_relaxed_def load_acquire_def store_def store_relaxed_def
  store_release_def fetch_add_def fetch_sub_def fetch_and_def fetch_or_def fetch_xor_def
  increment_def decrement_def exchange_def compare_exchange_def op_add_assign_def
  op_sub_assign_def op_and_assign_def op_or_assign_def op_xor_assign_def

lemma compare_exchange_eq: "compare_exchange d e c = (c, if c = e then d else c)"
  by (simp add: compare_exchange_def Let_def)

text \<open>A thread's list of calls is its program; \<open>interleaving\<close> is every order the cell can see.\<close>

inductive interleaving :: "'c list list \<Rightarrow> (nat \<times> 'c) list \<Rightarrow> bool" where
  finished: "\<forall>p \<in> set ps. p = [] \<Longrightarrow> interleaving ps []"
| call: "i < length ps \<Longrightarrow> ps ! i = c # rest \<Longrightarrow> interleaving (ps[i := rest]) tr
    \<Longrightarrow> interleaving ps ((i, c) # tr)"

fun atomic_run :: "(nat \<times> 'a::len word atomic_op) list \<Rightarrow> 'a word \<Rightarrow> (nat \<times> 'a word) list \<times> 'a word" where
  "atomic_run [] c = ([], c)"
| "atomic_run ((i, x) # tr) c = (let (r, c') = atomic_apply x c; (rs, c'') = atomic_run tr c' in
     ((i, r) # rs, c''))"

section \<open>Concurrent counting\<close>

lemma sum_list_update_tail:
  assumes "i < length (ps :: 'c list list)" "ps ! i = c # rest"
  shows "Suc (sum_list (map length (ps[i := rest]))) = sum_list (map length ps)"
proof -
  have "sum_list (map length (ps[i := rest])) = sum_list ((map length ps)[i := length rest])"
    by (simp add: map_update)
  also have "\<dots> = sum_list (map length ps) + length rest - map length ps ! i"
    using assms(1) by (intro sum_list_update) simp
  finally have drop: "sum_list (map length (ps[i := rest])) = sum_list (map length ps) - 1"
    using assms by simp
  have "length (ps ! i) \<in> set (map length ps)" using assms(1) by simp
  then have "length (ps ! i) \<le> sum_list (map length ps)" by (rule member_le_sum_list) simp
  with drop show ?thesis using assms(2) by simp
qed

lemma interleaving_length: "interleaving ps tr \<Longrightarrow> length tr = sum_list (map length ps)"
proof (induction rule: interleaving.induct)
  case (finished ps)
  then have "\<forall>n \<in> set (map length ps). n = 0" by simp
  then show ?case by (simp add: sum_list_eq_0_iff)
next
  case (call i ps c rest tr)
  then show ?case using sum_list_update_tail [OF call(1,2)] by simp
qed

lemma interleaving_set: "interleaving ps tr \<Longrightarrow> (\<forall>p \<in> set ps. set p \<subseteq> S) \<Longrightarrow> snd ` set tr \<subseteq> S"
proof (induction rule: interleaving.induct)
  case (finished ps)
  then show ?case by simp
next
  case (call i ps c rest tr)
  have "set (c # rest) \<subseteq> S" using call.prems call(1,2) nth_mem by metis
  then have "\<forall>p \<in> set (ps[i := rest]). set p \<subseteq> S"
    using call.prems by (auto dest!: set_update_subset_insert [THEN subsetD])
  then show ?case using call.IH \<open>set (c # rest) \<subseteq> S\<close> by simp
qed

lemma increments_run:
  assumes "\<forall>x \<in> snd ` set tr. x = A_increment"
  shows "map snd (fst (atomic_run tr c)) = map (\<lambda>k. c + of_nat (Suc k)) [0..<length tr]
    \<and> snd (atomic_run tr c) = c + of_nat (length tr)"
  using assms
proof (induction tr arbitrary: c)
  case Nil
  then show ?case by simp
next
  case (Cons ix tr)
  obtain i where ix: "ix = (i, A_increment)" using Cons.prems by (cases ix) auto
  have "map snd (fst (atomic_run tr (c + 1))) = map (\<lambda>k. (c + 1) + of_nat (Suc k)) [0..<length tr]
      \<and> snd (atomic_run tr (c + 1)) = (c + 1) + of_nat (length tr)"
    using Cons.prems by (intro Cons.IH) simp
  then show ?case
    by (simp add: ix increment_def case_prod_unfold Let_def map_upt_Suc comp_def algebra_simps
        del: upt_Suc)
qed

lemma distinct_offsets:
  assumes "n < 2 ^ LENGTH('a::len)"
  shows "distinct (map (\<lambda>k. (c :: 'a word) + of_nat (Suc k)) [0..<n])"
proof -
  have "inj_on (\<lambda>k. c + of_nat (Suc k)) {0..<n}"
  proof (rule inj_onI)
    fix j k assume jk: "j \<in> {0..<n}" "k \<in> {0..<n}" "c + of_nat (Suc j) = c + of_nat (Suc k)"
    then have "(of_nat (Suc j) :: 'a word) = of_nat (Suc k)" by simp
    then have "unat (of_nat (Suc j) :: 'a word) = unat (of_nat (Suc k) :: 'a word)" by (rule arg_cong)
    then have "Suc j mod 2 ^ LENGTH('a) = Suc k mod 2 ^ LENGTH('a)"
      by (simp only: unsigned_of_nat take_bit_eq_mod of_nat_id)
    moreover have "Suc j < 2 ^ LENGTH('a)" "Suc k < 2 ^ LENGTH('a)" using jk assms by auto
    ultimately show "j = k" by simp
  qed
  then show ?thesis by (simp add: distinct_map)
qed

text \<open>
  However the calls of several threads interleave on one atomic counter, as many increments as
  were called are counted (modulo the width), and when fewer than 2^w were called no two of them
  return the same value.
\<close>

theorem concurrent_increments_counted:
  assumes "interleaving ps tr" and "\<forall>p \<in> set ps. set p \<subseteq> {A_increment}"
  shows "snd (atomic_run tr (c :: 'a::len word)) = c + of_nat (sum_list (map length ps))
    \<and> (sum_list (map length ps) < 2 ^ LENGTH('a) \<longrightarrow> distinct (map snd (fst (atomic_run tr c))))"
proof -
  have "\<forall>x \<in> snd ` set tr. x = A_increment"
    using interleaving_set [OF assms] by auto
  from increments_run [OF this, of c] interleaving_length [OF assms(1)]
  show ?thesis using distinct_offsets [of "length tr" c] by simp
qed

theorem concurrent_increments_counted_witness:
  "snd (atomic_run [(0, A_increment), (1, A_increment), (0, A_increment)] (41 :: i32)) = 44
   \<and> distinct (map snd (fst (atomic_run [(0, A_increment), (1, A_increment), (0, A_increment)] (41 :: i32))))"
proof -
  have "interleaving [[A_increment, A_increment], [A_increment]]
      [(0, A_increment :: i32 atomic_op), (1, A_increment), (0, A_increment)]"
    by (rule interleaving.call interleaving.finished | simp)+
  from concurrent_increments_counted [OF this, of "41 :: i32"] show ?thesis by simp
qed

end
