(* ===== verification/Lifecycle.thy ===== *)
theory Lifecycle
  imports Atomic
begin

text \<open>
  Threads of the server process and their supervision, from \<^verbatim>\<open>src/server-uring/src\<close>
  (\<^verbatim>\<open>thread_ctl\<close>, \<^verbatim>\<open>worker_ctl\<close>, \<^verbatim>\<open>acceptor_ctl\<close>, \<^verbatim>\<open>worker_engine\<close>, \<^verbatim>\<open>acceptor_engine\<close>,
  \<^verbatim>\<open>detail/thread_role\<close>, \<^verbatim>\<open>roster.h\<close>, \<^verbatim>\<open>main.cpp\<close>) and \<^verbatim>\<open>src/engine-uring/src/runtime/thread.h\<close>.
  Threads are numbered: \<open>0 .. k - 1\<close> are the workers and \<open>k\<close> is the acceptor, with \<open>k\<close> the
  roster's worker count. Every atomic access to a control block is one step, so every interleaving of
  the supervisor with the spawned threads is a path of \<open>sys_step\<close>. The worker's and the acceptor's
  trampoline and engine are the same code up to the role, and are modelled once.
\<close>

section \<open>Control blocks\<close>

datatype thread_role = none | worker | db | supervisor | acceptor

definition starting :: i32 where "starting = 0"
definition running :: i32 where "running = 1"
definition draining :: i32 where "draining = 2"
definition stopped :: i32 where "stopped = 3"

text \<open>\<^verbatim>\<open>_joinable\<close> is the whole of \<^verbatim>\<open>lnx::thread\<close> besides the OS handle.\<close>

record thread_ctl =
  ctl_id :: nat
  ctl_name :: string
  ctl_state :: i32
  ctl_kernel_tid :: i32
  heartbeat_seq :: i64
  joinable :: bool

text \<open>A role's control block: worker \<open>i\<close> has one pair of edges, the acceptor one per worker. A pipe
  pointer is the index of the pipe in the supervisor's array, \<^term>\<open>None\<close> the null pointer.\<close>

record role_ctl =
  base :: thread_ctl
  ctl_role :: thread_role
  edges_in :: "nat option list"
  edges_out :: "nat option list"

fun copy_name :: "nat \<Rightarrow> string \<Rightarrow> string" where
  "copy_name 0 s = []"
| "copy_name (Suc n) [] = []"
| "copy_name (Suc n) (ch # s) = (if ch = CHR 0x00 then [] else ch # copy_name n s)"

definition thread_ctl_init :: "nat \<Rightarrow> string option \<Rightarrow> thread_ctl" where
  "thread_ctl_init i name =
     \<lparr>ctl_id = i, ctl_name = (case name of None \<Rightarrow> [] | Some s \<Rightarrow> copy_name 15 s),
      ctl_state = starting, ctl_kernel_tid = 0, heartbeat_seq = 0, joinable = False\<rparr>"

text \<open>\<^verbatim>\<open>snprintf("worker_%d")\<close> into the 16-byte name, for a one-digit id.\<close>

definition worker_name :: "nat \<Rightarrow> string" where
  "worker_name i = ''worker_'' @ [char_of (48 + i)]"

definition worker_ctl_init :: "nat \<Rightarrow> nat \<Rightarrow> role_ctl res" where
  "worker_ctl_init k i = LNX_CHECK (i < k) (Inr
     \<lparr>base = (thread_ctl_init i (Some []))\<lparr>ctl_name := copy_name 15 (worker_name i)\<rparr>,
      ctl_role = worker, edges_in = [None], edges_out = [None]\<rparr>)"

definition acceptor_ctl_init :: "nat \<Rightarrow> role_ctl" where
  "acceptor_ctl_init k =
     \<lparr>base = thread_ctl_init 0 (Some ''acceptor''), ctl_role = acceptor,
      edges_in = replicate k None, edges_out = replicate k None\<rparr>"

definition worker_install_pipes :: "nat \<Rightarrow> nat \<Rightarrow> role_ctl \<Rightarrow> role_ctl" where
  "worker_install_pipes pin pout c = c\<lparr>edges_in := [Some pin], edges_out := [Some pout]\<rparr>"

definition acceptor_install_pipes :: "nat \<Rightarrow> role_ctl \<Rightarrow> role_ctl" where
  "acceptor_install_pipes k c = c\<lparr>edges_in := map Some [0..<k], edges_out := map Some [0..<k]\<rparr>"

definition edges_installed :: "role_ctl \<Rightarrow> bool" where
  "edges_installed c \<longleftrightarrow> None \<notin> set (edges_in c) \<and> None \<notin> set (edges_out c)"

definition kernel_tid :: "thread_ctl \<Rightarrow> i32" where
  "kernel_tid c = (if load_acquire (ctl_state c) \<noteq> running then 0 else load_relaxed (ctl_kernel_tid c))"

section \<open>OS threads\<close>

text \<open>What the operating system answers: return codes of the calls the sources check, and the kernel
  thread ids.\<close>

record os_env =
  create_rc :: "nat \<Rightarrow> int"
  join_rc :: "nat \<Rightarrow> int"
  sigwait_rc :: int
  os_tid :: "nat \<Rightarrow> i32"

definition os_ok :: "os_env \<Rightarrow> bool" where
  "os_ok os \<longleftrightarrow> (\<forall>i. create_rc os i = 0) \<and> (\<forall>i. join_rc os i = 0) \<and> sigwait_rc os = 0"

definition thread_create :: "int \<Rightarrow> bool res" where
  "thread_create rc = LNX_CHECK (rc = 0) (Inr (rc = 0))"

definition thread_move_assign :: "bool \<Rightarrow> bool \<Rightarrow> bool res" where
  "thread_move_assign dst other = LNX_CHECK (\<not> dst) (Inr other)"

definition thread_join :: "int \<Rightarrow> bool \<Rightarrow> bool res" where
  "thread_join rc j = LNX_CHECK j (LNX_CHECK (rc = 0) (Inr False))"

definition thread_detach :: "int \<Rightarrow> bool \<Rightarrow> bool res" where
  "thread_detach rc j = LNX_CHECK j (LNX_CHECK (rc = 0) (Inr False))"

definition thread_destroy :: "bool \<Rightarrow> unit res" where
  "thread_destroy j = LNX_CHECK (\<not> j) (Inr ())"

section \<open>The process\<close>

text \<open>Program points of a spawned thread: the numbered steps of \<^verbatim>\<open>entry\<close>, then \<^verbatim>\<open>run_loop\<close>.\<close>

datatype tpc = Unborn | At_role | At_name | At_tid | At_engine | At_cas | At_loop | At_beat
  | At_publish | At_short i32 | Exited | Trapped

record thread_rt =
  pc :: tpc
  tls_role :: thread_role
  engine_ctl :: "nat option"

datatype sup_cmd = Construct_Acceptor nat | Start nat | Wait_Running nat | Sigwait
  | Request_Stop nat | Join nat | Destroy nat

datatype sup_pc = Sup_ready | Sup_cas i32 | Sup_check | Sup_trapped

record sys =
  ctl :: "nat \<Rightarrow> role_ctl"
  rt :: "nat \<Rightarrow> thread_rt"
  script :: "sup_cmd list"
  sup :: sup_pc

definition set_base :: "nat \<Rightarrow> (thread_ctl \<Rightarrow> thread_ctl) \<Rightarrow> sys \<Rightarrow> sys" where
  "set_base i f s = s\<lparr>ctl := (ctl s)(i := (ctl s i)\<lparr>base := f (base (ctl s i))\<rparr>)\<rparr>"

definition set_rt :: "nat \<Rightarrow> (thread_rt \<Rightarrow> thread_rt) \<Rightarrow> sys \<Rightarrow> sys" where
  "set_rt i f s = s\<lparr>rt := (rt s)(i := f (rt s i))\<rparr>"

abbreviation st :: "sys \<Rightarrow> nat \<Rightarrow> i32" where "st s i \<equiv> ctl_state (base (ctl s i))"

abbreviation goto :: "nat \<Rightarrow> tpc \<Rightarrow> sys \<Rightarrow> sys" where "goto i p \<equiv> set_rt i (\<lambda>r. r\<lparr>pc := p\<rparr>)"

abbreviation set_state :: "nat \<Rightarrow> i32 \<Rightarrow> sys \<Rightarrow> sys" where
  "set_state i v \<equiv> set_base i (\<lambda>c. c\<lparr>ctl_state := v\<rparr>)"

section \<open>One step of a spawned thread\<close>

text \<open>\<^verbatim>\<open>instance()\<close>'s role guard and \<^verbatim>\<open>attach()\<close>'s checks.\<close>

definition engine_attach :: "thread_role \<Rightarrow> nat option \<Rightarrow> thread_rt \<Rightarrow> thread_rt res" where
  "engine_attach role h r =
     LNX_CHECK (tls_role r = role) (LNX_CHECK (engine_ctl r = None) (LNX_CHECK (h \<noteq> None)
       (Inr (r\<lparr>engine_ctl := h\<rparr>))))"

text \<open>\<^verbatim>\<open>run_loop\<close>: the loop test, the body, and the publication of stopped; \<^term>\<open>h\<close> is the attached
  control block.\<close>

fun run_loop_step :: "nat \<Rightarrow> nat \<Rightarrow> sys \<Rightarrow> sys" where
  "run_loop_step i h s = (case pc (rt s i) of
       At_loop \<Rightarrow> if load_acquire (st s h) = running then goto i At_beat s else goto i At_publish s
     | At_beat \<Rightarrow> goto i At_loop (set_base h (\<lambda>c. c\<lparr>heartbeat_seq := snd (fetch_add 1 (heartbeat_seq c))\<rparr>) s)
     | At_publish \<Rightarrow> goto i Exited (set_state h (store_release stopped (st s h)) s)
     | _ \<Rightarrow> s)"

fun entry_step :: "os_env \<Rightarrow> nat \<Rightarrow> sys \<Rightarrow> sys option" where
  "entry_step os i s = (case pc (rt s i) of
       Unborn \<Rightarrow> None
     | At_role \<Rightarrow> Some (set_rt i (\<lambda>r. r\<lparr>tls_role := ctl_role (ctl s i), pc := At_name\<rparr>) s)
     | At_name \<Rightarrow> Some (goto i At_tid s)
     | At_tid \<Rightarrow> Some (goto i At_engine (set_base i (\<lambda>c. c\<lparr>ctl_kernel_tid := os_tid os i\<rparr>) s))
     | At_engine \<Rightarrow> Some (case engine_attach (ctl_role (ctl s i)) (Some i) (rt s i) of
           Inl _ \<Rightarrow> goto i Trapped s
         | Inr r \<Rightarrow> set_rt i (\<lambda>_. r\<lparr>pc := At_cas\<rparr>) s)
     | At_cas \<Rightarrow> (let (observed, v) = compare_exchange running starting (st s i); s' = set_state i v s in
         Some (if observed = starting
               then (if engine_ctl (rt s i) = None then goto i Trapped s' else goto i At_loop s')
               else goto i (At_short observed) s'))
     | At_short observed \<Rightarrow> Some (if observed = draining
         then goto i Exited (set_state i (store_release stopped (st s i)) s)
         else goto i Trapped s)
     | Exited \<Rightarrow> None
     | Trapped \<Rightarrow> None
     | _ \<Rightarrow> (case engine_ctl (rt s i) of None \<Rightarrow> Some (goto i Trapped s)
            | Some h \<Rightarrow> Some (run_loop_step i h s)))"

section \<open>One step of the supervisor\<close>

definition pop :: "sys \<Rightarrow> sys" where
  "pop s = s\<lparr>script := tl (script s), sup := Sup_ready\<rparr>"

definition sup_goto :: "sup_pc \<Rightarrow> sys \<Rightarrow> sys" where
  "sup_goto p s = s\<lparr>sup := p\<rparr>"

text \<open>\<^verbatim>\<open>worker_ctl::start\<close> and \<^verbatim>\<open>acceptor_ctl::start\<close>: the edge checks, the thread constructor, the
  move assignment into \<^verbatim>\<open>base._thread\<close>.\<close>

definition ctl_start :: "os_env \<Rightarrow> nat \<Rightarrow> role_ctl \<Rightarrow> bool res" where
  "ctl_start os i c = LNX_CHECK (edges_installed c)
     (case thread_create (create_rc os i) of Inl e \<Rightarrow> Inl e
      | Inr j \<Rightarrow> thread_move_assign (joinable (base c)) j)"

definition start_step :: "os_env \<Rightarrow> nat \<Rightarrow> sys \<Rightarrow> sys" where
  "start_step os i s = (case ctl_start os i (ctl s i) of
       Inl _ \<Rightarrow> sup_goto Sup_trapped s
     | Inr j \<Rightarrow> pop (set_rt i (\<lambda>_. \<lparr>pc = At_role, tls_role = none, engine_ctl = None\<rparr>)
         (set_base i (\<lambda>c. c\<lparr>joinable := j\<rparr>) s)))"

text \<open>\<^verbatim>\<open>request_stop\<close>: the first load, then one compare-exchange per turn of the loop.\<close>

definition stop_loop :: "i32 \<Rightarrow> sys \<Rightarrow> sys" where
  "stop_loop observed s = (if observed = starting \<or> observed = running then sup_goto (Sup_cas observed) s else pop s)"

definition stop_cas :: "nat \<Rightarrow> i32 \<Rightarrow> sys \<Rightarrow> sys" where
  "stop_cas i observed s =
     (let (actual, v) = compare_exchange draining observed (st s i); s' = set_state i v s in
      if actual = observed then pop s' else stop_loop actual s')"

text \<open>\<^verbatim>\<open>join\<close>: \<^verbatim>\<open>pthread_join\<close> returns only once the thread has exited.\<close>

definition join_step :: "os_env \<Rightarrow> nat \<Rightarrow> sys \<Rightarrow> sys option" where
  "join_step os i s =
     (if joinable (base (ctl s i)) then
        if pc (rt s i) \<noteq> Exited then None
        else Some (case thread_join (join_rc os i) (joinable (base (ctl s i))) of
            Inl _ \<Rightarrow> sup_goto Sup_trapped s
          | Inr j \<Rightarrow> sup_goto Sup_check (set_base i (\<lambda>c. c\<lparr>joinable := j\<rparr>) s))
      else Some (sup_goto Sup_check s))"

fun sup_exec :: "os_env \<Rightarrow> sup_cmd \<Rightarrow> sys \<Rightarrow> sys option" where
  "sup_exec os (Construct_Acceptor k) s =
     Some (pop (s\<lparr>ctl := (ctl s)(k := acceptor_install_pipes k (acceptor_ctl_init k))\<rparr>))"
| "sup_exec os (Start i) s = Some (start_step os i s)"
| "sup_exec os (Wait_Running i) s = Some (if load_acquire (st s i) = running then pop s else s)"
| "sup_exec os Sigwait s = Some (if sigwait_rc os = 0 then pop s else sup_goto Sup_trapped s)"
| "sup_exec os (Request_Stop i) s = Some (case sup s of
       Sup_cas observed \<Rightarrow> stop_cas i observed s
     | _ \<Rightarrow> stop_loop (load_acquire (st s i)) s)"
| "sup_exec os (Join i) s = (case sup s of
       Sup_check \<Rightarrow> Some (if load_acquire (st s i) = stopped then pop s else sup_goto Sup_trapped s)
     | _ \<Rightarrow> join_step os i s)"
| "sup_exec os (Destroy i) s = Some (case thread_destroy (joinable (base (ctl s i))) of
       Inl _ \<Rightarrow> sup_goto Sup_trapped s | Inr _ \<Rightarrow> pop s)"

definition sup_step :: "os_env \<Rightarrow> sys \<Rightarrow> sys option" where
  "sup_step os s = (if sup s = Sup_trapped then None
     else case script s of [] \<Rightarrow> None | c # _ \<Rightarrow> sup_exec os c s)"

text \<open>\<^verbatim>\<open>main\<close> from step (5) on, with the destructors at the end of its scope.\<close>

definition main_script :: "nat \<Rightarrow> sup_cmd list" where
  "main_script k = map Start [0..<k] @ map Wait_Running [0..<k]
     @ [Construct_Acceptor k, Start k, Wait_Running k, Sigwait, Request_Stop k, Join k]
     @ map Request_Stop [0..<k] @ map Join [0..<k] @ [Destroy k] @ map Destroy (rev [0..<k])"

text \<open>Step (4): the worker table is filled with emplace_back and each block gets its pipes.\<close>

fun construct_workers :: "nat \<Rightarrow> nat list \<Rightarrow> role_ctl list \<Rightarrow> role_ctl list res" where
  "construct_workers k [] ws = Inr ws"
| "construct_workers k (i # rest) ws = LNX_CHECK (length ws < k)
     (case worker_ctl_init k i of Inl e \<Rightarrow> Inl e
      | Inr w \<Rightarrow> (let ws' = ws @ [w] in LNX_CHECK (i < length ws')
          (construct_workers k rest (ws'[i := worker_install_pipes i i (ws' ! i)]))))"

definition boot :: "sup_cmd list \<Rightarrow> nat \<Rightarrow> sys res" where
  "boot cmds k = (case construct_workers k [0..<k] [] of Inl e \<Rightarrow> Inl e
     | Inr ws \<Rightarrow> Inr \<lparr>ctl = (\<lambda>i. if i < length ws then ws ! i else acceptor_ctl_init k),
         rt = (\<lambda>_. \<lparr>pc = Unborn, tls_role = none, engine_ctl = None\<rparr>),
         script = cmds, sup = Sup_ready\<rparr>)"

inductive sys_step :: "os_env \<Rightarrow> sys \<Rightarrow> sys \<Rightarrow> bool" for os where
  thread: "entry_step os i s = Some s' \<Longrightarrow> sys_step os s s'"
| supervisor: "sup_step os s = Some s' \<Longrightarrow> sys_step os s s'"

inductive reach :: "os_env \<Rightarrow> sys \<Rightarrow> sys \<Rightarrow> bool" for os s0 where
  init: "reach os s0 s0"
| step: "reach os s0 s \<Longrightarrow> sys_step os s s' \<Longrightarrow> reach os s0 s'"

end
