(* ===== verification/LifecycleProofs.thy ===== *)
theory LifecycleProofs
  imports Lifecycle
begin

text \<open>
  Invariants of the supervised process: the lifecycle word of every thread, the supervisor's script,
  and what they give for \<^verbatim>\<open>main\<close>: no fatal check fires, states only move forward, the acceptor
  lives only while every worker runs, and the shutdown completes.
\<close>

lemmas state_words = starting_def running_def draining_def stopped_def

lemma state_distinct [simp]:
  "starting \<noteq> running" "starting \<noteq> draining" "starting \<noteq> stopped" "running \<noteq> starting"
  "running \<noteq> draining" "running \<noteq> stopped" "draining \<noteq> starting" "draining \<noteq> running"
  "draining \<noteq> stopped" "stopped \<noteq> starting" "stopped \<noteq> running" "stopped \<noteq> draining"
  by (simp_all add: state_words)

lemma set_base_simps [simp]:
  "ctl (set_base i f s) = (ctl s)(i := (ctl s i)\<lparr>base := f (base (ctl s i))\<rparr>)"
  "rt (set_base i f s) = rt s" "script (set_base i f s) = script s" "sup (set_base i f s) = sup s"
  by (simp_all add: set_base_def)

lemma set_rt_simps [simp]:
  "rt (set_rt i f s) = (rt s)(i := f (rt s i))"
  "ctl (set_rt i f s) = ctl s" "script (set_rt i f s) = script s" "sup (set_rt i f s) = sup s"
  by (simp_all add: set_rt_def)

lemma sup_simps [simp]:
  "ctl (pop s) = ctl s" "rt (pop s) = rt s" "script (pop s) = tl (script s)" "sup (pop s) = Sup_ready"
  "ctl (sup_goto p s) = ctl s" "rt (sup_goto p s) = rt s" "script (sup_goto p s) = script s"
  "sup (sup_goto p s) = p"
  by (simp_all add: pop_def sup_goto_def)

section \<open>The lifecycle of one thread\<close>

definition word_at :: "os_env \<Rightarrow> nat \<Rightarrow> tpc \<Rightarrow> thread_rt \<Rightarrow> role_ctl \<Rightarrow> bool" where
  "word_at os i p r c =
     (let v = ctl_state (base c); named = (tls_role r = ctl_role c); attached = (engine_ctl r = Some i);
          tid = (ctl_kernel_tid (base c) = os_tid os i) in
      case p of
        Unborn \<Rightarrow> v = starting \<or> (v = draining \<and> edges_installed c)
      | At_role \<Rightarrow> v \<in> {starting, draining} \<and> engine_ctl r = None
      | At_name \<Rightarrow> v \<in> {starting, draining} \<and> engine_ctl r = None \<and> named
      | At_tid \<Rightarrow> v \<in> {starting, draining} \<and> engine_ctl r = None \<and> named
      | At_engine \<Rightarrow> v \<in> {starting, draining} \<and> engine_ctl r = None \<and> named \<and> tid
      | At_cas \<Rightarrow> v \<in> {starting, draining} \<and> attached \<and> tid
      | At_loop \<Rightarrow> v \<in> {running, draining} \<and> attached \<and> tid
      | At_beat \<Rightarrow> v \<in> {running, draining} \<and> attached \<and> tid
      | At_publish \<Rightarrow> v = draining \<and> attached
      | At_short observed \<Rightarrow> observed = draining \<and> v = draining
      | Exited \<Rightarrow> v = stopped
      | Trapped \<Rightarrow> False)"

definition thread_inv :: "os_env \<Rightarrow> sys \<Rightarrow> nat \<Rightarrow> bool" where
  "thread_inv os s i \<longleftrightarrow> word_at os i (pc (rt s i)) (rt s i) (ctl s i)"

text \<open>A step of thread \<^term>\<open>i\<close> touches its own control block only, keeps its well-formedness, and
  moves its lifecycle word forward.\<close>

lemma entry_step_own:
  assumes step: "entry_step os i s = Some s'" and inv: "thread_inv os s i"
  shows "thread_inv os s' i \<and> (\<forall>j. j \<noteq> i \<longrightarrow> rt s' j = rt s j \<and> ctl s' j = ctl s j)
    \<and> script s' = script s \<and> sup s' = sup s
    \<and> joinable (base (ctl s' i)) = joinable (base (ctl s i))
    \<and> edges_in (ctl s' i) = edges_in (ctl s i) \<and> edges_out (ctl s' i) = edges_out (ctl s i)
    \<and> pc (rt s i) \<notin> {Unborn, Exited, Trapped} \<and> pc (rt s' i) \<noteq> Unborn
    \<and> (st s' i = st s i \<or> (st s i = starting \<and> st s' i = running \<and> pc (rt s i) = At_cas)
        \<or> (st s i = draining \<and> st s' i = stopped))"
  using assms
  by (cases "pc (rt s i)")
    (auto simp: thread_inv_def word_at_def Let_def atomic_defs engine_attach_def
      split: if_splits option.splits)

section \<open>Scripts the supervisor may run\<close>

datatype status = Unbuilt | Fresh | Started | Joined

definition status_of :: "sys \<Rightarrow> nat \<Rightarrow> status" where
  "status_of s i = (if pc (rt s i) = Unborn then (if edges_installed (ctl s i) then Fresh else Unbuilt)
     else if joinable (base (ctl s i)) then Started else Joined)"

text \<open>Construct before use, start once and with edges, join only what was started, destroy only what
  is not running; stop may be requested at any time, before start included.\<close>

fun script_ok :: "(nat \<Rightarrow> status) \<Rightarrow> sup_cmd list \<Rightarrow> bool" where
  "script_ok f [] = True"
| "script_ok f (Construct_Acceptor k # cs) = (f k = Unbuilt \<and> script_ok (f(k := Fresh)) cs)"
| "script_ok f (Start i # cs) = (f i = Fresh \<and> script_ok (f(i := Started)) cs)"
| "script_ok f (Join i # cs) = (f i \<in> {Started, Joined} \<and> script_ok (f(i := Joined)) cs)"
| "script_ok f (Destroy i # cs) = (f i \<noteq> Started \<and> script_ok f cs)"
| "script_ok f (Wait_Running i # cs) = (f i \<noteq> Unbuilt \<and> script_ok f cs)"
| "script_ok f (Request_Stop i # cs) = (f i \<noteq> Unbuilt \<and> script_ok f cs)"
| "script_ok f (Sigwait # cs) = script_ok f cs"

definition handle_inv :: "sys \<Rightarrow> nat \<Rightarrow> bool" where
  "handle_inv s i \<longleftrightarrow> (if pc (rt s i) = Unborn then \<not> joinable (base (ctl s i))
     else joinable (base (ctl s i)) \<or> pc (rt s i) = Exited)"

definition sup_inv :: "sys \<Rightarrow> bool" where
  "sup_inv s = (case sup s of
       Sup_ready \<Rightarrow> True
     | Sup_cas observed \<Rightarrow> observed \<in> {starting, running} \<and> (\<exists>i cs. script s = Request_Stop i # cs)
     | Sup_check \<Rightarrow> (\<exists>i cs. script s = Join i # cs \<and> pc (rt s i) = Exited \<and> \<not> joinable (base (ctl s i)))
     | Sup_trapped \<Rightarrow> False)"

definition sys_inv :: "os_env \<Rightarrow> sys \<Rightarrow> bool" where
  "sys_inv os s \<longleftrightarrow> (\<forall>i. thread_inv os s i) \<and> (\<forall>i. handle_inv s i)
     \<and> script_ok (status_of s) (script s) \<and> sup_inv s"

lemma sys_inv_thread_step:
  assumes inv: "sys_inv os s" and step: "entry_step os i s = Some s'"
  shows "sys_inv os s'"
proof -
  have "thread_inv os s i" using inv by (simp add: sys_inv_def)
  note own = entry_step_own [OF step this]
  have st: "status_of s' = status_of s"
  proof
    fix j show "status_of s' j = status_of s j"
      using own by (cases "j = i") (auto simp: status_of_def edges_installed_def)
  qed
  have "thread_inv os s' j" for j
    using inv own by (cases "j = i") (auto simp: sys_inv_def thread_inv_def)
  moreover have "handle_inv s' j" for j
  proof -
    have "handle_inv s j" using inv by (simp add: sys_inv_def)
    then show ?thesis using own by (cases "j = i") (auto simp: handle_inv_def)
  qed
  moreover have "sup_inv s'"
  proof -
    have "pc (rt s j) = Exited \<longrightarrow> j \<noteq> i" for j using own by auto
    moreover have "sup_inv s" using inv by (simp add: sys_inv_def)
    ultimately show ?thesis using own by (auto simp: sup_inv_def split: sup_pc.splits)
  qed
  ultimately show ?thesis using inv own st by (simp add: sys_inv_def)
qed

lemma untouched:
  assumes "rt s' j = rt s j" "ctl s' j = ctl s j"
  shows "thread_inv os s' j = thread_inv os s j" "handle_inv s' j = handle_inv s j" "status_of s' j = status_of s j"
  using assms by (simp_all add: thread_inv_def handle_inv_def status_of_def)

text \<open>A supervisor step changes at most thread \<^term>\<open>i\<close>: enough to look at \<^term>\<open>i\<close>.\<close>

lemma sys_inv_at:
  assumes inv: "sys_inv os s" and frame: "\<forall>j. j \<noteq> i \<longrightarrow> rt s' j = rt s j \<and> ctl s' j = ctl s j"
    and "thread_inv os s' i" "handle_inv s' i" "script_ok ((status_of s)(i := status_of s' i)) (script s')" "sup_inv s'"
  shows "sys_inv os s'"
proof -
  have "status_of s' = (status_of s)(i := status_of s' i)"
  proof
    fix j show "status_of s' j = ((status_of s)(i := status_of s' i)) j"
      using frame untouched(3) [of s' j s] by (cases "j = i") auto
  qed
  then have "script_ok (status_of s') (script s')" using assms(5) by metis
  moreover have "thread_inv os s' j" "handle_inv s' j" for j
    using assms(3,4) inv frame untouched [of s' j s] by (cases "j = i"; simp add: sys_inv_def)+
  ultimately show ?thesis using assms(6) by (simp add: sys_inv_def)
qed

lemma fresh_thread:
  assumes "sys_inv os s" "status_of s i \<in> {Unbuilt, Fresh}"
  shows "pc (rt s i) = Unborn \<and> \<not> joinable (base (ctl s i))"
  using assms unfolding sys_inv_def handle_inv_def status_of_def by (metis status.distinct insert_iff empty_iff)

lemma construct_inv:
  assumes inv: "sys_inv os s" and head: "script s = Construct_Acceptor k # cs"
    and s': "sup_exec os (Construct_Acceptor k) s = Some s'"
  shows "sys_inv os s'"
proof (rule sys_inv_at [OF inv, of k])
  have f: "pc (rt s k) = Unborn \<and> \<not> joinable (base (ctl s k))"
    by (rule fresh_thread [OF inv]) (use inv head in \<open>auto simp: sys_inv_def\<close>)
  note built = acceptor_install_pipes_def acceptor_ctl_init_def thread_ctl_init_def
  show "\<forall>j. j \<noteq> k \<longrightarrow> rt s' j = rt s j \<and> ctl s' j = ctl s j" using s' by auto
  show "thread_inv os s' k" using s' f by (auto simp: thread_inv_def word_at_def built)
  show "handle_inv s' k" using s' f by (auto simp: handle_inv_def built)
  have "status_of s' k = Fresh" using s' f by (auto simp: status_of_def built edges_installed_def)
  moreover have "script_ok ((status_of s)(k := Fresh)) cs" using inv head by (simp add: sys_inv_def)
  moreover have "script s' = cs" using s' head by auto
  ultimately show "script_ok ((status_of s)(k := status_of s' k)) (script s')" by simp
  show "sup_inv s'" using s' by (auto simp: sup_inv_def)
qed

lemma start_inv:
  assumes inv: "sys_inv os s" and os: "os_ok os" and head: "script s = Start i # cs"
    and s': "sup_exec os (Start i) s = Some s'"
  shows "sys_inv os s'"
proof (rule sys_inv_at [OF inv, of i])
  have fr: "status_of s i = Fresh" "script_ok ((status_of s)(i := Started)) cs"
    using inv head by (simp_all add: sys_inv_def)
  have f: "pc (rt s i) = Unborn \<and> \<not> joinable (base (ctl s i))"
    by (rule fresh_thread [OF inv]) (simp add: fr)
  have "edges_installed (ctl s i)" using fr(1) f by (simp add: status_of_def split: if_splits)
  then have s'_eq: "s' = pop (set_rt i (\<lambda>_. \<lparr>pc = At_role, tls_role = none, engine_ctl = None\<rparr>)
      (set_base i (\<lambda>c. c\<lparr>joinable := True\<rparr>) s))"
    using s' f os
    by (simp add: start_step_def ctl_start_def thread_create_def thread_move_assign_def os_ok_def)
  have "thread_inv os s i" using inv by (simp add: sys_inv_def)
  then show "thread_inv os s' i" using f by (auto simp: s'_eq thread_inv_def word_at_def Let_def)
  show "\<forall>j. j \<noteq> i \<longrightarrow> rt s' j = rt s j \<and> ctl s' j = ctl s j" by (simp add: s'_eq)
  show "handle_inv s' i" by (simp add: s'_eq handle_inv_def)
  show "script_ok ((status_of s)(i := status_of s' i)) (script s')"
    using fr(2) head by (simp add: s'_eq status_of_def)
  show "sup_inv s'" by (simp add: s'_eq sup_inv_def)
qed

text \<open>Steps that only pop the script, or change the supervisor's program point.\<close>

lemma untouched_all:
  assumes "rt s' = rt s" "ctl s' = ctl s"
  shows "thread_inv os s' = thread_inv os s" "handle_inv s' = handle_inv s" "status_of s' = status_of s"
  using assms by (simp_all add: thread_inv_def handle_inv_def status_of_def fun_eq_iff)

lemma pop_inv:
  assumes "sys_inv os s" "script_ok (status_of s) (tl (script s))"
  shows "sys_inv os (pop s)"
  using assms untouched_all [of "pop s" s] by (simp add: sys_inv_def) (simp add: sup_inv_def)

lemma sup_goto_inv:
  assumes "sys_inv os s" "sup_inv (sup_goto p s)"
  shows "sys_inv os (sup_goto p s)"
  using assms untouched_all [of "sup_goto p s" s] by (simp add: sys_inv_def)

text \<open>Writing draining over starting or running keeps every thread well-formed.\<close>

lemma drain_inv:
  assumes inv: "sys_inv os s" and v: "st s i \<in> {starting, running}" and built: "status_of s i \<noteq> Unbuilt"
    and ok: "script_ok (status_of s) (tl (script s))"
  shows "sys_inv os (pop (set_state i draining s))"
proof (rule sys_inv_at [OF inv, of i])
  let ?s = "pop (set_state i draining s)"
  have "thread_inv os s i" and h: "handle_inv s i" using inv by (simp_all add: sys_inv_def)
  then show "thread_inv os ?s i"
    using v built
    by (cases "pc (rt s i)") (auto simp: thread_inv_def word_at_def Let_def status_of_def edges_installed_def)
  show "handle_inv ?s i" using h by (simp add: handle_inv_def)
  have "status_of ?s i = status_of s i" by (simp add: status_of_def edges_installed_def)
  then show "script_ok ((status_of s)(i := status_of ?s i)) (script ?s)"
    using ok by (simp add: fun_upd_idem)
qed (simp_all add: sup_inv_def)

lemma stop_loop_inv:
  assumes inv: "sys_inv os s" and head: "script s = Request_Stop i # cs"
  shows "sys_inv os (stop_loop v s)"
proof -
  have "script_ok (status_of s) cs" using inv head by (simp add: sys_inv_def)
  then show ?thesis
    using pop_inv [OF inv] sup_goto_inv [OF inv] head by (simp add: stop_loop_def sup_inv_def)
qed

lemma set_state_same: "set_state i (st s i) s = s"
  by (simp add: set_base_def)

lemma request_stop_inv:
  assumes inv: "sys_inv os s" and head: "script s = Request_Stop i # cs"
    and s': "sup_exec os (Request_Stop i) s = Some s'"
  shows "sys_inv os s'"
proof (cases "sup s")
  case (Sup_cas v)
  then have v: "v \<in> {starting, running}" using inv by (simp add: sys_inv_def sup_inv_def)
  have "status_of s i \<noteq> Unbuilt" "script_ok (status_of s) (tl (script s))"
    using inv head by (simp_all add: sys_inv_def)
  note drain = drain_inv [OF inv _ this]
  show ?thesis
  proof (cases "st s i = v")
    case True
    then show ?thesis using s' Sup_cas v drain by (simp add: stop_cas_def compare_exchange_eq Let_def)
  next
    case False
    then show ?thesis
      using s' Sup_cas stop_loop_inv [OF inv head, of "st s i"]
      by (auto simp: stop_cas_def compare_exchange_eq Let_def set_state_same)
  qed
qed (use s' stop_loop_inv [OF inv head] in auto)

lemma join_inv:
  assumes inv: "sys_inv os s" and os: "os_ok os" and head: "script s = Join i # cs"
    and s': "sup_exec os (Join i) s = Some s'"
  shows "sys_inv os s'"
proof -
  have fr: "status_of s i \<in> {Started, Joined}" "script_ok ((status_of s)(i := Joined)) cs"
    and t: "thread_inv os s i" and h: "handle_inv s i"
    using inv head by (simp_all add: sys_inv_def)
  have born: "pc (rt s i) \<noteq> Unborn" using fr(1) by (auto simp: status_of_def split: if_splits)
  consider (check) "sup s = Sup_check" | (call) "sup s = Sup_ready"
    using inv head by (cases "sup s") (auto simp: sys_inv_def sup_inv_def)
  then show ?thesis
  proof cases
    case check
    then have ex: "pc (rt s i) = Exited" "\<not> joinable (base (ctl s i))"
      using inv head by (auto simp: sys_inv_def sup_inv_def)
    have "st s i = stopped" using t ex by (simp add: thread_inv_def word_at_def)
    then have "s' = pop s" using s' check by (simp add: load_acquire_def)
    moreover have "status_of s i = Joined" using ex by (simp add: status_of_def)
    then have "script_ok (status_of s) cs" using fr(2) by (simp add: fun_upd_idem)
    ultimately show ?thesis using pop_inv [OF inv] head by simp
  next
    case call
    show ?thesis
    proof (cases "joinable (base (ctl s i))")
      case True
      then have ex: "pc (rt s i) = Exited"
        and s'_eq: "s' = sup_goto Sup_check (set_base i (\<lambda>c. c\<lparr>joinable := False\<rparr>) s)"
        using s' call os by (auto simp: join_step_def thread_join_def os_ok_def split: if_splits)
      show ?thesis
      proof (rule sys_inv_at [OF inv, of i])
        show "thread_inv os s' i" using t ex by (simp add: s'_eq thread_inv_def word_at_def)
        show "script_ok ((status_of s)(i := status_of s' i)) (script s')"
          using fr(2) ex head by (simp add: s'_eq status_of_def)
      qed (use ex head in \<open>simp_all add: s'_eq handle_inv_def sup_inv_def\<close>)
    next
      case False
      then have "s' = sup_goto Sup_check s" "pc (rt s i) = Exited"
        using s' call h born by (auto simp: join_step_def handle_inv_def)
      then show ?thesis using sup_goto_inv [OF inv] head False by (simp add: sup_inv_def)
    qed
  qed
qed

lemma sys_inv_sup_step:
  assumes inv: "sys_inv os s" and os: "os_ok os" and step: "sup_step os s = Some s'"
  shows "sys_inv os s'"
proof -
  obtain c cs where head: "script s = c # cs" and s': "sup_exec os c s = Some s'"
    using step by (auto simp: sup_step_def split: if_splits list.splits)
  have ok: "script_ok (status_of s) (c # cs)" using inv head by (simp add: sys_inv_def)
  show ?thesis
  proof (cases c)
    case (Construct_Acceptor k)
    then show ?thesis using construct_inv inv head s' by blast
  next
    case (Start i)
    then show ?thesis using start_inv inv os head s' by blast
  next
    case (Wait_Running i)
    then show ?thesis using s' inv pop_inv [OF inv] ok head by (auto split: if_splits)
  next
    case Sigwait
    then show ?thesis using s' os pop_inv [OF inv] ok head by (auto simp: os_ok_def split: if_splits)
  next
    case (Request_Stop i)
    then show ?thesis using request_stop_inv inv head s' by blast
  next
    case (Join i)
    then show ?thesis using join_inv inv os head s' by blast
  next
    case (Destroy i)
    have "status_of s i \<noteq> Started" using ok Destroy by simp
    then have "\<not> joinable (base (ctl s i))"
      using inv by (auto simp: status_of_def sys_inv_def handle_inv_def split: if_splits)
    then show ?thesis using Destroy s' pop_inv [OF inv] ok head by (simp add: thread_destroy_def)
  qed
qed

lemma reach_inv:
  assumes "reach os s0 s" "os_ok os" "sys_inv os s0"
  shows "sys_inv os s"
  using assms
proof (induction rule: reach.induct)
  case (step s s')
  from step(2) show ?case
    using step sys_inv_thread_step sys_inv_sup_step by cases blast+
qed simp

section \<open>Boot\<close>

definition worker_block :: "nat \<Rightarrow> role_ctl" where
  "worker_block i = \<lparr>base = (thread_ctl_init i (Some []))\<lparr>ctl_name := copy_name 15 (worker_name i)\<rparr>,
     ctl_role = worker, edges_in = [Some i], edges_out = [Some i]\<rparr>"

lemma construct_workers_from:
  "length ws + d = k \<Longrightarrow> construct_workers k [length ws..<k] ws = Inr (ws @ map worker_block [length ws..<k])"
proof (induction d arbitrary: ws)
  case 0
  then show ?case by simp
next
  case (Suc d)
  have up: "[length ws..<k] = length ws # [Suc (length ws)..<k]" using Suc.prems by (simp add: upt_rec)
  have "construct_workers k [length (ws @ [worker_block (length ws)])..<k] (ws @ [worker_block (length ws)])
      = Inr ((ws @ [worker_block (length ws)]) @ map worker_block [length (ws @ [worker_block (length ws)])..<k])"
    using Suc.prems by (intro Suc.IH) simp
  then show ?case
    using Suc.prems
    by (simp add: up worker_ctl_init_def worker_install_pipes_def worker_block_def Let_def del: upt_Suc)
qed

definition boot_state :: "sup_cmd list \<Rightarrow> nat \<Rightarrow> sys" where
  "boot_state cmds k = \<lparr>ctl = (\<lambda>i. if i < k then worker_block i else acceptor_ctl_init k),
     rt = (\<lambda>_. \<lparr>pc = Unborn, tls_role = none, engine_ctl = None\<rparr>), script = cmds, sup = Sup_ready\<rparr>"

lemma boot_Inr: "boot cmds k = Inr (boot_state cmds k)"
  using construct_workers_from [of "[]" k k] by (simp add: boot_def boot_state_def fun_eq_iff)

definition boot_status :: "nat \<Rightarrow> nat \<Rightarrow> status" where
  "boot_status k i = (if i < k then Fresh else Unbuilt)"

lemma boot_status_of: "0 < k \<Longrightarrow> status_of (boot_state cmds k) = boot_status k"
  by (auto simp: status_of_def boot_state_def boot_status_def edges_installed_def worker_block_def
      acceptor_ctl_init_def fun_eq_iff)

lemma boot_inv: "0 < k \<Longrightarrow> script_ok (boot_status k) cmds \<Longrightarrow> sys_inv os (boot_state cmds k)"
  unfolding sys_inv_def boot_status_of
  by (auto simp: boot_state_def thread_inv_def word_at_def handle_inv_def sup_inv_def worker_block_def
      acceptor_ctl_init_def thread_ctl_init_def)

section \<open>The script of main\<close>

lemma script_ok_neutral [simp]:
  "script_ok f (map Wait_Running js @ cs) \<longleftrightarrow> (\<forall>i \<in> set js. f i \<noteq> Unbuilt) \<and> script_ok f cs"
  "script_ok f (map Request_Stop js @ cs) \<longleftrightarrow> (\<forall>i \<in> set js. f i \<noteq> Unbuilt) \<and> script_ok f cs"
  by (induction js) auto

lemma script_ok_start:
  "distinct js \<Longrightarrow> \<forall>i \<in> set js. f i = Fresh \<Longrightarrow> script_ok (\<lambda>i. if i \<in> set js then Started else f i) cs
    \<Longrightarrow> script_ok f (map Start js @ cs)"
proof (induction js arbitrary: f)
  case Nil
  then show ?case by simp
next
  case (Cons j js)
  have "(\<lambda>i. if i \<in> set (j # js) then Started else f i)
      = (\<lambda>i. if i \<in> set js then Started else (f(j := Started)) i)" by auto
  then have "script_ok (f(j := Started)) (map Start js @ cs)"
    using Cons.prems by (intro Cons.IH) auto
  then show ?case using Cons.prems by simp
qed

lemma script_ok_join:
  "\<forall>i \<in> set js. f i \<in> {Started, Joined} \<Longrightarrow> script_ok (\<lambda>i. if i \<in> set js then Joined else f i) cs
    \<Longrightarrow> script_ok f (map Join js @ cs)"
proof (induction js arbitrary: f)
  case Nil
  then show ?case by simp
next
  case (Cons j js)
  have "(\<lambda>i. if i \<in> set (j # js) then Joined else f i)
      = (\<lambda>i. if i \<in> set js then Joined else (f(j := Joined)) i)" by auto
  then have "script_ok (f(j := Joined)) (map Join js @ cs)"
    using Cons.prems by (intro Cons.IH) auto
  then show ?case using Cons.prems by simp
qed

lemma script_ok_destroy: "\<forall>i \<in> set js. f i \<noteq> Started \<Longrightarrow> script_ok f (map Destroy js)"
  by (induction js) simp_all

lemma main_script_ok: "script_ok (boot_status k) (main_script k)"
  unfolding main_script_def
  by (rule script_ok_start)
    (auto simp: boot_status_def intro!: script_ok_join script_ok_destroy)

lemma main_reach_inv:
  assumes "0 < k" "os_ok os" "boot (main_script k) k = Inr s0" "reach os s0 s"
  shows "sys_inv os s"
  using reach_inv [OF assms(4,2)] boot_inv [OF assms(1) main_script_ok] assms(3) by (simp add: boot_Inr)

section \<open>What a supervisor step does to the lifecycle words\<close>

lemma state_cases:
  "sys_inv os s \<Longrightarrow> st s i \<in> {starting, running, draining, stopped}"
  unfolding sys_inv_def thread_inv_def word_at_def Let_def
  by (drule conjunct1, drule spec [of _ i]) (cases "pc (rt s i)"; auto)

text \<open>Either the head command stays (a spin, a retry or the first half of a join) and no lifecycle word
  changes, or the command completes.\<close>

definition completes :: "sys \<Rightarrow> sup_cmd \<Rightarrow> sys \<Rightarrow> bool" where
  "completes s c s' \<longleftrightarrow> script s' = tl (script s)
     \<and> (\<forall>i. st s' i = st s i \<or> (c = Request_Stop i \<and> st s i \<in> {starting, running} \<and> st s' i = draining))
     \<and> (\<forall>i. c = Wait_Running i \<longrightarrow> st s' i = running)
     \<and> (\<forall>i. c = Request_Stop i \<longrightarrow> st s' i \<in> {draining, stopped})
     \<and> (\<forall>i. c = Join i \<longrightarrow> pc (rt s i) = Exited \<and> \<not> joinable (base (ctl s i)))
     \<and> (\<forall>i. joinable (base (ctl s' i)) \<longrightarrow> joinable (base (ctl s i)) \<or> c = Start i)
     \<and> (\<forall>i. rt s' i = rt s i \<or> c = Start i) \<and> (\<forall>i. c = Start i \<longrightarrow> pc (rt s' i) = At_role)"

lemma completesD:
  assumes "completes s c s'"
  shows "script s' = tl (script s)"
    "st s' i = st s i \<or> (c = Request_Stop i \<and> st s i \<in> {starting, running} \<and> st s' i = draining)"
    "c = Wait_Running i \<Longrightarrow> st s' i = running"
    "c = Request_Stop i \<Longrightarrow> st s' i \<in> {draining, stopped}"
    "c = Join i \<Longrightarrow> pc (rt s i) = Exited \<and> \<not> joinable (base (ctl s i))"
    "rt s' i = rt s i \<or> c = Start i" "c = Start i \<Longrightarrow> pc (rt s' i) = At_role"
    "joinable (base (ctl s' i)) \<Longrightarrow> joinable (base (ctl s i)) \<or> c = Start i"
  using assms unfolding completes_def by blast+

definition stays :: "sys \<Rightarrow> sys \<Rightarrow> bool" where
  "stays s s' \<longleftrightarrow> script s' = script s \<and> rt s' = rt s
     \<and> (\<forall>i. st s' i = st s i \<and> (joinable (base (ctl s' i)) \<longrightarrow> joinable (base (ctl s i))))"

lemma stop_loop_effect:
  assumes "sys_inv os s" "script s = Request_Stop i # cs"
  shows "stays s (stop_loop (st s i) s) \<or> completes s (Request_Stop i) (stop_loop (st s i) s)"
  using state_cases [OF assms(1), of i] by (auto simp: stop_loop_def stays_def completes_def)

lemma request_stop_effect:
  assumes inv: "sys_inv os s" and head: "script s = Request_Stop i # cs"
    and s': "sup_exec os (Request_Stop i) s = Some s'"
  shows "stays s s' \<or> completes s (Request_Stop i) s'"
proof (cases "sup s")
  case (Sup_cas v)
  then have v: "v \<in> {starting, running}" using inv by (simp add: sys_inv_def sup_inv_def)
  show ?thesis
  proof (cases "st s i = v")
    case True
    then show ?thesis using s' Sup_cas v
      by (auto simp: stop_cas_def compare_exchange_eq Let_def completes_def split: if_splits)
  next
    case False
    then show ?thesis
      using s' Sup_cas stop_loop_effect [OF inv head]
      by (auto simp: stop_cas_def compare_exchange_eq Let_def set_state_same)
  qed
qed (use s' stop_loop_effect [OF inv head] in \<open>auto simp: load_acquire_def\<close>)

lemma join_effect:
  assumes inv: "sys_inv os s" and os: "os_ok os" and head: "script s = Join i # cs"
    and s': "sup_exec os (Join i) s = Some s'"
  shows "stays s s' \<or> completes s (Join i) s'"
proof (cases "sup s = Sup_check")
  case True
  then have "pc (rt s i) = Exited" "\<not> joinable (base (ctl s i))" and "thread_inv os s i"
    using inv head by (auto simp: sys_inv_def sup_inv_def)
  then show ?thesis
    using s' True by (auto simp: completes_def thread_inv_def word_at_def load_acquire_def)
next
  case False
  then have "join_step os i s = Some s'" using s' by (auto split: sup_pc.splits)
  then have "stays s s'"
    using os by (auto simp: join_step_def stays_def thread_join_def os_ok_def split: if_splits)
  then show ?thesis by simp
qed

lemma construct_effect:
  assumes inv: "sys_inv os s" and head: "script s = Construct_Acceptor k # cs"
    and s': "sup_exec os (Construct_Acceptor k) s = Some s'"
  shows "completes s (Construct_Acceptor k) s'"
proof -
  have "status_of s k = Unbuilt" and t: "thread_inv os s k" using inv head by (simp_all add: sys_inv_def)
  then have "st s k = starting"
    by (auto simp: status_of_def thread_inv_def word_at_def Let_def split: if_splits)
  then show ?thesis
    using s' by (auto simp: completes_def acceptor_install_pipes_def acceptor_ctl_init_def thread_ctl_init_def split: if_splits)
qed

lemma sup_step_effect:
  assumes inv: "sys_inv os s" and os: "os_ok os" and step: "sup_step os s = Some s'"
  obtains c cs where "script s = c # cs" "stays s s' \<or> completes s c s'"
proof -
  obtain c cs where head: "script s = c # cs" and s': "sup_exec os c s = Some s'"
    using step by (auto simp: sup_step_def split: if_splits list.splits)
  have nt: "sup s' \<noteq> Sup_trapped"
    using sys_inv_sup_step [OF inv os step] by (auto simp: sys_inv_def sup_inv_def)
  have "stays s s' \<or> completes s c s'"
  proof (cases c)
    case (Construct_Acceptor k)
    then show ?thesis using construct_effect [OF inv] head s' by blast
  next
    case (Start i)
    then show ?thesis using s' nt
      by (auto simp: start_step_def completes_def split: sum.splits)
  next
    case (Wait_Running i)
    then show ?thesis using s' by (auto simp: stays_def completes_def load_acquire_def split: if_splits)
  next
    case Sigwait
    then show ?thesis using s' nt by (auto simp: completes_def split: if_splits)
  next
    case (Request_Stop i)
    then show ?thesis using request_stop_effect [OF inv] head s' by blast
  next
    case (Join i)
    then show ?thesis using join_effect [OF inv os] head s' by blast
  next
    case (Destroy i)
    then show ?thesis using s' nt by (auto simp: completes_def split: sum.splits)
  qed
  then show ?thesis using that head by blast
qed

definition forward :: "i32 \<Rightarrow> i32 \<Rightarrow> bool" where
  "forward v w \<longleftrightarrow> v = w \<or> (v, w) \<in> {(starting, running), (starting, draining), (running, draining), (draining, stopped)}"

lemma step_forward:
  assumes inv: "sys_inv os s" and os: "os_ok os" and step: "sys_step os s s'"
  shows "forward (st s i) (st s' i)"
  using step
proof cases
  case (thread j)
  then show ?thesis
    using entry_step_own [OF thread] inv by (cases "i = j") (auto simp: forward_def sys_inv_def)
next
  case supervisor
  then obtain c cs where "stays s s' \<or> completes s c s'" by (rule sup_step_effect [OF inv os])
  then show ?thesis
  proof
    assume "completes s c s'"
    from completesD(2) [OF this, of i] show ?thesis by (auto simp: forward_def)
  qed (simp add: forward_def stays_def)
qed

section \<open>Order of the commands of main\<close>

lemma main_script_set:
  "set (main_script k) = {c. \<exists>i \<le> k. c \<in> {Start i, Wait_Running i, Request_Stop i, Join i, Destroy i}}
     \<union> {Construct_Acceptor k, Sigwait}"
  by (auto simp: main_script_def le_less)

lemma main_script_distinct: "distinct (main_script k)"
  by (auto simp: main_script_def distinct_map inj_on_def)

definition precedes :: "nat \<Rightarrow> sup_cmd \<Rightarrow> sup_cmd \<Rightarrow> bool" where
  "precedes k a b \<longleftrightarrow> a \<in> set (takeWhile (\<lambda>x. x \<noteq> b) (main_script k))"

lemma takeWhile_append_all: "\<forall>x \<in> set xs. P x \<Longrightarrow> takeWhile P (xs @ ys) = xs @ takeWhile P ys"
  by simp

lemma main_precedes:
  "i < k \<Longrightarrow> precedes k (Wait_Running i) (Start k)" "i < k \<Longrightarrow> precedes k (Join k) (Request_Stop i)"
  "i \<le> k \<Longrightarrow> precedes k (Start i) (Wait_Running i)" "i \<le> k \<Longrightarrow> precedes k (Wait_Running i) (Request_Stop i)"
  "i \<le> k \<Longrightarrow> precedes k (Request_Stop i) (Join i)"
  by (auto simp: precedes_def main_script_def takeWhile_append le_less)

lemma suffix_precedes:
  assumes "main_script k = pre @ cs" "precedes k a b" "b \<in> set (main_script k)" "a \<in> set cs"
  shows "b \<in> set cs"
proof (rule ccontr)
  assume "b \<notin> set cs"
  then have b: "b \<in> set pre" using assms(1,3) by auto
  then have "takeWhile (\<lambda>x. x \<noteq> b) (main_script k) = takeWhile (\<lambda>x. x \<noteq> b) pre"
    unfolding assms(1) by (subst takeWhile_append1) auto
  then have "a \<in> set pre" using assms(2) by (auto simp: precedes_def dest: set_takeWhileD)
  then show False using assms(1,4) main_script_distinct [of k] by auto
qed

section \<open>Phases of main\<close>

definition phase_ok :: "sup_cmd list \<Rightarrow> i32 \<Rightarrow> tpc \<Rightarrow> bool \<Rightarrow> nat \<Rightarrow> bool" where
  "phase_ok cs v p j i \<longleftrightarrow> (Request_Stop i \<in> set cs \<longrightarrow> v \<in> {starting, running})
     \<and> (Wait_Running i \<notin> set cs \<longrightarrow> Request_Stop i \<in> set cs \<longrightarrow> v = running)
     \<and> (Request_Stop i \<notin> set cs \<longrightarrow> v \<in> {draining, stopped})
     \<and> (Start i \<notin> set cs \<longrightarrow> p \<noteq> Unborn) \<and> (Join i \<notin> set cs \<longrightarrow> p = Exited \<and> \<not> j)"

definition main_inv :: "nat \<Rightarrow> sys \<Rightarrow> bool" where
  "main_inv k s \<longleftrightarrow> (\<exists>pre. main_script k = pre @ script s)
     \<and> (\<forall>i \<le> k. phase_ok (script s) (st s i) (pc (rt s i)) (joinable (base (ctl s i))) i)"

lemma main_inv_boot: "main_inv k (boot_state (main_script k) k)"
  by (auto simp: main_inv_def phase_ok_def boot_state_def main_script_set worker_block_def
      acceptor_ctl_init_def thread_ctl_init_def)

lemma main_inv_thread:
  assumes inv: "sys_inv os s" and m: "main_inv k s" and step: "entry_step os j s = Some s'"
  shows "main_inv k s'"
proof -
  have "thread_inv os s j" using inv by (simp add: sys_inv_def)
  note own = entry_step_own [OF step this]
  have "phase_ok (script s) (st s' i) (pc (rt s' i)) (joinable (base (ctl s' i))) i" if "phase_ok (script s) (st s i) (pc (rt s i)) (joinable (base (ctl s i))) i" for i
    using that own by (cases "i = j") (auto simp: phase_ok_def)
  then show ?thesis using m own by (auto simp: main_inv_def)
qed

lemma phase_ok_next:
  assumes "phase_ok (c # cs) v p j i" and d: "c \<notin> set cs"
    and v: "v' = v \<or> (c = Request_Stop i \<and> v' = draining)"
    and "c = Wait_Running i \<Longrightarrow> v' = running" "c = Request_Stop i \<Longrightarrow> v' \<in> {draining, stopped}"
    and "c = Join i \<Longrightarrow> p = Exited \<and> \<not> j" and p: "p' = p \<or> c = Start i" and "c = Start i \<Longrightarrow> p' = At_role" "c = Start i \<Longrightarrow> p = Unborn"
    and j: "j' \<Longrightarrow> j \<or> c = Start i"
  shows "phase_ok cs v' p' j' i"
  unfolding phase_ok_def
proof (intro conjI impI)
  note old = assms(1) [unfolded phase_ok_def set_simps insert_iff]
  show "v' \<in> {starting, running}" if "Request_Stop i \<in> set cs" using old that v d by blast
  show "v' = running" if "Wait_Running i \<notin> set cs" "Request_Stop i \<in> set cs"
    using old that v d assms(4) by blast
  show "v' \<in> {draining, stopped}" if "Request_Stop i \<notin> set cs" using old that v assms(5) by blast
  show "p' \<noteq> Unborn" if "Start i \<notin> set cs" using old that p assms(8) by (metis tpc.distinct(1))
  show "p' = Exited" if "Join i \<notin> set cs"
  proof (cases "c = Join i")
    case True
    then show ?thesis using assms(6) p by auto
  next
    case False
    then have "p = Exited" using old that by blast
    then show ?thesis using p assms(9) by auto
  qed
  show "\<not> j'" if "Join i \<notin> set cs"
  proof (cases "c = Join i")
    case True
    then show ?thesis using assms(6) j by auto
  next
    case False
    then have "p = Exited" "\<not> j" using old that by blast+
    then show ?thesis using j assms(9) by auto
  qed
qed

lemma phase_ok_completes:
  assumes "phase_ok (c # cs) (st s i) (pc (rt s i)) (joinable (base (ctl s i))) i" "completes s c s'" "distinct (c # cs)"
    "c = Start i \<Longrightarrow> pc (rt s i) = Unborn"
  shows "phase_ok cs (st s' i) (pc (rt s' i)) (joinable (base (ctl s' i))) i"
  using assms(3,4) completesD(2-8) [OF assms(2), of i]
  by (intro phase_ok_next [OF assms(1)]) auto

lemma main_inv_sup:
  assumes inv: "sys_inv os s" and os: "os_ok os" and m: "main_inv k s" and step: "sup_step os s = Some s'"
  shows "main_inv k s'"
proof -
  obtain c cs where head: "script s = c # cs" and e: "stays s s' \<or> completes s c s'"
    using step by (rule sup_step_effect [OF inv os])
  obtain pre where pre: "main_script k = pre @ c # cs" using m head by (auto simp: main_inv_def)
  then have d: "distinct (c # cs)" using main_script_distinct [of k] by simp
  from e show ?thesis
  proof
    assume "stays s s'"
    then have eq: "script s' = script s" "rt s' = rt s" "st s' i = st s i"
      "joinable (base (ctl s' i)) \<Longrightarrow> joinable (base (ctl s i))" for i by (simp_all add: stays_def)
    show ?thesis unfolding main_inv_def eq
    proof (intro conjI allI impI)
      fix i assume "i \<le> k"
      then have "phase_ok (script s) (st s i) (pc (rt s i)) (joinable (base (ctl s i))) i"
        using m by (simp add: main_inv_def)
      then show "phase_ok (script s) (st s i) (pc (rt s i)) (joinable (base (ctl s' i))) i"
        using eq(4) [of i] unfolding phase_ok_def by blast
    qed (use m in \<open>simp add: main_inv_def\<close>)
  next
    assume c: "completes s c s'"
    then have sc: "script s' = cs" using completesD(1) [OF c] head by simp
    have "phase_ok cs (st s' i) (pc (rt s' i)) (joinable (base (ctl s' i))) i" if "i \<le> k" for i
    proof (rule phase_ok_completes [OF _ c d])
      show "phase_ok (c # cs) (st s i) (pc (rt s i)) (joinable (base (ctl s i))) i" using that m head by (simp add: main_inv_def)
      show "pc (rt s i) = Unborn" if "c = Start i"
        using fresh_thread [OF inv, of i] inv head that by (simp add: sys_inv_def)
    qed
    moreover have "\<exists>pre. main_script k = pre @ cs" using pre by (intro exI [of _ "pre @ [c]"]) simp
    ultimately show ?thesis using sc by (simp add: main_inv_def)
  qed
qed

lemma main_reach:
  assumes "0 < k" "os_ok os" "boot (main_script k) k = Inr s0" "reach os s0 s"
  shows "sys_inv os s \<and> main_inv k s"
  using assms(4)
proof (induction rule: reach.induct)
  case init
  then show ?case
    using boot_inv [OF assms(1) main_script_ok] main_inv_boot [of k] assms(3) by (auto simp: boot_Inr)
next
  case (step s s')
  from step(2) show ?case
  proof cases
    case (thread i)
    then show ?thesis using step.IH sys_inv_thread_step main_inv_thread by blast
  next
    case supervisor
    then show ?thesis using step.IH assms(2) sys_inv_sup_step main_inv_sup by blast
  qed
qed

section \<open>Progress of main\<close>

fun pc_rank :: "tpc \<Rightarrow> nat" where
  "pc_rank At_role = 8" | "pc_rank At_name = 7" | "pc_rank At_tid = 6" | "pc_rank At_engine = 5"
| "pc_rank At_cas = 4" | "pc_rank At_beat = 3" | "pc_rank At_loop = 2" | "pc_rank At_publish = 1"
| "pc_rank (At_short _) = 1" | "pc_rank _ = 0"

definition sup_rank :: "sys \<Rightarrow> nat" where
  "sup_rank s = (case sup s of Sup_ready \<Rightarrow> 3
     | Sup_cas v \<Rightarrow> (case script s of Request_Stop i # _ \<Rightarrow> if st s i = v then 1 else 2 | _ \<Rightarrow> 0) | _ \<Rightarrow> 0)"

definition progress :: "nat \<Rightarrow> (sys \<times> sys) set" where
  "progress k = inv_image (less_than <*lex*> less_than <*lex*> less_than)
     (\<lambda>s. (length (script s), \<Sum>i\<le>k. pc_rank (pc (rt s i)), sup_rank s))"

lemma wf_progress: "wf (progress k)"
  by (auto simp: progress_def)

lemma progress_pop: "script s = c # cs \<Longrightarrow> script s' = cs \<Longrightarrow> (s', s) \<in> progress k"
  by (simp add: progress_def)

lemma progress_sup: "script s' = script s \<Longrightarrow> rt s' = rt s \<Longrightarrow> sup_rank s' < sup_rank s \<Longrightarrow> (s', s) \<in> progress k"
  by (simp add: progress_def)

lemma progress_thread:
  assumes inv: "sys_inv os s" and step: "entry_step os i s = Some s'" and i: "i \<le> k"
    and rank: "pc_rank (pc (rt s' i)) < pc_rank (pc (rt s i))"
  shows "(s', s) \<in> progress k"
proof -
  have "thread_inv os s i" using inv by (simp add: sys_inv_def)
  note own = entry_step_own [OF step this]
  have "(\<Sum>j\<le>k. pc_rank (pc (rt s' j))) < (\<Sum>j\<le>k. pc_rank (pc (rt s j)))"
  proof (rule sum_strict_mono_ex1)
    show "\<forall>j \<in> {..k}. pc_rank (pc (rt s' j)) \<le> pc_rank (pc (rt s j))"
    proof
      fix j show "pc_rank (pc (rt s' j)) \<le> pc_rank (pc (rt s j))"
        using own rank by (cases "j = i") auto
    qed
  qed (use i rank in auto)
  then show ?thesis using own by (simp add: progress_def)
qed

text \<open>A live thread that is not in its running loop with the word still at running moves on.\<close>

lemma thread_moves:
  assumes inv: "sys_inv os s" and p: "pc (rt s i) \<notin> {Unborn, Exited}"
    and v: "st s i \<noteq> running" and i: "i \<le> k"
  shows "\<exists>s'. sys_step os s s' \<and> (s', s) \<in> progress k"
proof -
  have t: "thread_inv os s i" using inv by (simp add: sys_inv_def)
  obtain s' where s': "entry_step os i s = Some s'"
    and rank: "pc_rank (pc (rt s' i)) < pc_rank (pc (rt s i))"
    using p v t
    by (cases "pc (rt s i)")
      (auto simp: thread_inv_def word_at_def Let_def atomic_defs engine_attach_def)
  then show ?thesis using progress_thread [OF inv s' i rank] sys_step.thread by blast
qed

lemma head_before:
  assumes m: "main_inv k s" and head: "script s = c # cs" and "precedes k a c"
  shows "a \<notin> set (script s)"
proof
  assume a: "a \<in> set (script s)"
  obtain pre where pre: "main_script k = pre @ c # cs" using m head by (auto simp: main_inv_def)
  then have "distinct (pre @ c # cs)" using main_script_distinct [of k] by simp
  then have "takeWhile (\<lambda>x. x \<noteq> c) (main_script k) = pre"
    unfolding pre by (subst takeWhile_append2) auto
  then have "a \<in> set pre" using assms(3) by (simp add: precedes_def)
  then show False using \<open>distinct (pre @ c # cs)\<close> a head by auto
qed

lemma main_index: "main_inv k s \<Longrightarrow> script s = c # cs \<Longrightarrow> c \<in> set (main_script k)"
  by (auto simp: main_inv_def)

lemma supervisor_moves:
  assumes "sys_inv os s" "script s = c # cs" "sup_exec os c s = Some s'" "(s', s) \<in> progress k"
  shows "\<exists>s'. sys_step os s s' \<and> (s', s) \<in> progress k"
proof -
  have "sup s \<noteq> Sup_trapped" using assms(1) by (auto simp: sys_inv_def sup_inv_def)
  then have "sup_step os s = Some s'" using assms(2,3) by (simp add: sup_step_def)
  then show ?thesis using assms(4) sys_step.supervisor by blast
qed

lemma stop_loop_progress:
  assumes "script s = Request_Stop i # cs" "sup_rank s \<ge> 2"
  shows "(stop_loop (st s i) s, s) \<in> progress k"
proof (cases "st s i = starting \<or> st s i = running")
  case True
  then show ?thesis
    using assms progress_sup [of "sup_goto (Sup_cas (st s i)) s" s k]
    by (auto simp: stop_loop_def sup_rank_def)
next
  case False
  then show ?thesis using assms(1) progress_pop [OF assms(1), of "pop s"] by (simp add: stop_loop_def)
qed

lemma request_stop_progress:
  assumes inv: "sys_inv os s" and head: "script s = Request_Stop i # cs"
  shows "\<exists>s'. sys_step os s s' \<and> (s', s) \<in> progress k"
proof -
  consider (ready) "sup s = Sup_ready" | (hit) "sup s = Sup_cas (st s i)"
    | (miss) v where "sup s = Sup_cas v" "v \<noteq> st s i"
    using inv head by (cases "sup s") (auto simp: sys_inv_def sup_inv_def)
  then show ?thesis
  proof cases
    case ready
    have "(stop_loop (st s i) s, s) \<in> progress k"
      by (rule stop_loop_progress [OF head]) (simp add: ready sup_rank_def)
    then show ?thesis using supervisor_moves [OF inv head] ready by (simp add: load_acquire_def)
  next
    case hit
    then show ?thesis
      using supervisor_moves [OF inv head] progress_pop [OF head, of "pop (set_state i draining s)"] head
      by (simp add: stop_cas_def compare_exchange_eq)
  next
    case miss
    have "(stop_loop (st s i) s, s) \<in> progress k"
      by (rule stop_loop_progress [OF head]) (use miss head in \<open>simp add: sup_rank_def\<close>)
    then show ?thesis
      using supervisor_moves [OF inv head] miss
      by (simp add: stop_cas_def compare_exchange_eq set_state_same)
  qed
qed

lemma join_progress:
  assumes inv: "sys_inv os s" and os: "os_ok os" and m: "main_inv k s" and head: "script s = Join i # cs"
  shows "\<exists>s'. sys_step os s s' \<and> (s', s) \<in> progress k"
proof -
  have i: "i \<le> k" using main_index [OF m head] by (auto simp: main_script_set)
  have t: "thread_inv os s i" and h: "handle_inv s i" and fr: "status_of s i \<in> {Started, Joined}"
    using inv head by (simp_all add: sys_inv_def)
  have born: "pc (rt s i) \<noteq> Unborn" using fr by (auto simp: status_of_def split: if_splits)
  have "Request_Stop i \<notin> set (script s)" by (rule head_before [OF m head main_precedes(5) [OF i]])
  then have v: "st s i \<noteq> running" using m i by (auto simp: main_inv_def phase_ok_def)
  show ?thesis
  proof (cases "pc (rt s i) = Exited")
    case False
    then show ?thesis using thread_moves [OF inv _ v i] born by simp
  next
    case True
    then have "st s i = stopped" using t by (simp add: thread_inv_def word_at_def)
    consider (check) "sup s = Sup_check" | (ready) "sup s = Sup_ready"
      using inv head by (cases "sup s") (auto simp: sys_inv_def sup_inv_def)
    then show ?thesis
    proof cases
      case check
      then show ?thesis
        using supervisor_moves [OF inv head, of "pop s"] progress_pop [OF head, of "pop s"] head \<open>st s i = stopped\<close>
        by (simp add: load_acquire_def)
    next
      case ready
      let ?s = "sup_goto Sup_check (if joinable (base (ctl s i)) then set_base i (\<lambda>c. c\<lparr>joinable := False\<rparr>) s else s)"
      have "sup_exec os (Join i) s = Some ?s"
        using ready True os by (simp add: join_step_def thread_join_def os_ok_def)
      moreover have "(?s, s) \<in> progress k"
        by (rule progress_sup) (use ready in \<open>simp_all add: sup_rank_def\<close>)
      ultimately show ?thesis by (rule supervisor_moves [OF inv head])
    qed
  qed
qed

lemma wait_progress:
  assumes inv: "sys_inv os s" and m: "main_inv k s" and head: "script s = Wait_Running i # cs"
  shows "\<exists>s'. sys_step os s s' \<and> (s', s) \<in> progress k"
proof (cases "st s i = running")
  case True
  then show ?thesis
    using supervisor_moves [OF inv head, of "pop s"] progress_pop [OF head, of "pop s"] head
    by (simp add: load_acquire_def)
next
  case False
  have i: "i \<le> k" using main_index [OF m head] by (auto simp: main_script_set)
  obtain pre where pre: "main_script k = pre @ script s" using m by (auto simp: main_inv_def)
  have "Start i \<notin> set (script s)" by (rule head_before [OF m head main_precedes(3) [OF i]])
  then have born: "pc (rt s i) \<noteq> Unborn" using m i by (simp add: main_inv_def phase_ok_def)
  have "Request_Stop i \<in> set (script s)"
    by (rule suffix_precedes [OF pre main_precedes(4) [OF i]]) (use i head in \<open>auto simp: main_script_set\<close>)
  then have "st s i = starting" using m i False by (auto simp: main_inv_def phase_ok_def)
  moreover have "thread_inv os s i" using inv by (simp add: sys_inv_def)
  ultimately have "pc (rt s i) \<noteq> Exited" by (auto simp: thread_inv_def word_at_def)
  with born show ?thesis using thread_moves [OF inv _ False i] by simp
qed

lemma start_progress:
  assumes inv: "sys_inv os s" and os: "os_ok os" and head: "script s = Start i # cs"
  shows "\<exists>s'. sys_step os s s' \<and> (s', s) \<in> progress k"
proof -
  have fr: "status_of s i = Fresh" using inv head by (simp add: sys_inv_def)
  then have "pc (rt s i) = Unborn \<and> \<not> joinable (base (ctl s i))" by (intro fresh_thread [OF inv]) simp
  moreover from this have "edges_installed (ctl s i)" using fr by (simp add: status_of_def split: if_splits)
  ultimately have "script (start_step os i s) = cs"
    using os head by (simp add: start_step_def ctl_start_def thread_create_def thread_move_assign_def os_ok_def)
  then show ?thesis
    using supervisor_moves [OF inv head, of "start_step os i s"] progress_pop [OF head] by simp
qed

lemma main_progress:
  assumes inv: "sys_inv os s" and os: "os_ok os" and m: "main_inv k s" and head: "script s = c # cs"
  shows "\<exists>s'. sys_step os s s' \<and> (s', s) \<in> progress k"
proof (cases c)
  case (Construct_Acceptor j)
  then show ?thesis
    using supervisor_moves [OF inv head] progress_pop [OF head] head by simp
next
  case Sigwait
  then show ?thesis
    using supervisor_moves [OF inv head, of "pop s"] progress_pop [OF head, of "pop s"] head os
    by (simp add: os_ok_def)
next
  case (Destroy i)
  then have "status_of s i \<noteq> Started" using inv head by (simp add: sys_inv_def)
  then have "\<not> joinable (base (ctl s i))"
    using inv by (auto simp: status_of_def sys_inv_def handle_inv_def split: if_splits)
  then show ?thesis
    using Destroy supervisor_moves [OF inv head, of "pop s"] progress_pop [OF head, of "pop s"] head
    by (simp add: thread_destroy_def)
next
  case (Start i)
  then show ?thesis using start_progress [OF inv os] head by simp
next
  case (Wait_Running i)
  then show ?thesis using wait_progress [OF inv m] head by simp
next
  case (Request_Stop i)
  then show ?thesis using request_stop_progress [OF inv] head by simp
next
  case (Join i)
  then show ?thesis using join_progress [OF inv os m] head by simp
qed

lemma reach_trans: "reach os s1 s2 \<Longrightarrow> reach os s0 s1 \<Longrightarrow> reach os s0 s2"
  by (induction rule: reach.induct) (auto intro: reach.step)

lemma main_can_finish:
  assumes "sys_inv os s" "main_inv k s" "os_ok os"
  shows "\<exists>s'. reach os s s' \<and> script s' = []"
  using wf_progress [of k] assms
proof (induction s rule: wf_induct_rule)
  case (less s)
  show ?case
  proof (cases "script s")
    case Nil
    then show ?thesis using reach.init by blast
  next
    case (Cons c cs)
    then obtain s1 where s1: "sys_step os s s1" "(s1, s) \<in> progress k"
      using main_progress less.prems by blast
    from s1(1) have "sys_inv os s1 \<and> main_inv k s1"
      by cases (use less.prems sys_inv_thread_step sys_inv_sup_step main_inv_thread main_inv_sup in blast)+
    then obtain s' where s': "reach os s1 s'" "script s' = []" using less.IH [OF s1(2)] less.prems by blast
    have "reach os s s1" using s1(1) reach.init reach.step by blast
    then show ?thesis using s' reach_trans by blast
  qed
qed

lemma script_ok_fresh: "script_ok f cs \<Longrightarrow> Start i \<in> set cs \<Longrightarrow> f i \<in> {Unbuilt, Fresh}"
  by (induction f cs rule: script_ok.induct) (auto split: if_splits)

text \<open>A schedule, to run concrete interleavings: \<^term>\<open>None\<close> is the supervisor.\<close>

fun run_schedule :: "os_env \<Rightarrow> nat option list \<Rightarrow> sys \<Rightarrow> sys option" where
  "run_schedule os [] s = Some s"
| "run_schedule os (None # xs) s = (case sup_step os s of None \<Rightarrow> None | Some s' \<Rightarrow> run_schedule os xs s')"
| "run_schedule os (Some i # xs) s = (case entry_step os i s of None \<Rightarrow> None | Some s' \<Rightarrow> run_schedule os xs s')"

lemma run_schedule_reach: "run_schedule os xs s = Some s' \<Longrightarrow> reach os s s'"
proof (induction os xs s rule: run_schedule.induct)
  case (2 os xs s)
  then obtain s1 where s1: "sup_step os s = Some s1" "reach os s1 s'" by (auto split: option.splits)
  then have "reach os s s1" by (blast intro: reach.intros sys_step.intros)
  then show ?case using s1(2) reach_trans by blast
next
  case (3 os i xs s)
  then obtain s1 where s1: "entry_step os i s = Some s1" "reach os s1 s'" by (auto split: option.splits)
  then have "reach os s s1" by (blast intro: reach.intros sys_step.intros)
  then show ?case using s1(2) reach_trans by blast
qed (auto intro: reach.init)

lemma run_schedule_reachable:
  "(case run_schedule os xs s of None \<Rightarrow> False | Some s' \<Rightarrow> P s') \<Longrightarrow> \<exists>s'. reach os s s' \<and> P s'"
  by (cases "run_schedule os xs s") (auto dest: run_schedule_reach)

text \<open>When the script is used up every thread has been joined.\<close>

lemma finished_state:
  assumes inv: "sys_inv os s" and m: "main_inv k s" and nil: "script s = []"
  shows "sup s = Sup_ready
    \<and> (\<forall>i \<le> k. pc (rt s i) = Exited \<and> st s i = stopped \<and> \<not> joinable (base (ctl s i)))"
proof -
  have "sup s = Sup_ready" using inv nil by (cases "sup s") (auto simp: sys_inv_def sup_inv_def)
  moreover have ex: "pc (rt s i) = Exited" if "i \<le> k" for i
    using m that nil by (simp add: main_inv_def phase_ok_def)
  moreover have "st s i = stopped" if "i \<le> k" for i
  proof -
    have "thread_inv os s i" using inv by (simp add: sys_inv_def)
    then show ?thesis using ex [OF that] by (simp add: thread_inv_def word_at_def)
  qed
  moreover have "\<not> joinable (base (ctl s i))" if "i \<le> k" for i
    using m that nil by (simp add: main_inv_def phase_ok_def)
  ultimately show ?thesis by blast
qed

section \<open>Properties\<close>

text \<open>An operating system that never fails, for the concrete instances.\<close>

definition good_os :: os_env where
  "good_os = \<lparr>create_rc = (\<lambda>_. 0), join_rc = (\<lambda>_. 0), sigwait_rc = 0, os_tid = (\<lambda>i. of_nat (100 + i))\<rparr>"

lemma good_os_ok: "os_ok good_os"
  by (simp add: os_ok_def good_os_def)

definition stop_at_once :: "sup_cmd list" where
  "stop_at_once = [Start 0, Request_Stop 0, Join 0, Destroy 0]"

text \<open>
  C18. No fatal check of the thread machinery fires. Take any roster size, an operating system
  whose thread calls succeed, and a supervisor that runs any sequence of start, wait, stop, join
  and destroy calls in which a thread is started once, after its pipes are installed, and joined before it is
  destroyed (a stop may come at any time, even before the thread has published running). Then in
  every interleaving neither the supervisor nor a spawned thread traps: not the role guards, not
  attach, not the trampoline's check of the lost compare-exchange, not join's post-check of stopped, not the
  thread destructor. The calls main makes are such a sequence, and its construction phase
  succeeds.
\<close>

theorem no_lifecycle_check_traps:
  assumes "0 < k" "os_ok os" "boot cmds k = Inr s0" "script_ok (boot_status k) cmds" "reach os s0 s"
  shows "sup s \<noteq> Sup_trapped \<and> (\<forall>i. pc (rt s i) \<noteq> Trapped)
    \<and> script_ok (boot_status k) (main_script k) \<and> (\<exists>s1. boot (main_script k) k = Inr s1)"
proof -
  have inv: "sys_inv os s"
    using reach_inv [OF assms(5,2)] boot_inv [OF assms(1,4)] assms(3) by (auto simp: boot_Inr)
  have "pc (rt s i) \<noteq> Trapped" for i
  proof -
    have "thread_inv os s i" using inv by (simp add: sys_inv_def)
    then show ?thesis by (auto simp: thread_inv_def word_at_def)
  qed
  moreover have "sup s \<noteq> Sup_trapped" using inv by (auto simp: sys_inv_def sup_inv_def)
  ultimately show ?thesis using main_script_ok by (simp add: boot_Inr)
qed

theorem no_lifecycle_check_traps_witness:
  "\<exists>s. reach good_os (boot_state stop_at_once 1) s \<and> st s 0 = draining \<and> sup s \<noteq> Sup_trapped"
proof -
  have "\<exists>s. reach good_os (boot_state stop_at_once 1) s \<and> st s 0 = draining"
    by (rule run_schedule_reachable [where xs = "[None, Some 0, None, None]"]) code_simp
  then obtain s where s: "reach good_os (boot_state stop_at_once 1) s" "st s 0 = draining" by blast
  have "script_ok (boot_status 1) stop_at_once" by (simp add: stop_at_once_def boot_status_def)
  then have "sup s \<noteq> Sup_trapped"
    using no_lifecycle_check_traps [OF _ good_os_ok boot_Inr _ s(1)] by simp
  then show ?thesis using s by blast
qed

text \<open>
  A thread's lifecycle word only moves forward, and only along starting to running, starting to
  draining, running to draining and draining to stopped: in particular the trampoline's promotion to
  running never overwrites a draining that request_stop has already published.
\<close>

theorem lifecycle_moves_forward:
  assumes "0 < k" "os_ok os" "boot cmds k = Inr s0" "script_ok (boot_status k) cmds" "reach os s0 s"
    and "sys_step os s s'"
  shows "forward (st s i) (st s' i)"
proof -
  have "sys_inv os s"
    using reach_inv [OF assms(5,2)] boot_inv [OF assms(1,4)] assms(3) by (auto simp: boot_Inr)
  then show ?thesis using step_forward assms(2,6) by blast
qed

theorem lifecycle_moves_forward_witness:
  "forward (st (boot_state stop_at_once 1) 0) (st (start_step good_os 0 (boot_state stop_at_once 1)) 0)"
proof (rule lifecycle_moves_forward [OF _ good_os_ok boot_Inr _ reach.init])
  show "script_ok (boot_status 1) stop_at_once" by (simp add: stop_at_once_def boot_status_def)
  show "sys_step good_os (boot_state stop_at_once 1) (start_step good_os 0 (boot_state stop_at_once 1))"
    by (rule sys_step.supervisor) (simp add: sup_step_def boot_state_def stop_at_once_def)
qed simp

text \<open>
  C20. In the server process started by main, the acceptor thread exists only while every worker is
  running: from the moment the acceptor is spawned until it has exited, each worker's lifecycle
  word is running (the boot barrier and the shutdown order together).
\<close>

theorem acceptor_only_while_workers_run:
  assumes "0 < k" "os_ok os" "boot (main_script k) k = Inr s0" "reach os s0 s"
    and "pc (rt s k) \<noteq> Unborn" "pc (rt s k) \<noteq> Exited" "i < k"
  shows "st s i = running"
proof -
  have inv: "sys_inv os s" and m: "main_inv k s" using main_reach [OF assms(1-4)] by auto
  obtain pre where pre: "main_script k = pre @ script s" using m by (auto simp: main_inv_def)
  note pk = m [unfolded main_inv_def phase_ok_def, THEN conjunct2, rule_format, of k]
  have "Join k \<in> set (script s)" using pk assms(6) by auto
  then have rs: "Request_Stop i \<in> set (script s)"
    using suffix_precedes [OF pre main_precedes(2) [OF assms(7)]] assms(7) by (auto simp: main_script_set)
  have "Start k \<notin> set (script s)"
  proof
    assume st: "Start k \<in> set (script s)"
    have "script_ok (status_of s) (script s)" using inv by (simp add: sys_inv_def)
    then have "status_of s k \<in> {Unbuilt, Fresh}" using st by (rule script_ok_fresh)
    then show False using assms(5) by (auto simp: status_of_def split: if_splits)
  qed
  then have "Wait_Running i \<notin> set (script s)"
    using suffix_precedes [OF pre main_precedes(1) [OF assms(7)]] by (auto simp: main_script_set)
  with rs show ?thesis using m assms(7) by (auto simp: main_inv_def phase_ok_def)
qed

theorem acceptor_only_while_workers_run_witness:
  "\<exists>s. reach good_os (boot_state (main_script 1) 1) s \<and> pc (rt s 1) = At_name \<and> st s 0 = running"
proof -
  have "\<exists>s. reach good_os (boot_state (main_script 1) 1) s \<and> pc (rt s 1) = At_name"
    by (rule run_schedule_reachable
        [where xs = "[None, Some 0, Some 0, Some 0, None, Some 0, Some 0, None, Some 0, None, None, Some 1]"]) code_simp
  then obtain s where s: "reach good_os (boot_state (main_script 1) 1) s" "pc (rt s 1) = At_name" by blast
  then have "st s 0 = running"
    using acceptor_only_while_workers_run [OF _ good_os_ok boot_Inr s(1), of 0] by simp
  then show ?thesis using s by blast
qed

text \<open>
  C19. main can always complete its shutdown: from every state the process can reach, whatever has
  been interleaved so far, there is a continuation in which the supervisor gets through its whole script, with
  every thread it started exited, joined and in state stopped (no deadlock, no lost stop request).
\<close>

theorem main_can_always_finish:
  assumes "0 < k" "os_ok os" "boot (main_script k) k = Inr s0" "reach os s0 s"
  shows "\<exists>s'. reach os s s' \<and> script s' = [] \<and> sup s' = Sup_ready
    \<and> (\<forall>i \<le> k. pc (rt s' i) = Exited \<and> st s' i = stopped \<and> \<not> joinable (base (ctl s' i)))"
proof -
  have "sys_inv os s" "main_inv k s" using main_reach [OF assms] by auto
  then obtain s' where s': "reach os s s'" "script s' = []" using main_can_finish assms(2) by blast
  have "sys_inv os s'" "main_inv k s'"
    using main_reach [OF assms(1-3) reach_trans [OF s'(1) assms(4)]] by auto
  then show ?thesis using s' finished_state by blast
qed

theorem main_can_always_finish_witness:
  "\<exists>s. reach good_os (boot_state (main_script 2) 2) s \<and> script s = [] \<and> (\<forall>i \<le> 2. st s i = stopped)"
  using main_can_always_finish [OF _ good_os_ok boot_Inr reach.init, of 2] by auto

text \<open>
  kernel_tid() never reports a wrong id: read by the supervisor at any moment, it is 0 or the id
  the operating system gave that thread, and once the thread has published running it is the latter.
\<close>

theorem kernel_tid_zero_or_right:
  assumes "0 < k" "os_ok os" "boot cmds k = Inr s0" "script_ok (boot_status k) cmds" "reach os s0 s"
  shows "kernel_tid (base (ctl s i)) = (if st s i = running then os_tid os i else 0)"
proof -
  have "sys_inv os s"
    using reach_inv [OF assms(5,2)] boot_inv [OF assms(1,4)] assms(3) by (auto simp: boot_Inr)
  then have "thread_inv os s i" by (simp add: sys_inv_def)
  then show ?thesis
    by (cases "pc (rt s i)")
      (auto simp: kernel_tid_def thread_inv_def word_at_def Let_def load_acquire_def load_relaxed_def)
qed

theorem kernel_tid_zero_or_right_witness:
  "\<exists>s. reach good_os (boot_state stop_at_once 1) s \<and> kernel_tid (base (ctl s 0)) = 100"
proof -
  have "\<exists>s. reach good_os (boot_state stop_at_once 1) s \<and> st s 0 = running"
    by (rule run_schedule_reachable [where xs = "[None, Some 0, Some 0, Some 0, Some 0, Some 0]"]) code_simp
  then obtain s where s: "reach good_os (boot_state stop_at_once 1) s" "st s 0 = running" by blast
  have "script_ok (boot_status 1) stop_at_once" by (simp add: stop_at_once_def boot_status_def)
  then have "kernel_tid (base (ctl s 0)) = os_tid good_os 0"
    using kernel_tid_zero_or_right [OF _ good_os_ok boot_Inr _ s(1)] s(2) by simp
  then show ?thesis using s(1) by (auto simp: good_os_def)
qed

end
