(* ===== verification/PacketPool.thy ===== *)
theory PacketPool
  imports Prelude "HOL-Library.Multiset"
begin

text \<open>
  \<^verbatim>\<open>src/engine-uring/src/memory/packet_pool.h\<close> and \<^verbatim>\<open>.cpp\<close>: the per-thread pool of 64, 256 and 1024 byte
  blocks in one mapped region, with free lists threaded through the blocks themselves. \<open>cells\<close> gives the
  pointer stored in the first eight bytes at an address, 0 being \<^verbatim>\<open>nullptr\<close>; a client that writes into a
  block it holds may overwrite it. The address \<^verbatim>\<open>mmap\<close> returns is a parameter.
\<close>

section \<open>Pool\<close>

definition k_bucket_size_64 :: nat where "k_bucket_size_64 = 64"
definition k_bucket_size_256 :: nat where "k_bucket_size_256 = 256"
definition k_bucket_size_1024 :: nat where "k_bucket_size_1024 = 1024"
definition k_prewarm_64 :: nat where "k_prewarm_64 = 256"
definition k_prewarm_256 :: nat where "k_prewarm_256 = 256"
definition k_prewarm_1024 :: nat where "k_prewarm_1024 = 512"
definition k_region_align :: usize where "k_region_align = 16"
definition k_region_slack :: nat where "k_region_slack = 4096"

lemmas pool_consts = k_bucket_size_64_def k_bucket_size_256_def k_bucket_size_1024_def k_prewarm_64_def
  k_prewarm_256_def k_prewarm_1024_def k_region_align_def k_region_slack_def

definition align_up :: "usize \<Rightarrow> usize \<Rightarrow> usize" where
  "align_up n align = (n + align - 1) AND NOT (align - 1)"

record bucket =
  block_size :: nat
  capacity :: nat
  in_use :: nat
  free_list :: nat
  region_begin :: nat
  region_end :: nat

record pool =
  region :: nat
  region_size :: nat
  bucket_tab :: "bucket list"
  prewarmed :: bool
  cells :: "nat \<Rightarrow> nat"

definition bucket_bytes :: "nat \<Rightarrow> nat \<Rightarrow> nat" where
  "bucket_bytes bs n = unat (align_up (of_nat (bs * n)) k_region_align)"

definition init_buckets :: "nat \<Rightarrow> bucket list" where
  "init_buckets base =
     (let b0 = base + bucket_bytes k_bucket_size_64 k_prewarm_64;
          b1 = b0 + bucket_bytes k_bucket_size_256 k_prewarm_256;
          b2 = b1 + bucket_bytes k_bucket_size_1024 k_prewarm_1024 in
      [\<lparr>block_size = k_bucket_size_64, capacity = k_prewarm_64, in_use = 0, free_list = 0, region_begin = base, region_end = b0\<rparr>,
       \<lparr>block_size = k_bucket_size_256, capacity = k_prewarm_256, in_use = 0, free_list = 0, region_begin = b0, region_end = b1\<rparr>,
       \<lparr>block_size = k_bucket_size_1024, capacity = k_prewarm_1024, in_use = 0, free_list = 0, region_begin = b1, region_end = b2\<rparr>])"

text \<open>The constructor; \<open>None\<close> is \<^verbatim>\<open>MAP_FAILED\<close>. \<open>m\<close> is what the mapping holds.\<close>

definition pool_init :: "nat option \<Rightarrow> (nat \<Rightarrow> nat) \<Rightarrow> pool res" where
  "pool_init p m = LNX_CHECK (p \<noteq> None) (Inr \<lparr>region = the p,
     region_size = bucket_bytes k_bucket_size_64 k_prewarm_64 + bucket_bytes k_bucket_size_256 k_prewarm_256
       + bucket_bytes k_bucket_size_1024 k_prewarm_1024 + k_region_slack,
     bucket_tab = init_buckets (the p), prewarmed = False, cells = m\<rparr>)"

text \<open>The inner loop of \<^verbatim>\<open>prewarm\<close>, block \<open>idx - 1\<close> first.\<close>

fun prewarm_bucket :: "nat \<Rightarrow> bucket \<Rightarrow> (nat \<Rightarrow> nat) \<Rightarrow> bucket \<times> (nat \<Rightarrow> nat)" where
  "prewarm_bucket 0 b m = (b, m)"
| "prewarm_bucket (Suc k) b m = (let block = region_begin b + k * block_size b in
     prewarm_bucket k (b\<lparr>free_list := block\<rparr>) (m(block := free_list b)))"

fun prewarm_all :: "bucket list \<Rightarrow> (nat \<Rightarrow> nat) \<Rightarrow> bucket list \<times> (nat \<Rightarrow> nat)" where
  "prewarm_all [] m = ([], m)"
| "prewarm_all (b # bs) m = (let (b, m) = prewarm_bucket (capacity b) b m; (bs, m) = prewarm_all bs m in (b # bs, m))"

definition prewarm :: "pool \<Rightarrow> pool" where
  "prewarm P = (if prewarmed P then P
     else (let (bs, m) = prewarm_all (bucket_tab P) (cells P) in P\<lparr>bucket_tab := bs, cells := m, prewarmed := True\<rparr>))"

text \<open>\<^verbatim>\<open>bucket_for\<close> returns a reference into the table: its index.\<close>

definition bucket_for :: "nat \<Rightarrow> nat res" where
  "bucket_for sz = (if sz \<le> k_bucket_size_64 then Inr 0 else if sz \<le> k_bucket_size_256 then Inr 1
     else LNX_CHECK (sz \<le> k_bucket_size_1024) (Inr 2))"

definition acquire :: "nat \<Rightarrow> pool \<Rightarrow> (nat \<times> pool) res" where
  "acquire sz P = (case bucket_for sz of Inl e \<Rightarrow> Inl e | Inr i \<Rightarrow>
     let b = bucket_tab P ! i in
     LNX_CHECK (prewarmed P) (LNX_CHECK (free_list b \<noteq> 0) (let node = free_list b in
       Inr (node, P\<lparr>bucket_tab := (bucket_tab P)[i := b\<lparr>free_list := cells P node, in_use := in_use b + 1\<rparr>]\<rparr>))))"

definition release :: "nat \<Rightarrow> nat \<Rightarrow> pool \<Rightarrow> pool res" where
  "release p sz P = LNX_CHECK (p \<noteq> 0) (case bucket_for sz of Inl e \<Rightarrow> Inl e | Inr i \<Rightarrow>
     let b = bucket_tab P ! i in
     LNX_CHECK (region_begin b \<le> p \<and> p < region_end b) (LNX_CHECK (0 < in_use b)
       (Inr (P\<lparr>bucket_tab := (bucket_tab P)[i := b\<lparr>free_list := p, in_use := in_use b - 1\<rparr>], cells := (cells P)(p := free_list b)\<rparr>))))"

definition pool_in_use :: "nat \<Rightarrow> pool \<Rightarrow> nat res" where
  "pool_in_use bucket_size P = (case bucket_for bucket_size of Inl e \<Rightarrow> Inl e | Inr i \<Rightarrow> Inr (in_use (bucket_tab P ! i)))"

section \<open>Free lists in memory\<close>

fun chain :: "(nat \<Rightarrow> nat) \<Rightarrow> nat \<Rightarrow> nat list \<Rightarrow> bool" where
  "chain m a [] \<longleftrightarrow> a = 0"
| "chain m a (x # xs) \<longleftrightarrow> a = x \<and> x \<noteq> 0 \<and> chain m (m x) xs"

lemma chain_upd [simp]: "x \<notin> set xs \<Longrightarrow> chain (m(x := v)) a xs = chain m a xs"
  by (induction xs arbitrary: a) auto

definition blocks :: "bucket \<Rightarrow> nat list" where
  "blocks b = map (\<lambda>k. region_begin b + k * block_size b) [0..<capacity b]"

lemma set_blocks: "set (blocks b) = {region_begin b + k * block_size b | k. k < capacity b}"
  by (auto simp: blocks_def)

lemma prewarm_bucket_chain:
  assumes "0 < region_begin b" "0 < block_size b" "chain m (free_list b) ys"
    "set ys \<inter> {region_begin b + j * block_size b | j. j < k} = {}"
  shows "\<exists>m' a. prewarm_bucket k b m = (b\<lparr>free_list := a\<rparr>, m')
    \<and> chain m' a (map (\<lambda>j. region_begin b + j * block_size b) [0..<k] @ ys)
    \<and> (\<forall>x. x \<notin> {region_begin b + j * block_size b | j. j < k} \<longrightarrow> m' x = m x)"
  using assms
proof (induction k arbitrary: b m ys)
  case 0
  then show ?case by (intro exI [of _ m] exI [of _ "free_list b"]) simp
next
  case (Suc k)
  let ?x = "region_begin b + k * block_size b" and ?b = "b\<lparr>free_list := region_begin b + k * block_size b\<rparr>"
  have "?x \<notin> set ys" using Suc.prems(4) by blast
  then have ch: "chain (m(?x := free_list b)) ?x (?x # ys)" using Suc.prems by simp
  have "set (?x # ys) \<inter> {region_begin b + j * block_size b | j. j < k} = {}"
    using Suc.prems(2,4) by auto
  then have "\<exists>m' a. prewarm_bucket k ?b (m(?x := free_list b)) = (?b\<lparr>free_list := a\<rparr>, m')
      \<and> chain m' a (map (\<lambda>j. region_begin b + j * block_size b) [0..<k] @ ?x # ys)
      \<and> (\<forall>x. x \<notin> {region_begin b + j * block_size b | j. j < k} \<longrightarrow> m' x = (m(?x := free_list b)) x)"
    using Suc.IH [of ?b "m(?x := free_list b)" "?x # ys"] ch Suc.prems(1,2) by (simp del: fun_upd_apply chain.simps)
  then obtain m' a where
    "prewarm_bucket k ?b (m(?x := free_list b)) = (?b\<lparr>free_list := a\<rparr>, m')"
    "chain m' a (map (\<lambda>j. region_begin b + j * block_size b) [0..<k] @ ?x # ys)"
    "\<forall>x. x \<notin> {region_begin b + j * block_size b | j. j < k} \<longrightarrow> m' x = (m(?x := free_list b)) x" by blast
  then show ?case
    by (intro exI [of _ m'] exI [of _ a]) (auto simp: Let_def less_Suc_eq)
qed


section \<open>Invariant\<close>

text \<open>\<open>outs\<close> is the client's side: the blocks it holds, with their bucket. Every block of a bucket is either
  on its free list or held, once.\<close>

definition held :: "nat \<Rightarrow> (nat \<times> nat) list \<Rightarrow> nat list" where
  "held i outs = map fst (filter (\<lambda>e. snd e = i) outs)"

definition bucket_ok :: "(nat \<Rightarrow> nat) \<Rightarrow> bucket \<Rightarrow> nat list \<Rightarrow> bool" where
  "bucket_ok m b hs \<longleftrightarrow> (\<exists>fl. chain m (free_list b) fl \<and> mset (fl @ hs) = mset (blocks b)) \<and> in_use b = length hs"

definition layout_ok :: "nat \<Rightarrow> pool \<Rightarrow> bool" where
  "layout_ok base P \<longleftrightarrow> map (\<lambda>b. (block_size b, capacity b, region_begin b, region_end b)) (bucket_tab P)
     = [(64, 256, base, base + 16384), (256, 256, base + 16384, base + 81920), (1024, 512, base + 81920, base + 606208)]"

definition pool_ok :: "nat \<Rightarrow> pool \<Rightarrow> (nat \<times> nat) list \<Rightarrow> bool" where
  "pool_ok base P outs \<longleftrightarrow> 0 < base \<and> prewarmed P \<and> layout_ok base P \<and> snd ` set outs \<subseteq> {..<3}
     \<and> (\<forall>i < 3. bucket_ok (cells P) (bucket_tab P ! i) (held i outs))"

lemma layout_bucket:
  assumes "layout_ok base P"
  shows "length (bucket_tab P) = 3"
    "block_size (bucket_tab P ! 0) = 64" "capacity (bucket_tab P ! 0) = 256" "region_begin (bucket_tab P ! 0) = base"
    "region_end (bucket_tab P ! 0) = base + 16384"
    "block_size (bucket_tab P ! 1) = 256" "capacity (bucket_tab P ! 1) = 256" "region_begin (bucket_tab P ! 1) = base + 16384"
    "region_end (bucket_tab P ! 1) = base + 81920"
    "block_size (bucket_tab P ! 2) = 1024" "capacity (bucket_tab P ! 2) = 512" "region_begin (bucket_tab P ! 2) = base + 81920"
    "region_end (bucket_tab P ! 2) = base + 606208"
proof -
  obtain a b c where "bucket_tab P = [a, b, c]" using assms unfolding layout_ok_def by (auto simp: map_eq_Cons_conv)
  then show "length (bucket_tab P) = 3"
    "block_size (bucket_tab P ! 0) = 64" "capacity (bucket_tab P ! 0) = 256" "region_begin (bucket_tab P ! 0) = base"
    "region_end (bucket_tab P ! 0) = base + 16384"
    "block_size (bucket_tab P ! 1) = 256" "capacity (bucket_tab P ! 1) = 256" "region_begin (bucket_tab P ! 1) = base + 16384"
    "region_end (bucket_tab P ! 1) = base + 81920"
    "block_size (bucket_tab P ! 2) = 1024" "capacity (bucket_tab P ! 2) = 512" "region_begin (bucket_tab P ! 2) = base + 81920"
    "region_end (bucket_tab P ! 2) = base + 606208"
    using assms by (simp_all add: layout_ok_def)
qed

lemma less_3: "(i :: nat) < 3 \<longleftrightarrow> i = 0 \<or> i = 1 \<or> i = 2"
  by auto

text \<open>Blocks lie inside their bucket, so blocks of different buckets are apart, and two blocks of one
  bucket are a multiple of the block size apart.\<close>

definition extent :: "pool \<Rightarrow> nat \<times> nat \<Rightarrow> nat set" where
  "extent P e = {fst e ..< fst e + block_size (bucket_tab P ! snd e)}"

lemma block_inside:
  assumes "layout_ok base P" "i < 3" "p \<in> set (blocks (bucket_tab P ! i))"
  shows "region_begin (bucket_tab P ! i) \<le> p" "p + block_size (bucket_tab P ! i) \<le> region_end (bucket_tab P ! i)"
proof -
  obtain k where k: "p = region_begin (bucket_tab P ! i) + k * block_size (bucket_tab P ! i)" "k < capacity (bucket_tab P ! i)"
    using assms(3) by (auto simp: set_blocks)
  then have "Suc k * block_size (bucket_tab P ! i) \<le> capacity (bucket_tab P ! i) * block_size (bucket_tab P ! i)"
    by (intro mult_le_mono) auto
  then show "p + block_size (bucket_tab P ! i) \<le> region_end (bucket_tab P ! i)"
    using assms(1,2) k(1) layout_bucket [OF assms(1)] by (auto simp: less_3)
  show "region_begin (bucket_tab P ! i) \<le> p" using k(1) by simp
qed

lemma same_bucket_apart:
  assumes "p \<in> set (blocks b)" "q \<in> set (blocks b)" "p \<noteq> q"
  shows "{p ..< p + block_size b} \<inter> {q ..< q + block_size b} = {}"
proof -
  obtain j k where jk: "p = region_begin b + j * block_size b" "q = region_begin b + k * block_size b"
    using assms by (auto simp: set_blocks)
  then consider "j < k" | "k < j" using assms(3) by (metis nat_neq_iff)
  then show ?thesis
  proof cases
    case 1
    then have "Suc j * block_size b \<le> k * block_size b" by (intro mult_le_mono) auto
    then show ?thesis using jk by auto
  next
    case 2
    then have "Suc k * block_size b \<le> j * block_size b" by (intro mult_le_mono) auto
    then show ?thesis using jk by auto
  qed
qed

text \<open>The bucket regions start at multiples of their block size from the base, so a page-aligned base
  aligns every block to its size.\<close>

lemma block_aligned:
  assumes "layout_ok base P" "i < 3" "p \<in> set (blocks (bucket_tab P ! i))"
  shows "base mod 4096 = 0 \<longrightarrow> p mod block_size (bucket_tab P ! i) = 0"
proof
  assume "base mod 4096 = 0"
  then have "4096 dvd base" by (simp add: mod_0_imp_dvd)
  then have dvd: "64 dvd base" "256 dvd base" "1024 dvd base" by (auto elim: dvd_trans [rotated])
  obtain k where "p = region_begin (bucket_tab P ! i) + k * block_size (bucket_tab P ! i)"
    using assms(3) by (auto simp: set_blocks)
  moreover have "block_size (bucket_tab P ! i) dvd region_begin (bucket_tab P ! i)"
    using assms(2) layout_bucket [OF assms(1)] dvd by (auto simp: less_3)
  ultimately show "p mod block_size (bucket_tab P ! i) = 0" by simp
qed

lemma blocks_apart:
  assumes lay: "layout_ok base P" and i: "i < 3" "j < 3"
    and p: "p \<in> set (blocks (bucket_tab P ! i))" "q \<in> set (blocks (bucket_tab P ! j))" "i = j \<longrightarrow> p \<noteq> q"
  shows "extent P (p, i) \<inter> extent P (q, j) = {}"
proof (cases "i = j")
  case True
  then show ?thesis using same_bucket_apart p by (simp add: extent_def)
next
  case False
  note in_p = block_inside [OF lay i(1) p(1)] and in_q = block_inside [OF lay i(2) p(2)]
  have "region_end (bucket_tab P ! i) \<le> region_begin (bucket_tab P ! j) \<or> region_end (bucket_tab P ! j) \<le> region_begin (bucket_tab P ! i)"
    using layout_bucket [OF lay] i False by (auto simp: less_3)
  then show ?thesis using in_p in_q by (auto simp: extent_def)
qed


lemma distinct_blocks: "0 < block_size b \<Longrightarrow> distinct (blocks b)"
  by (auto simp: blocks_def distinct_map inj_on_def)

lemma block_size_pos: "layout_ok base P \<Longrightarrow> i < 3 \<Longrightarrow> 0 < block_size (bucket_tab P ! i)"
  using layout_bucket by (auto simp: less_3)

lemma bucket_okD:
  assumes "bucket_ok m b hs" "0 < block_size b"
  obtains fl where "chain m (free_list b) fl" "mset (fl @ hs) = mset (blocks b)" "distinct (fl @ hs)"
    "set fl \<union> set hs = set (blocks b)" "length fl + length hs = capacity b" "in_use b = length hs"
proof -
  obtain fl where fl: "chain m (free_list b) fl" "mset (fl @ hs) = mset (blocks b)" "in_use b = length hs"
    using assms(1) unfolding bucket_ok_def by blast
  have "distinct (fl @ hs)" using mset_eq_imp_distinct_iff [OF fl(2)] distinct_blocks [OF assms(2)] by simp
  moreover have "set fl \<union> set hs = set (blocks b)" using mset_eq_setD [OF fl(2)] by simp
  moreover have "length fl + length hs = capacity b" using mset_eq_length [OF fl(2)] by (simp add: blocks_def)
  ultimately show thesis using that fl by blast
qed

lemma held_Cons: "held i ((p, j) # outs) = (if j = i then p # held i outs else held i outs)"
  by (simp add: held_def)

lemma held_member: "p \<in> set (held i outs) \<longleftrightarrow> (p, i) \<in> set outs"
  by (force simp: held_def)

lemma held_remove:
  "(p, j) \<in> set outs \<Longrightarrow> mset (held i (remove1 (p, j) outs)) = mset (held i outs) - (if j = i then {#p#} else {#})"
proof -
  assume "(p, j) \<in> set outs"
  have "mset (held i outs) = image_mset fst (filter_mset (\<lambda>e. snd e = i) (mset outs))" for outs by (simp add: held_def)
  then show ?thesis
    using \<open>(p, j) \<in> set outs\<close> by (auto simp: image_mset_Diff filter_mset_eq_conv intro!: arg_cong [where f = "image_mset fst"])
qed

lemma bucket_ok_upd:
  "bucket_ok m b hs \<Longrightarrow> 0 < block_size b \<Longrightarrow> x \<notin> set (blocks b) \<or> x \<in> set hs \<Longrightarrow> bucket_ok (m(x := v)) b hs"
proof -
  assume ok: "bucket_ok m b hs" and pos: "0 < block_size b" and x: "x \<notin> set (blocks b) \<or> x \<in> set hs"
  obtain fl where "chain m (free_list b) fl" "mset (fl @ hs) = mset (blocks b)" "distinct (fl @ hs)"
    "set fl \<union> set hs = set (blocks b)" "in_use b = length hs" using bucket_okD [OF ok pos] by metis
  moreover from this have "x \<notin> set fl" using x by auto
  ultimately show ?thesis unfolding bucket_ok_def by (intro conjI exI [of _ fl]) auto
qed

lemma other_bucket_block:
  assumes "layout_ok base P" "i < 3" "j < 3" "i \<noteq> j" "p \<in> set (blocks (bucket_tab P ! i))"
  shows "p \<notin> set (blocks (bucket_tab P ! j))"
proof
  assume "p \<in> set (blocks (bucket_tab P ! j))"
  then have "extent P (p, i) \<inter> extent P (p, j) = {}" using assms by (intro blocks_apart [of base]) auto
  then show False using block_size_pos [OF assms(1)] assms(2,3) by (auto simp: extent_def)
qed

lemma bucket_for_class: "bucket_for sz = Inr i \<Longrightarrow> i < 3"
  by (auto simp: bucket_for_def split: if_splits)

lemma map_update_same: "i < length xs \<Longrightarrow> f y = f (xs ! i) \<Longrightarrow> map f (xs[i := y]) = map f xs"
  by (metis list_update_id map_update nth_map)

lemma layout_update:
  "layout_ok base P \<Longrightarrow> i < 3 \<Longrightarrow> bucket_tab P' = (bucket_tab P)[i := (bucket_tab P ! i)\<lparr>free_list := a, in_use := n\<rparr>]
    \<Longrightarrow> layout_ok base P'"
proof -
  assume lay: "layout_ok base P" and "i < 3" and "bucket_tab P' = (bucket_tab P)[i := (bucket_tab P ! i)\<lparr>free_list := a, in_use := n\<rparr>]"
  then have "map (\<lambda>b. (block_size b, capacity b, region_begin b, region_end b)) (bucket_tab P')
      = map (\<lambda>b. (block_size b, capacity b, region_begin b, region_end b)) (bucket_tab P)"
    using layout_bucket(1) [OF lay] by (simp add: map_update_same)
  then show ?thesis using lay by (simp add: layout_ok_def)
qed

section \<open>Operations keep it\<close>

lemma acquire_cases:
  assumes ok: "pool_ok base P outs" and i: "bucket_for sz = Inr i"
  shows "if length (held i outs) = capacity (bucket_tab P ! i) then acquire sz P = Inl Check_Trap
    else \<exists>p P'. acquire sz P = Inr (p, P') \<and> pool_ok base P' ((p, i) # outs)
      \<and> p \<in> set (blocks (bucket_tab P ! i)) \<and> (p, i) \<notin> set outs"
proof -
  have i3: "i < 3" using bucket_for_class [OF i] .
  have lay: "layout_ok base P" and pre: "prewarmed P" and bok: "bucket_ok (cells P) (bucket_tab P ! i) (held i outs)"
    using ok i3 by (auto simp: pool_ok_def)
  let ?b = "bucket_tab P ! i"
  obtain fl where fl: "chain (cells P) (free_list ?b) fl" "mset (fl @ held i outs) = mset (blocks ?b)"
    "distinct (fl @ held i outs)" "set fl \<union> set (held i outs) = set (blocks ?b)"
    "length fl + length (held i outs) = capacity ?b" "in_use ?b = length (held i outs)"
    by (rule bucket_okD [OF bok block_size_pos [OF lay i3]])
  show ?thesis
  proof (cases fl)
    case Nil
    then show ?thesis using fl i pre by (simp add: acquire_def Let_def)
  next
    case (Cons p rest)
    define P' where "P' = P\<lparr>bucket_tab := (bucket_tab P)[i := ?b\<lparr>free_list := cells P p, in_use := in_use ?b + 1\<rparr>]\<rparr>"
    have acq: "acquire sz P = Inr (p, P')" using Cons fl(1) i pre by (auto simp: acquire_def Let_def P'_def)
    have tab: "bucket_tab P' ! j = (if j = i then ?b\<lparr>free_list := cells P p, in_use := in_use ?b + 1\<rparr> else bucket_tab P ! j)" for j
      using i3 layout_bucket(1) [OF lay] by (simp add: P'_def nth_list_update)
    have cells: "cells P' = cells P" by (simp add: P'_def)
    have "bucket_ok (cells P') (bucket_tab P' ! i) (held i ((p, i) # outs))"
      using Cons fl by (auto simp: bucket_ok_def tab held_Cons blocks_def cells intro!: exI [of _ rest])
    moreover have "bucket_ok (cells P') (bucket_tab P' ! j) (held j ((p, i) # outs))" if "j < 3" "j \<noteq> i" for j
      using ok that by (auto simp: tab held_Cons pool_ok_def cells)
    moreover have "layout_ok base P'"
      by (rule layout_update [OF lay i3, of _ "in_use ?b + 1" "cells P p"]) (simp add: P'_def)
    moreover have "prewarmed P'" using pre by (simp add: P'_def)
    ultimately have "pool_ok base P' ((p, i) # outs)"
      using ok i3 unfolding pool_ok_def by (metis image_insert insert_subset lessThan_iff list.simps(15) snd_conv)
    then show ?thesis using acq Cons fl by (auto simp: held_member)
  qed
qed

lemma release_ok:
  assumes ok: "pool_ok base P outs" and i: "bucket_for sz = Inr i" and p: "(p, i) \<in> set outs"
  shows "\<exists>P'. release p sz P = Inr P' \<and> pool_ok base P' (remove1 (p, i) outs)"
proof -
  have i3: "i < 3" using bucket_for_class [OF i] .
  have lay: "layout_ok base P" and bok: "bucket_ok (cells P) (bucket_tab P ! i) (held i outs)" and base: "0 < base"
    using ok i3 by (auto simp: pool_ok_def)
  let ?b = "bucket_tab P ! i"
  note pos = block_size_pos [OF lay i3]
  obtain fl where fl: "chain (cells P) (free_list ?b) fl" "mset (fl @ held i outs) = mset (blocks ?b)"
    "distinct (fl @ held i outs)" "set fl \<union> set (held i outs) = set (blocks ?b)"
    "length fl + length (held i outs) = capacity ?b" "in_use ?b = length (held i outs)"
    by (rule bucket_okD [OF bok pos])
  have ph: "p \<in> set (held i outs)" using p by (simp add: held_member)
  then have blk: "p \<in> set (blocks ?b)" "p \<notin> set fl" using fl(3,4) by auto
  note inside = block_inside [OF lay i3 blk(1)]
  define P' where "P' = P\<lparr>bucket_tab := (bucket_tab P)[i := ?b\<lparr>free_list := p, in_use := in_use ?b - 1\<rparr>], cells := (cells P)(p := free_list ?b)\<rparr>"
  have "0 < region_begin ?b" using layout_bucket [OF lay] i3 base by (auto simp: less_3)
  moreover have "0 < length (held i outs)" using ph by (cases "held i outs") auto
  ultimately have rel: "release p sz P = Inr P'"
    using inside pos i fl(6) by (simp add: release_def Let_def P'_def)
  have tab: "bucket_tab P' ! j = (if j = i then ?b\<lparr>free_list := p, in_use := in_use ?b - 1\<rparr> else bucket_tab P ! j)" for j
    using i3 layout_bucket(1) [OF lay] by (simp add: P'_def nth_list_update)
  have cells: "cells P' = (cells P)(p := free_list ?b)" by (simp add: P'_def)
  have hm: "mset (held i (remove1 (p, i) outs)) = mset (held i outs) - {#p#}" using held_remove [OF p, of i] by simp
  have "mset ((p # fl) @ held i (remove1 (p, i) outs)) = mset (blocks ?b)" using fl(2) ph blk(1) by (simp add: hm)
  moreover have "length (held i (remove1 (p, i) outs)) = length (held i outs) - 1"
    using hm ph by (metis size_Diff_singleton size_mset set_mset_mset)
  ultimately have "bucket_ok (cells P') (bucket_tab P' ! i) (held i (remove1 (p, i) outs))"
    using fl blk(2) inside \<open>0 < region_begin ?b\<close>
    by (auto simp: bucket_ok_def tab cells blocks_def intro!: exI [of _ "p # fl"])
  moreover have "bucket_ok (cells P') (bucket_tab P' ! j) (held j (remove1 (p, i) outs))" if "j < 3" "j \<noteq> i" for j
  proof -
    have "held j (remove1 (p, i) outs) = held j outs" unfolding held_def using that(2) by (induction outs) auto
    moreover have "bucket_ok (cells P) (bucket_tab P ! j) (held j outs)" using ok that by (simp add: pool_ok_def)
    ultimately show ?thesis
      using bucket_ok_upd block_size_pos [OF lay that(1)] other_bucket_block [OF lay i3 that(1) _ blk(1)] that(2)
      by (simp add: tab cells)
  qed
  moreover have "layout_ok base P'"
    by (rule layout_update [OF lay i3, of _ "in_use ?b - 1" p]) (simp add: P'_def)
  moreover have "prewarmed P'" using ok by (simp add: P'_def pool_ok_def)
  moreover have "snd ` set (remove1 (p, i) outs) \<subseteq> {..<3}"
    using ok set_remove1_subset [of "(p, i)" outs] by (auto simp: pool_ok_def)
  ultimately have "pool_ok base P' (remove1 (p, i) outs)" using base unfolding pool_ok_def by metis
  then show ?thesis using rel by blast
qed

lemma write_ok:
  assumes ok: "pool_ok base P outs" and p: "(p, i) \<in> set outs"
  shows "pool_ok base (P\<lparr>cells := (cells P)(p := v)\<rparr>) outs"
proof -
  have i3: "i < 3" and lay: "layout_ok base P" using ok p by (auto simp: pool_ok_def)
  have "p \<in> set (held i outs)" using p by (simp add: held_member)
  then have blk: "p \<in> set (blocks (bucket_tab P ! i))"
    using bucket_okD [OF _ block_size_pos [OF lay i3], of "cells P" "held i outs"] ok i3
    by (metis UnCI pool_ok_def)
  have "bucket_ok ((cells P)(p := v)) (bucket_tab P ! j) (held j outs)" if "j < 3" for j
    using ok that block_size_pos [OF lay that] other_bucket_block [OF lay i3 that _ blk] \<open>p \<in> set (held i outs)\<close>
    by (intro bucket_ok_upd) (auto simp: pool_ok_def)
  then show ?thesis using ok by (simp add: pool_ok_def layout_ok_def)
qed


section \<open>The pool in use\<close>

lemma chain_cong: "(\<And>x. x \<in> set xs \<Longrightarrow> m' x = m x) \<Longrightarrow> chain m' a xs = chain m a xs"
  by (induction xs arbitrary: a) auto

lemma prewarm_one:
  assumes "0 < region_begin b" "0 < block_size b" "free_list b = 0"
  obtains m' a where "prewarm_bucket (capacity b) b m = (b\<lparr>free_list := a\<rparr>, m')" "chain m' a (blocks b)"
    "\<And>x. x \<notin> set (blocks b) \<Longrightarrow> m' x = m x"
proof -
  obtain m' a where "prewarm_bucket (capacity b) b m = (b\<lparr>free_list := a\<rparr>, m')" "chain m' a (blocks b @ [])"
    "\<forall>x. x \<notin> set (blocks b) \<longrightarrow> m' x = m x"
    using prewarm_bucket_chain [OF assms(1,2), of m "[]" "capacity b"] assms(3) unfolding set_blocks by (auto simp: blocks_def)
  then show thesis by (intro that [of a m']) auto
qed

lemma bucket_bytes_values:
  "bucket_bytes k_bucket_size_64 k_prewarm_64 = 16384" "bucket_bytes k_bucket_size_256 k_prewarm_256 = 65536"
  "bucket_bytes k_bucket_size_1024 k_prewarm_1024 = 524288"
  by (simp_all add: bucket_bytes_def align_up_def pool_consts)

lemma init_layout: "layout_ok base (P\<lparr>bucket_tab := init_buckets base\<rparr>)"
  unfolding layout_ok_def init_buckets_def Let_def bucket_bytes_values by (simp add: pool_consts)

lemma pool_init_ok:
  assumes "0 < base" "pool_init (Some base) m = Inr P"
  shows "pool_ok base (prewarm P) []"
proof -
  have P: "bucket_tab P = init_buckets base" "\<not> prewarmed P" "cells P = m" using assms(2) by (auto simp: pool_init_def)
  then have lay: "layout_ok base P" using init_layout [of base P] by (simp add: layout_ok_def)
  obtain a b c where tab: "bucket_tab P = [a, b, c]" "free_list a = 0" "free_list b = 0" "free_list c = 0"
    "in_use a = 0" "in_use b = 0" "in_use c = 0"
    using P(1) by (simp add: init_buckets_def Let_def)
  have pos: "0 < region_begin a" "0 < block_size a" "0 < region_begin b" "0 < block_size b" "0 < region_begin c" "0 < block_size c"
    using layout_bucket [OF lay] assms(1) tab by auto
  obtain m1 x where 1: "prewarm_bucket (capacity a) a m = (a\<lparr>free_list := x\<rparr>, m1)" "chain m1 x (blocks a)"
    using prewarm_one [OF pos(1,2) tab(2)] by blast
  obtain m2 y where 2: "prewarm_bucket (capacity b) b m1 = (b\<lparr>free_list := y\<rparr>, m2)" "chain m2 y (blocks b)"
    "\<And>z. z \<notin> set (blocks b) \<Longrightarrow> m2 z = m1 z" using prewarm_one [OF pos(3,4) tab(3)] by blast
  obtain m3 z where 3: "prewarm_bucket (capacity c) c m2 = (c\<lparr>free_list := z\<rparr>, m3)" "chain m3 z (blocks c)"
    "\<And>z. z \<notin> set (blocks c) \<Longrightarrow> m3 z = m2 z" using prewarm_one [OF pos(5,6) tab(4)] by blast
  have warm: "prewarm P = P\<lparr>bucket_tab := [a\<lparr>free_list := x\<rparr>, b\<lparr>free_list := y\<rparr>, c\<lparr>free_list := z\<rparr>], cells := m3, prewarmed := True\<rparr>"
    using P(2,3) tab(1) 1(1) 2(1) 3(1) by (simp add: prewarm_def)
  have apart: "p \<notin> set (blocks b)" "p \<notin> set (blocks c)" if "p \<in> set (blocks a)" for p
    using other_bucket_block [OF lay, of 0 1 p] other_bucket_block [OF lay, of 0 2 p] that tab by auto
  have apart': "p \<notin> set (blocks c)" if "p \<in> set (blocks b)" for p
    using other_bucket_block [OF lay, of 1 2 p] that tab by auto
  have "chain m3 x (blocks a)" "chain m3 y (blocks b)"
    using 1(2) 2(2) chain_cong [of "blocks a" m3 m1] chain_cong [of "blocks b" m3 m2] 2(3) 3(3) apart apart' by auto
  then show ?thesis
    using lay 3(2) tab assms(1)
    by (auto simp: pool_ok_def warm layout_ok_def less_3 bucket_ok_def held_def blocks_def)
qed

text \<open>A thread's use of its pool: it acquires, writes into blocks it holds, and releases blocks it holds
  with a size of the class it acquired them with.\<close>

inductive used :: "nat \<Rightarrow> pool \<Rightarrow> (nat \<times> nat) list \<Rightarrow> bool" for base where
  start: "pool_init (Some base) m = Inr P \<Longrightarrow> used base (prewarm P) []"
| take_block: "used base P outs \<Longrightarrow> acquire sz P = Inr (p, P') \<Longrightarrow> bucket_for sz = Inr i \<Longrightarrow> used base P' ((p, i) # outs)"
| fill: "used base P outs \<Longrightarrow> (p, i) \<in> set outs \<Longrightarrow> used base (P\<lparr>cells := (cells P)(p := v)\<rparr>) outs"
| give_back: "used base P outs \<Longrightarrow> (p, i) \<in> set outs \<Longrightarrow> bucket_for sz = Inr i \<Longrightarrow> release p sz P = Inr P'
    \<Longrightarrow> used base P' (remove1 (p, i) outs)"

lemma used_ok: "used base P outs \<Longrightarrow> 0 < base \<Longrightarrow> pool_ok base P outs"
proof (induction rule: used.induct)
  case (take_block P outs sz p P' i)
  then show ?case using acquire_cases [of base P outs sz i] by (auto split: if_splits)
next
  case (give_back P outs p i sz P')
  then show ?case using release_ok [of base P outs sz i p] by auto
qed (auto intro: pool_init_ok write_ok)

lemma used_region_size: "used base P outs \<Longrightarrow> region_size P = 610304"
proof (induction rule: used.induct)
  case (start m P)
  then have "region_size P = 16384 + 65536 + 524288 + k_region_slack"
    unfolding pool_init_def bucket_bytes_values by auto
  then show ?case by (simp add: prewarm_def split_beta Let_def k_region_slack_def)
next
  case (take_block P outs sz p P' i)
  then show ?case by (auto simp: acquire_def Let_def)
next
  case (give_back P outs p i sz P')
  then show ?case by (auto simp: release_def Let_def)
qed simp

text \<open>
  C23. Whatever a thread has acquired, overwritten and released before, a request of up to 1024 bytes
  returns a block of its size class inside the mapped region that overlaps no block still held, of any
  class, and starts at a multiple of its size when the mapping starts at a page, as mmap's do; it traps exactly when every block of the class is held, and the in-use count is the number
  held. Requests above 1024 bytes trap.
\<close>
theorem acquire_gives_a_free_block:
  assumes "used base P outs" "0 < base"
  shows "case bucket_for sz of Inl e \<Rightarrow> 1024 < sz \<and> acquire sz P = Inl Check_Trap
    | Inr i \<Rightarrow> pool_in_use sz P = Inr (length (held i outs)) \<and> sz \<le> block_size (bucket_tab P ! i) \<and>
      (if length (held i outs) = capacity (bucket_tab P ! i) then acquire sz P = Inl Check_Trap
       else \<exists>p P'. acquire sz P = Inr (p, P') \<and> extent P (p, i) \<subseteq> {base ..< base + region_size P}
         \<and> (base mod 4096 = 0 \<longrightarrow> p mod block_size (bucket_tab P ! i) = 0)
         \<and> (\<forall>e \<in> set outs. extent P (p, i) \<inter> extent P e = {}))"
proof (cases "bucket_for sz")
  case (Inl e)
  then show ?thesis by (auto simp: bucket_for_def acquire_def pool_consts LNX_CHECK_def split: if_splits)
next
  case (Inr i)
  have ok: "pool_ok base P outs" using used_ok [OF assms] .
  have i: "i < 3" using bucket_for_class [OF Inr] .
  have lay: "layout_ok base P" using ok by (simp add: pool_ok_def)
  note rs = used_region_size [OF assms(1)]
  have held_block: "e \<in> set outs \<Longrightarrow> snd e < 3 \<and> fst e \<in> set (blocks (bucket_tab P ! snd e))" for e
  proof -
    assume e: "e \<in> set outs"
    then have "snd e < 3" using ok by (auto simp: pool_ok_def)
    moreover from this have "bucket_ok (cells P) (bucket_tab P ! snd e) (held (snd e) outs)" using ok by (simp add: pool_ok_def)
    ultimately show ?thesis
      using bucket_okD [OF _ block_size_pos [OF lay]] e held_member [of "fst e" "snd e" outs] by (metis UnCI prod.collapse)
  qed
  have "sz \<le> block_size (bucket_tab P ! i)"
    using Inr layout_bucket [OF lay] by (auto simp: bucket_for_def pool_consts split: if_splits)
  moreover have "pool_in_use sz P = Inr (length (held i outs))"
    using Inr ok i by (simp add: pool_in_use_def pool_ok_def bucket_ok_def)
  moreover have "extent P (p, i) \<subseteq> {base ..< base + region_size P}
      \<and> (base mod 4096 = 0 \<longrightarrow> p mod block_size (bucket_tab P ! i) = 0) \<and> (\<forall>e \<in> set outs. extent P (p, i) \<inter> extent P e = {})"
    if "p \<in> set (blocks (bucket_tab P ! i))" "(p, i) \<notin> set outs" for p
  proof -
    have "extent P (p, i) \<subseteq> {base ..< base + region_size P}"
      using block_inside [OF lay i that(1)] layout_bucket [OF lay] i by (auto simp: extent_def less_3 rs)
    moreover have "extent P (p, i) \<inter> extent P (q, j) = {}" if "(q, j) \<in> set outs" for q j
      using blocks_apart [OF lay i _ _ _, of j p q] held_block [OF that] \<open>(p, i) \<notin> set outs\<close> that
        \<open>p \<in> set (blocks (bucket_tab P ! i))\<close> by auto
    moreover note block_aligned [OF lay i that(1)]
    ultimately show ?thesis by auto
  qed
  ultimately show ?thesis using acquire_cases [OF ok Inr] Inr by (auto split: if_splits)
qed


lemma acquire_gives_a_free_block_witness:
  "\<exists>P p. used 4096 P [(p, 0)] \<and> pool_in_use 40 P = Inr 1
    \<and> (\<exists>q P'. acquire 40 P = Inr (q, P') \<and> q mod block_size (bucket_tab P ! 0) = 0 \<and> extent P (q, 0) \<inter> extent P (p, 0) = {})"
proof -
  have cls: "bucket_for 40 = Inr 0" by (simp add: bucket_for_def pool_consts)
  obtain P0 where P0: "pool_init (Some 4096) (\<lambda>_. 0) = Inr P0" by (simp add: pool_init_def)
  have u0: "used 4096 (prewarm P0) []" by (rule used.start [OF P0])
  have cap: "capacity (bucket_tab P ! 0) = 256" if "used 4096 P outs" for P outs
    using used_ok [OF that] layout_bucket(3) by (auto simp: pool_ok_def)
  obtain p P where p: "acquire 40 (prewarm P0) = Inr (p, P)"
    using acquire_gives_a_free_block [OF u0, of 40] cap [OF u0] by (auto simp: cls held_def)
  have u1: "used 4096 P [(p, 0)]" by (rule used.take_block [OF u0 p cls])
  then show ?thesis
    using acquire_gives_a_free_block [OF u1, of 40] cap [OF u1] by (intro exI [of _ P] exI [of _ p]) (auto simp: cls held_def)
qed

end
