(* ===== verification/Mutex.thy ===== *)
theory Mutex
  imports Prelude
begin

text \<open>
  \<^verbatim>\<open>src/engine-uring/src/sync/mutex.h\<close>: the wrappers of the pthread locks and the lock objects on top of
  them. A default pthread mutex is its holder: locking one that is held waits (the operation is not
  enabled, \<open>None\<close>), unlocking one the caller does not hold is undefined. A read-write lock is its writer
  and its readers.
\<close>

section \<open>Mutexes\<close>

type_synonym tid = nat
type_synonym mid = nat
type_synonym lid = nat

text \<open>A \<^verbatim>\<open>unique_lock\<close>, with the thread whose stack it lives on.\<close>

record ulock =
  mtx :: "mid option"
  owns :: bool
  on_thread :: tid

record lock_state =
  holder :: "mid \<rightharpoonup> tid"
  ulocks :: "lid \<rightharpoonup> ulock"
  bare :: "mid set"

datatype errno = EBUSY

definition mutex_lock :: "tid \<Rightarrow> mid \<Rightarrow> lock_state \<Rightarrow> lock_state res option" where
  "mutex_lock t m s = (if holder s m = None then Some (Inr (s\<lparr>holder := (holder s)(m \<mapsto> t)\<rparr>)) else None)"

definition pthread_trylock :: "tid \<Rightarrow> mid \<Rightarrow> lock_state \<Rightarrow> errno option \<times> lock_state" where
  "pthread_trylock t m s = (if holder s m = None then (None, s\<lparr>holder := (holder s)(m \<mapsto> t)\<rparr>) else (Some EBUSY, s))"

definition mutex_try_lock :: "tid \<Rightarrow> mid \<Rightarrow> lock_state \<Rightarrow> (bool \<times> lock_state) res" where
  "mutex_try_lock t m s = (let (rc, s) = pthread_trylock t m s in
     LNX_CHECK (rc = None \<or> rc = Some EBUSY) (Inr (rc = None, s)))"

definition mutex_unlock :: "tid \<Rightarrow> mid \<Rightarrow> lock_state \<Rightarrow> lock_state res" where
  "mutex_unlock t m s = (if holder s m = Some t then Inr (s\<lparr>holder := (holder s)(m := None)\<rparr>) else Inl Undefined)"

section \<open>unique\_lock\<close>

definition set_lock :: "lid \<Rightarrow> ulock \<Rightarrow> lock_state \<Rightarrow> lock_state" where
  "set_lock l u s = s\<lparr>ulocks := (ulocks s)(l \<mapsto> u)\<rparr>"

definition ul_default :: "tid \<Rightarrow> lid \<Rightarrow> lock_state \<Rightarrow> lock_state" where
  "ul_default t l s = set_lock l \<lparr>mtx = None, owns = False, on_thread = t\<rparr> s"

definition ul_lock :: "lid \<Rightarrow> ulock \<Rightarrow> lock_state \<Rightarrow> lock_state res option" where
  "ul_lock l u s = (case mtx u of
     Some m \<Rightarrow> if \<not> owns u then map_option (map_sum id (set_lock l (u\<lparr>owns := True\<rparr>))) (mutex_lock (on_thread u) m s)
               else Some (Inr s)
   | None \<Rightarrow> Some (Inr s))"

definition ul_ctor :: "tid \<Rightarrow> lid \<Rightarrow> mid \<Rightarrow> lock_state \<Rightarrow> lock_state res option" where
  "ul_ctor t l m s = (let u = \<lparr>mtx = Some m, owns = False, on_thread = t\<rparr> in ul_lock l u (set_lock l u s))"

definition ul_unlock :: "lid \<Rightarrow> ulock \<Rightarrow> lock_state \<Rightarrow> lock_state res" where
  "ul_unlock l u s = (case mtx u of
     Some m \<Rightarrow> if owns u then map_sum id (set_lock l (u\<lparr>owns := False\<rparr>)) (mutex_unlock (on_thread u) m s) else Inr s
   | None \<Rightarrow> Inr s)"

definition ul_try_lock :: "lid \<Rightarrow> ulock \<Rightarrow> lock_state \<Rightarrow> (bool \<times> lock_state) res" where
  "ul_try_lock l u s = (case mtx u of
     Some m \<Rightarrow> if \<not> owns u
       then (case mutex_try_lock (on_thread u) m s of Inl e \<Rightarrow> Inl e
             | Inr (got, s) \<Rightarrow> if got then Inr (True, set_lock l (u\<lparr>owns := True\<rparr>) s) else Inr (False, s))
       else Inr (False, s)
   | None \<Rightarrow> Inr (False, s))"

text \<open>The part of the destructor and of the move assignment that gives the mutex back.\<close>

definition ul_drop :: "ulock \<Rightarrow> lock_state \<Rightarrow> lock_state res" where
  "ul_drop u s = (case mtx u of Some m \<Rightarrow> if owns u then mutex_unlock (on_thread u) m s else Inr s | None \<Rightarrow> Inr s)"

definition ul_dtor :: "lid \<Rightarrow> ulock \<Rightarrow> lock_state \<Rightarrow> lock_state res" where
  "ul_dtor l u s = map_sum id (\<lambda>s. s\<lparr>ulocks := (ulocks s)(l := None)\<rparr>) (ul_drop u s)"

definition ul_move_ctor :: "lid \<Rightarrow> lid \<Rightarrow> ulock \<Rightarrow> lock_state \<Rightarrow> lock_state" where
  "ul_move_ctor l other u s = set_lock other (u\<lparr>mtx := None, owns := False\<rparr>) (set_lock l u s)"

definition ul_move_assign :: "lid \<Rightarrow> ulock \<Rightarrow> lid \<Rightarrow> ulock \<Rightarrow> lock_state \<Rightarrow> lock_state res" where
  "ul_move_assign l u other v s = (if l \<noteq> other
     then map_sum id (\<lambda>s. set_lock other (v\<lparr>mtx := None, owns := False\<rparr>) (set_lock l (u\<lparr>mtx := mtx v, owns := owns v\<rparr>) s)) (ul_drop u s)
     else Inr s)"

definition ul_release :: "lid \<Rightarrow> ulock \<Rightarrow> lock_state \<Rightarrow> mid option \<times> lock_state" where
  "ul_release l u s = (mtx u, set_lock l (u\<lparr>mtx := None, owns := False\<rparr>) s)"

section \<open>Threads with locks\<close>

text \<open>What a thread may do: the operations of its own lock objects, \<^verbatim>\<open>lock\<close> and \<^verbatim>\<open>unlock\<close> on a mutex
  directly (also through a \<^verbatim>\<open>lock_guard\<close>, which is one of each). \<open>bare\<close> collects the mutexes held without
  a lock object; it is the program's duty to unlock only those of them it holds.\<close>

datatype lock_op = Default lid | Ctor lid mid | Dtor lid | Move_Ctor lid lid | Move_Assign lid lid
  | Lock lid | Unlock lid | Try_Lock lid | Release lid | Raw_Lock mid | Raw_Unlock mid

definition mine :: "tid \<Rightarrow> lid \<Rightarrow> lock_state \<Rightarrow> (ulock \<Rightarrow> lock_state res option) \<Rightarrow> lock_state res option" where
  "mine t l s k = (case ulocks s l of Some u \<Rightarrow> if on_thread u = t then k u else None | None \<Rightarrow> None)"

definition fresh :: "lid \<Rightarrow> lock_state \<Rightarrow> lock_state res option \<Rightarrow> lock_state res option" where
  "fresh l s r = (if ulocks s l = None then r else None)"

definition mark_bare :: "ulock \<Rightarrow> lock_state \<Rightarrow> lock_state" where
  "mark_bare u s = (case mtx u of Some m \<Rightarrow> if owns u then s\<lparr>bare := insert m (bare s)\<rparr> else s | None \<Rightarrow> s)"

fun lock_exec :: "tid \<Rightarrow> lock_op \<Rightarrow> lock_state \<Rightarrow> lock_state res option" where
  "lock_exec t (Default l) s = fresh l s (Some (Inr (ul_default t l s)))"
| "lock_exec t (Ctor l m) s = fresh l s (ul_ctor t l m s)"
| "lock_exec t (Dtor l) s = mine t l s (\<lambda>u. Some (ul_dtor l u s))"
| "lock_exec t (Move_Ctor l other) s = fresh l s (mine t other s (\<lambda>u. Some (Inr (ul_move_ctor l other u s))))"
| "lock_exec t (Move_Assign l other) s = mine t l s (\<lambda>u. mine t other s (\<lambda>v. Some (ul_move_assign l u other v s)))"
| "lock_exec t (Lock l) s = mine t l s (\<lambda>u. ul_lock l u s)"
| "lock_exec t (Unlock l) s = mine t l s (\<lambda>u. Some (ul_unlock l u s))"
| "lock_exec t (Try_Lock l) s = mine t l s (\<lambda>u. Some (map_sum id snd (ul_try_lock l u s)))"
| "lock_exec t (Release l) s = mine t l s (\<lambda>u. Some (Inr (mark_bare u (snd (ul_release l u s)))))"
| "lock_exec t (Raw_Lock m) s = map_option (map_sum id (\<lambda>s. s\<lparr>bare := insert m (bare s)\<rparr>)) (mutex_lock t m s)"
| "lock_exec t (Raw_Unlock m) s = (if m \<in> bare s \<and> holder s m = Some t
     then Some (map_sum id (\<lambda>s. s\<lparr>bare := bare s - {m}\<rparr>) (mutex_unlock t m s)) else None)"

definition lock_init :: lock_state where
  "lock_init = \<lparr>holder = Map.empty, ulocks = Map.empty, bare = {}\<rparr>"

inductive lock_reach :: "lock_state \<Rightarrow> bool" where
  init: "lock_reach lock_init"
| step: "lock_reach s \<Longrightarrow> lock_exec t op s = Some (Inr s') \<Longrightarrow> lock_reach s'"

text \<open>\<open>own l m t\<close>: object \<open>l\<close> owns \<open>m\<close> for thread \<open>t\<close>.\<close>

definition own :: "lock_state \<Rightarrow> lid \<Rightarrow> mid \<Rightarrow> tid \<Rightarrow> bool" where
  "own s l m t \<longleftrightarrow> (\<exists>u. ulocks s l = Some u \<and> mtx u = Some m \<and> owns u \<and> on_thread u = t)"

definition lock_inv :: "lock_state \<Rightarrow> bool" where
  "lock_inv s \<longleftrightarrow> (\<forall>l u. ulocks s l = Some u \<longrightarrow> owns u \<longrightarrow> mtx u \<noteq> None)
     \<and> (\<forall>l m t. own s l m t \<longrightarrow> holder s m = Some t \<and> m \<notin> bare s)
     \<and> (\<forall>l l' m t t'. own s l m t \<longrightarrow> own s l' m t' \<longrightarrow> l = l')
     \<and> (\<forall>m t. holder s m = Some t \<longrightarrow> m \<in> bare s \<or> (\<exists>l. own s l m t))
     \<and> (\<forall>m \<in> bare s. holder s m \<noteq> None)"


lemma lock_invD:
  assumes "lock_inv s"
  shows "own s l m t \<Longrightarrow> holder s m = Some t \<and> m \<notin> bare s"
    "own s l m t \<Longrightarrow> own s l' m t' \<Longrightarrow> l = l'"
    "holder s m = Some t \<Longrightarrow> m \<in> bare s \<or> (\<exists>l. own s l m t)"
    "ulocks s l = Some u \<Longrightarrow> owns u \<Longrightarrow> mtx u \<noteq> None"
  using assms unfolding lock_inv_def by blast+

text \<open>Changing one object that owns nothing, before and after.\<close>

lemma lock_inv_set:
  assumes inv: "lock_inv s" and old: "\<And>u. ulocks s l = Some u \<Longrightarrow> \<not> owns u" and new: "\<not> owns v"
  shows "lock_inv (set_lock l v s)"
proof -
  have "own (set_lock l v s) x m t = own s x m t" for x m t
    using old new by (auto simp: own_def set_lock_def)
  then show ?thesis using inv new by (auto simp: lock_inv_def set_lock_def)
qed

text \<open>An object takes a free mutex.\<close>

lemma lock_inv_take:
  assumes inv: "lock_inv s" and free: "holder s m = None" and old: "\<And>u. ulocks s l = Some u \<Longrightarrow> \<not> owns u"
    and v: "mtx v = Some m" "owns v"
  shows "lock_inv (set_lock l v (s\<lparr>holder := (holder s)(m \<mapsto> on_thread v)\<rparr>))"
proof -
  let ?s = "set_lock l v (s\<lparr>holder := (holder s)(m \<mapsto> on_thread v)\<rparr>)"
  have o: "own ?s x m' t \<longleftrightarrow> (if x = l then m' = m \<and> t = on_thread v else own s x m' t)" for x m' t
    using v by (auto simp: own_def set_lock_def)
  have nobody: "\<not> own s x m t" for x t using inv free by (auto simp: lock_inv_def)
  have nb: "m \<notin> bare s" using inv free by (auto simp: lock_inv_def)
  have "own s x m' t \<Longrightarrow> x \<noteq> l" for x m' t using old by (auto simp: own_def)
  then have "holder ?s m' = Some t \<Longrightarrow> m' \<in> bare ?s \<or> (\<exists>x. own ?s x m' t)" for m' t
    using lock_invD(3) [OF inv, of m' t] unfolding o by (cases "m' = m") (auto simp: set_lock_def)
  moreover have "own ?s x m' t \<Longrightarrow> holder ?s m' = Some t \<and> m' \<notin> bare ?s" for x m' t
    using inv nobody nb unfolding o lock_inv_def by (auto simp: set_lock_def split: if_splits)
  moreover have "own ?s x m' t \<Longrightarrow> own ?s x' m' t' \<Longrightarrow> x = x'" for x x' m' t t'
    using lock_invD(2) [OF inv] nobody unfolding o by (metis (full_types))
  moreover have "ulocks ?s x = Some u \<Longrightarrow> owns u \<Longrightarrow> mtx u \<noteq> None" for x u
    using inv v unfolding lock_inv_def by (auto simp: set_lock_def split: if_splits)
  moreover have "\<forall>m' \<in> bare ?s. holder ?s m' \<noteq> None" using inv by (auto simp: lock_inv_def set_lock_def)
  ultimately show ?thesis unfolding lock_inv_def by blast
qed

text \<open>An object that owns a mutex gives it back and owns nothing after, or is gone.\<close>

lemma lock_inv_give:
  assumes inv: "lock_inv s" and u: "ulocks s l = Some u" "owns u" "mtx u = Some m"
    and s': "holder s' = (holder s)(m := None)" "bare s' = bare s" "\<And>x. x \<noteq> l \<Longrightarrow> ulocks s' x = ulocks s x"
      "\<And>v. ulocks s' l = Some v \<Longrightarrow> \<not> owns v"
  shows "lock_inv s'"
proof -
  have o: "own s' x m' t \<longleftrightarrow> x \<noteq> l \<and> own s x m' t" for x m' t using s'(3,4) by (cases "x = l") (auto simp: own_def)
  have mine: "own s l m (on_thread u)" using u by (auto simp: own_def)
  then have only: "own s x m t \<Longrightarrow> x = l" for x t using inv unfolding lock_inv_def by blast
  have notbare: "m \<notin> bare s" using inv mine unfolding lock_inv_def by blast
  have same: "own s l m' t \<Longrightarrow> m' = m" for m' t using u by (auto simp: own_def)
  have "ulocks s' x = Some v \<Longrightarrow> owns v \<Longrightarrow> mtx v \<noteq> None" for x v
    using inv s'(3,4) unfolding lock_inv_def by (cases "x = l") auto
  moreover have "own s' x m' t \<Longrightarrow> holder s' m' = Some t \<and> m' \<notin> bare s'" for x m' t
    using inv only unfolding o lock_inv_def s' by (auto simp: s')
  moreover have "own s' x m' t \<Longrightarrow> own s' x' m' t' \<Longrightarrow> x = x'" for x x' m' t t'
    using inv unfolding o lock_inv_def by blast
  moreover have "holder s' m' = Some t \<Longrightarrow> m' \<in> bare s' \<or> (\<exists>x. own s' x m' t)" for m' t
    using lock_invD(3) [OF inv, of m' t] same unfolding o s' by (cases "m' = m") (simp, metis fun_upd_other)
  moreover have "\<forall>m' \<in> bare s'. holder s' m' \<noteq> None" using inv notbare s' unfolding lock_inv_def by auto
  ultimately show ?thesis unfolding lock_inv_def by blast
qed

text \<open>Ownership moves from one object of a thread to another that owns nothing.\<close>

lemma lock_inv_move:
  assumes inv: "lock_inv s" and v: "ulocks s other = Some v" and old: "\<And>u. ulocks s l = Some u \<Longrightarrow> \<not> owns u" and "l \<noteq> other"
    and w: "mtx w = mtx v" "owns w = owns v" "on_thread w = on_thread v"
  shows "lock_inv (set_lock other (v\<lparr>mtx := None, owns := False\<rparr>) (set_lock l w s))"
proof -
  let ?s = "set_lock other (v\<lparr>mtx := None, owns := False\<rparr>) (set_lock l w s)"
  have o: "own ?s x m t \<longleftrightarrow> (if x = l then own s other m t else x \<noteq> other \<and> own s x m t)" for x m t
    using v w \<open>l \<noteq> other\<close> by (auto simp: own_def set_lock_def)
  have notl: "\<not> own s l m t" for m t using old by (auto simp: own_def)
  have rest: "holder ?s = holder s" "bare ?s = bare s" by (simp_all add: set_lock_def)
  have "ulocks ?s x = Some u \<Longrightarrow> owns u \<Longrightarrow> mtx u \<noteq> None" for x u
    using inv v w unfolding lock_inv_def by (auto simp: set_lock_def split: if_splits)
  moreover have "own ?s x m t \<Longrightarrow> holder s m = Some t \<and> m \<notin> bare s" for x m t
    using inv unfolding o lock_inv_def by (auto split: if_splits)
  moreover have "own ?s x m t \<Longrightarrow> own ?s x' m t' \<Longrightarrow> x = x'" for x x' m t t'
    using lock_invD(2) [OF inv] unfolding o by (metis (full_types))
  moreover have "holder s m = Some t \<Longrightarrow> m \<in> bare s \<or> (\<exists>x. own ?s x m t)" for m t
    using lock_invD(3) [OF inv, of m t] notl \<open>l \<noteq> other\<close> unfolding o by metis
  moreover have "\<forall>m' \<in> bare s. holder s m' \<noteq> None" using inv by (simp add: lock_inv_def)
  ultimately show ?thesis unfolding lock_inv_def rest by blast
qed


lemma ul_drop_owner:
  assumes "lock_inv s" "ulocks s l = Some u"
  shows "ul_drop u s = Inr (case mtx u of Some m \<Rightarrow> if owns u then s\<lparr>holder := (holder s)(m := None)\<rparr> else s | None \<Rightarrow> s)"
  using lock_invD(1) [OF assms(1), of l "the (mtx u)" "on_thread u"] assms(2)
  by (auto simp: ul_drop_def mutex_unlock_def own_def split: option.split)

text \<open>The state after \<^verbatim>\<open>ul_drop\<close> with the object set to something that owns nothing.\<close>

lemma lock_inv_drop:
  assumes inv: "lock_inv s" and u: "ulocks s l = Some u" and d: "ul_drop u s = Inr s1" and w: "\<not> owns w"
  shows "lock_inv (set_lock l w s1)" "lock_inv (s1\<lparr>ulocks := (ulocks s1)(l := None)\<rparr>)"
proof -
  have "lock_inv (set_lock l w s1) \<and> lock_inv (s1\<lparr>ulocks := (ulocks s1)(l := None)\<rparr>)"
  proof (cases "owns u")
    case True
    then obtain m where m: "mtx u = Some m" using lock_invD(4) [OF inv u] by blast
    then have "s1 = s\<lparr>holder := (holder s)(m := None)\<rparr>" using d True by (simp add: ul_drop_owner [OF inv u])
    then show ?thesis
      using w by (intro conjI lock_inv_give [OF inv u True m]) (auto simp: set_lock_def)
  next
    case False
    then have s1: "s1 = s" using d by (simp add: ul_drop_owner [OF inv u] split: option.splits)
    have "own (s\<lparr>ulocks := (ulocks s)(l := None)\<rparr>) x m t = own s x m t" for x m t
      using False u by (auto simp: own_def)
    then have "lock_inv (s\<lparr>ulocks := (ulocks s)(l := None)\<rparr>)"
      using inv by (auto simp: lock_inv_def split: if_splits)
    then show ?thesis using lock_inv_set [OF inv, of l w] False u w by (simp add: s1)
  qed
  then show "lock_inv (set_lock l w s1)" "lock_inv (s1\<lparr>ulocks := (ulocks s1)(l := None)\<rparr>)" by simp_all
qed

lemma ulocks_drop: "ul_drop u s = Inr s1 \<Longrightarrow> ulocks s1 = ulocks s"
  by (auto simp: ul_drop_def mutex_unlock_def split: option.splits if_splits)

lemma lock_inv_bare:
  assumes inv: "lock_inv s" and u: "ulocks s l = Some u"
  shows "lock_inv (mark_bare u (set_lock l (u\<lparr>mtx := None, owns := False\<rparr>) s))"
proof (cases "owns u")
  case True
  then obtain m where m: "mtx u = Some m" using lock_invD(4) [OF inv u] by blast
  let ?s = "(set_lock l (u\<lparr>mtx := None, owns := False\<rparr>) s)\<lparr>bare := insert m (bare s)\<rparr>"
  have eq: "mark_bare u (set_lock l (u\<lparr>mtx := None, owns := False\<rparr>) s) = ?s"
    using True m by (simp add: mark_bare_def set_lock_def)
  have o: "own ?s x m' t \<longleftrightarrow> x \<noteq> l \<and> own s x m' t" for x m' t by (auto simp: own_def set_lock_def)
  have mine: "own s l m (on_thread u)" using u True m by (auto simp: own_def)
  have "own ?s x m' t \<Longrightarrow> holder ?s m' = Some t \<and> m' \<notin> bare ?s" for x m' t
    using lock_invD(1) [OF inv] lock_invD(2) [OF inv _ mine] unfolding o by (auto simp: set_lock_def)
  moreover have same: "own s l m' t \<Longrightarrow> m' = m" for m' t using u m by (auto simp: own_def)
  moreover have "holder ?s m' = Some t \<Longrightarrow> m' \<in> bare ?s \<or> (\<exists>x. own ?s x m' t)" for m' t
    using lock_invD(3) [OF inv, of m' t] same unfolding o by (simp add: set_lock_def) metis
  moreover have "own ?s x m' t \<Longrightarrow> own ?s x' m' t' \<Longrightarrow> x = x'" for x x' m' t t'
    using lock_invD(2) [OF inv] unfolding o by blast
  moreover have "ulocks ?s x = Some v \<Longrightarrow> owns v \<Longrightarrow> mtx v \<noteq> None" for x v
    using lock_invD(4) [OF inv] by (auto simp: set_lock_def split: if_splits)
  moreover have "\<forall>m' \<in> bare ?s. holder ?s m' \<noteq> None"
    using inv lock_invD(1) [OF inv mine] by (auto simp: lock_inv_def set_lock_def)
  ultimately have "lock_inv ?s" unfolding lock_inv_def by blast
  then show ?thesis by (simp add: eq)
next
  case False
  then show ?thesis
    using lock_inv_set [OF inv, of l "u\<lparr>mtx := None, owns := False\<rparr>"] u by (auto simp: mark_bare_def split: option.split)
qed

lemma lock_inv_raw:
  "lock_inv s \<Longrightarrow> holder s m = None \<Longrightarrow> lock_inv (s\<lparr>holder := (holder s)(m \<mapsto> t), bare := insert m (bare s)\<rparr>)"
  "lock_inv s \<Longrightarrow> m \<in> bare s \<Longrightarrow> lock_inv (s\<lparr>holder := (holder s)(m := None), bare := bare s - {m}\<rparr>)"
  unfolding lock_inv_def own_def by (auto split: if_splits) (metis option.distinct(1) | blast)+


lemma lock_exec_inv:
  assumes inv: "lock_inv s" and ex: "lock_exec t op s = Some r"
  shows "\<exists>s'. r = Inr s' \<and> lock_inv s'"
proof (cases op)
  case (Default l)
  then show ?thesis
    using ex lock_inv_set [OF inv, of l] by (auto simp: fresh_def ul_default_def split: if_splits)
next
  case (Ctor l m)
  let ?u = "\<lparr>mtx = Some m, owns = False, on_thread = t\<rparr>"
  have n: "ulocks s l = None" "holder s m = None" and r: "r = Inr (set_lock l (?u\<lparr>owns := True\<rparr>) ((set_lock l ?u s)\<lparr>holder := (holder s)(m \<mapsto> t)\<rparr>))"
    using ex Ctor by (auto simp: fresh_def ul_ctor_def ul_lock_def mutex_lock_def set_lock_def Let_def split: if_splits)
  have "lock_inv (set_lock l (?u\<lparr>owns := True\<rparr>) (s\<lparr>holder := (holder s)(m \<mapsto> on_thread (?u\<lparr>owns := True\<rparr>))\<rparr>))"
    using n by (intro lock_inv_take [OF inv]) auto
  then show ?thesis using r by (simp add: set_lock_def)
next
  case (Dtor l)
  then obtain u where u: "ulocks s l = Some u" "r = ul_dtor l u s" using ex by (auto simp: mine_def split: option.splits if_splits)
  then show ?thesis
    using ul_drop_owner [OF inv u(1)] lock_inv_drop(2) [OF inv u(1), of _ "u\<lparr>owns := False\<rparr>"] by (simp add: ul_dtor_def)
next
  case (Move_Ctor l other)
  then obtain u where u: "ulocks s other = Some u" "ulocks s l = None" "r = Inr (ul_move_ctor l other u s)"
    using ex by (auto simp: mine_def fresh_def split: option.splits if_splits)
  then have "l \<noteq> other" by auto
  then show ?thesis using u lock_inv_move [OF inv u(1), of l u] by (simp add: ul_move_ctor_def)
next
  case (Move_Assign l other)
  then obtain u v where u: "ulocks s l = Some u" "ulocks s other = Some v" "on_thread u = on_thread v"
    "r = ul_move_assign l u other v s" using ex by (auto simp: mine_def split: option.splits if_splits)
  show ?thesis
  proof (cases "l = other")
    case True
    then show ?thesis using u inv by (simp add: ul_move_assign_def)
  next
    case False
    obtain s1 where s1: "ul_drop u s = Inr s1" using ul_drop_owner [OF inv u(1)] by blast
    let ?e = "u\<lparr>mtx := None, owns := False\<rparr>" and ?w = "u\<lparr>mtx := mtx v, owns := owns v\<rparr>"
    have 1: "lock_inv (set_lock l ?e s1)" by (rule lock_inv_drop(1) [OF inv u(1) s1]) simp
    have 2: "ulocks (set_lock l ?e s1) other = Some v" using False u(2) ulocks_drop [OF s1] by (simp add: set_lock_def)
    have "lock_inv (set_lock other (v\<lparr>mtx := None, owns := False\<rparr>) (set_lock l ?w (set_lock l ?e s1)))"
      using False u(3) by (intro lock_inv_move [OF 1 2]) (auto simp: set_lock_def)
    then show ?thesis using False u s1 by (simp add: ul_move_assign_def set_lock_def)
  qed
next
  case (Lock l)
  then obtain u where u: "ulocks s l = Some u" "ul_lock l u s = Some r" using ex by (auto simp: mine_def split: option.splits if_splits)
  show ?thesis
  proof (cases "mtx u = None \<or> owns u")
    case True
    then show ?thesis using u inv by (auto simp: ul_lock_def split: option.splits)
  next
    case False
    then obtain m where m: "mtx u = Some m" "\<not> owns u" by (cases "mtx u") auto
    then have "holder s m = None" "r = Inr (set_lock l (u\<lparr>owns := True\<rparr>) (s\<lparr>holder := (holder s)(m \<mapsto> on_thread u)\<rparr>))"
      using u by (auto simp: ul_lock_def mutex_lock_def split: if_splits)
    then show ?thesis using lock_inv_take [OF inv, of m l "u\<lparr>owns := True\<rparr>"] u m by simp
  qed
next
  case (Unlock l)
  then obtain u where u: "ulocks s l = Some u" "r = ul_unlock l u s" using ex by (auto simp: mine_def split: option.splits if_splits)
  obtain s1 where s1: "ul_drop u s = Inr s1" using ul_drop_owner [OF inv u(1)] by blast
  have "r = Inr (if owns u \<and> mtx u \<noteq> None then set_lock l (u\<lparr>owns := False\<rparr>) s1 else s)"
    using u s1 by (auto simp: ul_unlock_def ul_drop_def split: option.splits if_splits)
  then show ?thesis using inv lock_inv_drop(1) [OF inv u(1) s1, of "u\<lparr>owns := False\<rparr>"] by auto
next
  case (Try_Lock l)
  then obtain u where u: "ulocks s l = Some u" "r = map_sum id snd (ul_try_lock l u s)"
    using ex by (auto simp: mine_def split: option.splits if_splits)
  show ?thesis
  proof (cases "\<exists>m. mtx u = Some m \<and> \<not> owns u \<and> holder s m = None")
    case True
    then obtain m where m: "mtx u = Some m" "\<not> owns u" "holder s m = None" by blast
    then have "r = Inr (set_lock l (u\<lparr>owns := True\<rparr>) (s\<lparr>holder := (holder s)(m \<mapsto> on_thread u)\<rparr>))"
      using u by (simp add: ul_try_lock_def mutex_try_lock_def pthread_trylock_def)
    then show ?thesis using lock_inv_take [OF inv m(3), of l "u\<lparr>owns := True\<rparr>"] u m by simp
  next
    case False
    then have "r = Inr s"
      using u by (auto simp: ul_try_lock_def mutex_try_lock_def pthread_trylock_def split: option.splits)
    then show ?thesis using inv by simp
  qed
next
  case (Release l)
  then show ?thesis
    using ex lock_inv_bare [OF inv, of l] by (auto simp: mine_def ul_release_def split: option.splits if_splits)
next
  case (Raw_Lock m)
  then show ?thesis using ex lock_inv_raw(1) [OF inv, of m t] by (auto simp: mutex_lock_def split: if_splits)
next
  case (Raw_Unlock m)
  then show ?thesis using ex lock_inv_raw(2) [OF inv, of m] by (auto simp: mutex_unlock_def split: if_splits)
qed

lemma lock_reach_inv: "lock_reach s \<Longrightarrow> lock_inv s"
proof (induction rule: lock_reach.induct)
  case init
  then show ?case by (simp add: lock_inv_def lock_init_def own_def)
next
  case (step s t op s')
  then show ?case using lock_exec_inv [of s t op "Inr s'"] by auto
qed

text \<open>
  C26. Whatever lock objects any number of threads create, move, lock, unlock, release and destroy, in any
  order: no operation traps or unlocks a mutex its thread does not hold, two objects never own one
  mutex, and a mutex not locked directly or taken out with \<^verbatim>\<open>release\<close> is held by a thread exactly when
  an object of that thread owns it, so that it is free again once those objects are gone.
\<close>
theorem unique_lock_owns_exactly:
  assumes "lock_reach s"
  shows "lock_exec t op s \<noteq> Some (Inl e)
    \<and> (own s l m t \<and> own s l' m t' \<longrightarrow> l = l' \<and> t = t')
    \<and> (m \<in> bare s \<or> (holder s m = Some t \<longleftrightarrow> (\<exists>l. own s l m t)))"
proof -
  note inv = lock_reach_inv [OF assms]
  have "lock_exec t op s \<noteq> Some (Inl e)" using lock_exec_inv [OF inv, of t op "Inl e"] by auto
  moreover have "own s l m t \<and> own s l' m t' \<longrightarrow> l = l' \<and> t = t'"
    using lock_invD(1,2) [OF inv] by (metis option.inject)
  moreover have "m \<in> bare s \<or> (holder s m = Some t \<longleftrightarrow> (\<exists>l. own s l m t))"
    using lock_invD(1,3) [OF inv] by blast
  ultimately show ?thesis by blast
qed


lemma unique_lock_owns_exactly_witness:
  "\<exists>s. lock_reach s \<and> holder s 7 = Some 1 \<and> own s 3 7 1 \<and> \<not> own s 2 7 1"
proof -
  let ?u = "\<lparr>mtx = Some 7, owns = True, on_thread = 1\<rparr>"
  define s1 where "s1 = lock_init\<lparr>holder := [7 \<mapsto> 1], ulocks := [2 \<mapsto> ?u]\<rparr>"
  define s2 where "s2 = ul_move_ctor 3 2 ?u s1"
  have "lock_exec 1 (Ctor 2 7) lock_init = Some (Inr s1)"
    by (simp add: s1_def lock_init_def fresh_def ul_ctor_def ul_lock_def mutex_lock_def set_lock_def Let_def)
  then have "lock_reach s1" by (rule lock_reach.step [OF lock_reach.init])
  moreover have "lock_exec 1 (Move_Ctor 3 2) s1 = Some (Inr s2)"
    by (simp add: s1_def s2_def lock_init_def fresh_def mine_def)
  ultimately have r: "lock_reach s2" by (rule lock_reach.step)
  have h: "holder s2 7 = Some 1" and o: "own s2 3 7 1"
    by (simp_all add: s2_def s1_def ul_move_ctor_def set_lock_def own_def)
  have "own s2 3 7 1 \<and> own s2 2 7 1 \<longrightarrow> (3 :: lid) = 2 \<and> (1 :: tid) = 1"
    using unique_lock_owns_exactly [OF r, of 1 "Raw_Lock 0" undefined 3 7 2 1] by blast
  then show ?thesis using r h o by auto
qed

section \<open>shared\_mutex and its guards\<close>

record rwlock =
  writer :: "tid option"
  readers :: "tid list"

definition lock_exclusive :: "tid \<Rightarrow> rwlock \<Rightarrow> rwlock res option" where
  "lock_exclusive t k = (if writer k = None \<and> readers k = [] then Some (Inr (k\<lparr>writer := Some t\<rparr>)) else None)"

definition try_lock_exclusive :: "tid \<Rightarrow> rwlock \<Rightarrow> (bool \<times> rwlock) res" where
  "try_lock_exclusive t k = (let rc = (if writer k = None \<and> readers k = [] then None else Some EBUSY) in
     LNX_CHECK (rc = None \<or> rc = Some EBUSY) (Inr (rc = None, if rc = None then k\<lparr>writer := Some t\<rparr> else k)))"

definition lock_shared :: "tid \<Rightarrow> rwlock \<Rightarrow> rwlock res option" where
  "lock_shared t k = (if writer k = None then Some (Inr (k\<lparr>readers := t # readers k\<rparr>)) else None)"

definition try_lock_shared :: "tid \<Rightarrow> rwlock \<Rightarrow> (bool \<times> rwlock) res" where
  "try_lock_shared t k = (let rc = (if writer k = None then None else Some EBUSY) in
     LNX_CHECK (rc = None \<or> rc = Some EBUSY) (Inr (rc = None, if rc = None then k\<lparr>readers := t # readers k\<rparr> else k)))"

text \<open>\<^verbatim>\<open>unlock_exclusive\<close> and \<^verbatim>\<open>unlock_shared\<close> are the same call: it gives up whichever hold the caller has.\<close>

definition rw_unlock :: "tid \<Rightarrow> rwlock \<Rightarrow> rwlock res" where
  "rw_unlock t k = (if writer k = Some t then Inr (k\<lparr>writer := None\<rparr>)
     else if t \<in> set (readers k) then Inr (k\<lparr>readers := remove1 t (readers k)\<rparr>) else Inl Undefined)"

text \<open>Threads with scoped guards: \<open>guards\<close> lists the live ones, \<open>True\<close> for exclusive.\<close>

datatype guard_op = Enter_Shared | Enter_Exclusive | Leave bool

definition guard_exec :: "tid \<Rightarrow> guard_op \<Rightarrow> rwlock \<times> (tid \<times> bool) list \<Rightarrow> (rwlock \<times> (tid \<times> bool) list) res option" where
  "guard_exec t op s = (case op of
     Enter_Shared \<Rightarrow> map_option (map_sum id (\<lambda>k. (k, (t, False) # snd s))) (lock_shared t (fst s))
   | Enter_Exclusive \<Rightarrow> map_option (map_sum id (\<lambda>k. (k, (t, True) # snd s))) (lock_exclusive t (fst s))
   | Leave x \<Rightarrow> if (t, x) \<in> set (snd s) then Some (map_sum id (\<lambda>k. (k, remove1 (t, x) (snd s))) (rw_unlock t (fst s))) else None)"

inductive guard_reach :: "rwlock \<times> (tid \<times> bool) list \<Rightarrow> bool" where
  init: "guard_reach (\<lparr>writer = None, readers = []\<rparr>, [])"
| step: "guard_reach s \<Longrightarrow> guard_exec t op s = Some (Inr s') \<Longrightarrow> guard_reach s'"

definition guard_inv :: "rwlock \<times> (tid \<times> bool) list \<Rightarrow> bool" where
  "guard_inv s \<longleftrightarrow> (case writer (fst s) of
     Some t \<Rightarrow> readers (fst s) = [] \<and> snd s = [(t, True)]
   | None \<Rightarrow> snd s = map (\<lambda>t. (t, False)) (readers (fst s)))"

lemma remove1_map_False: "remove1 (t, False) (map (\<lambda>t. (t, False)) ts) = map (\<lambda>t. (t, False)) (remove1 t ts)"
  by (induction ts) auto

lemma guard_exec_inv:
  assumes "guard_inv s" "guard_exec t op s = Some r"
  shows "case r of Inl e \<Rightarrow> False | Inr s' \<Rightarrow> guard_inv s'"
  using assms
  by (cases s; cases op)
    (auto simp: guard_inv_def guard_exec_def lock_shared_def lock_exclusive_def rw_unlock_def remove1_map_False
      split: if_splits option.splits)

text \<open>
  Scoped guards on a \<^verbatim>\<open>shared_mutex\<close>: in every interleaving no guard operation is undefined, an
  exclusive guard excludes every other guard, shared or exclusive, and the lock is held by exactly the
  threads with live guards.
\<close>
theorem shared_guards_exclude:
  assumes "guard_reach s"
  shows "guard_exec t op s \<noteq> Some (Inl e) \<and> ((t, True) \<in> set (snd s) \<longrightarrow> snd s = [(t, True)])
    \<and> (writer (fst s) = Some t \<longleftrightarrow> (t, True) \<in> set (snd s)) \<and> (t \<in> set (readers (fst s)) \<longleftrightarrow> (t, False) \<in> set (snd s))"
proof -
  have inv: "guard_inv s" using assms
  proof (induction rule: guard_reach.induct)
    case init
    then show ?case by (simp add: guard_inv_def)
  next
    case (step s t op s')
    then show ?case using guard_exec_inv [of s t op "Inr s'"] by auto
  qed
  moreover have "guard_exec t op s \<noteq> Some (Inl e)" using guard_exec_inv [OF inv, of t op "Inl e"] by auto
  ultimately show ?thesis by (auto simp: guard_inv_def split: option.splits)
qed

lemma shared_guards_exclude_witness:
  "guard_reach (\<lparr>writer = Some 4, readers = []\<rparr>, [(4, True)]) \<and> guard_exec 5 Enter_Shared (\<lparr>writer = Some 4, readers = []\<rparr>, [(4, True)]) = None
    \<and> (writer (fst (\<lparr>writer = Some (4 :: tid), readers = []\<rparr>, [(4 :: tid, True)])) = Some 4 \<longleftrightarrow> (4, True) \<in> set [(4 :: tid, True)])"
proof -
  have r: "guard_reach (\<lparr>writer = Some 4, readers = []\<rparr>, [(4, True)])"
    by (rule guard_reach.step [OF guard_reach.init, of 4 Enter_Exclusive]) (simp add: guard_exec_def lock_exclusive_def)
  then show ?thesis
    using shared_guards_exclude [OF r, of 4 Enter_Shared undefined] by (simp add: guard_exec_def lock_shared_def)
qed

end
