(* ===== verification/CstrHashMap.thy ===== *)
theory CstrHashMap
  imports Prelude
begin

text \<open>
  \<^verbatim>\<open>src/engine-uring/src/sds/cstr_hash_map.h\<close>: a chained hash map keyed by C strings. A key is the
  list of its bytes before the terminator; the map stores the pointer and the caller keeps the string
  alive and unchanged, so the pointer stands for the bytes. A chain of nodes is a list, head first; the
  bucket array is a list of chains, empty when the pointer is null (after a move). The allocator is
  taken to succeed: the sources use \<^verbatim>\<open>new\<close> in \<^verbatim>\<open>noexcept\<close> functions, so a failure ends the process.
\<close>

type_synonym cstr = "byte list"

definition cstr_ok :: "cstr \<Rightarrow> bool" where
  "cstr_ok s \<longleftrightarrow> 0 \<notin> set s"

section \<open>Capacities, comparison, hash\<close>

function smear :: "nat \<Rightarrow> usize \<Rightarrow> usize" where
  "smear shift value = (if 0 < shift \<and> shift < 64 then smear (shift * 2) (value OR drop_bit shift value) else value)"
  by pat_completeness auto
termination by (relation "measure (\<lambda>(s, _). 64 - s)") auto

declare smear.simps [simp del]

definition next_power_of_two :: "usize \<Rightarrow> usize" where
  "next_power_of_two value = (if value \<le> 1 then 1 else smear 1 (value - 1) + 1)"

fun cstr_cmp :: "cstr \<Rightarrow> cstr \<Rightarrow> int" where
  "cstr_cmp (l # lhs) (r # rhs) = (if l \<noteq> 0 \<and> l = r then cstr_cmp lhs rhs else uint l - uint r)"
| "cstr_cmp (l # lhs) [] = uint l"
| "cstr_cmp [] (r # rhs) = - uint r"
| "cstr_cmp [] [] = 0"

definition hash_func :: "cstr \<Rightarrow> usize" where
  "hash_func key = foldl (\<lambda>hash ch. (push_bit 5 hash + hash) + ucast ch) 5381 key"

section \<open>The map\<close>

record 'v cmap =
  hm_buckets :: "(cstr \<times> 'v) list list"
  hm_capacity :: usize
  hm_size :: usize

definition bucket_index :: "usize \<Rightarrow> usize \<Rightarrow> nat" where
  "bucket_index hash capacity = unat (hash AND (capacity - 1))"

definition cmap_init :: "usize \<Rightarrow> 'v cmap" where
  "cmap_init capacity = \<lparr>hm_buckets = replicate (unat (next_power_of_two capacity)) [],
     hm_capacity = next_power_of_two capacity, hm_size = 0\<rparr>"

definition push_node :: "usize \<Rightarrow> cstr \<times> 'v \<Rightarrow> (cstr \<times> 'v) list list \<Rightarrow> (cstr \<times> 'v) list list" where
  "push_node capacity nd bs = (let index = bucket_index (hash_func (fst nd)) capacity in bs[index := nd # bs ! index])"

definition rehash_to :: "usize \<Rightarrow> 'v cmap \<Rightarrow> 'v cmap" where
  "rehash_to new_capacity m = (let n = next_power_of_two new_capacity in
     m\<lparr>hm_buckets := fold (push_node n) (concat (hm_buckets m)) (replicate (unat n) []),
       hm_capacity := n\<rparr>)"

text \<open>\<^verbatim>\<open>static_cast<size_t>(static_cast<float>(capacity_) * 0.75F)\<close>. A capacity is a power of two, which a
  float holds exactly, and so is three quarters of it; the conversion back truncates.\<close>

definition load_limit :: "usize \<Rightarrow> usize" where
  "load_limit capacity = of_nat (3 * unat capacity div 4)"

definition rehash_if_needed_for_insert :: "'v cmap \<Rightarrow> 'v cmap" where
  "rehash_if_needed_for_insert m =
     (if hm_capacity m = 0 then rehash_to 64 m
      else if load_limit (hm_capacity m) < hm_size m + 1 then rehash_to (hm_capacity m * 2) m else m)"

definition cmap_reserve :: "usize \<Rightarrow> 'v cmap \<Rightarrow> 'v cmap" where
  "cmap_reserve new_capacity m = (if hm_capacity m < new_capacity then rehash_to new_capacity m else m)"

text \<open>Walking a chain: the value of the first node whose key compares equal, assignment through
  it, and unlinking it.\<close>

fun chain_find :: "cstr \<Rightarrow> (cstr \<times> 'v) list \<Rightarrow> 'v option" where
  "chain_find key [] = None"
| "chain_find key ((k, v) # c) = (if cstr_cmp k key = 0 then Some v else chain_find key c)"

fun chain_assign :: "cstr \<Rightarrow> ('v \<Rightarrow> 'v) \<Rightarrow> (cstr \<times> 'v) list \<Rightarrow> (cstr \<times> 'v) list" where
  "chain_assign key f [] = []"
| "chain_assign key f ((k, v) # c) = (if cstr_cmp k key = 0 then (k, f v) # c else (k, v) # chain_assign key f c)"

fun chain_erase :: "cstr \<Rightarrow> (cstr \<times> 'v) list \<Rightarrow> (cstr \<times> 'v) list" where
  "chain_erase key [] = []"
| "chain_erase key ((k, v) # c) = (if cstr_cmp k key = 0 then c else (k, v) # chain_erase key c)"

definition chain_of :: "cstr \<Rightarrow> 'v cmap \<Rightarrow> (cstr \<times> 'v) list" where
  "chain_of key m = hm_buckets m ! bucket_index (hash_func key) (hm_capacity m)"

definition set_chain :: "cstr \<Rightarrow> (cstr \<times> 'v) list \<Rightarrow> 'v cmap \<Rightarrow> 'v cmap" where
  "set_chain key c m = m\<lparr>hm_buckets := (hm_buckets m)[bucket_index (hash_func key) (hm_capacity m) := c]\<rparr>"

definition cmap_find :: "cstr \<Rightarrow> 'v cmap \<Rightarrow> 'v option" where
  "cmap_find key m = (if hm_capacity m = 0 then None else chain_find key (chain_of key m))"

definition contains :: "cstr \<Rightarrow> 'v cmap \<Rightarrow> bool" where
  "contains key m \<longleftrightarrow> cmap_find key m \<noteq> None"

text \<open>The common tail of \<^verbatim>\<open>insert\<close> and \<^verbatim>\<open>operator[]\<close>: a key that is not in its chain.\<close>

definition add_node :: "cstr \<Rightarrow> 'v \<Rightarrow> 'v cmap \<Rightarrow> 'v cmap" where
  "add_node key v m = (let m = rehash_if_needed_for_insert m in
     (set_chain key ((key, v) # chain_of key m) m)\<lparr>hm_size := hm_size m + 1\<rparr>)"

definition cmap_insert :: "cstr \<Rightarrow> 'v \<Rightarrow> 'v cmap \<Rightarrow> 'v cmap" where
  "cmap_insert key v m = (let m = (if hm_capacity m = 0 then rehash_to 64 m else m) in
     case chain_find key (chain_of key m) of
       Some _ \<Rightarrow> set_chain key (chain_assign key (\<lambda>_. v) (chain_of key m)) m
     | None \<Rightarrow> add_node key v m)"

text \<open>\<^verbatim>\<open>operator[]\<close> returns a reference; \<^term>\<open>f\<close> is what the caller does to the referenced value, and
  \<^term>\<open>dflt\<close> is \<^verbatim>\<open>V{}\<close>.\<close>

definition subscript :: "'v \<Rightarrow> cstr \<Rightarrow> ('v \<Rightarrow> 'v) \<Rightarrow> 'v cmap \<Rightarrow> 'v cmap" where
  "subscript dflt key f m = (let m = (if hm_capacity m = 0 then rehash_to 64 m else m) in
     case chain_find key (chain_of key m) of
       Some _ \<Rightarrow> set_chain key (chain_assign key f (chain_of key m)) m
     | None \<Rightarrow> add_node key (f dflt) m)"

definition cmap_erase :: "cstr \<Rightarrow> 'v cmap \<Rightarrow> 'v cmap" where
  "cmap_erase key m = (if hm_capacity m = 0 then m
     else case chain_find key (chain_of key m) of None \<Rightarrow> m
       | Some _ \<Rightarrow> (set_chain key (chain_erase key (chain_of key m)) m)\<lparr>hm_size := hm_size m - 1\<rparr>)"

definition cmap_clear :: "'v cmap \<Rightarrow> 'v cmap" where
  "cmap_clear m = (if hm_buckets m = [] then m
     else m\<lparr>hm_buckets := replicate (length (hm_buckets m)) [], hm_size := 0\<rparr>)"

definition cmap_move :: "'v cmap \<Rightarrow> 'v cmap \<times> 'v cmap" where
  "cmap_move other = (other, other\<lparr>hm_buckets := [], hm_capacity := 0, hm_size := 0\<rparr>)"

section \<open>Iteration\<close>

text \<open>An iterator: the bucket it stands in and the rest of that chain from its node on, empty for a
  null node.\<close>

record 'v cmap_iter =
  it_chain :: "(cstr \<times> 'v) list"
  it_bucket :: nat

fun next_nonempty :: "(cstr \<times> 'v) list list \<Rightarrow> nat \<Rightarrow> nat \<Rightarrow> 'v cmap_iter" where
  "next_nonempty [] i n = \<lparr>it_chain = [], it_bucket = n\<rparr>"
| "next_nonempty (c # cs) i n = (if c \<noteq> [] then \<lparr>it_chain = c, it_bucket = i\<rparr> else next_nonempty cs (Suc i) n)"

definition iter_begin :: "'v cmap \<Rightarrow> 'v cmap_iter" where
  "iter_begin m = next_nonempty (hm_buckets m) 0 (unat (hm_capacity m))"

definition iter_next :: "'v cmap \<Rightarrow> 'v cmap_iter \<Rightarrow> 'v cmap_iter" where
  "iter_next m it = (if it_chain it \<noteq> [] \<and> tl (it_chain it) \<noteq> [] then it\<lparr>it_chain := tl (it_chain it)\<rparr>
     else next_nonempty (drop (Suc (it_bucket it)) (hm_buckets m)) (Suc (it_bucket it)) (unat (hm_capacity m)))"

text \<open>The range-for loop, cut off after \<^term>\<open>n\<close> turns; \<^term>\<open>None\<close> when it has not reached the end.\<close>

fun iter_walk :: "nat \<Rightarrow> 'v cmap \<Rightarrow> 'v cmap_iter \<Rightarrow> (cstr \<times> 'v) list option" where
  "iter_walk n m it = (case it_chain it of [] \<Rightarrow> Some []
     | e # _ \<Rightarrow> (case n of 0 \<Rightarrow> None | Suc n' \<Rightarrow> map_option (\<lambda>es. e # es) (iter_walk n' m (iter_next m it))))"

section \<open>Powers of two\<close>

lemma bit_smear:
  assumes "0 < s" "\<And>i. bit v i \<longleftrightarrow> (\<exists>j. i \<le> j \<and> j < i + s \<and> bit v0 j)"
  shows "bit (smear s v) i \<longleftrightarrow> (\<exists>j\<ge>i. bit (v0 :: usize) j)"
  using assms
proof (induction s v rule: smear.induct)
  case (1 s v)
  show ?case
  proof (cases "s < 64")
    case True
    let ?v = "v OR drop_bit s v"
    have "bit ?v i \<longleftrightarrow> (\<exists>j. i \<le> j \<and> j < i + s * 2 \<and> bit v0 j)" for i
    proof -
      have "bit ?v i \<longleftrightarrow> bit v i \<or> bit v (i + s)"
        by (simp add: bit_or_iff bit_drop_bit_eq add.commute)
      also have "\<dots> \<longleftrightarrow> (\<exists>j. i \<le> j \<and> j < i + s * 2 \<and> bit v0 j)"
        unfolding "1.prems"(2) by (auto; metis add.assoc add_leE leI mult_2_right nat_le_linear not_less)
      finally show ?thesis .
    qed
    then have "bit (smear (s * 2) ?v) i \<longleftrightarrow> (\<exists>j\<ge>i. bit v0 j)"
      using "1.IH" True "1.prems"(1) by simp
    then show ?thesis using True "1.prems"(1) by (simp add: smear.simps [of s])
  next
    case False
    have "j < i + s" if "bit v0 j" for i j using bit_imp_le_length [OF that] False by simp
    then show ?thesis using False "1.prems"(2) by (auto simp: smear.simps [of s])
  qed
qed

lemma bit_nat_le: "bit (n :: nat) h \<Longrightarrow> 2 ^ h \<le> n"
  by (rule ccontr) (simp add: bit_iff_odd)

lemma top_bit:
  fixes x :: usize
  assumes "x \<noteq> 0"
  obtains h where "h < 64" "bit x h" "\<And>j. bit x j \<Longrightarrow> j \<le> h" "2 ^ h \<le> unat x" "unat x < 2 ^ Suc h"
proof -
  let ?B = "{j. bit x j}"
  have fin: "finite ?B" by (rule finite_subset [of _ "{..<64}"]) (auto dest: bit_imp_le_length)
  have "?B \<noteq> {}" using assms by (auto simp: bit_eq_iff)
  then have top: "bit x (Max ?B)" "\<And>j. bit x j \<Longrightarrow> j \<le> Max ?B"
    using Max_in [OF fin] Max_ge [OF fin] by auto
  have "Max ?B < 64" using bit_imp_le_length [OF top(1)] by simp
  moreover have "2 ^ Max ?B \<le> unat x"
  proof -
    have "bit (unat x) (Max ?B)" using top(1) \<open>Max ?B < 64\<close> by (simp add: bit_unsigned_iff)
    then show ?thesis by (rule bit_nat_le)
  qed
  moreover have "take_bit (Suc (Max ?B)) x = x"
    by (rule bit_word_eqI) (use top(2) in \<open>auto simp: bit_take_bit_iff less_Suc_eq_le\<close>)
  then have "unat x = take_bit (Suc (Max ?B)) (unat x)" by (metis unsigned_take_bit_eq)
  then have "unat x < 2 ^ Suc (Max ?B)" by (metis take_bit_nat_less_exp)
  ultimately show thesis using that top by blast
qed

lemma smear_mask:
  assumes "bit x h" "\<And>j. bit x j \<Longrightarrow> j \<le> h"
  shows "smear 1 x = mask (Suc h)"
proof (rule bit_word_eqI)
  fix i assume "i < LENGTH(64)"
  have one: "bit x i \<longleftrightarrow> (\<exists>j. i \<le> j \<and> j < i + 1 \<and> bit x j)" for i
    by (metis Suc_eq_plus1 le_less_Suc_eq lessI order_refl)
  have "bit (smear 1 x) i \<longleftrightarrow> (\<exists>j\<ge>i. bit x j)" by (rule bit_smear [OF _ one]) simp
  also have "\<dots> \<longleftrightarrow> i \<le> h" using assms le_trans by blast
  finally show "bit (smear 1 x) i \<longleftrightarrow> bit (mask (Suc h) :: usize) i"
    using \<open>i < LENGTH(64)\<close> by (simp add: bit_mask_iff less_Suc_eq_le)
qed

lemma next_power_of_two_small: "unat v \<le> 1 \<Longrightarrow> next_power_of_two v = 1"
  by (simp add: next_power_of_two_def word_le_nat_alt)

lemma next_power_of_two_large:
  assumes "1 < unat v"
  obtains h where "h < 64" "next_power_of_two v = 2 ^ Suc h" "2 ^ h < unat v" "unat v \<le> 2 ^ Suc h"
proof -
  have v: "\<not> v \<le> 1" using assms by (simp add: word_le_nat_alt)
  have u: "unat (v - 1) = unat v - 1" using assms by (simp add: unat_sub word_le_nat_alt)
  then have "v - 1 \<noteq> 0" using assms by auto
  then obtain h where h: "h < 64" "bit (v - 1) h" "\<And>j. bit (v - 1) j \<Longrightarrow> j \<le> h"
      "2 ^ h \<le> unat (v - 1)" "unat (v - 1) < 2 ^ Suc h"
    by (rule top_bit) blast
  have "next_power_of_two v = 2 ^ Suc h"
    using v smear_mask [OF h(2,3)] by (simp add: next_power_of_two_def mask_eq_exp_minus_1)
  then show thesis using that h u assms by auto
qed

section \<open>Keys and chains\<close>

lemma cstr_ok_Cons [simp]: "cstr_ok (c # s) \<longleftrightarrow> c \<noteq> 0 \<and> cstr_ok s"
  by (auto simp: cstr_ok_def)

lemma cstr_cmp_eq_0: "cstr_ok a \<Longrightarrow> cstr_ok b \<Longrightarrow> cstr_cmp a b = 0 \<longleftrightarrow> a = b"
  by (induction a b rule: cstr_cmp.induct) (auto simp: word_uint_eq_iff)

definition keys :: "(cstr \<times> 'v) list \<Rightarrow> cstr set" where
  "keys c = fst ` set c"

lemma keys_simps [simp]: "keys [] = {}" "keys (e # c) = insert (fst e) (keys c)"
  by (simp_all add: keys_def)

lemma map_of_None_keys: "map_of c k = None \<longleftrightarrow> k \<notin> keys c"
  by (auto simp: keys_def map_of_eq_None_iff)

definition chain_ok :: "(cstr \<times> 'v) list \<Rightarrow> bool" where
  "chain_ok c \<longleftrightarrow> distinct (map fst c) \<and> (\<forall>k \<in> keys c. cstr_ok k)"

lemma chain_ok_simps [simp]:
  "chain_ok []" "chain_ok (e # c) \<longleftrightarrow> fst e \<notin> keys c \<and> cstr_ok (fst e) \<and> chain_ok c"
  by (auto simp: chain_ok_def keys_def)

lemma chain_find_map_of: "chain_ok c \<Longrightarrow> cstr_ok k \<Longrightarrow> chain_find k c = map_of c k"
  by (induction k c rule: chain_find.induct) (auto simp: cstr_cmp_eq_0)

lemma chain_assign_keys [simp]: "keys (chain_assign k f c) = keys c" "length (chain_assign k f c) = length c"
  by (induction k f c rule: chain_assign.induct) auto

lemma chain_assign_ok: "chain_ok c \<Longrightarrow> chain_ok (chain_assign k f c)"
  by (induction k f c rule: chain_assign.induct) auto

lemma chain_assign_map_of:
  "chain_ok c \<Longrightarrow> cstr_ok k \<Longrightarrow> k \<in> keys c
    \<Longrightarrow> map_of (chain_assign k f c) = (map_of c)(k := map_option f (map_of c k))"
  by (induction k f c rule: chain_assign.induct) (auto simp: cstr_cmp_eq_0 fun_eq_iff)

lemma chain_erase_keys: "chain_ok c \<Longrightarrow> cstr_ok k \<Longrightarrow> keys (chain_erase k c) = keys c - {k}"
  by (induction k c rule: chain_erase.induct) (auto simp: cstr_cmp_eq_0)

lemma chain_erase_length: "chain_ok c \<Longrightarrow> cstr_ok k \<Longrightarrow> k \<in> keys c \<Longrightarrow> Suc (length (chain_erase k c)) = length c"
  by (induction k c rule: chain_erase.induct) (auto simp: cstr_cmp_eq_0)

lemma chain_erase_ok: "chain_ok c \<Longrightarrow> cstr_ok k \<Longrightarrow> chain_ok (chain_erase k c)"
  by (induction k c rule: chain_erase.induct) (auto simp: cstr_cmp_eq_0 chain_erase_keys)

lemma chain_erase_map_of:
  "chain_ok c \<Longrightarrow> cstr_ok k \<Longrightarrow> map_of (chain_erase k c) = (map_of c)(k := None)"
  by (induction k c rule: chain_erase.induct)
    (auto simp: cstr_cmp_eq_0 fun_eq_iff map_of_None_keys)

section \<open>Bucket arrays\<close>

definition idx :: "nat \<Rightarrow> cstr \<Rightarrow> nat" where
  "idx n k = unat (hash_func k) mod 2 ^ n"

lemma bucket_index_pow2: "n < 64 \<Longrightarrow> bucket_index (hash_func k) (2 ^ n) = idx n k"
  using and_mask_pow2 [of n "hash_func k"] by (simp add: bucket_index_def idx_def)

lemma idx_less [simp]: "idx n k < 2 ^ n"
  by (simp add: idx_def)

definition buckets_ok :: "nat \<Rightarrow> (cstr \<times> 'v) list list \<Rightarrow> bool" where
  "buckets_ok n bs \<longleftrightarrow> length bs = 2 ^ n \<and> (\<forall>i < 2 ^ n. chain_ok (bs ! i) \<and> (\<forall>k \<in> keys (bs ! i). idx n k = i))"

lemma keys_concat: "keys (concat bs) = (\<Union>c \<in> set bs. keys c)"
  by (simp add: keys_def image_UN)

lemma buckets_key: "buckets_ok n bs \<Longrightarrow> k \<in> keys (concat bs) \<longleftrightarrow> k \<in> keys (bs ! idx n k)"
  by (auto simp: keys_concat buckets_ok_def in_set_conv_nth) (metis idx_less nth_mem)

lemma map_of_concat_no_key:
  "(\<And>c. c \<in> set bs \<Longrightarrow> k \<notin> keys c) \<Longrightarrow> map_of (concat bs) k = None"
  by (simp add: map_of_None_keys keys_concat)

lemma map_of_append_at: "map_of (xs @ ys) k = (case map_of xs k of None \<Rightarrow> map_of ys k | Some v \<Rightarrow> Some v)"
  by (simp add: map_add_def split: option.splits)

lemma map_of_concat:
  assumes ok: "buckets_ok n bs"
  shows "map_of (concat bs) k = map_of (bs ! idx n k) k"
proof -
  let ?i = "idx n k"
  have i: "?i < length bs" using ok by (simp add: buckets_ok_def)
  have other: "k \<notin> keys (bs ! j)" if "j < length bs" "j \<noteq> ?i" for j
    using ok that by (auto simp: buckets_ok_def)
  have split: "bs = take ?i bs @ bs ! ?i # drop (Suc ?i) bs" by (rule id_take_nth_drop [OF i])
  have "map_of (concat (take ?i bs)) k = None"
    using other i by (intro map_of_concat_no_key) (auto simp: in_set_conv_nth)
  moreover have "map_of (concat (drop (Suc ?i) bs)) k = None"
  proof (rule map_of_concat_no_key)
    fix c assume "c \<in> set (drop (Suc ?i) bs)"
    then obtain j where j: "j < length (drop (Suc ?i) bs)" "c = drop (Suc ?i) bs ! j"
      by (auto simp: in_set_conv_nth)
    then have "c = bs ! (Suc ?i + j)" "Suc ?i + j < length bs" by simp_all
    then show "k \<notin> keys c" using other by simp
  qed
  ultimately have "map_of (concat (take ?i bs @ bs ! ?i # drop (Suc ?i) bs)) k = map_of (bs ! ?i) k"
    by (simp add: map_of_append_at map_add_def split: option.splits)
  then show ?thesis using split by metis
qed

lemma length_concat_update:
  assumes "i < length bs"
  shows "length (concat (bs[i := c])) + length (bs ! i) = length (concat bs) + length c"
proof -
  have "bs[i := c] = take i bs @ c # drop (Suc i) bs" by (rule upd_conv_take_nth_drop [OF assms])
  moreover have "length (concat bs) = length (concat (take i bs)) + length (bs ! i) + length (concat (drop (Suc i) bs))"
    by (subst id_take_nth_drop [OF assms]) simp
  ultimately show ?thesis by simp
qed

text \<open>Replacing the chain of a key by one that agrees elsewhere updates the map at that key.\<close>

lemma replace_chain:
  assumes ok: "buckets_ok n bs" and c: "chain_ok c" "\<And>k'. k' \<in> keys c \<Longrightarrow> idx n k' = idx n k"
    and same: "\<And>k'. k' \<noteq> k \<Longrightarrow> map_of c k' = map_of (bs ! idx n k) k'"
  shows "buckets_ok n (bs[idx n k := c])"
    and "map_of (concat (bs[idx n k := c])) = (map_of (concat bs))(k := map_of c k)"
proof -
  have i: "idx n k < length bs" using ok by (simp add: buckets_ok_def)
  show ok': "buckets_ok n (bs[idx n k := c])"
    using ok c i by (auto simp: buckets_ok_def nth_list_update)
  show "map_of (concat (bs[idx n k := c])) = (map_of (concat bs))(k := map_of c k)"
  proof
    fix k' show "map_of (concat (bs[idx n k := c])) k' = ((map_of (concat bs))(k := map_of c k)) k'"
      using same [of k'] i unfolding map_of_concat [OF ok'] fun_upd_apply map_of_concat [OF ok]
      by (simp add: nth_list_update)
  qed
qed

lemma push_node_ok:
  assumes ok: "buckets_ok n bs" and n: "n < 64" and k: "cstr_ok (fst e)" "fst e \<notin> keys (concat bs)"
  shows "buckets_ok n (push_node (2 ^ n) e bs)"
    and "map_of (concat (push_node (2 ^ n) e bs)) = (map_of (concat bs))(fst e \<mapsto> snd e)"
    and "length (concat (push_node (2 ^ n) e bs)) = Suc (length (concat bs))"
proof -
  let ?i = "idx n (fst e)"
  have i: "?i < length bs" "?i < 2 ^ n" using ok by (simp_all add: buckets_ok_def)
  have eq: "push_node (2 ^ n) e bs = bs[?i := e # bs ! ?i]"
    by (simp add: push_node_def Let_def bucket_index_pow2 [OF n])
  have c: "chain_ok (e # bs ! ?i)"
    using ok k i buckets_key [OF ok, of "fst e"] by (simp add: buckets_ok_def)
  have "idx n k' = ?i" if "k' \<in> keys (e # bs ! ?i)" for k' using that ok i by (auto simp: buckets_ok_def)
  note r = replace_chain [OF ok c this]
  show "buckets_ok n (push_node (2 ^ n) e bs)" unfolding eq by (rule r) auto
  show "map_of (concat (push_node (2 ^ n) e bs)) = (map_of (concat bs))(fst e \<mapsto> snd e)"
    unfolding eq by (subst r(2)) auto
  show "length (concat (push_node (2 ^ n) e bs)) = Suc (length (concat bs))"
    using length_concat_update [OF i(1), of "e # bs ! ?i"] unfolding eq by simp
qed

lemma keys_map_of: "k \<in> keys c \<longleftrightarrow> map_of c k \<noteq> None"
  by (simp add: map_of_None_keys)

lemma fold_push_node:
  assumes "buckets_ok n bs" "n < 64" "chain_ok es" "keys es \<inter> keys (concat bs) = {}"
  shows "buckets_ok n (fold (push_node (2 ^ n)) es bs)
    \<and> map_of (concat (fold (push_node (2 ^ n)) es bs)) = map_of (concat bs) ++ map_of es
    \<and> length (concat (fold (push_node (2 ^ n)) es bs)) = length es + length (concat bs)"
  using assms
proof (induction es arbitrary: bs)
  case Nil
  then show ?case by simp
next
  case (Cons e es)
  note p = push_node_ok [OF Cons.prems(1,2), of e]
  let ?bs = "push_node (2 ^ n) e bs"
  have new: "buckets_ok n ?bs" "map_of (concat ?bs) = (map_of (concat bs))(fst e \<mapsto> snd e)"
    "length (concat ?bs) = Suc (length (concat bs))"
    using p Cons.prems by auto
  have "keys es \<inter> keys (concat ?bs) = {}"
    using Cons.prems(3,4) new(2) by (auto simp: keys_map_of split: if_splits)
  then have ih: "buckets_ok n (fold (push_node (2 ^ n)) es ?bs)
      \<and> map_of (concat (fold (push_node (2 ^ n)) es ?bs)) = map_of (concat ?bs) ++ map_of es
      \<and> length (concat (fold (push_node (2 ^ n)) es ?bs)) = length es + length (concat ?bs)"
    using Cons new by (intro Cons.IH) auto
  have "map_of es (fst e) = None" using Cons.prems(3) by (simp add: map_of_None_keys)
  then have "(map_of (concat bs))(fst e \<mapsto> snd e) ++ map_of es = map_of (concat bs) ++ map_of (e # es)"
    by (cases e) (auto simp: fun_eq_iff map_add_def split: option.splits)
  then show ?case using ih new(2,3) by (metis add_Suc_right add_Suc fold_simps(2) length_Cons)
qed

lemma chain_ok_append: "chain_ok (xs @ ys) \<longleftrightarrow> chain_ok xs \<and> chain_ok ys \<and> keys xs \<inter> keys ys = {}"
  by (auto simp: chain_ok_def keys_def)

lemma chain_ok_concat:
  "(\<And>i. i < length bs \<Longrightarrow> chain_ok (bs ! i))
    \<Longrightarrow> (\<And>i j k. i < length bs \<Longrightarrow> j < length bs \<Longrightarrow> k \<in> keys (bs ! i) \<Longrightarrow> k \<in> keys (bs ! j) \<Longrightarrow> i = j)
    \<Longrightarrow> chain_ok (concat bs)"
proof (induction bs)
  case Nil
  then show ?case by simp
next
  case (Cons c bs)
  have "chain_ok c" using Cons.prems(1) [of 0] by simp
  moreover have "chain_ok (concat bs)"
  proof (rule Cons.IH)
    show "chain_ok (bs ! i)" if "i < length bs" for i using Cons.prems(1) [of "Suc i"] that by simp
    show "i = j" if "i < length bs" "j < length bs" "k \<in> keys (bs ! i)" "k \<in> keys (bs ! j)" for i j k
      using Cons.prems(2) [of "Suc i" "Suc j" k] that by simp
  qed
  moreover have "keys c \<inter> keys (concat bs) = {}"
  proof -
    have False if k: "k \<in> keys c" "c' \<in> set bs" "k \<in> keys c'" for k c'
    proof -
      obtain j where "j < length bs" "c' = bs ! j" using k(2) by (auto simp: in_set_conv_nth)
      then show False using Cons.prems(2) [of 0 "Suc j" k] k by simp
    qed
    then show ?thesis by (auto simp: keys_concat)
  qed
  ultimately show ?case by (simp add: chain_ok_append)
qed

lemma buckets_chain_ok:
  assumes "buckets_ok n bs"
  shows "chain_ok (concat bs)"
proof (rule chain_ok_concat)
  have len: "length bs = 2 ^ n" using assms by (simp add: buckets_ok_def)
  show "chain_ok (bs ! i)" if "i < length bs" for i using assms that len by (simp add: buckets_ok_def)
  show "i = j" if "i < length bs" "j < length bs" "k \<in> keys (bs ! i)" "k \<in> keys (bs ! j)" for i j k
    using assms that len by (metis buckets_ok_def)
qed

lemma buckets_ok_empty: "buckets_ok n (replicate (2 ^ n) [])"
  by (simp add: buckets_ok_def)

section \<open>The map operations\<close>

definition cmap_map :: "'v cmap \<Rightarrow> cstr \<rightharpoonup> 'v" where
  "cmap_map m = map_of (concat (hm_buckets m))"

definition cmap_inv :: "'v cmap \<Rightarrow> bool" where
  "cmap_inv m \<longleftrightarrow> unat (hm_size m) = length (concat (hm_buckets m))
     \<and> ((hm_buckets m = [] \<and> hm_capacity m = 0) \<or> (\<exists>n < 64. hm_capacity m = 2 ^ n \<and> buckets_ok n (hm_buckets m)))"

lemma pow2_neq_0 [simp]: "n < 64 \<Longrightarrow> (2 ^ n :: usize) \<noteq> 0"
  by (simp add: exp_eq_zero_iff)

lemma unat_pow2 [simp]: "n < 64 \<Longrightarrow> unat (2 ^ n :: usize) = 2 ^ n"
  by (metis of_nat_numeral of_nat_power power_strict_increasing_iff one_less_numeral_iff semiring_norm(76) unat_of_nat_usize)

lemma next_power_of_two_pow2: "n < 64 \<Longrightarrow> next_power_of_two (2 ^ n) = 2 ^ n"
proof (cases n)
  case 0
  then show ?thesis by (simp add: next_power_of_two_def)
next
  case (Suc m)
  assume n: "n < 64"
  have "1 < unat (2 ^ n :: usize)" using n Suc one_less_power [of "2::nat" n] by (simp del: power_Suc)
  then obtain h where h: "next_power_of_two (2 ^ n) = 2 ^ Suc h"
      "(2 :: nat) ^ h < unat (2 ^ n :: usize)" "unat (2 ^ n :: usize) \<le> 2 ^ Suc h"
    by (rule next_power_of_two_large) blast
  then have "h < n" "n \<le> Suc h" using n by (simp_all del: power_Suc)
  then have "n = Suc h" by simp
  then show ?thesis using h(1) by simp
qed

lemma rehash_to_inv:
  assumes inv: "cmap_inv m" and c: "next_power_of_two c = 2 ^ n" "n < 64"
  shows "cmap_inv (rehash_to c m) \<and> cmap_map (rehash_to c m) = cmap_map m
    \<and> hm_size (rehash_to c m) = hm_size m \<and> hm_capacity (rehash_to c m) = 2 ^ n"
proof -
  have es: "chain_ok (concat (hm_buckets m))"
    using inv buckets_chain_ok by (auto simp: cmap_inv_def)
  let ?bs = "fold (push_node (2 ^ n)) (concat (hm_buckets m)) (replicate (2 ^ n) [])"
  have f: "buckets_ok n ?bs \<and> map_of (concat ?bs) = map_of (concat (hm_buckets m))
      \<and> length (concat ?bs) = length (concat (hm_buckets m))"
    using fold_push_node [OF buckets_ok_empty c(2) es] by simp
  have "rehash_to c m = m\<lparr>hm_buckets := ?bs, hm_capacity := 2 ^ n\<rparr>"
    using c by (simp add: rehash_to_def Let_def)
  then show ?thesis using f inv c(2) by (auto simp: cmap_inv_def cmap_map_def)
qed

lemma ensure_inv:
  assumes "cmap_inv m"
  obtains n where "n < 64" "cmap_inv (if hm_capacity m = 0 then rehash_to 64 m else m)"
    "cmap_map (if hm_capacity m = 0 then rehash_to 64 m else m) = cmap_map m"
    "hm_size (if hm_capacity m = 0 then rehash_to 64 m else m) = hm_size m"
    "hm_capacity (if hm_capacity m = 0 then rehash_to 64 m else m) = 2 ^ n"
proof (cases "hm_capacity m = 0")
  case True
  have "next_power_of_two 64 = 2 ^ 6" using next_power_of_two_pow2 [of 6] by simp
  then show ?thesis using rehash_to_inv [OF assms, of 64 6] that [of 6] True by simp
next
  case False
  then show ?thesis using assms that by (auto simp: cmap_inv_def)
qed

lemma buckets_of:
  assumes "cmap_inv m" "hm_capacity m = 2 ^ n" "n < 64"
  shows "buckets_ok n (hm_buckets m)" "chain_of k m = hm_buckets m ! idx n k"
    "set_chain k c m = m\<lparr>hm_buckets := (hm_buckets m)[idx n k := c]\<rparr>"
proof -
  show "chain_of k m = hm_buckets m ! idx n k" "set_chain k c m = m\<lparr>hm_buckets := (hm_buckets m)[idx n k := c]\<rparr>"
    using assms bucket_index_pow2 [OF assms(3)] by (simp_all add: chain_of_def set_chain_def)
  obtain n' where n': "n' < 64" "hm_capacity m = 2 ^ n'" "buckets_ok n' (hm_buckets m)"
    using assms by (auto simp: cmap_inv_def)
  have "(2 :: nat) ^ n' = 2 ^ n" using n' assms(2,3) unat_pow2 by metis
  then show "buckets_ok n (hm_buckets m)" using n' by simp
qed

lemma chain_lookup:
  assumes "cmap_inv m" "hm_capacity m = 2 ^ n" "n < 64" "cstr_ok k"
  shows "chain_find k (chain_of k m) = cmap_map m k"
proof -
  note b = buckets_of [OF assms(1-3)]
  have "chain_ok (hm_buckets m ! idx n k)" using b(1) by (simp add: buckets_ok_def)
  then show ?thesis
    using assms(4) by (simp add: chain_find_map_of b(2) cmap_map_def map_of_concat [OF b(1)])
qed

lemma find_map: "cmap_inv m \<Longrightarrow> cstr_ok k \<Longrightarrow> cmap_find k m = cmap_map m k"
proof (cases "hm_capacity m = 0")
  case True
  assume "cmap_inv m"
  then have "hm_buckets m = []" using True by (auto simp: cmap_inv_def)
  then show ?thesis using True by (simp add: cmap_find_def cmap_map_def)
next
  case False
  assume "cmap_inv m" "cstr_ok k"
  moreover from this False obtain n where "n < 64" "hm_capacity m = 2 ^ n" by (auto simp: cmap_inv_def)
  ultimately show ?thesis using False chain_lookup by (simp add: cmap_find_def)
qed

text \<open>Assignment to the value of a key that is present.\<close>

lemma assign_inv:
  assumes inv: "cmap_inv m" and n: "hm_capacity m = 2 ^ n" "n < 64" and k: "cstr_ok k" "cmap_map m k = Some v"
  shows "cmap_inv (set_chain k (chain_assign k f (chain_of k m)) m)
    \<and> cmap_map (set_chain k (chain_assign k f (chain_of k m)) m) = (cmap_map m)(k \<mapsto> f v)
    \<and> hm_size (set_chain k (chain_assign k f (chain_of k m)) m) = hm_size m"
proof -
  note b = buckets_of [OF inv n]
  let ?c = "hm_buckets m ! idx n k"
  have ok: "chain_ok ?c" "\<And>k'. k' \<in> keys ?c \<Longrightarrow> idx n k' = idx n k" using b(1) by (auto simp: buckets_ok_def)
  have v: "map_of ?c k = Some v" using k map_of_concat [OF b(1)] by (simp add: cmap_map_def)
  then have mem: "k \<in> keys ?c" by (simp add: keys_map_of)
  note as = chain_assign_map_of [OF ok(1) k(1) mem, of f]
  have "map_of (chain_assign k f ?c) k' = map_of ?c k'" if "k' \<noteq> k" for k' using as that by simp
  note r = replace_chain [OF b(1) chain_assign_ok [OF ok(1)] _ this]
  have i: "idx n k < length (hm_buckets m)" using b(1) by (simp add: buckets_ok_def)
  have len: "length (concat ((hm_buckets m)[idx n k := chain_assign k f ?c])) = length (concat (hm_buckets m))"
    using length_concat_update [OF i, of "chain_assign k f ?c"] by simp
  have "buckets_ok n ((hm_buckets m)[idx n k := chain_assign k f ?c])" using ok(2) by (intro r(1)) simp
  moreover have "map_of (concat ((hm_buckets m)[idx n k := chain_assign k f ?c])) = (cmap_map m)(k \<mapsto> f v)"
    using ok(2) by (subst r(2)) (simp_all add: as v cmap_map_def)
  ultimately show ?thesis
    using inv n len unfolding b(2,3) by (auto simp: cmap_inv_def cmap_map_def)
qed

text \<open>The bound on the number of entries under which the capacity cannot wrap when it doubles.\<close>

definition cmap_room :: "'v cmap \<Rightarrow> bool" where
  "cmap_room m \<longleftrightarrow> unat (hm_size m) < 2 ^ 60"

lemma unat_load_limit: "n < 64 \<Longrightarrow> unat (load_limit (2 ^ n)) = 3 * 2 ^ n div 4"
proof -
  assume n: "n < 64"
  then have "(2 :: nat) ^ n \<le> 2 ^ 63" by (intro power_increasing) simp_all
  then have "3 * (2 :: nat) ^ n div 4 < 2 ^ 64" by simp
  then show ?thesis using n by (simp add: load_limit_def)
qed

lemma unat_Suc: "unat (x :: usize) < 2 ^ 63 \<Longrightarrow> unat (x + 1) = Suc (unat x)"
  by (simp add: unat_word_ariths)

lemma rehash_if_needed_inv:
  assumes inv: "cmap_inv m" and n: "hm_capacity m = 2 ^ n" "n < 64" and room: "cmap_room m"
  obtains n' where "n' < 64" "cmap_inv (rehash_if_needed_for_insert m)"
    "cmap_map (rehash_if_needed_for_insert m) = cmap_map m"
    "hm_size (rehash_if_needed_for_insert m) = hm_size m"
    "hm_capacity (rehash_if_needed_for_insert m) = 2 ^ n'"
    "unat (hm_size m) + 1 \<le> 3 * 2 ^ n' div 4 \<or> n' = Suc n"
proof (cases "load_limit (hm_capacity m) < hm_size m + 1")
  case False
  then have "unat (hm_size m) + 1 \<le> 3 * 2 ^ n div 4"
    using room unat_load_limit [OF n(2)] unat_Suc [of "hm_size m"]
    by (simp add: cmap_room_def word_less_nat_alt n not_less)
  then show ?thesis using that [OF n(2)] inv n False by (simp add: rehash_if_needed_for_insert_def)
next
  case True
  have "3 * 2 ^ n div 4 < Suc (unat (hm_size m))"
    using True room unat_load_limit [OF n(2)] unat_Suc [of "hm_size m"]
    by (simp add: cmap_room_def word_less_nat_alt n)
  then have "3 * (2 :: nat) ^ n < 2 ^ 63" using room by (simp add: cmap_room_def div_less_iff_less_mult)
  then have "(2 :: nat) ^ n < 2 ^ 63" by linarith
  then have "n < 63" by (rule power_less_imp_less_exp [rotated]) simp
  then have n63: "Suc n < 64" by simp
  have c: "next_power_of_two (hm_capacity m * 2) = 2 ^ Suc n"
    using next_power_of_two_pow2 [OF n63] by (simp add: n mult.commute)
  have "rehash_if_needed_for_insert m = rehash_to (hm_capacity m * 2) m"
    using True n by (simp add: rehash_if_needed_for_insert_def)
  then show ?thesis using that [OF n63] rehash_to_inv [OF inv c n63] by simp
qed

lemma add_node_inv:
  assumes inv: "cmap_inv m" and n: "hm_capacity m = 2 ^ n" "n < 64" and room: "cmap_room m"
    and k: "cstr_ok k" "cmap_map m k = None"
  shows "cmap_inv (add_node k v m) \<and> cmap_map (add_node k v m) = (cmap_map m)(k \<mapsto> v)
    \<and> hm_size (add_node k v m) = hm_size m + 1"
proof -
  let ?m = "rehash_if_needed_for_insert m"
  obtain n' where r: "n' < 64" "cmap_inv ?m" "cmap_map ?m = cmap_map m" "hm_size ?m = hm_size m"
      "hm_capacity ?m = 2 ^ n'"
    by (rule rehash_if_needed_inv [OF inv n room]) blast
  note b = buckets_of [OF r(2,5,1)]
  have eq: "add_node k v m = ?m\<lparr>hm_buckets := push_node (2 ^ n') (k, v) (hm_buckets ?m), hm_size := hm_size m + 1\<rparr>"
    by (simp add: add_node_def Let_def b(2,3) r(4) push_node_def bucket_index_pow2 [OF r(1)])
  have none: "k \<notin> keys (concat (hm_buckets ?m))" using k(2) r(3) by (simp add: keys_map_of cmap_map_def)
  note p = push_node_ok [OF b(1) r(1), of "(k, v)", simplified, OF k(1) none]
  have "unat (hm_size m + 1) = Suc (unat (hm_size m))"
    using room by (intro unat_Suc) (simp add: cmap_room_def)
  then show ?thesis
    using p r unfolding eq by (auto simp: cmap_inv_def cmap_map_def)
qed

lemma subscript_inv:
  assumes inv: "cmap_inv m" and room: "cmap_room m" and k: "cstr_ok k"
  shows "cmap_inv (subscript d k f m)
    \<and> cmap_map (subscript d k f m) = (cmap_map m)(k \<mapsto> f (case cmap_map m k of None \<Rightarrow> d | Some v \<Rightarrow> v))
    \<and> hm_size (subscript d k f m) = hm_size m + (if cmap_map m k = None then 1 else 0)"
proof -
  let ?m = "if hm_capacity m = 0 then rehash_to 64 m else m"
  obtain n where e: "n < 64" "cmap_inv ?m" "cmap_map ?m = cmap_map m" "hm_size ?m = hm_size m" "hm_capacity ?m = 2 ^ n"
    by (rule ensure_inv [OF inv]) blast
  have find: "chain_find k (chain_of k ?m) = cmap_map m k"
    using chain_lookup [OF e(2,5,1) k] e(3) by simp
  have room': "cmap_room ?m" using room e(4) by (simp add: cmap_room_def)
  show ?thesis
  proof (cases "cmap_map m k")
    case None
    then have "subscript d k f m = add_node k (f d) ?m"
      using find by (simp add: subscript_def Let_def)
    then show ?thesis using add_node_inv [OF e(2,5,1) room' k] None e(3,4) by simp
  next
    case (Some v)
    then have "subscript d k f m = set_chain k (chain_assign k f (chain_of k ?m)) ?m"
      using find by (simp add: subscript_def Let_def)
    then show ?thesis using assign_inv [OF e(2,5,1) k, of v f] Some e(3,4) by simp
  qed
qed

lemma insert_subscript: "cmap_insert k v m = subscript v k (\<lambda>_. v) m"
  by (simp add: cmap_insert_def subscript_def)

lemma erase_inv:
  assumes inv: "cmap_inv m" and k: "cstr_ok k"
  shows "cmap_inv (cmap_erase k m) \<and> cmap_map (cmap_erase k m) = (cmap_map m)(k := None)"
proof (cases "hm_capacity m = 0")
  case True
  then have "hm_buckets m = []" using inv by (auto simp: cmap_inv_def)
  then show ?thesis using True inv by (auto simp: cmap_erase_def cmap_map_def)
next
  case False
  then obtain n where n: "hm_capacity m = 2 ^ n" "n < 64" using inv by (auto simp: cmap_inv_def)
  note b = buckets_of [OF inv n]
  let ?c = "hm_buckets m ! idx n k"
  have ok: "chain_ok ?c" "\<And>k'. k' \<in> keys ?c \<Longrightarrow> idx n k' = idx n k" using b(1) by (auto simp: buckets_ok_def)
  note er = chain_erase_map_of [OF ok(1) k]
  note find = chain_lookup [OF inv n k]
  show ?thesis
  proof (cases "cmap_map m k")
    case None
    then show ?thesis using find inv False by (auto simp: cmap_erase_def)
  next
    case (Some v)
    have i: "idx n k < length (hm_buckets m)" using b(1) by (simp add: buckets_ok_def)
    have mem: "k \<in> keys ?c" using Some map_of_concat [OF b(1)] by (simp add: cmap_map_def keys_map_of)
    let ?bs = "(hm_buckets m)[idx n k := chain_erase k ?c]"
    have eq: "cmap_erase k m = m\<lparr>hm_buckets := ?bs, hm_size := hm_size m - 1\<rparr>"
      using find Some False b(2,3) by (simp add: cmap_erase_def)
    have "map_of (chain_erase k ?c) k' = map_of ?c k'" if "k' \<noteq> k" for k' using er that by simp
    note r = replace_chain [OF b(1) chain_erase_ok [OF ok(1) k] _ this]
    have ks: "idx n k' = idx n k" if "k' \<in> keys (chain_erase k ?c)" for k'
      using ok(2) that chain_erase_keys [OF ok(1) k] by simp
    have rb: "buckets_ok n ?bs" "map_of (concat ?bs) = (cmap_map m)(k := None)"
      using r(1) [OF ks] r(2) [OF ks] by (simp_all add: er cmap_map_def)
    have len: "Suc (length (concat ?bs)) = length (concat (hm_buckets m))"
      using length_concat_update [OF i, of "chain_erase k ?c"] chain_erase_length [OF ok(1) k mem] by simp
    then have "0 < unat (hm_size m)" using inv by (metis cmap_inv_def zero_less_Suc)
    then have "unat (hm_size m - 1) = unat (hm_size m) - 1" by (simp add: unat_sub word_le_nat_alt)
    then show ?thesis using rb len inv n unfolding eq by (auto simp: cmap_inv_def cmap_map_def)
  qed
qed

lemma concat_replicate_Nil [simp]: "concat (replicate n []) = []"
  by (induction n) simp_all

lemma clear_inv: "cmap_inv m \<Longrightarrow> cmap_inv (cmap_clear m) \<and> cmap_map (cmap_clear m) = Map.empty"
proof (cases "hm_buckets m = []")
  case True
  assume "cmap_inv m"
  then show ?thesis using True by (simp add: cmap_clear_def cmap_map_def)
next
  case False
  assume "cmap_inv m"
  then obtain n where "n < 64" "hm_capacity m = 2 ^ n" "length (hm_buckets m) = 2 ^ n"
    using False by (auto simp: cmap_inv_def buckets_ok_def)
  then show ?thesis using False buckets_ok_empty [of n] by (auto simp: cmap_clear_def cmap_inv_def cmap_map_def)
qed

lemma init_capacity:
  assumes "unat c \<le> 2 ^ 63"
  obtains n where "next_power_of_two c = 2 ^ n" "n < 64"
proof (cases "unat c \<le> 1")
  case True
  then show ?thesis using that [of 0] next_power_of_two_small by simp
next
  case False
  then obtain h where h: "next_power_of_two c = 2 ^ Suc h" "2 ^ h < unat c"
    using next_power_of_two_large [of c] by auto
  then have "(2 :: nat) ^ h < 2 ^ 63" using assms by linarith
  then have "h < 63" by (rule power_less_imp_less_exp [rotated]) simp
  then have "Suc h < 64" by simp
  then show ?thesis using that h(1) by blast
qed

lemma init_inv:
  assumes "unat c \<le> 2 ^ 63"
  shows "cmap_inv (cmap_init c) \<and> cmap_map (cmap_init c) = Map.empty"
proof -
  obtain n where "next_power_of_two c = 2 ^ n" "n < 64" by (rule init_capacity [OF assms])
  then show ?thesis using buckets_ok_empty [of n] by (auto simp: cmap_init_def cmap_inv_def cmap_map_def)
qed

section \<open>Iteration visits every entry once\<close>

definition ahead :: "'v cmap \<Rightarrow> 'v cmap_iter \<Rightarrow> (cstr \<times> 'v) list" where
  "ahead m it = it_chain it @ concat (drop (Suc (it_bucket it)) (hm_buckets m))"

lemma next_nonempty_ahead:
  assumes "bs = drop i (hm_buckets m)" "length (hm_buckets m) \<le> n"
  shows "ahead m (next_nonempty bs i n) = concat bs
    \<and> (it_chain (next_nonempty bs i n) = [] \<longrightarrow> concat bs = [])"
  using assms
proof (induction bs arbitrary: i)
  case Nil
  then show ?case by (simp add: ahead_def)
next
  case (Cons c bs)
  have bs: "bs = drop (Suc i) (hm_buckets m)" using Cons.prems(1) by (metis drop_Suc list.sel(3) tl_drop)
  note ih = Cons.IH [OF bs Cons.prems(2)]
  show ?case
  proof (cases "c = []")
    case True
    then show ?thesis using ih by simp
  next
    case False
    then show ?thesis by (simp add: ahead_def bs [symmetric])
  qed
qed

lemma iter_walk_ahead:
  assumes len: "length (hm_buckets m) \<le> unat (hm_capacity m)"
    and wf: "it_chain it = [] \<Longrightarrow> ahead m it = []" and n: "length (ahead m it) \<le> n"
  shows "iter_walk n m it = Some (ahead m it)"
  using wf n
proof (induction n arbitrary: it)
  case 0
  then show ?case by (auto simp: ahead_def split: list.splits)
next
  case (Suc n)
  show ?case
  proof (cases "it_chain it")
    case Nil
    then show ?thesis using Suc.prems(1) by simp
  next
    case (Cons e c)
    have nx: "ahead m (iter_next m it) = tl (ahead m it) \<and> (it_chain (iter_next m it) = [] \<longrightarrow> tl (ahead m it) = [])"
      using Cons next_nonempty_ahead [OF refl len, of "Suc (it_bucket it)"]
      by (auto simp: iter_next_def ahead_def)
    then have "iter_walk n m (iter_next m it) = Some (ahead m (iter_next m it))"
      using Suc.prems(2) by (intro Suc.IH) auto
    then show ?thesis using Cons nx by (simp add: ahead_def)
  qed
qed

lemma iter_begin_walk:
  assumes "cmap_inv m"
  shows "iter_walk (unat (hm_size m)) m (iter_begin m) = Some (concat (hm_buckets m))"
proof -
  have len: "length (hm_buckets m) \<le> unat (hm_capacity m)"
    using assms by (auto simp: cmap_inv_def buckets_ok_def)
  have b: "ahead m (iter_begin m) = concat (hm_buckets m)
      \<and> (it_chain (iter_begin m) = [] \<longrightarrow> concat (hm_buckets m) = [])"
    using next_nonempty_ahead [OF _ len, of "hm_buckets m" 0] by (simp add: iter_begin_def)
  moreover have "length (ahead m (iter_begin m)) \<le> unat (hm_size m)"
    using b assms by (simp add: cmap_inv_def)
  ultimately show ?thesis using iter_walk_ahead [OF len, of "iter_begin m" "unat (hm_size m)"] by auto
qed

section \<open>Interface\<close>

text \<open>What a client of the map relies on.\<close>

locale cstr_map =
  fixes lookup :: "cstr \<Rightarrow> 'm \<Rightarrow> 'v option"
    and ref :: "'v \<Rightarrow> cstr \<Rightarrow> ('v \<Rightarrow> 'v) \<Rightarrow> 'm \<Rightarrow> 'm"
    and delete :: "cstr \<Rightarrow> 'm \<Rightarrow> 'm"
    and wipe :: "'m \<Rightarrow> 'm"
    and abs :: "'m \<Rightarrow> cstr \<rightharpoonup> 'v"
    and ok :: "'m \<Rightarrow> bool"
    and room :: "'m \<Rightarrow> bool"
  assumes lookup: "ok m \<Longrightarrow> cstr_ok k \<Longrightarrow> lookup k m = abs m k"
    and ref_ok: "ok m \<Longrightarrow> room m \<Longrightarrow> cstr_ok k \<Longrightarrow> ok (ref d k f m)"
    and ref_abs: "ok m \<Longrightarrow> room m \<Longrightarrow> cstr_ok k \<Longrightarrow>
      abs (ref d k f m) = (abs m)(k \<mapsto> f (case abs m k of None \<Rightarrow> d | Some v \<Rightarrow> v))"
    and delete: "ok m \<Longrightarrow> cstr_ok k \<Longrightarrow> ok (delete k m) \<and> abs (delete k m) = (abs m)(k := None)"
    and wipe: "ok m \<Longrightarrow> ok (wipe m) \<and> abs (wipe m) = Map.empty"
begin

lemma lookup_ref:
  "ok m \<Longrightarrow> room m \<Longrightarrow> cstr_ok k \<Longrightarrow> cstr_ok k' \<Longrightarrow> lookup k' (ref d k f m) =
     (if k' = k then Some (f (case lookup k m of None \<Rightarrow> d | Some v \<Rightarrow> v)) else lookup k' m)"
  by (simp add: lookup ref_ok ref_abs)

lemma lookup_delete:
  "ok m \<Longrightarrow> cstr_ok k \<Longrightarrow> cstr_ok k' \<Longrightarrow> lookup k' (delete k m) = (if k' = k then None else lookup k' m)"
  by (simp add: lookup delete)

end

interpretation hm: cstr_map cmap_find subscript cmap_erase cmap_clear cmap_map cmap_inv cmap_room
  by unfold_locales (simp_all add: find_map subscript_inv erase_inv clear_inv)

section \<open>Properties\<close>

datatype 'v cmap_op = Op_insert cstr 'v | Op_erase cstr | Op_clear

fun cmap_apply :: "'v cmap_op \<Rightarrow> 'v cmap \<Rightarrow> 'v cmap" where
  "cmap_apply (Op_insert k v) m = cmap_insert k v m"
| "cmap_apply (Op_erase k) m = cmap_erase k m"
| "cmap_apply Op_clear m = cmap_clear m"

fun spec_apply :: "'v cmap_op \<Rightarrow> (cstr \<rightharpoonup> 'v) \<Rightarrow> (cstr \<rightharpoonup> 'v)" where
  "spec_apply (Op_insert k v) g = g(k \<mapsto> v)"
| "spec_apply (Op_erase k) g = g(k := None)"
| "spec_apply Op_clear g = Map.empty"

fun op_ok :: "'v cmap_op \<Rightarrow> bool" where
  "op_ok (Op_insert k v) = cstr_ok k"
| "op_ok (Op_erase k) = cstr_ok k"
| "op_ok Op_clear = True"

lemma dom_cmap_map:
  assumes "cmap_inv m"
  shows "card (dom (cmap_map m)) = unat (hm_size m)"
proof -
  have "chain_ok (concat (hm_buckets m))" using assms buckets_chain_ok by (auto simp: cmap_inv_def)
  then have "distinct (map fst (concat (hm_buckets m)))" by (simp only: chain_ok_def)
  then have "card (set (map fst (concat (hm_buckets m)))) = length (concat (hm_buckets m))"
    using distinct_card length_map by metis
  then show ?thesis
    using assms by (simp only: cmap_inv_def cmap_map_def dom_map_of_conv_image_fst set_map)
qed

lemma cmap_apply_step:
  assumes inv: "cmap_inv m" and room: "cmap_room m" and op: "op_ok op"
  shows "cmap_inv (cmap_apply op m) \<and> cmap_map (cmap_apply op m) = spec_apply op (cmap_map m)"
proof (cases op)
  case (Op_insert k v)
  then show ?thesis using subscript_inv [OF inv room, of k v "\<lambda>_. v"] op by (simp add: insert_subscript)
qed (use erase_inv [OF inv] clear_inv [OF inv] op in auto)

lemma card_spec_apply: "finite (dom g) \<Longrightarrow> finite (dom (spec_apply op g)) \<and> card (dom (spec_apply op g)) \<le> Suc (card (dom g))"
  by (cases op) (auto simp: card_insert_if card_Diff_singleton_if le_diff_conv)

lemma cmap_run:
  assumes "unat c \<le> 2 ^ 63" "length ops \<le> 2 ^ 60" "\<forall>op \<in> set ops. op_ok op"
  shows "cmap_inv (fold cmap_apply ops (cmap_init c))
    \<and> cmap_map (fold cmap_apply ops (cmap_init c)) = fold spec_apply ops Map.empty
    \<and> finite (dom (fold spec_apply ops (Map.empty :: cstr \<rightharpoonup> 'v)))
    \<and> card (dom (fold spec_apply ops (Map.empty :: cstr \<rightharpoonup> 'v))) \<le> length ops"
  using assms(2,3)
proof (induction ops rule: rev_induct)
  case Nil
  then show ?case using init_inv [OF assms(1)] by simp
next
  case (snoc op ops)
  let ?m = "fold cmap_apply ops (cmap_init c)"
  let ?g = "fold spec_apply ops (Map.empty :: cstr \<rightharpoonup> 'v)"
  have ih: "cmap_inv ?m \<and> cmap_map ?m = ?g \<and> finite (dom ?g) \<and> card (dom ?g) \<le> length ops"
    using snoc by simp
  then have "cmap_room ?m" using dom_cmap_map [of ?m] snoc.prems(1) by (simp add: cmap_room_def)
  then show ?case
    using cmap_apply_step [of ?m op] ih snoc.prems(2) card_spec_apply [of ?g op] by auto
qed

text \<open>The load never exceeds three quarters of the capacity.\<close>

definition load_ok :: "'v cmap \<Rightarrow> bool" where
  "load_ok m \<longleftrightarrow> unat (hm_size m) \<le> 3 * unat (hm_capacity m) div 4"

lemma double_load: "s \<le> 3 * 2 ^ n div 4 \<Longrightarrow> Suc s \<le> 3 * 2 ^ Suc n div 4" for s n :: nat
proof (cases n)
  case (Suc j)
  have "(1 :: nat) \<le> 2 ^ j" by simp
  then have "3 * 2 ^ j div 2 + 1 \<le> 3 * (2 :: nat) ^ j" by linarith
  then show "s \<le> 3 * 2 ^ n div 4 \<Longrightarrow> Suc s \<le> 3 * 2 ^ Suc n div 4" using Suc by simp
qed simp

lemma add_node_load:
  assumes inv: "cmap_inv m" and n: "hm_capacity m = 2 ^ n" "n < 64" and room: "cmap_room m"
    and k: "cstr_ok k" "cmap_map m k = None" and load: "load_ok m"
  shows "load_ok (add_node k v m)"
proof -
  let ?m = "rehash_if_needed_for_insert m"
  obtain n' where r: "n' < 64" "hm_capacity ?m = 2 ^ n'"
      "unat (hm_size m) + 1 \<le> 3 * 2 ^ n' div 4 \<or> n' = Suc n"
    by (rule rehash_if_needed_inv [OF inv n room]) blast
  have cap: "hm_capacity (add_node k v m) = 2 ^ n'" using r(2) by (simp add: add_node_def Let_def set_chain_def)
  have "hm_size (add_node k v m) = hm_size m + 1" using add_node_inv [OF inv n room k] by simp
  then have "unat (hm_size (add_node k v m)) = Suc (unat (hm_size m))"
    using room unat_Suc [of "hm_size m"] by (simp add: cmap_room_def)
  moreover have "Suc (unat (hm_size m)) \<le> 3 * 2 ^ n' div 4"
    using r(3) double_load [of "unat (hm_size m)" n] load n by (auto simp: load_ok_def)
  ultimately show ?thesis using r(1) by (simp add: load_ok_def cap)
qed

lemma insert_load:
  assumes inv: "cmap_inv m" and room: "cmap_room m" and k: "cstr_ok k" and load: "load_ok m"
  shows "load_ok (cmap_insert k v m)"
proof -
  let ?m = "if hm_capacity m = 0 then rehash_to 64 m else m"
  obtain n where e: "n < 64" "cmap_inv ?m" "cmap_map ?m = cmap_map m" "hm_size ?m = hm_size m" "hm_capacity ?m = 2 ^ n"
    by (rule ensure_inv [OF inv]) blast
  have find: "chain_find k (chain_of k ?m) = cmap_map m k"
    using chain_lookup [OF e(2,5,1) k] e(3) by simp
  have room': "cmap_room ?m" using room e(4) by (simp add: cmap_room_def)
  have load': "load_ok ?m" using load e(4) by (auto simp: load_ok_def)
  show ?thesis
  proof (cases "cmap_map m k")
    case None
    then have "cmap_insert k v m = add_node k v ?m" using find by (simp add: cmap_insert_def Let_def)
    then show ?thesis using add_node_load [OF e(2,5,1) room' k _ load'] None e(3) by simp
  next
    case (Some w)
    then have "cmap_insert k v m = set_chain k (chain_assign k (\<lambda>_. v) (chain_of k ?m)) ?m"
      using find by (simp add: cmap_insert_def Let_def)
    then show ?thesis using load' by (simp add: load_ok_def set_chain_def)
  qed
qed

lemma erase_load: "load_ok m \<Longrightarrow> unat (hm_size (cmap_erase k m)) \<le> unat (hm_size m) \<Longrightarrow> load_ok (cmap_erase k m)"
  by (auto simp: load_ok_def cmap_erase_def set_chain_def split: option.splits)

lemma cmap_apply_load:
  assumes inv: "cmap_inv m" and room: "cmap_room m" and op: "op_ok op" and load: "load_ok m"
  shows "load_ok (cmap_apply op m)"
proof (cases op)
  case (Op_insert k v)
  then show ?thesis using insert_load [OF inv room] op load by simp
next
  case (Op_erase k)
  have e: "cmap_inv (cmap_erase k m)" "cmap_map (cmap_erase k m) = (cmap_map m)(k := None)"
    using erase_inv [OF inv] op Op_erase by simp_all
  have "finite (dom (cmap_map m))" by (simp add: cmap_map_def finite_dom_map_of)
  then have "card (dom (cmap_map (cmap_erase k m))) \<le> card (dom (cmap_map m))"
    unfolding e(2) by (intro card_mono) auto
  then show ?thesis
    using erase_load [OF load] Op_erase dom_cmap_map [OF e(1)] dom_cmap_map [OF inv] by simp
next
  case Op_clear
  then show ?thesis using load by (simp add: load_ok_def cmap_clear_def)
qed

lemma cmap_apply_capacity:
  assumes inv: "cmap_inv m" and room: "cmap_room m" and op: "op_ok op" and cap: "hm_capacity m \<noteq> 0"
  shows "hm_capacity (cmap_apply op m) \<noteq> 0"
proof (cases op)
  case (Op_insert k v)
  obtain n where n: "n < 64" "hm_capacity m = 2 ^ n" using inv cap by (auto simp: cmap_inv_def)
  obtain n' where "n' < 64" "hm_capacity (rehash_if_needed_for_insert m) = 2 ^ n'"
    by (rule rehash_if_needed_inv [OF inv n(2,1) room]) blast
  then show ?thesis
    using Op_insert cap by (simp add: cmap_insert_def add_node_def set_chain_def Let_def split: option.splits)
qed (use cap in \<open>auto simp: cmap_erase_def set_chain_def cmap_clear_def split: option.splits\<close>)

lemma cmap_run_load:
  assumes "unat c \<le> 2 ^ 63" "length ops \<le> 2 ^ 60" "\<forall>op \<in> set ops. op_ok op"
  shows "load_ok (fold cmap_apply ops (cmap_init c)) \<and> hm_capacity (fold cmap_apply ops (cmap_init c)) \<noteq> 0"
  using assms(2,3)
proof (induction ops rule: rev_induct)
  case Nil
  obtain n where "next_power_of_two c = 2 ^ n" "n < 64" by (rule init_capacity [OF assms(1)])
  then show ?case by (simp add: load_ok_def cmap_init_def)
next
  case (snoc op ops)
  let ?m = "fold cmap_apply ops (cmap_init c)"
  have ih: "cmap_inv ?m \<and> card (dom (cmap_map ?m)) \<le> length ops"
    using cmap_run [OF assms(1), of ops] snoc.prems by auto
  then have "cmap_room ?m" using dom_cmap_map [of ?m] snoc.prems(1) by (simp add: cmap_room_def)
  then show ?case using cmap_apply_load [of ?m op] cmap_apply_capacity [of ?m op] ih snoc by simp
qed

text \<open>
  C21. The chained hash map is a map. From any construction capacity up to 2^63 and after any sequence
  of up to 2^60 insert, erase and clear calls with terminated keys, find returns exactly
  what the abstract finite map holds, size() is the number of its entries, and the iterator loop from begin()
  visits each entry exactly once and ends.
\<close>

theorem cmap_refines_map:
  assumes "unat c \<le> 2 ^ 63" "length ops \<le> 2 ^ 60" "\<forall>op \<in> set ops. op_ok op" "cstr_ok k"
  defines "m \<equiv> fold cmap_apply ops (cmap_init c)"
  shows "cmap_find k m = fold spec_apply ops Map.empty k
    \<and> unat (hm_size m) = card (dom (fold spec_apply ops Map.empty))
    \<and> (\<exists>es. iter_walk (unat (hm_size m)) m (iter_begin m) = Some es
         \<and> distinct (map fst es) \<and> map_of es = fold spec_apply ops Map.empty)"
proof -
  have inv: "cmap_inv m" and abs: "cmap_map m = fold spec_apply ops Map.empty"
    using cmap_run [OF assms(1-3)] by (simp_all add: m_def)
  have "chain_ok (concat (hm_buckets m))" using inv buckets_chain_ok by (auto simp: cmap_inv_def)
  then have "distinct (map fst (concat (hm_buckets m)))" by (simp only: chain_ok_def)
  moreover have "map_of (concat (hm_buckets m)) = fold spec_apply ops Map.empty"
    using abs by (simp only: cmap_map_def)
  ultimately show ?thesis
    using iter_begin_walk [OF inv] dom_cmap_map [OF inv] find_map [OF inv assms(4)] abs by simp
qed

definition key_a :: cstr where "key_a = [97]"
definition key_b :: cstr where "key_b = [98]"

theorem cmap_refines_map_witness:
  "cmap_find key_b (fold cmap_apply [Op_insert key_a 1, Op_insert key_b 2, Op_erase key_a, Op_insert key_b 3]
      (cmap_init 1)) = Some (3 :: nat)"
  using cmap_refines_map [of 1 "[Op_insert key_a 1, Op_insert key_b 2, Op_erase key_a, Op_insert key_b (3 :: nat)]" key_b]
  by (simp add: cstr_ok_def key_a_def key_b_def)

text \<open>
  The capacity is always a power of two and the table is never more than three quarters full,
  whatever the sequence of insert, erase and clear calls.
\<close>

theorem cmap_load_bounded:
  assumes "unat c \<le> 2 ^ 63" "length ops \<le> 2 ^ 60" "\<forall>op \<in> set ops. op_ok op"
  defines "m \<equiv> fold cmap_apply ops (cmap_init c :: 'v cmap)"
  shows "4 * unat (hm_size m) \<le> 3 * unat (hm_capacity m)
    \<and> (\<exists>n < 64. hm_capacity m = 2 ^ n \<and> length (hm_buckets m) = 2 ^ n)"
proof -
  have "cmap_inv m" using cmap_run [OF assms(1-3)] by (simp add: m_def)
  moreover have "load_ok m" "hm_capacity m \<noteq> 0" using cmap_run_load [OF assms(1-3)] by (simp_all add: m_def)
  ultimately show ?thesis by (auto simp: cmap_inv_def buckets_ok_def load_ok_def)
qed

theorem cmap_load_bounded_witness:
  "4 * unat (hm_size (fold cmap_apply [Op_insert key_a 1, Op_insert key_b 2] (cmap_init 1 :: nat cmap)))
    \<le> 3 * unat (hm_capacity (fold cmap_apply [Op_insert key_a 1, Op_insert key_b 2] (cmap_init 1 :: nat cmap)))"
  using cmap_load_bounded [of 1 "[Op_insert key_a 1, Op_insert key_b (2 :: nat)]"]
  by (simp add: cstr_ok_def key_a_def key_b_def)

text \<open>
  next_power_of_two returns the least power of two that is not below its argument, for every
  argument up to 2^63; above that its last addition wraps and it returns 0.
\<close>

theorem next_power_of_two_least:
  "unat v \<le> 2 ^ 63 \<and> (\<exists>n < 64. next_power_of_two v = 2 ^ n \<and> unat v \<le> 2 ^ n \<and> (\<forall>j. unat v \<le> 2 ^ j \<longrightarrow> n \<le> j))
   \<or> 2 ^ 63 < unat v \<and> next_power_of_two v = 0"
proof (cases "unat v \<le> 1")
  case True
  then show ?thesis using next_power_of_two_small [OF True] by (intro disjI1 conjI exI [of _ 0]) simp_all
next
  case False
  then obtain h where h: "h < 64" "next_power_of_two v = 2 ^ Suc h" "2 ^ h < unat v" "unat v \<le> 2 ^ Suc h"
    using next_power_of_two_large [of v] by auto
  show ?thesis
  proof (cases "h = 63")
    case True
    then have "next_power_of_two v = 0" using h(2) by simp
    then show ?thesis using True h(3) by simp
  next
    case False
    then have h63: "Suc h \<le> 63" using h(1) by simp
    have "Suc h \<le> j" if "unat v \<le> 2 ^ j" for j
    proof -
      have "(2 :: nat) ^ h < 2 ^ j" using h(3) that by (rule order.strict_trans2)
      then have "h < j" by (rule power_less_imp_less_exp [rotated]) simp
      then show ?thesis by simp
    qed
    moreover have "unat v \<le> 2 ^ 63" using h(4) power_increasing [OF h63, of "2 :: nat"] by simp
    ultimately show ?thesis using h h63 by (intro disjI1 conjI exI [of _ "Suc h"]) simp_all
  qed
qed

theorem next_power_of_two_least_witness: "\<exists>n. next_power_of_two 100 = 2 ^ n \<and> n \<le> 7"
proof -
  obtain n where "next_power_of_two 100 = 2 ^ n" "\<forall>j. unat (100 :: usize) \<le> 2 ^ j \<longrightarrow> n \<le> j"
    using next_power_of_two_least [of 100] by auto
  then show ?thesis by (intro exI [of _ n]) (auto elim!: allE [of _ 7])
qed

end
