(* ===== verification/MallocVector.thy ===== *)
theory MallocVector
  imports Prelude "HOL-Library.Multiset"
begin

text \<open>
  \<^verbatim>\<open>src/engine-uring/src/sds/malloc_vector.h\<close> and \<^verbatim>\<open>static_vector.h\<close>: the growable and the fixed array. The
  heap block of the growable one is a list with one entry per slot that was really allocated, and an
  entry is \<^term>\<open>None\<close> while it is indeterminate; an access outside the block is \<^term>\<open>Inl Undefined\<close>.
  \<^verbatim>\<open>malloc\<close> is a parameter: it gets the number of bytes, as the source computes it with wrap-around, and
  answers whether it returned a block.
\<close>

section \<open>malloc_vector\<close>

record 'a mvec =
  mv_data :: "'a option list option"
  mv_size :: usize
  mv_capacity :: usize

text \<open>\<open>sz\<close> is \<^verbatim>\<open>sizeof(T)\<close>.\<close>

definition fresh_block :: "usize \<Rightarrow> usize \<Rightarrow> 'a option list" where
  "fresh_block sz capacity = replicate (unat (sz * capacity) div unat sz) None"

definition mv_init :: "usize \<Rightarrow> (usize \<Rightarrow> bool) \<Rightarrow> usize \<Rightarrow> 'a mvec" where
  "mv_init sz malloc capacity =
     (if 0 < capacity \<and> malloc (sz * capacity)
      then \<lparr>mv_data = Some (fresh_block sz capacity), mv_size = 0, mv_capacity = capacity\<rparr>
      else \<lparr>mv_data = None, mv_size = 0, mv_capacity = 0\<rparr>)"

definition mv_empty :: "'a mvec \<Rightarrow> bool" where
  "mv_empty v \<longleftrightarrow> mv_size v = 0"

text \<open>\<^verbatim>\<open>memcpy\<close> of \<^verbatim>\<open>_size\<close> elements into the new block.\<close>

definition mv_reserve :: "usize \<Rightarrow> (usize \<Rightarrow> bool) \<Rightarrow> usize \<Rightarrow> 'a mvec \<Rightarrow> 'a mvec res" where
  "mv_reserve sz malloc capacity v =
     (if capacity \<le> mv_capacity v then Inr v
      else if \<not> malloc (sz * capacity) then Inr v
      else (let new_data = fresh_block sz capacity in
        case mv_data v of None \<Rightarrow> Inr (v\<lparr>mv_data := Some new_data, mv_capacity := capacity\<rparr>)
        | Some d \<Rightarrow> if unat (mv_size v) \<le> length d \<and> unat (mv_size v) \<le> length new_data
            then Inr (v\<lparr>mv_data := Some (mem_copy new_data 0 (take (unat (mv_size v)) d)), mv_capacity := capacity\<rparr>)
            else Inl Undefined))"

definition mv_resize :: "usize \<Rightarrow> (usize \<Rightarrow> bool) \<Rightarrow> usize \<Rightarrow> 'a mvec \<Rightarrow> 'a mvec res" where
  "mv_resize sz malloc n v =
     (case (if mv_capacity v < n then mv_reserve sz malloc n v else Inr v) of
        Inl e \<Rightarrow> Inl e
      | Inr v' \<Rightarrow> Inr (if n \<le> mv_capacity v' then v'\<lparr>mv_size := n\<rparr> else v'))"

text \<open>The argument of \<^verbatim>\<open>push_back(const T&)\<close> and \<^verbatim>\<open>insert\<close> is a reference: to an object of the caller, or
  to an element of this very vector.\<close>

datatype 'a vref = Outside 'a | Inside nat

definition grow :: "usize \<Rightarrow> (usize \<Rightarrow> bool) \<Rightarrow> 'a mvec \<Rightarrow> 'a mvec res" where
  "grow sz malloc v = mv_reserve sz malloc (if 0 < mv_capacity v then mv_capacity v * 2 else 4) v"

definition write_slot :: "'a mvec \<Rightarrow> nat \<Rightarrow> 'a option \<Rightarrow> 'a mvec res" where
  "write_slot v i x = (case mv_data v of None \<Rightarrow> Inl Undefined
     | Some d \<Rightarrow> if i < length d then Inr (v\<lparr>mv_data := Some (d[i := x])\<rparr>) else Inl Undefined)"

text \<open>Reading the argument: \<^term>\<open>moved\<close> says that the block it may point into has been freed.\<close>

definition read_arg :: "bool \<Rightarrow> 'a vref \<Rightarrow> 'a mvec \<Rightarrow> 'a option res" where
  "read_arg moved x v = (case x of Outside y \<Rightarrow> Inr (Some y)
     | Inside i \<Rightarrow> (case mv_data v of None \<Rightarrow> Inl Undefined
         | Some d \<Rightarrow> if moved \<or> length d \<le> i then Inl Undefined else Inr (d ! i)))"

definition mv_push_back :: "usize \<Rightarrow> (usize \<Rightarrow> bool) \<Rightarrow> 'a vref \<Rightarrow> 'a mvec \<Rightarrow> 'a mvec res" where
  "mv_push_back sz malloc x v =
     (case (if mv_capacity v \<le> mv_size v then grow sz malloc v else Inr v) of
        Inl e \<Rightarrow> Inl e
      | Inr v' \<Rightarrow> if mv_size v' < mv_capacity v' then
            (case read_arg (mv_capacity v' \<noteq> mv_capacity v) x v' of Inl e \<Rightarrow> Inl e
             | Inr y \<Rightarrow> map_sum id (\<lambda>w. w\<lparr>mv_size := mv_size w + 1\<rparr>) (write_slot v' (unat (mv_size v')) y))
          else Inr v')"

definition mv_pop_back :: "'a mvec \<Rightarrow> 'a mvec" where
  "mv_pop_back v = (if 0 < mv_size v then v\<lparr>mv_size := mv_size v - 1\<rparr> else v)"

definition mv_clear :: "'a mvec \<Rightarrow> 'a mvec" where
  "mv_clear v = v\<lparr>mv_size := 0\<rparr>"

definition mv_at :: "nat \<Rightarrow> 'a mvec \<Rightarrow> 'a option res" where
  "mv_at i v = (case mv_data v of None \<Rightarrow> Inl Undefined
     | Some d \<Rightarrow> if i < length d then Inr (d ! i) else Inl Undefined)"

text \<open>\<^verbatim>\<open>find\<close>: the index of the first equal element, the size for \<^verbatim>\<open>end()\<close>.\<close>

fun find_from :: "'a \<Rightarrow> nat \<Rightarrow> nat \<Rightarrow> 'a option list \<Rightarrow> nat res" where
  "find_from x i 0 d = Inr i"
| "find_from x i (Suc n) d = (if length d \<le> i then Inl Undefined
     else if d ! i = Some x then Inr i else find_from x (Suc i) n d)"

definition mv_find :: "'a \<Rightarrow> 'a mvec \<Rightarrow> nat res" where
  "mv_find x v = (case mv_data v of None \<Rightarrow> if mv_size v = 0 then Inr 0 else Inl Undefined
     | Some d \<Rightarrow> find_from x 0 (unat (mv_size v)) d)"

text \<open>\<^verbatim>\<open>_data[dst] = _data[src]\<close> within one block, and the shifting loops made of it.\<close>

definition copy_slot :: "nat \<Rightarrow> nat \<Rightarrow> 'b list \<Rightarrow> 'b list res" where
  "copy_slot dst src d = (if src < length d \<and> dst < length d then Inr (d[dst := d ! src]) else Inl Undefined)"

function erase_loop :: "nat \<Rightarrow> nat \<Rightarrow> 'b list \<Rightarrow> 'b list res" where
  "erase_loop i n d = (if Suc i < n then
       (case copy_slot i (Suc i) d of Inl e \<Rightarrow> Inl e | Inr d' \<Rightarrow> erase_loop (Suc i) n d')
     else Inr d)"
  by pat_completeness auto
termination by (relation "measure (\<lambda>(i, n, _). n - i)") auto

declare erase_loop.simps [simp del]

fun insert_loop :: "nat \<Rightarrow> nat \<Rightarrow> 'b list \<Rightarrow> 'b list res" where
  "insert_loop index 0 d = Inr d"
| "insert_loop index (Suc i) d = (if index < Suc i then
       (case copy_slot (Suc i) i d of Inl e \<Rightarrow> Inl e | Inr d' \<Rightarrow> insert_loop index i d')
     else Inr d)"

text \<open>\<^verbatim>\<open>erase(pos)\<close>: the returned iterator is the index of the element after the erased one.\<close>

definition mv_erase :: "nat \<Rightarrow> 'a mvec \<Rightarrow> (nat \<times> 'a mvec) res" where
  "mv_erase index v = (if unat (mv_size v) \<le> index then Inr (unat (mv_size v), v)
     else (case mv_data v of None \<Rightarrow> Inl Undefined
       | Some d \<Rightarrow> (case erase_loop index (unat (mv_size v)) d of Inl e \<Rightarrow> Inl e
         | Inr d' \<Rightarrow> Inr (index, v\<lparr>mv_data := Some d', mv_size := mv_size v - 1\<rparr>))))"

definition mv_insert :: "usize \<Rightarrow> (usize \<Rightarrow> bool) \<Rightarrow> nat \<Rightarrow> 'a vref \<Rightarrow> 'a mvec \<Rightarrow> (nat \<times> 'a mvec) res" where
  "mv_insert sz malloc index x v =
     (if unat (mv_size v) < index then Inr (unat (mv_size v), v)
      else case (if mv_capacity v \<le> mv_size v then grow sz malloc v else Inr v) of
        Inl e \<Rightarrow> Inl e
      | Inr v' \<Rightarrow> if mv_capacity v' \<le> mv_size v' then Inr (unat (mv_size v'), v')
          else (case mv_data v' of None \<Rightarrow> Inl Undefined
            | Some d \<Rightarrow> (case insert_loop index (unat (mv_size v')) d of Inl e \<Rightarrow> Inl e
              | Inr d' \<Rightarrow> (let v'' = v'\<lparr>mv_data := Some d'\<rparr> in
                  case read_arg (mv_capacity v' \<noteq> mv_capacity v) x v'' of Inl e \<Rightarrow> Inl e
                  | Inr y \<Rightarrow> map_sum id (\<lambda>w. (index, w\<lparr>mv_size := mv_size w + 1\<rparr>)) (write_slot v'' index y)))))"

definition mv_move :: "'a mvec \<Rightarrow> 'a mvec \<times> 'a mvec" where
  "mv_move other = (other, other\<lparr>mv_data := None, mv_size := 0, mv_capacity := 0\<rparr>)"

section \<open>Invariant and contents\<close>

text \<open>The block has a slot for every unit of capacity.\<close>

definition mv_inv :: "'a mvec \<Rightarrow> bool" where
  "mv_inv v \<longleftrightarrow> mv_size v \<le> mv_capacity v \<and>
     (case mv_data v of None \<Rightarrow> mv_capacity v = 0 | Some d \<Rightarrow> length d = unat (mv_capacity v))"

definition mv_contents :: "'a mvec \<Rightarrow> 'a option list" where
  "mv_contents v = (case mv_data v of None \<Rightarrow> [] | Some d \<Rightarrow> take (unat (mv_size v)) d)"

text \<open>A capacity whose size in bytes does not wrap.\<close>

definition fits :: "usize \<Rightarrow> usize \<Rightarrow> bool" where
  "fits sz capacity \<longleftrightarrow> 0 < unat sz \<and> unat sz * unat capacity < 2 ^ 64"

lemma length_fresh_block: "fits sz c \<Longrightarrow> length (fresh_block sz c) = unat c"
  by (simp add: fresh_block_def fits_def unat_word_ariths)

lemma length_mv_contents: "mv_inv v \<Longrightarrow> length (mv_contents v) = unat (mv_size v)"
  by (auto simp: mv_inv_def mv_contents_def word_le_nat_alt split: option.splits)

lemma mv_init_inv:
  "fits sz c \<Longrightarrow> mv_inv (mv_init sz malloc c :: 'a mvec) \<and> mv_contents (mv_init sz malloc c :: 'a mvec) = []"
  by (simp add: mv_init_def mv_inv_def mv_contents_def length_fresh_block)

lemma mv_reserve_ok:
  fixes v :: "'a mvec"
  assumes inv: "mv_inv v" and fits: "fits sz c"
  obtains v' where "mv_reserve sz malloc c v = Inr v'" "mv_inv v'" "mv_contents v' = mv_contents v"
    "mv_size v' = mv_size v" "mv_capacity v' = (if mv_capacity v < c \<and> malloc (sz * c) then c else mv_capacity v)"
proof (cases "mv_capacity v < c \<and> malloc (sz * c)")
  case False
  then have "c \<le> mv_capacity v \<or> \<not> malloc (sz * c)" by auto
  then show ?thesis using that [of v] inv False by (simp add: mv_reserve_def split: if_splits)
next
  case True
  then have nle: "\<not> c \<le> mv_capacity v" "malloc (sz * c)" by auto
  have len: "length (fresh_block sz c :: 'a option list) = unat c" by (rule length_fresh_block [OF fits])
  have size: "unat (mv_size v) \<le> unat c" "mv_size v \<le> c"
    using inv True by (auto simp: mv_inv_def word_le_nat_alt word_less_nat_alt)
  show ?thesis
  proof (cases "mv_data v")
    case None
    then have "mv_size v = 0" using inv by (auto simp: mv_inv_def word_le_nat_alt unat_eq_0)
    then show ?thesis
      using that [of "v\<lparr>mv_data := Some (fresh_block sz c), mv_capacity := c\<rparr>"] nle True None len size
      by (simp add: mv_reserve_def mv_inv_def mv_contents_def)
  next
    case (Some d)
    then have d: "length d = unat (mv_capacity v)" "unat (mv_size v) \<le> length d"
      using inv by (auto simp: mv_inv_def word_le_nat_alt)
    let ?d = "mem_copy (fresh_block sz c) 0 (take (unat (mv_size v)) d)"
    have "length ?d = unat c" using len size(1) d(2) by (subst length_mem_copy) simp_all
    moreover have "take (unat (mv_size v)) ?d = take (unat (mv_size v)) d"
      using d(2) by (simp add: mem_copy_def)
    ultimately show ?thesis
      using that [of "v\<lparr>mv_data := Some ?d, mv_capacity := c\<rparr>"] True Some len size d
      by (auto simp: mv_reserve_def mv_inv_def mv_contents_def)
  qed
qed

section \<open>Growth and insertion\<close>

text \<open>Doubling the capacity does not wrap, in elements or in bytes.\<close>

definition headroom :: "usize \<Rightarrow> 'a mvec \<Rightarrow> bool" where
  "headroom sz v \<longleftrightarrow> 0 < unat sz \<and> unat sz * max 4 (2 * unat (mv_capacity v)) < 2 ^ 64"

definition next_capacity :: "'a mvec \<Rightarrow> usize" where
  "next_capacity v = (if 0 < mv_capacity v then mv_capacity v * 2 else 4)"

lemma next_capacity_fits:
  assumes "headroom sz v"
  shows "fits sz (next_capacity v)" "mv_capacity v < next_capacity v"
proof -
  have "2 * unat (mv_capacity v) \<le> unat sz * (2 * unat (mv_capacity v))"
    using assms by (simp add: headroom_def)
  also have "\<dots> \<le> unat sz * max 4 (2 * unat (mv_capacity v))" by (rule mult_le_mono2) simp
  also have "\<dots> < 2 ^ 64" using assms by (simp add: headroom_def)
  finally have dbl: "unat (mv_capacity v * 2) = 2 * unat (mv_capacity v)" by (simp add: unat_word_ariths)
  have pos: "0 < mv_capacity v \<longleftrightarrow> 0 < unat (mv_capacity v)" by (simp add: word_less_nat_alt)
  have le: "unat (next_capacity v) \<le> max 4 (2 * unat (mv_capacity v))"
    using dbl by (simp add: next_capacity_def)
  have "unat sz * unat (next_capacity v) \<le> unat sz * max 4 (2 * unat (mv_capacity v))"
    using le by (rule mult_le_mono2)
  also have "\<dots> < 2 ^ 64" using assms by (simp add: headroom_def)
  finally show "fits sz (next_capacity v)" using assms by (simp add: fits_def headroom_def)
  show "mv_capacity v < next_capacity v"
    using dbl pos by (auto simp: next_capacity_def word_less_nat_alt)
qed

definition grows :: "usize \<Rightarrow> (usize \<Rightarrow> bool) \<Rightarrow> 'a mvec \<Rightarrow> bool" where
  "grows sz malloc v \<longleftrightarrow> mv_size v < mv_capacity v \<or> malloc (sz * next_capacity v)"

text \<open>After the growth step there is room for one more element exactly when there was room before or
  the allocation succeeded; the contents are unchanged.\<close>

lemma grow_step:
  assumes inv: "mv_inv v" and hr: "headroom sz v"
  obtains v' where "(if mv_capacity v \<le> mv_size v then grow sz malloc v else Inr v) = Inr v'"
    "mv_inv v'" "mv_contents v' = mv_contents v" "mv_size v' = mv_size v"
    "mv_size v' < mv_capacity v' \<longleftrightarrow> grows sz malloc v"
proof (cases "mv_capacity v \<le> mv_size v")
  case False
  then have "mv_size v < mv_capacity v" by simp
  then show ?thesis using that [of v] inv False by (simp add: grows_def del: not_le)
next
  case True
  then have eq: "mv_capacity v = mv_size v" using inv by (simp add: mv_inv_def)
  have g: "grow sz malloc v = mv_reserve sz malloc (next_capacity v) v"
    by (simp add: grow_def next_capacity_def)
  obtain v' where v': "mv_reserve sz malloc (next_capacity v) v = Inr v'" "mv_inv v'"
      "mv_contents v' = mv_contents v" "mv_size v' = mv_size v"
      "mv_capacity v' = (if mv_capacity v < next_capacity v \<and> malloc (sz * next_capacity v)
        then next_capacity v else mv_capacity v)"
    by (rule mv_reserve_ok [OF inv next_capacity_fits(1) [OF hr]])
  then show ?thesis
    using that [of v'] True g next_capacity_fits(2) [OF hr] eq by (auto simp: grows_def)
qed

lemma unat_Suc_size: "mv_size v < mv_capacity v \<Longrightarrow> unat (mv_size v + 1) = Suc (unat (mv_size v))"
  using unsigned_less [of "mv_capacity v", where ?'a = nat]
  by (simp add: word_less_nat_alt unat_word_ariths)

lemma mv_push_back_ok:
  assumes inv: "mv_inv v" and hr: "headroom sz v"
  obtains v' where "mv_push_back sz malloc (Outside x) v = Inr v'" "mv_inv v'"
    "mv_contents v' = (if grows sz malloc v then mv_contents v @ [Some x] else mv_contents v)"
proof -
  obtain v1 where v1: "(if mv_capacity v \<le> mv_size v then grow sz malloc v else Inr v) = Inr v1"
      "mv_inv v1" "mv_contents v1 = mv_contents v" "mv_size v1 = mv_size v"
      "mv_size v1 < mv_capacity v1 \<longleftrightarrow> grows sz malloc v"
    by (rule grow_step [OF inv hr])
  show ?thesis
  proof (cases "grows sz malloc v")
    case False
    then show ?thesis using that [of v1] v1 by (simp add: mv_push_back_def)
  next
    case True
    then have lt: "mv_size v1 < mv_capacity v1" using v1(5) by simp
    then have "mv_capacity v1 \<noteq> 0" by auto
    then obtain d where d: "mv_data v1 = Some d" "length d = unat (mv_capacity v1)"
      using v1(2) by (auto simp: mv_inv_def split: option.splits)
    have i: "unat (mv_size v1) < length d" using lt d(2) by (simp add: word_less_nat_alt)
    let ?v = "v1\<lparr>mv_data := Some (d[unat (mv_size v1) := Some x]), mv_size := mv_size v1 + 1\<rparr>"
    have r: "mv_push_back sz malloc (Outside x) v = Inr ?v"
      using v1(1) lt d i by (simp add: mv_push_back_def read_arg_def write_slot_def)
    have "mv_contents ?v = mv_contents v1 @ [Some x]"
      using i d unat_Suc_size [OF lt] by (simp add: mv_contents_def take_Suc_conv_app_nth)
    moreover have "mv_inv ?v"
      using v1(2) d lt unat_Suc_size [OF lt] by (simp add: mv_inv_def word_le_nat_alt word_less_nat_alt)
    ultimately show ?thesis using that [OF r] v1(3) True by simp
  qed
qed

lemma mv_pop_back_ok: "mv_inv v \<Longrightarrow> mv_inv (mv_pop_back v) \<and> mv_contents (mv_pop_back v) = butlast (mv_contents v)"
proof (cases "mv_size v = 0")
  case True
  assume inv: "mv_inv v"
  then have "mv_contents v = []" using length_mv_contents [OF inv] True by simp
  then show ?thesis using True inv by (simp add: mv_pop_back_def)
next
  case False
  assume inv: "mv_inv v"
  have pos: "0 < mv_size v" using False by (simp add: word_neq_0_conv)
  then have u: "unat (mv_size v - 1) = unat (mv_size v) - 1"
    by (simp add: unat_sub word_le_nat_alt word_less_nat_alt)
  then show ?thesis
    using inv pos
    by (auto simp: mv_pop_back_def mv_inv_def mv_contents_def word_le_nat_alt word_less_nat_alt
        butlast_take split: option.splits)
qed

text \<open>Inside the block both loops succeed, and shift the entries between the two indices by one.\<close>

lemma erase_loop_ok:
  "n \<le> length d \<Longrightarrow> \<exists>d'. erase_loop i n d = Inr d' \<and> length d' = length d
     \<and> (\<forall>j < length d. d' ! j = (if i \<le> j \<and> Suc j < n then d ! Suc j else d ! j))"
proof (induction i n d rule: erase_loop.induct)
  case (1 i n d)
  show ?case
  proof (cases "Suc i < n")
    case True
    let ?d = "d[i := d ! Suc i]"
    have c: "copy_slot i (Suc i) d = Inr ?d" using True 1(2) by (simp add: copy_slot_def)
    have l: "erase_loop i n d = erase_loop (Suc i) n ?d" using True c by (subst erase_loop.simps) simp
    obtain d' where d': "erase_loop (Suc i) n ?d = Inr d'" "length d' = length d"
        "\<forall>j < length d. d' ! j = (if Suc i \<le> j \<and> Suc j < n then ?d ! Suc j else ?d ! j)"
      using 1(1) [OF True c] 1(2) by auto
    have "d' ! j = (if i \<le> j \<and> Suc j < n then d ! Suc j else d ! j)" if "j < length d" for j
      using d'(3) that True 1(2) by (cases "j = i") (auto simp: nth_list_update not_less_eq_eq)
    then show ?thesis using d'(1,2) l by auto
  next
    case False
    then have "erase_loop i n d = Inr d" by (subst erase_loop.simps) simp
    then show ?thesis using False by auto
  qed
qed

lemma mv_erase_ok:
  assumes inv: "mv_inv v" and i: "index < unat (mv_size v)"
  obtains w where "mv_erase index v = Inr (index, w)" "mv_inv w"
    "mv_contents w = take index (mv_contents v) @ drop (Suc index) (mv_contents v)"
proof -
  obtain d where d: "mv_data v = Some d" "length d = unat (mv_capacity v)" "unat (mv_size v) \<le> length d"
    using inv i by (auto simp: mv_inv_def word_le_nat_alt split: option.splits)
  have u: "unat (mv_size v - 1) = unat (mv_size v) - 1"
    using i by (simp add: unat_sub word_le_nat_alt)
  let ?n = "unat (mv_size v)"
  obtain d' where d': "erase_loop index ?n d = Inr d'" "length d' = length d"
      "\<forall>j < length d. d' ! j = (if index \<le> j \<and> Suc j < ?n then d ! Suc j else d ! j)"
    using erase_loop_ok [OF d(3), of index] by blast
  have "take (?n - 1) d' = take index (take ?n d) @ drop (Suc index) (take ?n d)"
  proof (rule nth_equalityI)
    fix j assume "j < length (take (?n - 1) d')"
    then have j: "j < ?n - 1" "j < length d" "Suc j < length d" using d d'(2) by auto
    then show "take (?n - 1) d' ! j = (take index (take ?n d) @ drop (Suc index) (take ?n d)) ! j"
      using i d d'(3) by (auto simp: nth_append)
  qed (use i d d'(2) in auto)
  then show ?thesis
    using i d u d'(1,2) that [of "v\<lparr>mv_data := Some d', mv_size := mv_size v - 1\<rparr>"]
    by (simp add: mv_erase_def mv_inv_def mv_contents_def word_le_nat_alt)
qed

lemma insert_loop_ok:
  "i < length d \<Longrightarrow> \<exists>d'. insert_loop index i d = Inr d' \<and> length d' = length d
     \<and> (\<forall>j < length d. d' ! j = (if index < j \<and> j \<le> i then d ! (j - 1) else d ! j))"
proof (induction index i d rule: insert_loop.induct)
  case (2 index i d)
  show ?case
  proof (cases "index < Suc i")
    case True
    let ?d = "d[Suc i := d ! i]"
    have c: "copy_slot (Suc i) i d = Inr ?d" using 2(2) by (simp add: copy_slot_def)
    obtain d' where d': "insert_loop index i ?d = Inr d'" "length d' = length d"
        "\<forall>j < length d. d' ! j = (if index < j \<and> j \<le> i then ?d ! (j - 1) else ?d ! j)"
      using 2(1) [OF True c] 2(2) by auto
    have "d' ! j = (if index < j \<and> j \<le> Suc i then d ! (j - 1) else d ! j)" if "j < length d" for j
      using d'(3) that True 2(2) by (cases "j = Suc i") (auto simp: nth_list_update)
    then show ?thesis using d'(1,2) True c by auto
  qed auto
qed auto

lemma mv_insert_ok:
  assumes inv: "mv_inv v" and hr: "headroom sz v" and ix: "index \<le> unat (mv_size v)"
  obtains p v' where "mv_insert sz malloc index (Outside x) v = Inr (p, v')" "mv_inv v'"
    "mv_contents v' = (if grows sz malloc v
       then take index (mv_contents v) @ Some x # drop index (mv_contents v) else mv_contents v)"
proof -
  obtain v1 where v1: "(if mv_capacity v \<le> mv_size v then grow sz malloc v else Inr v) = Inr v1"
      "mv_inv v1" "mv_contents v1 = mv_contents v" "mv_size v1 = mv_size v"
      "mv_size v1 < mv_capacity v1 \<longleftrightarrow> grows sz malloc v"
    by (rule grow_step [OF inv hr])
  show ?thesis
  proof (cases "grows sz malloc v")
    case False
    then show ?thesis using that [of _ v1] v1 ix by (auto simp: mv_insert_def not_less)
  next
    case True
    then have lt: "mv_size v1 < mv_capacity v1" using v1(5) by simp
    then have "mv_capacity v1 \<noteq> 0" by auto
    then obtain d where d: "mv_data v1 = Some d" "length d = unat (mv_capacity v1)"
      using v1(2) by (auto simp: mv_inv_def split: option.splits)
    let ?n = "unat (mv_size v1)"
    have i: "?n < length d" using lt d(2) by (simp add: word_less_nat_alt)
    have ix1: "index \<le> ?n" "index < length d" using ix v1(4) i by simp_all
    obtain d' where d': "insert_loop index ?n d = Inr d'" "length d' = length d"
        "\<forall>j < length d. d' ! j = (if index < j \<and> j \<le> ?n then d ! (j - 1) else d ! j)"
      using insert_loop_ok [OF i, of index] by blast
    let ?d = "d'[index := Some x]"
    let ?v = "v1\<lparr>mv_data := Some ?d, mv_size := mv_size v1 + 1\<rparr>"
    have r: "mv_insert sz malloc index (Outside x) v = Inr (index, ?v)"
      using v1(1,4) lt [THEN not_le [THEN iffD2]] d d'(1,2) i ix ix1
      by (simp add: mv_insert_def read_arg_def write_slot_def Let_def del: not_le)
    have "take (Suc ?n) ?d = take index (take ?n d) @ Some x # drop index (take ?n d)"
    proof (rule nth_equalityI)
      fix j assume "j < length (take (Suc ?n) ?d)"
      then have j: "j \<le> ?n" using i by simp
      then show "take (Suc ?n) ?d ! j = (take index (take ?n d) @ Some x # drop index (take ?n d)) ! j"
        using i ix1 d'(2,3) by (cases "j < index"; cases "j = index")
          (auto simp: nth_append nth_Cons' min_def)
    qed (use i ix1 d'(2) in simp)
    then have "mv_contents ?v = take index (mv_contents v1) @ Some x # drop index (mv_contents v1)"
      using d unat_Suc_size [OF lt] by (simp add: mv_contents_def)
    moreover have "mv_inv ?v"
      using v1(2) d d'(2) lt unat_Suc_size [OF lt] by (simp add: mv_inv_def word_le_nat_alt word_less_nat_alt)
    ultimately show ?thesis using that [OF r] v1(3) True by simp
  qed
qed

lemma find_from_ok:
  "i + n \<le> length d \<Longrightarrow> \<exists>p. find_from x i n d = Inr p \<and> i \<le> p \<and> p \<le> i + n
     \<and> (p < i + n \<longrightarrow> d ! p = Some x) \<and> (\<forall>j. i \<le> j \<and> j < p \<longrightarrow> d ! j \<noteq> Some x)"
proof (induction x i n d rule: find_from.induct)
  case (2 x i n d)
  show ?case
  proof (cases "d ! i = Some x")
    case False
    obtain p where p: "find_from x (Suc i) n d = Inr p" "Suc i \<le> p" "p \<le> i + Suc n"
        "p < i + Suc n \<longrightarrow> d ! p = Some x" "\<forall>j. Suc i \<le> j \<and> j < p \<longrightarrow> d ! j \<noteq> Some x"
      using 2(1) [OF _ False] 2(2) by auto
    have "d ! j \<noteq> Some x" if "i \<le> j \<and> j < p" for j
      using p(5) False that by (cases "j = i") auto
    moreover have "find_from x i (Suc n) d = Inr p" using p(1) False 2(2) by simp
    ultimately show ?thesis using p(2-4) by (intro exI [of _ p]) auto
  qed (use 2(2) in auto)
qed auto

lemma mv_find_ok:
  assumes "mv_inv v"
  shows "\<exists>p. mv_find x v = Inr p \<and> p \<le> length (mv_contents v)
    \<and> (p < length (mv_contents v) \<longrightarrow> mv_contents v ! p = Some x)
    \<and> (\<forall>j < p. mv_contents v ! j \<noteq> Some x)"
proof (cases "mv_data v")
  case None
  then have "mv_size v = 0" using assms by (auto simp: mv_inv_def)
  then show ?thesis using None by (simp add: mv_find_def mv_contents_def)
next
  case (Some d)
  then have le: "0 + unat (mv_size v) \<le> length d" using assms by (auto simp: mv_inv_def word_le_nat_alt)
  show ?thesis using find_from_ok [OF le, of x] le Some by (auto simp: mv_find_def mv_contents_def)
qed

section \<open>static_vector\<close>

text \<open>The live prefix of the inline array, and the elements destroyed so far, latest last. \<^term>\<open>N\<close> is
  the template's capacity.\<close>

record 'a svec =
  sv_live :: "'a list"
  sv_destroyed :: "'a list"

definition sv_init :: "'a svec" where
  "sv_init = \<lparr>sv_live = [], sv_destroyed = []\<rparr>"

definition sv_full :: "nat \<Rightarrow> 'a svec \<Rightarrow> bool" where
  "sv_full N v \<longleftrightarrow> length (sv_live v) = N"

definition sv_emplace_back :: "nat \<Rightarrow> 'a \<Rightarrow> 'a svec \<Rightarrow> 'a svec res" where
  "sv_emplace_back N x v = LNX_CHECK (length (sv_live v) < N) (Inr (v\<lparr>sv_live := sv_live v @ [x]\<rparr>))"

definition sv_drop_last :: "'a svec \<Rightarrow> 'a svec" where
  "sv_drop_last v = v\<lparr>sv_live := butlast (sv_live v), sv_destroyed := sv_destroyed v @ [last (sv_live v)]\<rparr>"

definition sv_pop_back :: "'a svec \<Rightarrow> 'a svec res" where
  "sv_pop_back v = LNX_CHECK (0 < length (sv_live v)) (Inr (sv_drop_last v))"

function sv_clear :: "'a svec \<Rightarrow> 'a svec" where
  "sv_clear v = (if 0 < length (sv_live v) then sv_clear (sv_drop_last v) else v)"
  by pat_completeness auto
termination by (relation "measure (\<lambda>v. length (sv_live v))") (auto simp: sv_drop_last_def)

declare sv_clear.simps [simp del]

definition sv_at :: "nat \<Rightarrow> 'a svec \<Rightarrow> 'a res" where
  "sv_at i v = LNX_CHECK (i < length (sv_live v)) (Inr (sv_live v ! i))"

definition sv_front :: "'a svec \<Rightarrow> 'a res" where
  "sv_front v = LNX_CHECK (0 < length (sv_live v)) (Inr (sv_live v ! 0))"

definition sv_back :: "'a svec \<Rightarrow> 'a res" where
  "sv_back v = LNX_CHECK (0 < length (sv_live v)) (Inr (sv_live v ! (length (sv_live v) - 1)))"

lemma sv_clear_eq:
  "sv_live (sv_clear v) = [] \<and> sv_destroyed (sv_clear v) = sv_destroyed v @ rev (sv_live v)"
proof (induction v rule: sv_clear.induct)
  case (1 v)
  show ?case
  proof (cases "sv_live v = []")
    case True
    then show ?thesis by (subst (1 2) sv_clear.simps) simp
  next
    case False
    then obtain xs x where "sv_live v = xs @ [x]" by (meson rev_exhaust)
    then show ?thesis using 1 False by (subst (1 2) sv_clear.simps) (simp add: sv_drop_last_def)
  qed
qed

datatype 'a svec_op = S_emplace 'a | S_pop | S_clear

fun sv_run :: "nat \<Rightarrow> 'a svec_op list \<Rightarrow> 'a svec \<Rightarrow> 'a svec res" where
  "sv_run N [] v = Inr v"
| "sv_run N (S_emplace x # ops) v = (case sv_emplace_back N x v of Inl e \<Rightarrow> Inl e | Inr w \<Rightarrow> sv_run N ops w)"
| "sv_run N (S_pop # ops) v = (case sv_pop_back v of Inl e \<Rightarrow> Inl e | Inr w \<Rightarrow> sv_run N ops w)"
| "sv_run N (S_clear # ops) v = sv_run N ops (sv_clear v)"

fun emplaced :: "'a svec_op list \<Rightarrow> 'a list" where
  "emplaced [] = []"
| "emplaced (S_emplace x # ops) = x # emplaced ops"
| "emplaced (_ # ops) = emplaced ops"

definition sv_balance :: "'a svec \<Rightarrow> 'a multiset" where
  "sv_balance v = mset (sv_live v) + mset (sv_destroyed v)"

lemma sv_drop_last_balance: "sv_live v \<noteq> [] \<Longrightarrow> sv_balance (sv_drop_last v) = sv_balance v"
  by (cases "sv_live v" rule: rev_cases) (simp_all add: sv_balance_def sv_drop_last_def)

lemma sv_run_balance:
  "sv_run N ops v = Inr w \<Longrightarrow> length (sv_live v) \<le> N
    \<Longrightarrow> length (sv_live w) \<le> N \<and> sv_balance w = sv_balance v + mset (emplaced ops)"
proof (induction N ops v rule: sv_run.induct)
  case (2 N x ops v)
  then show ?case by (auto simp: sv_emplace_back_def sv_balance_def LNX_CHECK_def split: if_splits)
next
  case (3 N ops v)
  then have ne: "sv_live v \<noteq> []" and run: "sv_run N ops (sv_drop_last v) = Inr w"
    by (auto simp: sv_pop_back_def LNX_CHECK_def split: if_splits)
  have "length (sv_live (sv_drop_last v)) \<le> N" using 3(3) by (simp add: sv_drop_last_def)
  then show ?case using 3 ne run sv_drop_last_balance [OF ne] by (simp add: sv_pop_back_def)
next
  case (4 N ops v)
  then show ?case using sv_clear_eq [of v] by (simp add: sv_balance_def add.commute)
qed auto

section \<open>Properties\<close>

text \<open>
  C22. malloc_vector behaves as a list under every allocation outcome. While the byte size of a doubled
  capacity does not wrap, push_back and insert of a value from outside the vector append or insert it, or leave
  the contents alone when the block is full and malloc fails; pop_back drops the last element, erase
  removes the one it names and returns its place, find returns the first equal element or the size, reserve
  keeps the contents. Every read and write of the
  shifting loops and of the stores is checked against the block that was allocated and none of them leaves it,
  and all operations keep the block as large as the capacity.
\<close>

theorem malloc_vector_refines_list:
  assumes inv: "mv_inv v" and hr: "headroom sz v"
  shows "(\<exists>w. mv_push_back sz malloc (Outside x) v = Inr w \<and> mv_inv w
        \<and> mv_contents w = (if grows sz malloc v then mv_contents v @ [Some x] else mv_contents v))
    \<and> (\<forall>i \<le> length (mv_contents v). \<exists>p w. mv_insert sz malloc i (Outside x) v = Inr (p, w) \<and> mv_inv w
        \<and> mv_contents w = (if grows sz malloc v
             then take i (mv_contents v) @ Some x # drop i (mv_contents v) else mv_contents v))
    \<and> (\<forall>i < length (mv_contents v). \<exists>w. mv_erase i v = Inr (i, w) \<and> mv_inv w
        \<and> mv_contents w = take i (mv_contents v) @ drop (Suc i) (mv_contents v))
    \<and> mv_inv (mv_pop_back v) \<and> mv_contents (mv_pop_back v) = butlast (mv_contents v)
    \<and> (\<exists>p. mv_find x v = Inr p \<and> p \<le> length (mv_contents v)
        \<and> (p < length (mv_contents v) \<longrightarrow> mv_contents v ! p = Some x) \<and> (\<forall>j < p. mv_contents v ! j \<noteq> Some x))
    \<and> (\<forall>c. fits sz c \<longrightarrow> (\<exists>w. mv_reserve sz malloc c v = Inr w \<and> mv_inv w \<and> mv_contents w = mv_contents v))"
proof (intro conjI allI impI)
  show "\<exists>w. mv_push_back sz malloc (Outside x) v = Inr w \<and> mv_inv w
      \<and> mv_contents w = (if grows sz malloc v then mv_contents v @ [Some x] else mv_contents v)"
    by (rule mv_push_back_ok [OF inv hr]) blast
  show "\<exists>p w. mv_insert sz malloc i (Outside x) v = Inr (p, w) \<and> mv_inv w
      \<and> mv_contents w = (if grows sz malloc v
           then take i (mv_contents v) @ Some x # drop i (mv_contents v) else mv_contents v)"
    if "i \<le> length (mv_contents v)" for i
    using that mv_insert_ok [OF inv hr] length_mv_contents [OF inv] by metis
  show "\<exists>w. mv_erase i v = Inr (i, w) \<and> mv_inv w
      \<and> mv_contents w = take i (mv_contents v) @ drop (Suc i) (mv_contents v)"
    if "i < length (mv_contents v)" for i
    using that mv_erase_ok [OF inv] length_mv_contents [OF inv] by metis
  show "mv_inv (mv_pop_back v)" "mv_contents (mv_pop_back v) = butlast (mv_contents v)"
    using mv_pop_back_ok [OF inv] by auto
  show "\<exists>p. mv_find x v = Inr p \<and> p \<le> length (mv_contents v)
      \<and> (p < length (mv_contents v) \<longrightarrow> mv_contents v ! p = Some x) \<and> (\<forall>j < p. mv_contents v ! j \<noteq> Some x)"
    by (rule mv_find_ok [OF inv])
  show "\<exists>w. mv_reserve sz malloc c v = Inr w \<and> mv_inv w \<and> mv_contents w = mv_contents v" if "fits sz c" for c
    by (rule mv_reserve_ok [OF inv that, of malloc]) blast
qed

theorem malloc_vector_refines_list_witness:
  "\<exists>w. mv_push_back 16 (\<lambda>_. True) (Outside (7 :: nat)) (mv_init 16 (\<lambda>_. True) 4) = Inr w \<and> mv_contents w = [Some 7]"
proof -
  have "mv_inv (mv_init 16 (\<lambda>_. True) 4 :: nat mvec)" "mv_contents (mv_init 16 (\<lambda>_. True) 4 :: nat mvec) = []"
    using mv_init_inv [where 'a = nat, of 16 4 "\<lambda>_. True"] by (simp_all add: fits_def)
  moreover have "headroom 16 (mv_init 16 (\<lambda>_. True) 4 :: nat mvec)" by (simp add: headroom_def mv_init_def)
  ultimately show ?thesis
    using malloc_vector_refines_list [of "mv_init 16 (\<lambda>_. True) 4" 16 "\<lambda>_. True" "7 :: nat"]
    by (auto simp: grows_def)
qed

text \<open>
  C40. A vector's own element must not be passed to push_back by reference when the vector is full:
  the source copies the argument after the old block has been freed, so pushing back an element of a full
  vector reads freed memory whenever the reallocation succeeds.
\<close>

theorem push_back_own_element_undefined:
  assumes "mv_inv v" "headroom sz v" "mv_size v = mv_capacity v" "malloc (sz * next_capacity v)"
  shows "mv_push_back sz malloc (Inside i) v = Inl Undefined"
proof -
  obtain w where w: "mv_reserve sz malloc (next_capacity v) v = Inr w" "mv_inv w" "mv_size w = mv_size v"
      "mv_capacity w = next_capacity v"
    using mv_reserve_ok [OF assms(1) next_capacity_fits(1) [OF assms(2)], of malloc]
      next_capacity_fits(2) [OF assms(2)] assms(4) by metis
  have g: "grow sz malloc v = Inr w" using w(1) by (simp add: grow_def next_capacity_def)
  have lt: "mv_size w < mv_capacity w" using w(3,4) assms(3) next_capacity_fits(2) [OF assms(2)] by simp
  then obtain d where "mv_data w = Some d" using w(2) by (auto simp: mv_inv_def split: option.splits)
  then show ?thesis
    using g lt assms(3) w(3,4) next_capacity_fits(2) [OF assms(2)]
    by (auto simp: mv_push_back_def read_arg_def)
qed

definition full_vector :: "nat mvec" where
  "full_vector = \<lparr>mv_data = Some [Some 7], mv_size = 1, mv_capacity = 1\<rparr>"

theorem push_back_own_element_undefined_witness:
  "mv_push_back 8 (\<lambda>_. True) (Inside 0) full_vector = Inl Undefined"
  by (rule push_back_own_element_undefined) (simp_all add: full_vector_def mv_inv_def headroom_def)

text \<open>
  static_vector destroys what it constructs: over any sequence of emplace_back, pop_back and
  clear that does not trap, followed by the destructor, every element constructed is destroyed
  exactly once, never more than N are live, and the destructor destroys the survivors in reverse order of
  construction.
\<close>

theorem static_vector_destroys_all:
  assumes "sv_run N ops sv_init = Inr v"
  shows "length (sv_live v) \<le> N \<and> sv_live (sv_clear v) = []
    \<and> sv_destroyed (sv_clear v) = sv_destroyed v @ rev (sv_live v)
    \<and> mset (sv_destroyed (sv_clear v)) = mset (emplaced ops)"
  using sv_run_balance [OF assms] sv_clear_eq [of v] by (auto simp: sv_balance_def sv_init_def add.commute)

theorem static_vector_destroys_all_witness:
  "\<exists>v. sv_run 2 [S_emplace (1 :: nat), S_emplace 2, S_pop, S_emplace 3] sv_init = Inr v
    \<and> mset (sv_destroyed (sv_clear v)) = mset [1, 2, 3]"
proof -
  obtain v where v: "sv_run 2 [S_emplace (1 :: nat), S_emplace 2, S_pop, S_emplace 3] sv_init = Inr v"
    by (simp add: sv_emplace_back_def sv_pop_back_def sv_drop_last_def sv_init_def)
  have "mset (sv_destroyed (sv_clear v)) = mset (emplaced [S_emplace (1 :: nat), S_emplace 2, S_pop, S_emplace 3])"
    using static_vector_destroys_all [OF v] by blast
  then show ?thesis using v by auto
qed

end
