(* ===== verification/Profiler.thy ===== *)
theory Profiler
  imports CstrHashMap MallocVector
begin

text \<open>
  \<^verbatim>\<open>src/engine-uring/src/diagnostic/profiler_scope.h\<close> and \<^verbatim>\<open>.cpp\<close>: the per-thread profiler, a hash map from scope
  names to growable arrays of (enter, leave) pairs. The clock readings are arguments, \<^verbatim>\<open>malloc\<close> is the
  parameter of the array. The printing functions are modelled up to the rows they print; \<open>ProfilerReport\<close>
  has their text.
\<close>

record prec =
  enter_ns :: u64
  leave_ns :: u64

record summary_data =
  total_ns :: u64
  smin_ns :: u64
  smax_ns :: u64
  call_count :: usize

record manager =
  records :: "prec mvec cmap"
  mgr_tid :: nat

record scope =
  scope_name :: cstr
  scope_enter :: u64
  stopped :: bool

definition sizeof_record :: usize where "sizeof_record = 16"

definition now_ns :: "u64 \<Rightarrow> u64 \<Rightarrow> u64" where
  "now_ns sec nsec = sec * 1000000000 + nsec"

text \<open>The table of the default constructor has capacity 64, an array of the default constructor 4.\<close>

definition manager_init :: "nat \<Rightarrow> manager" where
  "manager_init tid = \<lparr>records = cmap_init 64, mgr_tid = tid\<rparr>"

definition new_list :: "(usize \<Rightarrow> bool) \<Rightarrow> prec mvec" where
  "new_list malloc = mv_init sizeof_record malloc 4"

text \<open>\<^verbatim>\<open>_records[scope_name].push_back(record{...})\<close>.\<close>

definition add :: "(usize \<Rightarrow> bool) \<Rightarrow> cstr \<Rightarrow> u64 \<Rightarrow> u64 \<Rightarrow> manager \<Rightarrow> manager res" where
  "add malloc name enter leave M =
     (let rec = \<lparr>enter_ns = enter, leave_ns = leave\<rparr>;
          v = (case cmap_find name (records M) of None \<Rightarrow> new_list malloc | Some v \<Rightarrow> v) in
      case mv_push_back sizeof_record malloc (Outside rec) v of Inl e \<Rightarrow> Inl e
      | Inr v' \<Rightarrow> Inr (M\<lparr>records := subscript (new_list malloc) name (\<lambda>_. v') (records M)\<rparr>))"

definition elapsed :: "prec \<Rightarrow> u64" where
  "elapsed r = leave_ns r - enter_ns r"

definition summarize_step :: "prec \<Rightarrow> summary_data \<Rightarrow> summary_data" where
  "summarize_step r s = (let e = elapsed r in
     s\<lparr>total_ns := total_ns s + e, smin_ns := (if e < smin_ns s then e else smin_ns s),
       smax_ns := (if smax_ns s < e then e else smax_ns s)\<rparr>)"

definition summarize :: "prec list \<Rightarrow> summary_data" where
  "summarize rs = (let s = \<lparr>total_ns = 0, smin_ns = - 1, smax_ns = 0, call_count = of_nat (length rs)\<rparr> in
     if rs = [] then s\<lparr>smin_ns := 0\<rparr> else fold summarize_step rs (s\<lparr>smin_ns := - 1\<rparr>))"

definition records_for :: "cstr \<Rightarrow> manager \<Rightarrow> prec mvec option" where
  "records_for name M = cmap_find name (records M)"

definition list_of :: "prec mvec \<Rightarrow> prec list" where
  "list_of v = map the (mv_contents v)"

text \<open>The rows of \<^verbatim>\<open>print_ticks\<close> and \<^verbatim>\<open>save_func_csv\<close>, and the integer columns of the other reports.\<close>

definition report_rows :: "manager \<Rightarrow> (cstr \<times> summary_data) list option" where
  "report_rows M = map_option (\<lambda>es. map (\<lambda>(k, v). (k, summarize (list_of v))) (filter (\<lambda>(k, v). \<not> mv_empty v) es))
     (iter_walk (unat (hm_size (records M))) (records M) (iter_begin (records M)))"

definition mgr_clear :: "manager \<Rightarrow> manager" where
  "mgr_clear M = M\<lparr>records := cmap_clear (records M)\<rparr>"

definition scope_open :: "cstr \<Rightarrow> u64 \<Rightarrow> scope" where
  "scope_open name now = \<lparr>scope_name = name, scope_enter = now, stopped = False\<rparr>"

definition stop :: "(usize \<Rightarrow> bool) \<Rightarrow> u64 \<Rightarrow> scope \<Rightarrow> manager \<Rightarrow> (scope \<times> manager) res" where
  "stop malloc now sc M = (if stopped sc then Inr (sc, M)
     else map_sum id (\<lambda>M. (sc\<lparr>stopped := True\<rparr>, M)) (add malloc (scope_name sc) (scope_enter sc) now M))"

section \<open>Adding records\<close>

lemma mv_push_back_capacity:
  "mv_push_back sz malloc x v = Inr v' \<Longrightarrow> mv_capacity v' = mv_capacity v \<or> (mv_capacity v' = next_capacity v \<and> mv_capacity v \<le> mv_size v)"
  by (auto simp: mv_push_back_def grow_def mv_reserve_def next_capacity_def write_slot_def Let_def
      split: if_splits sum.splits option.splits)

text \<open>An array that has grown by doubling: its capacity is at most twice its size, or 4.\<close>

definition list_ok :: "nat \<Rightarrow> prec mvec \<Rightarrow> bool" where
  "list_ok n v \<longleftrightarrow> mv_inv v \<and> (\<forall>x \<in> set (mv_contents v). x \<noteq> None) \<and> length (mv_contents v) \<le> n
     \<and> unat (mv_capacity v) \<le> max 4 (2 * length (mv_contents v))"

lemma list_ok_headroom: "list_ok n v \<Longrightarrow> n \<le> 2 ^ 50 \<Longrightarrow> headroom sizeof_record v"
  by (auto simp: list_ok_def headroom_def sizeof_record_def)

lemma new_list_ok:
  assumes "\<forall>n. malloc n"
  shows "list_ok 0 (new_list malloc) \<and> mv_contents (new_list malloc) = []"
proof -
  have "fits sizeof_record 4" by (simp add: fits_def sizeof_record_def)
  then show ?thesis
    using mv_init_inv [of sizeof_record 4 malloc, where ?'a = prec] assms by (simp add: list_ok_def new_list_def mv_init_def)
qed

lemma push_list_ok:
  assumes ok: "list_ok n v" and n: "n \<le> 2 ^ 50" and malloc: "\<forall>k. malloc k"
  shows "\<exists>v'. mv_push_back sizeof_record malloc (Outside r) v = Inr v' \<and> list_ok (Suc n) v' \<and> mv_contents v' = mv_contents v @ [Some r]"
proof -
  have inv: "mv_inv v" using ok by (simp add: list_ok_def)
  obtain v' where v': "mv_push_back sizeof_record malloc (Outside r) v = Inr v'" "mv_inv v'" "mv_contents v' = mv_contents v @ [Some r]"
    using mv_push_back_ok [OF inv list_ok_headroom [OF ok n], of malloc r] malloc by (metis grows_def)
  have hr: "headroom sizeof_record v" by (rule list_ok_headroom [OF ok n])
  have "unat (mv_capacity v') \<le> max 4 (2 * length (mv_contents v'))"
  proof (cases "mv_capacity v' = mv_capacity v")
    case True
    then show ?thesis using ok v'(3) by (auto simp: list_ok_def)
  next
    case False
    then have g: "mv_capacity v' = next_capacity v" "mv_capacity v \<le> mv_size v" using mv_push_back_capacity [OF v'(1)] by auto
    have "unat (mv_capacity v) \<le> length (mv_contents v)"
      using g(2) length_mv_contents [OF inv] by (simp add: word_le_nat_alt)
    moreover have "unat (mv_capacity v * 2) \<le> unat (mv_capacity v) * 2" by (simp add: unat_word_ariths)
    ultimately show ?thesis using g(1) v'(3) by (auto simp: next_capacity_def)
  qed
  then show ?thesis using v' ok by (auto simp: list_ok_def)
qed


section \<open>A thread's records\<close>

type_synonym sample = "cstr \<times> u64 \<times> u64"

fun run_adds :: "(usize \<Rightarrow> bool) \<Rightarrow> sample list \<Rightarrow> manager \<Rightarrow> manager res" where
  "run_adds malloc [] M = Inr M"
| "run_adds malloc ((name, enter, leave) # es) M = (case add malloc name enter leave M of Inl e \<Rightarrow> Inl e | Inr M \<Rightarrow> run_adds malloc es M)"

definition samples_for :: "cstr \<Rightarrow> sample list \<Rightarrow> prec list" where
  "samples_for name es = map (\<lambda>(_, a, b). \<lparr>enter_ns = a, leave_ns = b\<rparr>) (filter (\<lambda>e. fst e = name) es)"

definition mgr_ok :: "sample list \<Rightarrow> manager \<Rightarrow> bool" where
  "mgr_ok es M \<longleftrightarrow> cmap_inv (records M) \<and> finite (dom (cmap_map (records M))) \<and> card (dom (cmap_map (records M))) \<le> length es
     \<and> (\<forall>name. case cmap_map (records M) name of None \<Rightarrow> samples_for name es = []
          | Some v \<Rightarrow> list_ok (length es) v \<and> mv_contents v = map Some (samples_for name es) \<and> samples_for name es \<noteq> [])"

lemma list_ok_mono: "list_ok n v \<Longrightarrow> n \<le> m \<Longrightarrow> list_ok m v"
  by (auto simp: list_ok_def)

lemma samples_for_snoc:
  "samples_for name (es @ [(k, a, b)]) = samples_for name es @ (if k = name then [\<lparr>enter_ns = a, leave_ns = b\<rparr>] else [])"
  by (simp add: samples_for_def)

lemma add_ok:
  assumes ok: "mgr_ok es M" and n: "length es < 2 ^ 50" and malloc: "\<forall>k. malloc k" and k: "cstr_ok name"
  shows "\<exists>M'. add malloc name a b M = Inr M' \<and> mgr_ok (es @ [(name, a, b)]) M'"
proof -
  let ?m = "records M" and ?r = "\<lparr>enter_ns = a, leave_ns = b\<rparr>"
  have inv: "cmap_inv ?m" and size: "unat (hm_size ?m) \<le> length es"
    using ok dom_cmap_map [of ?m] by (auto simp: mgr_ok_def)
  then have room: "cmap_room ?m" using n by (simp add: cmap_room_def)
  define v where "v = (case cmap_find name ?m of None \<Rightarrow> new_list malloc | Some v \<Rightarrow> v)"
  have entry: "case cmap_map ?m x of None \<Rightarrow> samples_for x es = []
      | Some v \<Rightarrow> list_ok (length es) v \<and> mv_contents v = map Some (samples_for x es) \<and> samples_for x es \<noteq> []" for x
    using ok by (simp add: mgr_ok_def)
  have v: "list_ok (length es) v \<and> mv_contents v = map Some (samples_for name es)"
    using entry [of name] new_list_ok [OF malloc] list_ok_mono [of 0 "new_list malloc" "length es"]
    by (auto simp: v_def hm.lookup [OF inv k] split: option.splits)
  obtain v' where v': "mv_push_back sizeof_record malloc (Outside ?r) v = Inr v'" "list_ok (Suc (length es)) v'"
    "mv_contents v' = mv_contents v @ [Some ?r]" using push_list_ok [OF conjunct1 [OF v] _ malloc, of ?r] n by auto
  let ?m' = "subscript (new_list malloc) name (\<lambda>_. v') ?m"
  have abs: "cmap_map ?m' = (cmap_map ?m)(name \<mapsto> v')" and inv': "cmap_inv ?m'"
    using hm.ref_abs [OF inv room k] hm.ref_ok [OF inv room k] by auto
  have "mgr_ok (es @ [(name, a, b)]) (M\<lparr>records := ?m'\<rparr>)"
    unfolding mgr_ok_def
  proof (intro conjI allI)
    show "card (dom (cmap_map (records (M\<lparr>records := ?m'\<rparr>)))) \<le> length (es @ [(name, a, b)])"
      using ok by (auto simp: mgr_ok_def abs card_insert_if)
    fix x
    show "case cmap_map (records (M\<lparr>records := ?m'\<rparr>)) x of None \<Rightarrow> samples_for x (es @ [(name, a, b)]) = []
        | Some v \<Rightarrow> list_ok (length (es @ [(name, a, b)])) v \<and> mv_contents v = map Some (samples_for x (es @ [(name, a, b)]))
            \<and> samples_for x (es @ [(name, a, b)]) \<noteq> []"
      using entry [of x] v v' list_ok_mono [of "length es" _ "Suc (length es)"]
      by (cases "x = name") (auto simp: abs samples_for_snoc split: option.splits)
  qed (use inv' ok abs in \<open>auto simp: mgr_ok_def\<close>)
  moreover have "add malloc name a b M = Inr (M\<lparr>records := ?m'\<rparr>)" using v'(1) by (simp add: add_def v_def)
  ultimately show ?thesis by blast
qed

lemma run_adds_ok:
  "mgr_ok done_es M \<Longrightarrow> length done_es + length es \<le> 2 ^ 50 \<Longrightarrow> \<forall>k. malloc k \<Longrightarrow> \<forall>e \<in> set es. cstr_ok (fst e)
     \<Longrightarrow> \<exists>M'. run_adds malloc es M = Inr M' \<and> mgr_ok (done_es @ es) M'"
proof (induction malloc es M arbitrary: done_es rule: run_adds.induct)
  case (2 malloc name enter leave es M)
  have "length done_es < 2 ^ 50" "cstr_ok name" using "2.prems"(2,4) by simp_all
  then obtain M1 where M1: "add malloc name enter leave M = Inr M1" "mgr_ok (done_es @ [(name, enter, leave)]) M1"
    using add_ok [OF "2.prems"(1) _ "2.prems"(3)] by blast
  have "\<exists>M'. run_adds malloc es M1 = Inr M' \<and> mgr_ok ((done_es @ [(name, enter, leave)]) @ es) M'"
    by (rule "2.IH" [OF M1 _ "2.prems"(3)]) (use "2.prems"(2,4) in simp_all)
  then show ?case using M1(1) by simp
qed simp

lemma report_rows_ok:
  assumes ok: "mgr_ok es M"
  shows "\<exists>rows. report_rows M = Some rows \<and> distinct (map fst rows)
    \<and> (\<forall>name. map_of rows name = (if samples_for name es = [] then None else Some (summarize (samples_for name es))))"
proof -
  let ?m = "records M" and ?es = "concat (hm_buckets (records M))"
  have inv: "cmap_inv ?m" using ok by (simp add: mgr_ok_def)
  have "chain_ok ?es" using inv buckets_chain_ok by (auto simp: cmap_inv_def)
  then have dist: "distinct (map fst ?es)" by (simp only: chain_ok_def)
  have full: "\<not> mv_empty v \<and> list_of v = samples_for k es \<and> samples_for k es \<noteq> []" if "(k, v) \<in> set ?es" for k v
  proof -
    have "cmap_map ?m k = Some v" using dist that by (simp add: cmap_map_def)
    moreover have "case cmap_map ?m k of None \<Rightarrow> samples_for k es = []
      | Some v \<Rightarrow> list_ok (length es) v \<and> mv_contents v = map Some (samples_for k es) \<and> samples_for k es \<noteq> []"
      using ok by (simp add: mgr_ok_def)
    ultimately have v: "list_ok (length es) v" "mv_contents v = map Some (samples_for k es)" "samples_for k es \<noteq> []" by auto
    then have "unat (mv_size v) \<noteq> 0" using length_mv_contents [of v] by (metis length_0_conv length_map list_ok_def)
    then show ?thesis using v by (auto simp: mv_empty_def list_of_def comp_def)
  qed
  then have "filter (\<lambda>(k, v). \<not> mv_empty v) ?es = ?es" by (auto simp: filter_id_conv)
  then have rows: "report_rows M = Some (map (\<lambda>(k, v). (k, summarize (list_of v))) ?es)"
    using iter_begin_walk [OF inv] by (simp add: report_rows_def)
  have eq: "map (\<lambda>(k, v). (k, summarize (list_of v))) ?es = map (\<lambda>(k, v). (k, (\<lambda>_. summarize (samples_for k es)) v)) ?es"
  proof (rule map_cong [OF refl])
    fix e assume "e \<in> set ?es"
    then show "(case e of (k, v) \<Rightarrow> (k, summarize (list_of v))) = (case e of (k, v) \<Rightarrow> (k, (\<lambda>_. summarize (samples_for k es)) v))"
      using full [of "fst e" "snd e"] by (auto simp: split_beta simp del: set_concat)
  qed
  have "map_of (map (\<lambda>(k, v). (k, summarize (list_of v))) ?es) name
      = (if samples_for name es = [] then None else Some (summarize (samples_for name es)))" for name
  proof -
    have "map_of (map (\<lambda>(k, v). (k, (\<lambda>_. summarize (samples_for k es)) v)) xs) name
      = map_option (\<lambda>_. summarize (samples_for name es)) (map_of xs name)" for xs :: "(cstr \<times> prec mvec) list"
      by (induction xs) auto
    moreover have "case cmap_map ?m name of None \<Rightarrow> samples_for name es = [] | Some v \<Rightarrow> samples_for name es \<noteq> []"
      using ok unfolding mgr_ok_def by (metis (no_types, lifting) not_Some_eq option.simps(4,5))
    ultimately show ?thesis unfolding eq by (auto simp: cmap_map_def split: option.splits)
  qed
  moreover have "map fst (map (\<lambda>(k, v). (k, summarize (list_of v))) ?es) = map fst ?es" by (auto simp: comp_def split_beta)
  ultimately show ?thesis using rows dist by (metis (no_types, lifting))
qed

lemma manager_init_ok: "mgr_ok [] (manager_init tid)"
proof -
  have "cmap_inv (cmap_init 64 :: prec mvec cmap) \<and> cmap_map (cmap_init 64 :: prec mvec cmap) = Map.empty"
    by (rule init_inv) simp
  then show ?thesis by (simp add: mgr_ok_def manager_init_def samples_for_def)
qed

text \<open>
  C38. The profiler loses nothing: after any sequence of up to 2^50 samples under terminated names, with
  memory available, the array found under a name holds exactly the samples added under that name in
  order, and the report has exactly one row per name that was sampled, with the summary of its samples.
\<close>
theorem profiler_keeps_every_sample:
  assumes "\<forall>n. malloc n" "length es \<le> 2 ^ 50" "\<forall>e \<in> set es. cstr_ok (fst e)" "cstr_ok name"
  shows "\<exists>M rows. run_adds malloc es (manager_init tid) = Inr M
    \<and> map_option list_of (records_for name M) = (if samples_for name es = [] then None else Some (samples_for name es))
    \<and> report_rows M = Some rows \<and> distinct (map fst rows)
    \<and> map_of rows name = (if samples_for name es = [] then None else Some (summarize (samples_for name es)))"
proof -
  obtain M where M: "run_adds malloc es (manager_init tid) = Inr M" "mgr_ok es M"
    using run_adds_ok [OF manager_init_ok, of es malloc tid] assms by auto
  have inv: "cmap_inv (records M)" using M(2) by (simp add: mgr_ok_def)
  have "case cmap_map (records M) name of None \<Rightarrow> samples_for name es = []
      | Some v \<Rightarrow> list_ok (length es) v \<and> mv_contents v = map Some (samples_for name es) \<and> samples_for name es \<noteq> []"
    using M(2) by (simp add: mgr_ok_def)
  then have "map_option list_of (records_for name M) = (if samples_for name es = [] then None else Some (samples_for name es))"
    by (auto simp: records_for_def hm.lookup [OF inv assms(4)] list_of_def comp_def split: option.splits)
  then show ?thesis using M report_rows_ok [OF M(2)] by blast
qed

section \<open>Summaries\<close>

lemma summarize_fold:
  assumes "\<forall>r \<in> set rs. enter_ns r \<le> leave_ns r" "unat (total_ns s) + (\<Sum>r \<leftarrow> rs. unat (leave_ns r) - unat (enter_ns r)) < 2 ^ 64"
  defines "f \<equiv> fold summarize_step rs s"
  shows "unat (total_ns f) = unat (total_ns s) + (\<Sum>r \<leftarrow> rs. unat (leave_ns r) - unat (enter_ns r))
    \<and> smin_ns f = fold min (map elapsed rs) (smin_ns s) \<and> smax_ns f = fold max (map elapsed rs) (smax_ns s)
    \<and> call_count f = call_count s"
  using assms(1,2) unfolding f_def
proof (induction rs arbitrary: s)
  case (Cons r rs)
  have e: "unat (elapsed r) = unat (leave_ns r) - unat (enter_ns r)"
    using Cons.prems(1) by (simp add: elapsed_def unat_sub)
  let ?s = "summarize_step r s"
  have t: "unat (total_ns ?s) = unat (total_ns s) + (unat (leave_ns r) - unat (enter_ns r))"
    using Cons.prems(2) e by (simp add: summarize_step_def Let_def unat_word_ariths)
  have "smin_ns ?s = min (elapsed r) (smin_ns s)" "smax_ns ?s = max (elapsed r) (smax_ns s)" "call_count ?s = call_count s"
    by (auto simp: summarize_step_def Let_def min_def max_def)
  then show ?case using Cons.IH [of ?s] Cons.prems t by simp
qed simp

text \<open>
  summarize is exact: for samples whose clock did not run backwards and whose total fits in 64
  bits, it reports their number, the sum of the elapsed times, and the least and the greatest of them;
  an empty list gives all zeros.
\<close>
theorem summarize_exact:
  assumes "\<forall>r \<in> set rs. enter_ns r \<le> leave_ns r" "(\<Sum>r \<leftarrow> rs. unat (leave_ns r) - unat (enter_ns r)) < 2 ^ 64"
  shows "unat (total_ns (summarize rs)) = (\<Sum>r \<leftarrow> rs. unat (leave_ns r) - unat (enter_ns r))
    \<and> smin_ns (summarize rs) = (if rs = [] then 0 else Min (elapsed ` set rs))
    \<and> smax_ns (summarize rs) = (if rs = [] then 0 else Max (elapsed ` set rs))
    \<and> call_count (summarize rs) = of_nat (length rs)"
proof (cases "rs = []")
  case False
  let ?s = "\<lparr>total_ns = 0, smin_ns = - 1, smax_ns = 0, call_count = of_nat (length rs)\<rparr>"
  have eq: "summarize rs = fold summarize_step rs ?s" using False by (simp add: summarize_def)
  have "fold min xs m = Min (insert m (set xs))" "fold max xs m = Max (insert m (set xs))" for xs :: "u64 list" and m
    using Min.set_eq_fold [of m xs] Max.set_eq_fold [of m xs] by simp_all
  moreover have "Min (insert (- 1) (elapsed ` set rs)) = Min (elapsed ` set rs)"
    using False by (simp add: Min_insert min_absorb2 word_order.extremum)
  moreover have "Max (insert 0 (elapsed ` set rs)) = Max (elapsed ` set rs)"
    using False by (simp add: Max_insert)
  ultimately show ?thesis using summarize_fold [OF assms(1), of ?s] assms(2) False unfolding eq by simp
qed (simp add: summarize_def)


lemma profiler_keeps_every_sample_witness:
  "\<exists>M. run_adds (\<lambda>_. True) [([97], 1, 5), ([98], 2, 3), ([97], 7, 8)] (manager_init 1) = Inr M
    \<and> map_option list_of (records_for [97] M) = Some [\<lparr>enter_ns = 1, leave_ns = 5\<rparr>, \<lparr>enter_ns = 7, leave_ns = 8\<rparr>]"
  using profiler_keeps_every_sample [of "\<lambda>_. True" "[([97], 1, 5), ([98], 2, 3), ([97], 7, 8)]" "[97]" 1]
  by (auto simp: cstr_ok_def samples_for_def)

lemma summarize_exact_witness:
  "unat (total_ns (summarize [\<lparr>enter_ns = 1, leave_ns = 5\<rparr>, \<lparr>enter_ns = 7, leave_ns = 8\<rparr>])) = 5
    \<and> smin_ns (summarize [\<lparr>enter_ns = 1, leave_ns = 5\<rparr>, \<lparr>enter_ns = 7, leave_ns = 8\<rparr>]) = 1"
  using summarize_exact [of "[\<lparr>enter_ns = 1, leave_ns = 5\<rparr>, \<lparr>enter_ns = 7, leave_ns = 8\<rparr>]"] by (simp add: elapsed_def)

end
