(* ===== verification/TickLogic.thy ===== *)
theory TickLogic
  imports Prelude "HOL-Library.Multiset"
begin

text \<open>
  \<^verbatim>\<open>src/server-epoll/tick_logic.h\<close>: the tick of the epoll server, namely the phase histograms, the bitmap of
  live sessions, the per-session memory walk and the deadline arithmetic. Clock readings are arguments
  of the functions that take them. The calibrated spin has no effect on the state besides a sink and
  is left out of the walk; its generator is \<open>burn\<close>, its calibration is in \<open>TickSetup\<close>. Floating point enters only in \<^verbatim>\<open>pct\<close>, whose rank
  \<open>want\<close> is an argument here.
\<close>

section \<open>Histogram\<close>

definition bucket_ns :: int where "bucket_ns = 1000"
definition buckets :: nat where "buckets = 1000000"

record hist =
  counts :: "nat \<Rightarrow> u32"
  total :: u64
  overflow :: u64
  max_ns :: int
  min_ns :: int

definition hist_init :: hist where
  "hist_init = \<lparr>counts = (\<lambda>_. 0), total = 0, overflow = 0, max_ns = 0, min_ns = 2 ^ 63 - 1\<rparr>"

definition hist_add :: "int \<Rightarrow> hist \<Rightarrow> hist" where
  "hist_add ns h =
     (let ns = (if ns < 0 then 0 else ns);
          h = h\<lparr>total := total h + 1, max_ns := (if max_ns h < ns then ns else max_ns h),
                min_ns := (if ns < min_ns h then ns else min_ns h)\<rparr>;
          b = nat (ns div bucket_ns) in
      if buckets \<le> b then h\<lparr>overflow := overflow h + 1\<rparr>
      else h\<lparr>counts := (counts h)(b := counts h b + 1)\<rparr>)"

text \<open>The scan of \<^verbatim>\<open>pct\<close> from bucket \<open>b\<close> on, with \<open>n\<close> buckets left.\<close>

fun pct_scan :: "(nat \<Rightarrow> u32) \<Rightarrow> u64 \<Rightarrow> nat \<Rightarrow> nat \<Rightarrow> u64 \<Rightarrow> nat option" where
  "pct_scan c want 0 b seen = None"
| "pct_scan c want (Suc n) b seen =
     (let seen = seen + ucast (c b) in if want \<le> seen then Some b else pct_scan c want n (Suc b) seen)"

definition hist_pct :: "u64 \<Rightarrow> hist \<Rightarrow> int \<times> bool" where
  "hist_pct want h = (if total h = 0 then (0, False)
     else case pct_scan (counts h) want buckets 0 0 of
       Some b \<Rightarrow> (int b * bucket_ns, False)
     | None \<Rightarrow> (int buckets * bucket_ns, True))"

section \<open>State\<close>

text \<open>\<open>arena\<close> holds the 8-byte word at each byte offset the walk touches (multiples of 64); \<open>live\<close> is the
  bitmap, by word. Slots are file descriptors.\<close>

record tick_state =
  enabled :: bool
  period :: int
  block_w :: nat
  slots :: nat
  arena :: "nat \<Rightarrow> u64"
  live :: "nat \<Rightarrow> u64"
  live_n :: nat
  deadline :: int
  drain_acc :: int
  flush_acc :: int
  wakes :: u32
  ticks :: u64
  overruns :: u64
  msgs :: u64
  h_drain :: hist
  h_tick :: hist
  h_flush :: hist
  h_wakes :: hist
  t_mark :: int

text \<open>\<^verbatim>\<open>init\<close> after the environment has been read: \<open>hz\<close> and \<open>w\<close> as parsed, \<open>now\<close> the clock at the end. The
  result says whether the server may start. The map and the table are zero-filled by the kernel, then
  one byte per page is set.\<close>

definition tick_init :: "nat \<Rightarrow> nat \<Rightarrow> nat \<Rightarrow> int \<Rightarrow> bool \<times> tick_state" where
  "tick_init hz width max_conns now =
     (let off = \<lparr>enabled = False, period = 0, block_w = 64, slots = 0, arena = (\<lambda>_. 0), live = (\<lambda>_. 0), live_n = 0,
            deadline = 0, drain_acc = 0, flush_acc = 0, wakes = 0, ticks = 0, overruns = 0, msgs = 0,
            h_drain = hist_init, h_tick = hist_init, h_flush = hist_init, h_wakes = hist_init, t_mark = 0\<rparr> in
      if hz = 0 then (True, off)
      else (let on = off\<lparr>enabled := True, period := 1000000000 div int hz, block_w := width\<rparr> in
        if width < 64 \<or> width mod 64 \<noteq> 0 then (False, on)
        else (True, on\<lparr>slots := (max_conns + 64) mod 2 ^ 64, arena := (\<lambda>off. if off mod 4096 = 0 then 1 else 0),
                       deadline := now + period on\<rparr>)))"

text \<open>The generator of the spin: one multiply-xorshift per iteration.\<close>

definition burn_step :: "u64 \<Rightarrow> u64" where
  "burn_step x = (let x = x XOR push_bit 13 x; x = x XOR drop_bit 7 x; x = x XOR push_bit 17 x in
     x * 0x2545F4914F6CDD1D)"

definition burn :: "nat \<Rightarrow> u64" where
  "burn iters = (burn_step ^^ iters) (0x9E3779B97F4A7C15 XOR of_nat iters)"

section \<open>Sessions\<close>

definition bit_of :: "nat \<Rightarrow> u64" where
  "bit_of s = push_bit (s mod 64) 1"

definition is_live :: "nat \<Rightarrow> tick_state \<Rightarrow> bool" where
  "is_live s g \<longleftrightarrow> live g (s div 64) AND bit_of s \<noteq> 0"

definition session_add :: "nat \<Rightarrow> tick_state \<Rightarrow> tick_state" where
  "session_add fd g = (if \<not> enabled g \<or> slots g \<le> fd then g
     else if \<not> is_live fd g
       then g\<lparr>live := (live g)(fd div 64 := live g (fd div 64) OR bit_of fd), live_n := live_n g + 1\<rparr>
       else g)"

definition session_remove :: "nat \<Rightarrow> tick_state \<Rightarrow> tick_state" where
  "session_remove fd g = (if \<not> enabled g \<or> slots g \<le> fd then g
     else if is_live fd g
       then g\<lparr>live := (live g)(fd div 64 := live g (fd div 64) AND NOT (bit_of fd)), live_n := live_n g - 1\<rparr>
       else g)"

section \<open>The memory walk\<close>

fun touch_lines :: "nat \<Rightarrow> nat \<Rightarrow> u64 \<Rightarrow> (nat \<Rightarrow> u64) \<Rightarrow> u64 \<times> (nat \<Rightarrow> u64)" where
  "touch_lines b 0 acc m = (acc, m)"
| "touch_lines b (Suc n) acc m = (let acc = acc + m b in
     touch_lines (b + 64) n acc (m(b := acc XOR 0xA5A5A5A5A5A5A5A5)))"

definition touch_block :: "nat \<Rightarrow> tick_state \<Rightarrow> tick_state" where
  "touch_block s g = (let b = s * block_w g; (acc, m) = touch_lines b (block_w g div 64) (arena g b) (arena g) in
     g\<lparr>arena := m(b := acc)\<rparr>)"

definition on_msg :: "nat \<Rightarrow> tick_state \<Rightarrow> tick_state" where
  "on_msg fd g = (if \<not> enabled g \<or> slots g \<le> fd then g else touch_block fd (g\<lparr>msgs := msgs g + 1\<rparr>))"

text \<open>\<^verbatim>\<open>__builtin_ctzll\<close> of a nonzero word: its lowest set bit.\<close>

definition ctzll :: "u64 \<Rightarrow> nat" where
  "ctzll x = length (takeWhile (\<lambda>i. \<not> bit x i) [0..<64])"

text \<open>The slots of one bitmap word in the order the inner loop takes them; a word has at most 64 bits
  to clear.\<close>

fun word_slots :: "nat \<Rightarrow> nat \<Rightarrow> u64 \<Rightarrow> nat list" where
  "word_slots 0 wi bits = []"
| "word_slots (Suc n) wi bits =
     (if bits = 0 then [] else (wi * 64 + ctzll bits) # word_slots n wi (bits AND (bits - 1)))"

definition tick_slots :: "tick_state \<Rightarrow> nat list" where
  "tick_slots g = concat (map (\<lambda>wi. word_slots 64 wi (live g wi)) [0..<(slots g + 63) div 64])"

definition run_tick :: "tick_state \<Rightarrow> tick_state" where
  "run_tick g = fold touch_block (tick_slots g) g"

section \<open>Loop hooks\<close>

definition timeout_ns :: "int \<Rightarrow> tick_state \<Rightarrow> int" where
  "timeout_ns now g = (if \<not> enabled g then - 1 else let left = deadline g - now in if 0 < left then left else 0)"

definition drain_begin :: "int \<Rightarrow> tick_state \<Rightarrow> tick_state" where
  "drain_begin now g = (if enabled g then g\<lparr>t_mark := now, wakes := wakes g + 1\<rparr> else g)"

definition drain_end :: "int \<Rightarrow> tick_state \<Rightarrow> tick_state" where
  "drain_end now g = (if enabled g then g\<lparr>drain_acc := drain_acc g + (now - t_mark g)\<rparr> else g)"

definition flush_begin :: "int \<Rightarrow> tick_state \<Rightarrow> tick_state" where
  "flush_begin now g = (if enabled g then g\<lparr>t_mark := now\<rparr> else g)"

definition flush_end :: "int \<Rightarrow> tick_state \<Rightarrow> tick_state" where
  "flush_end now g = (if enabled g then g\<lparr>flush_acc := flush_acc g + (now - t_mark g)\<rparr> else g)"

text \<open>\<^verbatim>\<open>maybe_tick\<close> split at the callback: whether a tick is due, and the bookkeeping after it.\<close>

definition tick_due :: "int \<Rightarrow> tick_state \<Rightarrow> bool" where
  "tick_due t0 g \<longleftrightarrow> enabled g \<and> deadline g \<le> t0"

definition tick_book :: "int \<Rightarrow> int \<Rightarrow> tick_state \<Rightarrow> tick_state" where
  "tick_book t0 t1 g =
     (let g = g\<lparr>ticks := ticks g + 1, h_drain := hist_add (drain_acc g) (h_drain g),
               h_flush := hist_add (flush_acc g) (h_flush g), h_tick := hist_add (t1 - t0) (h_tick g),
               h_wakes := hist_add (int (unat (wakes g)) * bucket_ns) (h_wakes g),
               drain_acc := 0, flush_acc := 0, wakes := 0\<rparr> in
      if deadline g + period g < t1 then g\<lparr>overruns := overruns g + 1, deadline := t1 + period g\<rparr>
      else g\<lparr>deadline := deadline g + period g\<rparr>)"

definition maybe_tick :: "int \<Rightarrow> int \<Rightarrow> tick_state \<Rightarrow> tick_state" where
  "maybe_tick t0 t1 g = (if \<not> tick_due t0 g then g else tick_book t0 t1 (run_tick g))"

section \<open>Clearing the lowest set bit\<close>

lemma bit_and_pred_nat:
  "0 < N \<Longrightarrow> bit (N AND (N - 1)) i \<longleftrightarrow> bit N i \<and> (\<exists>j < i. bit N j)" for N :: nat
proof (induction N arbitrary: i rule: less_induct)
  case (less N)
  show ?case
  proof (cases "even N")
    case True
    then obtain m where m: "N = 2 * m" by (elim evenE)
    with less.prems have pos: "0 < m" by simp
    then have half: "(2 * m - 1) div 2 = m - 1" and odd: "odd (2 * m - 1)" by auto
    have eq: "N AND (N - 1) = 2 * (m AND (m - 1))"
      using half odd by (subst and_rec [of N]) (simp add: m)
    have dbl: "bit (2 * k) i \<longleftrightarrow> (\<exists>i'. i = Suc i' \<and> bit k i')" for k :: nat and i
      by (cases i) (simp_all add: bit_0 bit_Suc)
    have ih: "bit (m AND (m - 1)) i' \<longleftrightarrow> bit m i' \<and> (\<exists>j < i'. bit m j)" for i'
      using less.IH [of m] pos m by simp
    have "bit (N AND (N - 1)) i \<longleftrightarrow> (\<exists>i'. i = Suc i' \<and> bit m i' \<and> (\<exists>j < i'. bit m j))"
      unfolding eq dbl ih by blast
    moreover have "bit N j \<longleftrightarrow> (\<exists>j'. j = Suc j' \<and> bit m j')" for j unfolding m dbl ..
    ultimately show ?thesis by auto
  next
    case False
    then obtain m where m: "N = 2 * m + 1" by (elim oddE)
    have eq: "N AND (N - 1) = 2 * m" by (subst and_rec) (simp add: m)
    have "bit N 0" using False by (simp add: bit_0)
    then show ?thesis unfolding eq by (cases i) (auto simp: m bit_0 bit_Suc)
  qed
qed

lemma bit_and_pred:
  assumes "(x :: u64) \<noteq> 0"
  shows "bit (x AND (x - 1)) i \<longleftrightarrow> bit x i \<and> (\<exists>j < i. bit x j)"
proof (cases "i < 64")
  case True
  have pos: "0 < unat x" using assms by (simp add: unat_gt_0)
  have "unat (x AND (x - 1)) = unat x AND (unat x - 1)"
    using assms by (simp add: unsigned_and_eq unat_minus_one)
  moreover have u: "bit (unat y) i = bit y i" for y :: u64 by (simp add: bit_unsigned_iff)
  ultimately have "bit (x AND (x - 1)) i \<longleftrightarrow> bit (unat x AND (unat x - 1)) i" by metis
  also have "\<dots> \<longleftrightarrow> bit (unat x) i \<and> (\<exists>j < i. bit (unat x) j)" by (rule bit_and_pred_nat [OF pos])
  finally show ?thesis using True by (simp add: bit_unsigned_iff)
next
  case False
  then show ?thesis by (auto dest: bit_imp_le_length)
qed

lemma ctzll_bit:
  assumes "x \<noteq> 0"
  shows "bit x (ctzll x) \<and> ctzll x < 64 \<and> (\<forall>j < ctzll x. \<not> bit x j)"
proof -
  let ?P = "\<lambda>i. \<not> bit x i"
  obtain k where k: "bit x k" using assms by (auto simp: bit_eq_iff)
  then have k64: "k < 64" using bit_imp_le_length [OF k] by simp
  have lt: "ctzll x < 64"
  proof (rule ccontr)
    assume "\<not> ctzll x < 64"
    then have "takeWhile ?P [0..<64] = [0..<64]"
      by (metis ctzll_def length_upt minus_nat.diff_0 takeWhile_eq_take take_all not_less)
    then have "\<forall>i \<in> set [0..<64]. ?P i" by (metis set_takeWhileD)
    then show False using k k64 by auto
  qed
  then have "\<not> ?P ([0..<64] ! ctzll x)" unfolding ctzll_def by (intro nth_length_takeWhile) simp
  moreover have "?P j" if "j < ctzll x" for j
  proof -
    have "takeWhile ?P [0..<64] ! j = [0..<64] ! j" using that by (simp add: ctzll_def takeWhile_nth)
    moreover have "takeWhile ?P [0..<64] ! j \<in> set (takeWhile ?P [0..<64])"
      using that by (simp add: ctzll_def)
    ultimately show ?thesis using that lt by (metis add_0 less_trans nth_upt set_takeWhileD)
  qed
  ultimately show ?thesis using lt by simp
qed

text \<open>The inner loop of the tick: the set bits of a word, in ascending order, each once.\<close>

lemma word_slots_bits:
  assumes "card {i. bit bits i} \<le> n"
  shows "set (word_slots n wi bits) = {wi * 64 + i | i. bit bits i} \<and> sorted_wrt (<) (word_slots n wi bits)"
  using assms
proof (induction n arbitrary: bits)
  case 0
  have "finite {i. bit bits i}" by (rule finite_subset [of _ "{..<64}"]) (auto dest: bit_imp_le_length)
  then show ?case using 0 by simp
next
  case (Suc n)
  show ?case
  proof (cases "bits = 0")
    case True
    then show ?thesis by simp
  next
    case False
    let ?l = "ctzll bits" and ?b = "bits AND (bits - 1)"
    have l: "bit bits ?l" "\<forall>j < ?l. \<not> bit bits j" using ctzll_bit [OF False] by auto
    have b: "{i. bit ?b i} = {i. bit bits i} - {?l}"
      using bit_and_pred [OF False] l by (auto simp: set_eq_iff) (metis nat_neq_iff)
    have fin: "finite {i. bit bits i}" by (rule finite_subset [of _ "{..<64}"]) (auto dest: bit_imp_le_length)
    then have "card {i. bit ?b i} \<le> n" using Suc.prems l(1) unfolding b by simp
    then have ih: "set (word_slots n wi ?b) = {wi * 64 + i | i. bit ?b i} \<and> sorted_wrt (<) (word_slots n wi ?b)"
      by (rule Suc.IH)
    have bi: "bit ?b i \<longleftrightarrow> bit bits i \<and> i \<noteq> ?l" for i using b by blast
    have "?l < i" if "bit ?b i" for i using that bi l(2) by (meson linorder_neqE_nat)
    then show ?thesis using False ih l(1) bi by auto
  qed
qed

lemma card_bits: "card {i. bit (x :: u64) i} \<le> 64"
proof -
  have "card {i. bit x i} \<le> card {..<64 :: nat}" by (rule card_mono) (auto dest: bit_imp_le_length)
  then show ?thesis by simp
qed

lemma is_live_bit: "is_live s g \<longleftrightarrow> bit (live g (s div 64)) (s mod 64)"
proof -
  have "live g (s div 64) AND bit_of s = (if bit (live g (s div 64)) (s mod 64) then bit_of s else 0)"
    by (rule bit_word_eqI) (auto simp: bit_of_def bit_and_iff bit_push_bit_iff bit_1_iff bit_exp_iff)
  moreover have "bit_of s \<noteq> 0"
  proof
    assume "bit_of s = 0"
    then have "\<not> bit (bit_of s) (s mod 64)" by simp
    then show False by (simp add: bit_of_def bit_push_bit_iff bit_1_iff bit_exp_iff)
  qed
  ultimately show ?thesis by (simp add: is_live_def)
qed

lemma sorted_wrt_concat:
  "(\<And>xs. xs \<in> set xss \<Longrightarrow> sorted_wrt (<) xs)
    \<Longrightarrow> sorted_wrt (\<lambda>xs ys. \<forall>x \<in> set xs. \<forall>y \<in> set ys. x < y) xss \<Longrightarrow> sorted_wrt (<) (concat xss)" for xss :: "nat list list"
  by (induction xss) (auto simp: sorted_wrt_append)

lemma tick_slots_live:
  "set (tick_slots g) = {s. s div 64 < (slots g + 63) div 64 \<and> is_live s g} \<and> sorted_wrt (<) (tick_slots g)"
proof -
  have ws: "set (word_slots 64 wi (live g wi)) = {wi * 64 + i | i. bit (live g wi) i}"
    "sorted_wrt (<) (word_slots 64 wi (live g wi))" for wi
    using word_slots_bits [OF card_bits] by auto
  have lt: "i < 64" if "bit (live g wi) i" for wi i using bit_imp_le_length [OF that] by simp
  have "s \<in> set (tick_slots g) \<longleftrightarrow> s div 64 < (slots g + 63) div 64 \<and> is_live s g" for s
  proof
    assume "s \<in> set (tick_slots g)"
    then obtain wi i where "wi < (slots g + 63) div 64" "s = wi * 64 + i" "bit (live g wi) i"
      by (auto simp: tick_slots_def ws)
    moreover from this have "s div 64 = wi" "s mod 64 = i" using lt [of wi i] by auto
    ultimately show "s div 64 < (slots g + 63) div 64 \<and> is_live s g" by (simp add: is_live_bit)
  next
    assume s: "s div 64 < (slots g + 63) div 64 \<and> is_live s g"
    then have "s \<in> set (word_slots 64 (s div 64) (live g (s div 64)))"
      unfolding ws by (auto simp: is_live_bit intro!: exI [of _ "s mod 64"])
    then show "s \<in> set (tick_slots g)" using s by (auto simp: tick_slots_def)
  qed
  moreover have "sorted_wrt (<) (tick_slots g)"
    unfolding tick_slots_def
  proof (rule sorted_wrt_concat)
    show "sorted_wrt (\<lambda>xs ys. \<forall>x \<in> set xs. \<forall>y \<in> set ys. x < y)
        (map (\<lambda>wi. word_slots 64 wi (live g wi)) [0..<(slots g + 63) div 64])"
      unfolding sorted_wrt_map
    proof (rule sorted_wrt_mono_rel [OF _ sorted_wrt_upt])
      fix a b :: nat assume ab: "a < b"
      show "\<forall>x \<in> set (word_slots 64 a (live g a)). \<forall>y \<in> set (word_slots 64 b (live g b)). x < y"
        unfolding ws
      proof (intro ballI)
        fix x y assume "x \<in> {a * 64 + i | i. bit (live g a) i}" "y \<in> {b * 64 + i | i. bit (live g b) i}"
        then obtain i j where "x = a * 64 + i" "i < 64" "y = b * 64 + j" using lt by blast
        then show "x < y" using ab by simp
      qed
    qed
  qed (auto simp: ws)
  ultimately show ?thesis by blast
qed

section \<open>Effect of the memory walk\<close>

text \<open>The cache lines of block \<open>s\<close>, and the sum the walk has accumulated after line \<open>i\<close>: the first word
  counts twice.\<close>

definition line_at :: "tick_state \<Rightarrow> nat \<Rightarrow> nat \<Rightarrow> nat" where
  "line_at g s i = s * block_w g + 64 * i"

definition block_lines :: "tick_state \<Rightarrow> nat \<Rightarrow> nat set" where
  "block_lines g s = line_at g s ` {..<block_w g div 64}"

definition block_sum :: "tick_state \<Rightarrow> nat \<Rightarrow> nat \<Rightarrow> u64" where
  "block_sum g s i = arena g (line_at g s 0) + (\<Sum>k \<le> i. arena g (line_at g s k))"

definition walked :: "tick_state \<Rightarrow> nat \<Rightarrow> nat \<Rightarrow> u64" where
  "walked g s i = (if i = 0 then block_sum g s (block_w g div 64 - 1) else block_sum g s i XOR 0xA5A5A5A5A5A5A5A5)"

lemma touch_lines_frame: "(\<And>k. k < n \<Longrightarrow> o' \<noteq> b + 64 * k) \<Longrightarrow> snd (touch_lines b n acc m) o' = m o'"
proof (induction n arbitrary: b acc m)
  case (Suc n)
  have "o' \<noteq> b + 64 + 64 * k" if "k < n" for k using Suc.prems [of "Suc k"] that by simp
  moreover have "o' \<noteq> b" using Suc.prems [of 0] by simp
  ultimately show ?case using Suc.IH [of "b + 64"] by (simp add: Let_def)
qed simp

lemma touch_lines_words:
  "\<forall>k < n. m (b + 64 * k) = f k \<Longrightarrow> fst (touch_lines b n acc m) = acc + (\<Sum>k < n. f k)
    \<and> (\<forall>i < n. snd (touch_lines b n acc m) (b + 64 * i) = (acc + (\<Sum>k < Suc i. f k)) XOR 0xA5A5A5A5A5A5A5A5)"
proof (induction n arbitrary: b acc m f)
  case (Suc n)
  let ?acc = "acc + f 0"
  let ?m = "m(b := ?acc XOR 0xA5A5A5A5A5A5A5A5)"
  have "m b = f 0" using Suc.prems by (metis add.right_neutral mult_0_right zero_less_Suc)
  then have step: "touch_lines b (Suc n) acc m = touch_lines (b + 64) n ?acc ?m" by (simp add: Let_def)
  have "?m (b + 64 + 64 * k) = f (Suc k)" if "k < n" for k
    using Suc.prems [THEN spec, of "Suc k"] that by (simp add: add.assoc)
  then have "\<forall>k < n. ?m (b + 64 + 64 * k) = f (Suc k)" by blast
  note ih = Suc.IH [OF this, of ?acc]
  have sum: "(\<Sum>k < Suc l. f k) = f 0 + (\<Sum>k < l. f (Suc k))" for l by (rule sum.lessThan_Suc_shift)
  have "snd (touch_lines (b + 64) n ?acc ?m) (b + 64 * i) = (acc + (\<Sum>k < Suc i. f k)) XOR 0xA5A5A5A5A5A5A5A5"
    if "i < Suc n" for i
  proof (cases i)
    case 0
    then show ?thesis using touch_lines_frame [of n b "b + 64" ?acc ?m] by simp
  next
    case (Suc l)
    then have "snd (touch_lines (b + 64) n ?acc ?m) (b + 64 + 64 * l)
        = (?acc + (\<Sum>k < Suc l. f (Suc k))) XOR 0xA5A5A5A5A5A5A5A5" using ih that by blast
    moreover have "b + 64 + 64 * l = b + 64 * i" using Suc by simp
    ultimately show ?thesis using sum [of i] Suc by (simp only: add.assoc)
  qed
  moreover have "fst (touch_lines (b + 64) n ?acc ?m) = acc + (\<Sum>k < Suc n. f k)"
    using ih sum [of n] by (simp only: add.assoc)
  ultimately show ?case unfolding step by blast
qed simp

lemma touch_lines_at:
  "fst (touch_lines b n acc m) = acc + (\<Sum>k < n. m (b + 64 * k))"
  "i < n \<Longrightarrow> snd (touch_lines b n acc m) (b + 64 * i) = (acc + (\<Sum>k < Suc i. m (b + 64 * k))) XOR 0xA5A5A5A5A5A5A5A5"
  using touch_lines_words [of n m b "\<lambda>k. m (b + 64 * k)" acc] by blast+

lemma block_w_touch [simp]: "block_w (touch_block s g) = block_w g"
  by (simp add: touch_block_def Let_def case_prod_unfold)

lemma touch_block_frame:
  assumes "0 < block_w g div 64" "o' \<notin> block_lines g s"
  shows "arena (touch_block s g) o' = arena g o'"
proof -
  have ne: "o' \<noteq> s * block_w g + 64 * k" if "k < block_w g div 64" for k
    using assms(2) that by (auto simp: block_lines_def line_at_def)
  then have "snd (touch_lines (s * block_w g) (block_w g div 64) (arena g (s * block_w g)) (arena g)) o' = arena g o'"
    by (rule touch_lines_frame)
  moreover have "o' \<noteq> s * block_w g" using ne [of 0] assms(1) by simp
  ultimately show ?thesis by (simp add: touch_block_def Let_def case_prod_unfold)
qed

lemma touch_block_at:
  assumes "i < block_w g div 64"
  shows "arena (touch_block s g) (line_at g s i) = walked g s i"
proof -
  have "{..<block_w g div 64} = {..block_w g div 64 - 1}" using assms by auto
  then show ?thesis using assms
    by (simp add: touch_block_def Let_def case_prod_unfold walked_def block_sum_def line_at_def touch_lines_at
        lessThan_Suc_atMost del: sum.lessThan_Suc)
qed

lemma block_lines_apart:
  assumes "s \<noteq> t" "o' \<in> block_lines g s"
  shows "o' \<notin> block_lines g t"
proof -
  have lines: "a * block_w g \<le> o'" "o' < Suc a * block_w g" if "o' \<in> block_lines g a" for a
  proof -
    obtain k where k: "k < block_w g div 64" "o' = a * block_w g + 64 * k"
      using \<open>o' \<in> block_lines g a\<close> by (auto simp: block_lines_def line_at_def)
    then have "64 * Suc k \<le> 64 * (block_w g div 64)" by simp
    also have "\<dots> \<le> block_w g" by simp
    finally show "a * block_w g \<le> o'" "o' < Suc a * block_w g" using k(2) by simp_all
  qed
  have apart: "\<not> Suc a \<le> b" if "a * block_w g \<le> o'" "o' < Suc a * block_w g" "b * block_w g \<le> o'" for a b
  proof
    assume "Suc a \<le> b"
    then have "Suc a * block_w g \<le> b * block_w g" by (rule mult_le_mono1)
    then show False using that by simp
  qed
  show ?thesis
  proof
    assume t: "o' \<in> block_lines g t"
    show False using apart [of s t] apart [of t s] lines [OF assms(2)] lines [OF t] assms(1) by auto
  qed
qed

lemma fold_touch_frame:
  assumes "0 < block_w g div 64" "\<forall>s \<in> set ss. o' \<notin> block_lines g s"
  shows "arena (fold touch_block ss g) o' = arena g o'"
  using assms
proof (induction ss arbitrary: g)
  case (Cons s ss)
  have "arena (fold touch_block ss (touch_block s g)) o' = arena (touch_block s g) o'"
    using Cons.prems by (intro Cons.IH) (simp_all add: block_lines_def line_at_def)
  then show ?case using touch_block_frame [of g o' s] Cons.prems by simp
qed simp

lemma line_in_block: "i < block_w g div 64 \<Longrightarrow> line_at g s i \<in> block_lines g s"
  by (simp add: block_lines_def)

lemma fold_touch_at:
  assumes "i < block_w g div 64" "distinct ss" "s \<in> set ss"
  shows "arena (fold touch_block ss g) (line_at g s i) = walked g s i"
  using assms
proof (induction ss arbitrary: g)
  case (Cons t ss)
  let ?g = "touch_block t g"
  have same: "line_at ?g = line_at g" "block_lines ?g = block_lines g"
    by (simp_all add: fun_eq_iff line_at_def block_lines_def)
  have pos: "0 < block_w g div 64" using Cons.prems(1) by simp
  show ?case
  proof (cases "s = t")
    case True
    have "\<forall>a \<in> set ss. line_at g s i \<notin> block_lines ?g a"
      using Cons.prems(2) block_lines_apart [OF _ line_in_block [OF Cons.prems(1), of t]] True same by (metis distinct.simps(2))
    then show ?thesis using fold_touch_frame [of ?g ss "line_at g s i"] pos touch_block_at [OF Cons.prems(1)] True by simp
  next
    case False
    have old: "arena ?g (line_at g s k) = arena g (line_at g s k)" if "k < block_w g div 64" for k
      using touch_block_frame [OF pos] block_lines_apart [OF False line_in_block [OF that]] by simp
    have "walked ?g s i = walked g s i"
      using pos Cons.prems(1) by (auto simp: walked_def block_sum_def same old intro!: sum.cong)
    then show ?thesis using Cons.IH [of ?g] Cons.prems False same by simp
  qed
qed simp

section \<open>Live sessions\<close>

lemma bit_bit_of: "bit (bit_of s) i \<longleftrightarrow> i = s mod 64"
  by (auto simp: bit_of_def bit_push_bit_iff bit_1_iff bit_exp_iff)

lemma is_live_add:
  "is_live s (session_add fd g) \<longleftrightarrow> is_live s g \<or> (s = fd \<and> enabled g \<and> fd < slots g)"
proof -
  have "s = fd \<longleftrightarrow> s div 64 = fd div 64 \<and> s mod 64 = fd mod 64" by (metis div_mult_mod_eq)
  then show ?thesis by (auto simp: session_add_def is_live_bit bit_or_iff bit_bit_of)
qed

lemma is_live_remove:
  "is_live s (session_remove fd g) \<longleftrightarrow> is_live s g \<and> \<not> (s = fd \<and> enabled g \<and> fd < slots g)"
proof -
  have "s = fd \<longleftrightarrow> s div 64 = fd div 64 \<and> s mod 64 = fd mod 64" by (metis div_mult_mod_eq)
  moreover have "s mod 64 < 64" by simp
  ultimately show ?thesis
    by (auto simp: session_remove_def is_live_bit bit_and_iff bit_not_iff bit_bit_of)
qed

definition live_set :: "tick_state \<Rightarrow> nat set" where
  "live_set g = {s. is_live s g}"

definition tick_inv :: "tick_state \<Rightarrow> bool" where
  "tick_inv g \<longleftrightarrow> live_set g \<subseteq> {..<slots g} \<and> live_n g = card (live_set g)"

lemma tick_inv_finite: "tick_inv g \<Longrightarrow> finite (live_set g)"
  by (auto simp: tick_inv_def intro: finite_subset)

lemma session_add_live:
  assumes inv: "tick_inv g"
  shows "tick_inv (session_add fd g)
    \<and> live_set (session_add fd g) = live_set g \<union> (if enabled g \<and> fd < slots g then {fd} else {})"
proof -
  have set: "live_set (session_add fd g) = live_set g \<union> (if enabled g \<and> fd < slots g then {fd} else {})"
    by (auto simp: live_set_def is_live_add)
  have "live_n (session_add fd g) = card (live_set (session_add fd g))"
    using inv tick_inv_finite [OF inv] unfolding set
    by (auto simp: session_add_def tick_inv_def card_insert_if live_set_def insert_absorb)
  moreover have "slots (session_add fd g) = slots g" by (simp add: session_add_def)
  ultimately show ?thesis using inv set by (auto simp: tick_inv_def)
qed

lemma session_remove_live:
  assumes inv: "tick_inv g"
  shows "tick_inv (session_remove fd g)
    \<and> live_set (session_remove fd g) = live_set g - (if enabled g \<and> fd < slots g then {fd} else {})"
proof -
  have set: "live_set (session_remove fd g) = live_set g - (if enabled g \<and> fd < slots g then {fd} else {})"
    by (auto simp: live_set_def is_live_remove)
  have "live_n (session_remove fd g) = card (live_set (session_remove fd g))"
    using inv tick_inv_finite [OF inv] unfolding set
    by (auto simp: session_remove_def tick_inv_def live_set_def)
  moreover have "slots (session_remove fd g) = slots g" by (simp add: session_remove_def)
  ultimately show ?thesis using inv set by (auto simp: tick_inv_def)
qed

section \<open>Percentiles\<close>

definition cum :: "(nat \<Rightarrow> u32) \<Rightarrow> nat \<Rightarrow> nat" where
  "cum c k = (\<Sum>j<k. unat (c j))"

lemma pct_scan_spec:
  assumes "cum c (b + n) < 2 ^ 64" "seen = of_nat (cum c b)"
  shows "case pct_scan c want n b seen of
      Some r \<Rightarrow> b \<le> r \<and> r < b + n \<and> unat want \<le> cum c (Suc r) \<and> (\<forall>q. b \<le> q \<and> q < r \<longrightarrow> cum c (Suc q) < unat want)
    | None \<Rightarrow> (\<forall>q. b \<le> q \<and> q < b + n \<longrightarrow> cum c (Suc q) < unat want)"
  using assms
proof (induction n arbitrary: b seen)
  case 0
  then show ?case by simp
next
  case (Suc n)
  have mono: "cum c (Suc b) \<le> cum c (b + Suc n)" unfolding cum_def by (rule sum_mono2) auto
  have seen: "seen + ucast (c b) = of_nat (cum c (Suc b))"
    by (simp add: Suc.prems(2) cum_def)
  have u: "unat (of_nat (cum c (Suc b)) :: u64) = cum c (Suc b)"
    using mono Suc.prems(1) by (intro unat_of_nat_usize) simp
  show ?case
  proof (cases "unat want \<le> cum c (Suc b)")
    case True
    then have "pct_scan c want (Suc n) b seen = Some b" using seen u by (simp add: Let_def word_le_nat_alt)
    then show ?thesis using True by simp
  next
    case False
    then have step: "pct_scan c want (Suc n) b seen = pct_scan c want n (Suc b) (of_nat (cum c (Suc b)))"
      using seen u by (simp add: Let_def word_le_nat_alt)
    have ih: "case pct_scan c want n (Suc b) (of_nat (cum c (Suc b))) of
        Some r \<Rightarrow> Suc b \<le> r \<and> r < Suc b + n \<and> unat want \<le> cum c (Suc r)
          \<and> (\<forall>q. Suc b \<le> q \<and> q < r \<longrightarrow> cum c (Suc q) < unat want)
      | None \<Rightarrow> (\<forall>q. Suc b \<le> q \<and> q < Suc b + n \<longrightarrow> cum c (Suc q) < unat want)"
      using Suc.prems(1) by (intro Suc.IH) simp_all
    have "cum c (Suc q) < unat want" if "b \<le> q" "Suc b \<le> q \<Longrightarrow> cum c (Suc q) < unat want" for q
      using that False by (cases "q = b") auto
    then show ?thesis using ih unfolding step by (auto split: option.splits)
  qed
qed

text \<open>What a histogram holds after a list of samples.\<close>

definition bucket_of :: "int \<Rightarrow> nat" where
  "bucket_of ns = nat ((if ns < 0 then 0 else ns) div bucket_ns)"

definition samples_in :: "nat \<Rightarrow> int list \<Rightarrow> nat" where
  "samples_in b xs = length (filter (\<lambda>x. bucket_of x = b) xs)"

lemma hist_add_fields:
  "total (hist_add x h) = total h + 1"
  "counts (hist_add x h) b = counts h b + (if bucket_of x = b \<and> b < buckets then 1 else 0)"
  "overflow (hist_add x h) = overflow h + (if buckets \<le> bucket_of x then 1 else 0)"
  by (auto simp: hist_add_def Let_def bucket_of_def)

lemma hist_fold:
  "total (fold hist_add xs hist_init) = of_nat (length xs)
   \<and> (\<forall>b. counts (fold hist_add xs hist_init) b = (if b < buckets then of_nat (samples_in b xs) else 0))
   \<and> overflow (fold hist_add xs hist_init) = of_nat (length (filter (\<lambda>x. buckets \<le> bucket_of x) xs))"
proof (induction xs rule: rev_induct)
  case Nil
  then show ?case by (simp add: hist_init_def samples_in_def)
next
  case (snoc x xs)
  then show ?case by (auto simp: hist_add_fields samples_in_def)
qed

lemma samples_below:
  "(\<Sum>j<k. samples_in j xs) = length (filter (\<lambda>x. bucket_of x < k) xs)"
proof (induction xs)
  case Nil
  then show ?case by (simp add: samples_in_def)
next
  case (Cons x xs)
  have "samples_in j (x # xs) = samples_in j xs + (if bucket_of x = j then 1 else 0)" for j
    by (simp add: samples_in_def)
  then have "(\<Sum>j<k. samples_in j (x # xs)) = (\<Sum>j<k. samples_in j xs) + (\<Sum>j<k. if bucket_of x = j then 1 else 0)"
    by (simp add: sum.distrib)
  then show ?case using Cons by simp
qed

lemma hist_cum:
  assumes "length xs < 2 ^ 32" "k \<le> buckets"
  shows "cum (counts (fold hist_add xs hist_init)) k = length (filter (\<lambda>x. bucket_of x < k) xs)"
proof -
  have "unat (counts (fold hist_add xs hist_init) j) = samples_in j xs" if "j < k" for j
  proof -
    have "samples_in j xs < 2 ^ 32"
      using assms(1) length_filter_le [of "\<lambda>x. bucket_of x = j" xs] unfolding samples_in_def by linarith
    then show ?thesis using that assms(2) hist_fold [of xs] by (simp add: unat_of_nat take_bit_nat_eq_self)
  qed
  then show ?thesis unfolding cum_def samples_below [symmetric] by (intro sum.cong) simp_all
qed

lemma rank_split:
  fixes xs :: "int list"
  assumes "i < length xs" "mono f"
  defines "ys \<equiv> sort xs"
  shows "i < length (filter (\<lambda>x. f x < Suc (f (ys ! i))) xs)"
    and "k \<le> f (ys ! i) \<Longrightarrow> length (filter (\<lambda>x. f x < k) xs) \<le> i"
proof -
  have len: "length (filter P xs) = length (filter P ys)" for P
    by (metis ys_def mset_filter mset_sort size_mset)
  have s: "sorted ys" "length ys = length xs" by (simp_all add: ys_def)
  have "filter (\<lambda>x. f x < Suc (f (ys ! i))) (take (Suc i) ys) = take (Suc i) ys"
    using s assms(1,2) by (intro filter_True) (auto simp: in_set_conv_nth less_Suc_eq_le sorted_iff_nth_mono monoD)
  then have "Suc i \<le> length (filter (\<lambda>x. f x < Suc (f (ys ! i))) (take (Suc i) ys @ drop (Suc i) ys))"
    unfolding filter_append using s assms(1) by simp
  then show "i < length (filter (\<lambda>x. f x < Suc (f (ys ! i))) xs)" unfolding len by simp
  assume k: "k \<le> f (ys ! i)"
  have "filter (\<lambda>x. f x < k) (drop i ys) = []"
  proof (rule filter_False, rule ballI)
    fix x assume "x \<in> set (drop i ys)"
    then obtain j where "j < length (drop i ys)" "x = ys ! (i + j)" by (auto simp: in_set_conv_nth)
    then have "ys ! i \<le> x" using s sorted_nth_mono [of ys i "i + j"] by simp
    then have "f (ys ! i) \<le> f x" by (rule monoD [OF assms(2)])
    then show "\<not> f x < k" using k by simp
  qed
  then have "length (filter (\<lambda>x. f x < k) (take i ys @ drop i ys)) \<le> i"
    unfolding filter_append using length_filter_le [of "\<lambda>x. f x < k" "take i ys"] s assms(1) by simp
  then show "length (filter (\<lambda>x. f x < k) xs) \<le> i" unfolding len by simp
qed

lemma mono_bucket_of: "mono bucket_of"
  by (auto simp: mono_def bucket_of_def bucket_ns_def intro!: nat_mono zdiv_mono1)

section \<open>Properties\<close>

text \<open>
  C37. A tick walks every live session block exactly once, in slot order, and no other: the slots
  visited by the bit-clearing loops are the live ones in ascending order and each of them is touched.
  Every cache line of a live block ends as the running sum of the block's old words masked with the
  constant, the first one as the sum of all of them (the first word counted twice), computed from that block
  alone; every other word of the arena is unchanged.
\<close>

theorem tick_walks_live_blocks:
  assumes "0 < block_w g" "block_w g mod 64 = 0" "tick_inv g"
  shows "tick_slots g = sorted_list_of_set (live_set g)
    \<and> run_tick g = fold touch_block (sorted_list_of_set (live_set g)) g
    \<and> (\<forall>s \<in> live_set g. \<forall>i < block_w g div 64. arena (run_tick g) (s * block_w g + 64 * i) =
         (if i = 0 then arena g (s * block_w g) + (\<Sum>k < block_w g div 64. arena g (s * block_w g + 64 * k))
          else (arena g (s * block_w g) + (\<Sum>k \<le> i. arena g (s * block_w g + 64 * k))) XOR 0xA5A5A5A5A5A5A5A5))
    \<and> (\<forall>o'. (\<forall>s \<in> live_set g. \<forall>i < block_w g div 64. o' \<noteq> s * block_w g + 64 * i)
         \<longrightarrow> arena (run_tick g) o' = arena g o')"
proof -
  have pos: "0 < block_w g div 64" using assms(1,2) by (cases "block_w g < 64") (simp_all add: div_greater_zero_iff)
  have "s div 64 < (slots g + 63) div 64" if "s \<in> live_set g" for s
  proof -
    have "s < slots g" using that assms(3) by (auto simp: tick_inv_def)
    then show ?thesis by (simp add: less_mult_imp_div_less)
  qed
  then have set: "set (tick_slots g) = live_set g" and sorted: "sorted_wrt (<) (tick_slots g)"
    using tick_slots_live [of g] by (auto simp: live_set_def)
  then have eq: "tick_slots g = sorted_list_of_set (live_set g)"
    by (metis sorted_list_of_set.idem_if_sorted_distinct strict_sorted_iff)
  have lines: "{..<block_w g div 64} = {..block_w g div 64 - 1}" using pos by auto
  have at: "arena (run_tick g) (line_at g s i) = walked g s i" if "s \<in> live_set g" "i < block_w g div 64" for s i
    using fold_touch_at [OF that(2), of "tick_slots g" s] that(1) set sorted by (simp add: run_tick_def strict_sorted_iff)
  have frame: "arena (run_tick g) o' = arena g o'" if "\<forall>s \<in> live_set g. o' \<notin> block_lines g s" for o'
    using fold_touch_frame [OF pos, of "tick_slots g" o'] that set by (simp add: run_tick_def)
  show ?thesis
  proof (intro conjI ballI allI impI)
    show "tick_slots g = sorted_list_of_set (live_set g)" by (rule eq)
    show "run_tick g = fold touch_block (sorted_list_of_set (live_set g)) g" by (simp only: run_tick_def eq)
  next
    fix s i assume "s \<in> live_set g" "i < block_w g div 64"
    from at [OF this] show "arena (run_tick g) (s * block_w g + 64 * i) =
       (if i = 0 then arena g (s * block_w g) + (\<Sum>k < block_w g div 64. arena g (s * block_w g + 64 * k))
        else (arena g (s * block_w g) + (\<Sum>k \<le> i. arena g (s * block_w g + 64 * k))) XOR 0xA5A5A5A5A5A5A5A5)"
      by (simp add: walked_def block_sum_def line_at_def lines)
  next
    fix o' assume "\<forall>s \<in> live_set g. \<forall>i < block_w g div 64. o' \<noteq> s * block_w g + 64 * i"
    then show "arena (run_tick g) o' = arena g o'" by (intro frame) (auto simp: block_lines_def line_at_def)
  qed
qed

definition demo_tick :: tick_state where
  "demo_tick = session_add 3 (session_add 70 (snd (tick_init 30 64 100 0)))"

lemma tick_init_inv: "tick_inv (snd (tick_init hz width n now))"
  by (auto simp: tick_init_def Let_def tick_inv_def live_set_def is_live_def)

theorem tick_walks_live_blocks_witness:
  "arena (run_tick demo_tick) 64 = arena demo_tick 64
    \<and> arena (run_tick (demo_tick\<lparr>arena := (\<lambda>_. 5)\<rparr>)) 192 = 10"
proof -
  have inv: "tick_inv demo_tick"
    unfolding demo_tick_def using session_add_live tick_init_inv by blast
  have w: "block_w demo_tick = 64" by (simp add: demo_tick_def session_add_def tick_init_def Let_def)
  have "live_set (snd (tick_init 30 64 100 0)) = {}" "enabled (snd (tick_init 30 64 100 0))"
    "slots (snd (tick_init 30 64 100 0)) = 164"
    by (simp_all add: tick_init_def Let_def live_set_def is_live_def)
  moreover have "enabled (session_add s g) = enabled g" "slots (session_add s g) = slots g" for s g
    by (simp_all add: session_add_def)
  ultimately have live: "live_set demo_tick = {3, 70}"
    using session_add_live tick_init_inv by (simp add: demo_tick_def insert_commute)
  let ?g = "demo_tick\<lparr>arena := (\<lambda>_. 5)\<rparr>"
  have g: "tick_inv ?g" "live_set ?g = {3, 70}" "block_w ?g = 64"
    using inv live w by (simp_all add: tick_inv_def live_set_def is_live_def)
  have pos: "0 < block_w demo_tick" "block_w demo_tick mod 64 = 0" "0 < block_w ?g" "block_w ?g mod 64 = 0"
    using w g(3) by simp_all
  note whole = tick_walks_live_blocks [THEN conjunct2, THEN conjunct2]
  have "arena (run_tick ?g) (3 * block_w ?g + 64 * 0) = 10"
    using whole [OF pos(3,4) g(1), THEN conjunct1, THEN bspec, of 3] g(2,3) by simp
  then have "arena (run_tick ?g) 192 = 10" unfolding g(3) by simp
  moreover have "arena (run_tick demo_tick) 64 = arena demo_tick 64"
    using whole [OF pos(1,2) inv, THEN conjunct2, THEN spec, of 64] live w by simp
  ultimately show ?thesis by blast
qed

fun live_spec :: "nat \<Rightarrow> (bool \<times> nat) list \<Rightarrow> nat set" where
  "live_spec n [] = {}"
| "live_spec n ((add, fd) # ops) = (if add \<and> fd < n then insert fd (live_spec n ops)
     else live_spec n ops - (if add then {} else {fd}))"

definition session_op :: "bool \<times> nat \<Rightarrow> tick_state \<Rightarrow> tick_state" where
  "session_op x g = (if fst x then session_add (snd x) g else session_remove (snd x) g)"

lemma session_op_live:
  assumes inv: "tick_inv g" and en: "enabled g"
  shows "tick_inv (session_op (add, fd) g) \<and> enabled (session_op (add, fd) g)
    \<and> slots (session_op (add, fd) g) = slots g
    \<and> live_set (session_op (add, fd) g) = (if add \<and> fd < slots g then insert fd (live_set g)
          else live_set g - (if add then {} else {fd}))"
proof -
  have "live_set g \<subseteq> {..<slots g}" using inv by (simp add: tick_inv_def)
  moreover have "enabled (session_op (add, fd) g)" "slots (session_op (add, fd) g) = slots g"
    using en by (simp_all add: session_op_def session_add_def session_remove_def)
  ultimately show ?thesis
    using session_add_live [OF inv, of fd] session_remove_live [OF inv, of fd] en
    by (auto simp: session_op_def)
qed

text \<open>
  The live counter is right: after any sequence of session_add and session_remove calls on a
  fresh tick state the bitmap holds exactly the slots below the arena's size that were added and not removed
  since, and live_n is their number.
\<close>

theorem live_sessions_counted:
  fixes ops :: "(bool \<times> nat) list" and max_conns :: nat and now :: int
  assumes "0 < hz" "64 \<le> width" "width mod 64 = 0"
  defines "g \<equiv> foldr session_op ops (snd (tick_init hz width max_conns now))"
  shows "live_set g = live_spec ((max_conns + 64) mod 2 ^ 64) ops \<and> live_n g = card (live_spec ((max_conns + 64) mod 2 ^ 64) ops)"
proof -
  have "tick_inv g \<and> live_set g = live_spec ((max_conns + 64) mod 2 ^ 64) ops \<and> enabled g \<and> slots g = (max_conns + 64) mod 2 ^ 64"
    unfolding g_def
  proof (induction ops)
    case Nil
    show ?case using assms(1-3) by (simp add: tick_init_def Let_def live_set_def is_live_def tick_inv_def)
  next
    case (Cons x ops)
    let ?g = "foldr session_op ops (snd (tick_init hz width max_conns now))"
    obtain add fd where x: "x = (add, fd)" by (cases x)
    show ?case using session_op_live [of ?g add fd] Cons by (simp add: x)
  qed
  then show ?thesis by (simp add: tick_inv_def)
qed

theorem live_sessions_counted_witness:
  "live_n (foldr session_op [(False, 5), (True, 7), (True, 5)] (snd (tick_init 30 64 100 0))) = 1"
  using live_sessions_counted [of 30 64 "[(False, 5), (True, 7), (True, 5)]" 100 0] by simp

text \<open>
  The histogram reports true percentiles: for fewer than 2^32 samples and any rank between 1 and
  their number, pct returns the lower edge of the bucket of the sample with that rank in sorted order, and
  reports "beyond range" exactly when that sample lies in the overflow.
\<close>

theorem hist_pct_is_rank:
  assumes "length xs < 2 ^ 32" "0 < want" "want \<le> length xs"
  defines "q \<equiv> bucket_of (sort xs ! (want - 1))"
  shows "hist_pct (of_nat want) (fold hist_add xs hist_init) =
    (if q < buckets then (int q * bucket_ns, False) else (int buckets * bucket_ns, True))"
proof -
  let ?h = "fold hist_add xs hist_init"
  let ?c = "counts ?h"
  have i: "want - 1 < length xs" using assms(2,3) by simp
  note rank = rank_split [OF i mono_bucket_of, folded q_def]
  have u: "unat (of_nat want :: u64) = want" using assms(1,3) by (intro unat_of_nat_usize) simp
  have cum: "cum ?c k = length (filter (\<lambda>x. bucket_of x < k) xs)" if "k \<le> buckets" for k
    by (rule hist_cum [OF assms(1) that])
  have "cum ?c (0 + buckets) \<le> length xs"
    unfolding add_0 cum [OF order_refl] by (rule length_filter_le)
  then have "cum ?c (0 + buckets) < 2 ^ 64" using assms(1) by simp
  note scan = pct_scan_spec [OF this, of 0 "of_nat want", unfolded u]
  have t: "total ?h \<noteq> 0"
  proof
    assume "total ?h = 0"
    then have "unat (of_nat (length xs) :: u64) = 0" using hist_fold [of xs] by simp
    then show False using assms(1) i by simp
  qed
  show ?thesis
  proof (cases "pct_scan ?c (of_nat want) buckets 0 0")
    case None
    have "\<not> q < buckets"
    proof
      assume q: "q < buckets"
      then have "cum ?c (Suc q) < want" using scan None by (simp add: cum_def)
      then show False using rank(1) cum [of "Suc q"] q by simp
    qed
    then show ?thesis using None t by (simp add: hist_pct_def)
  next
    case (Some r)
    then have r: "r < buckets" "want \<le> cum ?c (Suc r)" "\<forall>p < r. cum ?c (Suc p) < want"
      using scan by (simp_all add: cum_def)
    have "q \<le> r"
    proof (rule ccontr)
      assume "\<not> q \<le> r"
      then have "cum ?c (Suc r) \<le> want - 1" using rank(2) [of "Suc r"] cum [of "Suc r"] r(1) by simp
      then show False using r(2) assms(2) by simp
    qed
    moreover have "r \<le> q"
    proof (rule ccontr)
      assume "\<not> r \<le> q"
      then have "cum ?c (Suc q) < want" using r(3) by simp
      then show False using rank(1) cum [of "Suc q"] \<open>\<not> r \<le> q\<close> r(1) by simp
    qed
    ultimately have "q = r" by simp
    then show ?thesis using Some t r(1) by (simp add: hist_pct_def)
  qed
qed

theorem hist_pct_is_rank_witness:
  "hist_pct 2 (fold hist_add [5000, 700, 3100] hist_init) = (3000, False)"
  using hist_pct_is_rank [of "[5000, 700, 3100]" 2]
  by (simp add: bucket_of_def bucket_ns_def buckets_def)

text \<open>
  Ticks do not pile up: whenever a tick runs, the next deadline is at least the moment the tick
  ended, an overrun is counted exactly when the tick ended later than one period past its deadline, and
  then the deadline is one full period after the end.
\<close>

theorem tick_deadline_resets:
  fixes t1 :: int
  assumes "tick_due t0 g" "0 < period g"
  defines "g' \<equiv> maybe_tick t0 t1 g"
  shows "t1 \<le> deadline g' \<and> ticks g' = ticks g + 1
    \<and> (if deadline g + period g < t1 then overruns g' = overruns g + 1 \<and> deadline g' = t1 + period g
        else overruns g' = overruns g \<and> deadline g' = deadline g + period g)"
proof -
  have "ticks (fold touch_block ss x) = ticks x \<and> overruns (fold touch_block ss x) = overruns x
      \<and> deadline (fold touch_block ss x) = deadline x \<and> period (fold touch_block ss x) = period x" for ss x
    by (induction ss arbitrary: x) (simp_all add: touch_block_def Let_def case_prod_unfold)
  then have "ticks (run_tick g) = ticks g" "overruns (run_tick g) = overruns g"
    "deadline (run_tick g) = deadline g" "period (run_tick g) = period g"
    by (simp_all add: run_tick_def)
  then show ?thesis using assms(1,2) by (simp add: g'_def maybe_tick_def tick_book_def Let_def)
qed

theorem tick_deadline_resets_witness:
  "5 \<le> deadline (maybe_tick 4 5 (demo_tick\<lparr>deadline := 3, period := 10\<rparr>))"
  using tick_deadline_resets [of 4 "demo_tick\<lparr>deadline := 3, period := 10\<rparr>" 5]
  by (simp add: tick_due_def demo_tick_def session_add_def tick_init_def Let_def)

end
