(* ===== verification/EpollServer.thy ===== *)
theory EpollServer
  imports TickLogic
begin

text \<open>
  \<^verbatim>\<open>src/server-epoll/server.cpp\<close>: the single-threaded chat server. The global tables are one record, and
  every function of the source is a function on it that takes the file descriptor instead of a
  reference to the connection. What the kernel will answer is part of the record, as one script per
  descriptor for \<^verbatim>\<open>send\<close> and \<^verbatim>\<open>recv\<close> and one for \<^verbatim>\<open>accept4\<close>; an exhausted script answers
  \<^verbatim>\<open>EAGAIN\<close>. \<open>wire\<close> collects the bytes the kernel has taken. Text output is left out. The order in which
  the hash containers are walked is a parameter of the configuration.
\<close>

section \<open>Protocol\<close>

type_synonym bytes = "byte list"

definition c_set_nick :: u16 where "c_set_nick = 1"
definition c_join :: u16 where "c_join = 2"
definition c_chat :: u16 where "c_chat = 3"
definition s_notice :: u16 where "s_notice = 100"
definition s_chat :: u16 where "s_chat = 101"
definition s_tick :: u16 where "s_tick = 102"

definition k_header_size :: nat where "k_header_size = 4"
definition k_max_payload :: nat where "k_max_payload = 1024"
definition k_send_cap :: nat where "k_send_cap = 256 * 1024"
definition k_tick_cap :: nat where "k_tick_cap = 32 * 1024"

text \<open>The header as it lies in memory, two little-endian 16-bit fields.\<close>

definition wire_header :: "nat \<Rightarrow> u16 \<Rightarrow> bytes" where
  "wire_header len type = le_bytes (of_nat len :: u16) @ le_bytes type"

definition header_len :: "bytes \<Rightarrow> nat" where
  "header_len bs = unat (le_word (take 2 bs) :: u16)"

definition header_type :: "bytes \<Rightarrow> u16" where
  "header_type bs = le_word (take 2 (drop 2 bs))"

text \<open>The notices, as ASCII.\<close>

definition ascii :: "string \<Rightarrow> bytes" where
  "ascii s = map of_char s"

section \<open>State\<close>

record conn =
  nick :: bytes
  room :: bytes
  inb :: bytes
  outb :: bytes
  armed_write :: bool
  closing :: bool
  dirty :: bool

definition conn_init :: conn where
  "conn_init = \<lparr>nick = [], room = [], inb = [], outb = [], armed_write = False, closing = False, dirty = False\<rparr>"

datatype send_res = Sent nat | S_EINTR | S_EAGAIN | S_error
datatype recv_res = Got bytes | R_EINTR | R_EAGAIN | R_error
datatype accept_res = Accepted nat | A_EAGAIN | A_EINTR | A_ECONNABORTED | A_EMFILE bool | A_error

text \<open>\<open>mod_ok\<close> and \<open>add_ok\<close> say whether \<^verbatim>\<open>epoll_ctl\<close> succeeds on a descriptor; \<open>place_fd\<close> and \<open>place_buf\<close> put a
  new element into a hash container's walk order.\<close>

record server_cfg =
  batch_flush :: bool
  coalesce :: bool
  max_conns :: nat
  mod_ok :: "nat \<Rightarrow> bool"
  add_ok :: "nat \<Rightarrow> bool"
  place_fd :: "nat \<Rightarrow> nat list \<Rightarrow> nat list"
  place_buf :: "bytes \<times> bytes \<Rightarrow> (bytes \<times> bytes) list \<Rightarrow> (bytes \<times> bytes) list"

record world =
  conns :: "nat \<rightharpoonup> conn"
  n_conns :: nat
  rooms :: "bytes \<rightharpoonup> nat list"
  doomed :: "nat list"
  dirty_q :: "nat list"
  tick_buf :: "(bytes \<times> bytes) list"
  tick_frames :: u64
  tick_dropped :: u64
  tk :: tick_state
  sends :: "nat \<Rightarrow> send_res list"
  recvs :: "nat \<Rightarrow> recv_res list"
  accepts :: "accept_res list"
  wire :: "nat \<Rightarrow> bytes"
  reserve :: bool

definition upd :: "nat \<Rightarrow> (conn \<Rightarrow> conn) \<Rightarrow> world \<Rightarrow> world" where
  "upd fd f w = w\<lparr>conns := (conns w)(fd := map_option f (conns w fd))\<rparr>"

section \<open>Sending\<close>

definition update_epoll_mask :: "server_cfg \<Rightarrow> nat \<Rightarrow> world \<Rightarrow> world" where
  "update_epoll_mask cfg fd w = (case conns w fd of None \<Rightarrow> w | Some c \<Rightarrow>
     let want_write = (outb c \<noteq> []) in
     if want_write = armed_write c then w
     else if \<not> mod_ok cfg fd then w
     else upd fd (\<lambda>c. c\<lparr>armed_write := want_write\<rparr>) w)"

definition doom :: "nat \<Rightarrow> world \<Rightarrow> world" where
  "doom fd w = (case conns w fd of None \<Rightarrow> w | Some c \<Rightarrow>
     if closing c then w
     else (upd fd (\<lambda>c. c\<lparr>closing := True\<rparr>) w)\<lparr>doomed := doomed w @ [fd]\<rparr>)"

definition queue_send :: "nat \<Rightarrow> u16 \<Rightarrow> bytes \<Rightarrow> world \<Rightarrow> world" where
  "queue_send fd type payload w = (case conns w fd of None \<Rightarrow> w | Some c \<Rightarrow>
     if closing c then w
     else if k_max_payload < length payload then w
     else if k_send_cap < length (outb c) + k_header_size + length payload then doom fd w
     else upd fd (\<lambda>c. c\<lparr>outb := outb c @ wire_header (length payload) type @ payload\<rparr>) w)"

definition queue_tick_frame :: "nat \<Rightarrow> bytes \<Rightarrow> world \<Rightarrow> world" where
  "queue_tick_frame fd payload w = (case conns w fd of None \<Rightarrow> w | Some c \<Rightarrow>
     if closing c then w
     else if k_send_cap < length (outb c) + k_header_size + length payload then doom fd w
     else upd fd (\<lambda>c. c\<lparr>outb := outb c @ wire_header (length payload) s_tick @ payload\<rparr>) w)"

text \<open>The loop of \<^verbatim>\<open>flush_send\<close>: what is left of the script, the bytes taken, the bytes left, and whether
  the socket failed. A return of 0 on a nonempty buffer is neither progress nor \<^verbatim>\<open>EAGAIN\<close>, so it fails.\<close>

fun send_loop :: "send_res list \<Rightarrow> bytes \<Rightarrow> send_res list \<times> bytes \<times> bytes \<times> bool" where
  "send_loop script [] = (script, [], [], False)"
| "send_loop [] (b # out) = ([], [], b # out, False)"
| "send_loop (Sent n # script) (b # out) =
     (if n = 0 then (script, [], b # out, True)
      else let (script', took, left, failed) = send_loop script (drop n (b # out)) in
        (script', take n (b # out) @ took, left, failed))"
| "send_loop (S_EINTR # script) (b # out) = send_loop script (b # out)"
| "send_loop (S_EAGAIN # script) (b # out) = (script, [], b # out, False)"
| "send_loop (S_error # script) (b # out) = (script, [], b # out, True)"

definition flush_send :: "server_cfg \<Rightarrow> nat \<Rightarrow> world \<Rightarrow> world" where
  "flush_send cfg fd w = (case conns w fd of None \<Rightarrow> w | Some c \<Rightarrow>
     let (script, took, left, failed) = send_loop (sends w fd) (outb c);
         w = (upd fd (\<lambda>c. c\<lparr>outb := left\<rparr>) w)\<lparr>sends := (sends w)(fd := script), wire := (wire w)(fd := wire w fd @ took)\<rparr> in
     if failed then doom fd w else update_epoll_mask cfg fd w)"

definition mark_dirty :: "nat \<Rightarrow> world \<Rightarrow> world" where
  "mark_dirty fd w = (case conns w fd of None \<Rightarrow> w | Some c \<Rightarrow>
     if \<not> dirty c \<and> outb c \<noteq> [] then (upd fd (\<lambda>c. c\<lparr>dirty := True\<rparr>) w)\<lparr>dirty_q := dirty_q w @ [fd]\<rparr> else w)"

text \<open>The tail shared by \<^verbatim>\<open>broadcast\<close>, \<^verbatim>\<open>flush_tick_rooms\<close> and \<^verbatim>\<open>on_readable\<close>.\<close>

definition flush_or_mark :: "server_cfg \<Rightarrow> nat \<Rightarrow> world \<Rightarrow> world" where
  "flush_or_mark cfg fd w = (if \<not> batch_flush cfg then flush_send cfg fd w else mark_dirty fd w)"

definition alive :: "world \<Rightarrow> nat \<Rightarrow> bool" where
  "alive w fd = (case conns w fd of None \<Rightarrow> False | Some c \<Rightarrow> \<not> closing c)"

definition deliver :: "server_cfg \<Rightarrow> u16 \<Rightarrow> bytes \<Rightarrow> nat option \<Rightarrow> nat \<Rightarrow> world \<Rightarrow> world" where
  "deliver cfg type payload except fd w =
     (if except = Some fd then w else if \<not> alive w fd then w
      else flush_or_mark cfg fd (queue_send fd type payload w))"

definition broadcast :: "server_cfg \<Rightarrow> bytes \<Rightarrow> u16 \<Rightarrow> bytes \<Rightarrow> nat option \<Rightarrow> world \<Rightarrow> world" where
  "broadcast cfg r type payload except w = (case rooms w r of None \<Rightarrow> w
     | Some ms \<Rightarrow> fold (deliver cfg type payload except) ms w)"

definition drop_member :: "server_cfg \<Rightarrow> nat \<Rightarrow> bytes \<Rightarrow> world \<Rightarrow> world" where
  "drop_member cfg fd r w = (case rooms w r of None \<Rightarrow> w | Some ms \<Rightarrow>
     let ms' = removeAll fd ms in
     if ms' = [] then (let w = w\<lparr>rooms := (rooms w)(r := None)\<rparr> in
       if coalesce cfg then w\<lparr>tick_buf := filter (\<lambda>e. fst e \<noteq> r) (tick_buf w)\<rparr> else w)
     else w\<lparr>rooms := (rooms w)(r \<mapsto> ms')\<rparr>)"

definition leave_room :: "server_cfg \<Rightarrow> nat \<Rightarrow> world \<Rightarrow> world" where
  "leave_room cfg fd w = (case conns w fd of None \<Rightarrow> w | Some c \<Rightarrow>
     if room c = [] then w else upd fd (\<lambda>c. c\<lparr>room := []\<rparr>) (drop_member cfg fd (room c) w))"

definition tick_member :: "server_cfg \<Rightarrow> bytes \<Rightarrow> nat \<Rightarrow> world \<Rightarrow> world" where
  "tick_member cfg buf fd w = (if \<not> alive w fd then w
     else flush_or_mark cfg fd ((queue_tick_frame fd buf w)\<lparr>tick_frames := tick_frames w + 1\<rparr>))"

definition tick_room :: "server_cfg \<Rightarrow> bytes \<times> bytes \<Rightarrow> world \<Rightarrow> world" where
  "tick_room cfg e w = (if snd e = [] then w
     else case rooms w (fst e) of None \<Rightarrow> w | Some ms \<Rightarrow> fold (tick_member cfg (snd e)) ms w)"

definition flush_tick_rooms :: "server_cfg \<Rightarrow> world \<Rightarrow> world" where
  "flush_tick_rooms cfg w = (fold (tick_room cfg) (tick_buf w) w)
     \<lparr>tick_buf := map (\<lambda>e. (fst e, [])) (tick_buf w)\<rparr>"

section \<open>Packets\<close>

definition on_nick :: "nat \<Rightarrow> bytes \<Rightarrow> world \<Rightarrow> world" where
  "on_nick fd payload w = (let n = take 31 payload in
     queue_send fd s_notice (ascii ''nick set to '' @ n) (upd fd (\<lambda>c. c\<lparr>nick := n\<rparr>) w))"

definition enter_room :: "server_cfg \<Rightarrow> nat \<Rightarrow> bytes \<Rightarrow> world \<Rightarrow> world" where
  "enter_room cfg fd r w = (upd fd (\<lambda>c. c\<lparr>room := r\<rparr>) w)
     \<lparr>rooms := (rooms w)(r \<mapsto> (case rooms w r of None \<Rightarrow> [fd]
        | Some ms \<Rightarrow> if fd \<in> set ms then ms else place_fd cfg fd ms))\<rparr>"

definition on_join :: "server_cfg \<Rightarrow> nat \<Rightarrow> bytes \<Rightarrow> world \<Rightarrow> world" where
  "on_join cfg fd payload w = (case conns w fd of None \<Rightarrow> w | Some c \<Rightarrow>
     let joined = take 63 payload in
     if nick c = [] then queue_send fd s_notice (ascii ''set a nickname first'') w
     else if joined = [] then queue_send fd s_notice (ascii ''room name required'') w
     else (let w = (if room c \<noteq> []
                    then leave_room cfg fd (broadcast cfg (room c) s_notice (nick c @ ascii '' left'') (Some fd) w) else w);
               w = enter_room cfg fd joined w;
               w = queue_send fd s_notice (ascii ''joined '' @ joined) w in
           broadcast cfg joined s_notice (nick c @ ascii '' joined'') (Some fd) w))"

text \<open>\<^verbatim>\<open>g_tick_buf[room]\<close>: the room's buffer, created empty when absent; then the entry is appended or the
  input is dropped and counted.\<close>

definition touch_buf :: "server_cfg \<Rightarrow> bytes \<Rightarrow> (bytes \<times> bytes) list \<Rightarrow> (bytes \<times> bytes) list" where
  "touch_buf cfg r bufs = (if r \<in> fst ` set bufs then bufs else place_buf cfg (r, []) bufs)"

definition record_chat :: "server_cfg \<Rightarrow> bytes \<Rightarrow> bytes \<Rightarrow> world \<Rightarrow> world" where
  "record_chat cfg r line w =
     (let bufs = touch_buf cfg r (tick_buf w); buf = the (map_of bufs r) in
      if k_tick_cap < length buf + 2 + length line then w\<lparr>tick_buf := bufs, tick_dropped := tick_dropped w + 1\<rparr>
      else w\<lparr>tick_buf := map (\<lambda>e. if fst e = r
             then (r, snd e @ le_bytes (of_nat (length line) :: u16) @ line) else e) bufs\<rparr>)"

definition on_chat :: "server_cfg \<Rightarrow> nat \<Rightarrow> bytes \<Rightarrow> world \<Rightarrow> world" where
  "on_chat cfg fd payload w = (case conns w fd of None \<Rightarrow> w | Some c \<Rightarrow>
     if room c = [] then queue_send fd s_notice (ascii ''join a room first'') w
     else (let w = w\<lparr>tk := on_msg fd (tk w)\<rparr>; line = nick c @ ascii '': '' @ payload in
       if coalesce cfg then record_chat cfg (room c) line w
       else broadcast cfg (room c) s_chat line None w))"

definition handle_packet :: "server_cfg \<Rightarrow> nat \<Rightarrow> u16 \<Rightarrow> bytes \<Rightarrow> world \<Rightarrow> world" where
  "handle_packet cfg fd type payload w =
     (if type = c_set_nick then on_nick fd payload w
      else if type = c_join then on_join cfg fd payload w
      else if type = c_chat then on_chat cfg fd payload w
      else doom fd w)"

section \<open>What the sending functions leave alone\<close>

definition core :: "conn \<Rightarrow> bytes \<times> bytes \<times> bytes" where
  "core c = (nick c, room c, inb c)"

definition same_core :: "world \<Rightarrow> world \<Rightarrow> bool" where
  "same_core w w' \<longleftrightarrow> rooms w' = rooms w \<and> tick_buf w' = tick_buf w \<and> recvs w' = recvs w \<and> accepts w' = accepts w
     \<and> n_conns w' = n_conns w \<and> tk w' = tk w \<and> tick_dropped w' = tick_dropped w
     \<and> (\<forall>x. map_option core (conns w' x) = map_option core (conns w x))"

lemma same_core_refl [simp]: "same_core w w"
  by (simp add: same_core_def)

lemma same_core_trans: "same_core a b \<Longrightarrow> same_core b c \<Longrightarrow> same_core a c"
  by (simp add: same_core_def)

lemma upd_fields [simp]:
  "rooms (upd fd f w) = rooms w" "tick_buf (upd fd f w) = tick_buf w" "recvs (upd fd f w) = recvs w"
  "accepts (upd fd f w) = accepts w" "n_conns (upd fd f w) = n_conns w" "tk (upd fd f w) = tk w"
  "doomed (upd fd f w) = doomed w" "dirty_q (upd fd f w) = dirty_q w" "sends (upd fd f w) = sends w"
  "wire (upd fd f w) = wire w" "tick_dropped (upd fd f w) = tick_dropped w"
  "tick_frames (upd fd f w) = tick_frames w" "reserve (upd fd f w) = reserve w"
  "conns (upd fd f w) x = (if x = fd then map_option f (conns w fd) else conns w x)"
  by (simp_all add: upd_def)

lemma same_core_upd: "(\<And>c. core (f c) = core c) \<Longrightarrow> same_core w (upd fd f w)"
  by (auto simp: same_core_def option.map_comp comp_def)

lemma same_core_doom [simp]: "same_core w (doom fd w)"
  by (auto simp: doom_def same_core_def core_def option.map_comp comp_def split: option.splits)

lemma same_core_mask [simp]: "same_core w (update_epoll_mask cfg fd w)"
  by (auto simp: update_epoll_mask_def Let_def core_def intro!: same_core_upd split: option.splits)

lemma same_core_queue [simp]: "same_core w (queue_send fd t p w)" "same_core w (queue_tick_frame fd p w)"
  by (auto simp: queue_send_def queue_tick_frame_def core_def intro!: same_core_upd split: option.splits)

lemma same_core_mark [simp]: "same_core w (mark_dirty fd w)"
  by (auto simp: mark_dirty_def same_core_def core_def option.map_comp comp_def split: option.splits)

lemma same_core_flush [simp]: "same_core w (flush_send cfg fd w)"
proof (cases "conns w fd")
  case None
  then show ?thesis by (simp add: flush_send_def)
next
  case (Some c)
  obtain script took left failed where l: "send_loop (sends w fd) (outb c) = (script, took, left, failed)"
    by (metis prod_cases4)
  let ?w = "(upd fd (\<lambda>c. c\<lparr>outb := left\<rparr>) w)\<lparr>sends := (sends w)(fd := script), wire := (wire w)(fd := wire w fd @ took)\<rparr>"
  have "core \<circ> (\<lambda>c. c\<lparr>outb := left\<rparr>) = core" by (auto simp: core_def)
  then have base: "same_core w ?w" by (simp add: same_core_def option.map_comp)
  have "flush_send cfg fd w = (if failed then doom fd ?w else update_epoll_mask cfg fd ?w)"
    using Some l by (simp add: flush_send_def Let_def)
  then show ?thesis
    using same_core_trans [OF base same_core_doom [of ?w fd]] same_core_trans [OF base same_core_mask [of ?w cfg fd]]
    by (cases failed) (simp_all only: if_True if_False)
qed

lemma same_core_flush_or_mark [simp]: "same_core w (flush_or_mark cfg fd w)"
  by (simp add: flush_or_mark_def)

lemma same_core_deliver [simp]: "same_core w (deliver cfg t p e fd w)"
  using same_core_trans [OF same_core_queue(1) same_core_flush_or_mark] by (simp add: deliver_def)

lemma same_core_fold: "(\<And>x w. same_core w (f x w)) \<Longrightarrow> same_core w (fold f xs w)"
proof (induction xs arbitrary: w)
  case (Cons x xs)
  then show ?case using same_core_trans by fastforce
qed simp

lemma same_core_broadcast [simp]: "same_core w (broadcast cfg r t p e w)"
  by (auto simp: broadcast_def intro: same_core_fold split: option.splits)

lemma same_core_conn:
  "same_core w w' \<Longrightarrow> conns w fd = Some c \<Longrightarrow> \<exists>c'. conns w' fd = Some c' \<and> core c' = core c"
  unfolding same_core_def by (metis map_option_eq_Some)

section \<open>The input buffer\<close>

definition same_in :: "world \<Rightarrow> world \<Rightarrow> bool" where
  "same_in w w' \<longleftrightarrow> (\<forall>x. map_option inb (conns w' x) = map_option inb (conns w x)) \<and> recvs w' = recvs w
     \<and> accepts w' = accepts w \<and> n_conns w' = n_conns w"

lemma same_in_trans: "same_in a b \<Longrightarrow> same_in b c \<Longrightarrow> same_in a c"
  by (simp add: same_in_def)

lemma same_core_in: "same_core w w' \<Longrightarrow> same_in w w'"
proof -
  assume s: "same_core w w'"
  have "map_option inb (conns w' x) = map_option inb (conns w x)" for x
  proof -
    have "map_option core (conns w' x) = map_option core (conns w x)" using s by (simp add: same_core_def)
    then show ?thesis by (cases "conns w' x"; cases "conns w x") (auto simp: core_def)
  qed
  then show ?thesis using s by (simp add: same_in_def same_core_def)
qed

lemma same_in_upd: "(\<And>c. inb (f c) = inb c) \<Longrightarrow> same_in w (upd fd f w)"
  by (auto simp: same_in_def option.map_comp comp_def)

lemma drop_member_fields [simp]:
  "conns (drop_member cfg fd r w) = conns w" "recvs (drop_member cfg fd r w) = recvs w"
  "accepts (drop_member cfg fd r w) = accepts w" "n_conns (drop_member cfg fd r w) = n_conns w"
  "doomed (drop_member cfg fd r w) = doomed w" "dirty_q (drop_member cfg fd r w) = dirty_q w"
  "sends (drop_member cfg fd r w) = sends w" "wire (drop_member cfg fd r w) = wire w" "tk (drop_member cfg fd r w) = tk w"
  by (simp_all add: drop_member_def Let_def split: option.split)

lemma same_in_leave [simp]: "same_in w (leave_room cfg fd w)"
  by (auto simp: leave_room_def same_in_def option.map_comp comp_def split: option.splits)

lemma same_in_enter [simp]: "same_in w (enter_room cfg fd r w)"
  by (auto simp: enter_room_def same_in_def option.map_comp comp_def)

lemma same_in_nick [simp]: "same_in w (on_nick fd p w)"
  unfolding on_nick_def Let_def
  using same_in_trans [OF same_in_upd same_core_in [OF same_core_queue(1)]] by simp

lemma same_in_join [simp]: "same_in w (on_join cfg fd p w)"
proof (cases "conns w fd")
  case None
  then show ?thesis by (simp add: on_join_def same_in_def)
next
  case (Some c)
  let ?w1 = "if room c \<noteq> [] then leave_room cfg fd
      (broadcast cfg (room c) s_notice (nick c @ ascii '' left'') (Some fd) w) else w"
  have "same_in w ?w1"
    using same_in_trans [OF same_core_in [OF same_core_broadcast] same_in_leave] by (simp add: same_in_def)
  then have "same_in w (broadcast cfg r t p' e (queue_send fd s_notice q (enter_room cfg fd r' ?w1)))" for r t p' e q r'
    by (rule same_in_trans [OF same_in_trans [OF same_in_trans [OF _ same_in_enter]
        same_core_in [OF same_core_queue(1)]] same_core_in [OF same_core_broadcast]])
  then show ?thesis
    using Some by (auto simp: on_join_def Let_def intro: same_core_in)
qed

lemma same_in_chat [simp]: "same_in w (on_chat cfg fd p w)"
proof (cases "conns w fd")
  case None
  then show ?thesis by (simp add: on_chat_def same_in_def)
next
  case (Some c)
  have tk: "same_in w (w\<lparr>tk := g\<rparr>)" for g by (simp add: same_in_def)
  then have "same_in w (broadcast cfg r t q e (w\<lparr>tk := g\<rparr>))" for r t q e g
    using same_in_trans [OF _ same_core_in [OF same_core_broadcast]] by blast
  moreover have "same_in w (record_chat cfg r l (w\<lparr>tk := g\<rparr>))" for r l g
    by (simp add: same_in_def record_chat_def Let_def)
  ultimately show ?thesis using Some by (auto simp: on_chat_def Let_def same_core_in)
qed

lemma same_in_packet [simp]: "same_in w (handle_packet cfg fd t p w)"
  by (simp add: handle_packet_def same_core_in)

lemma same_in_inb: "same_in w w' \<Longrightarrow> map_option inb (conns w' fd) = map_option inb (conns w fd)"
  by (simp add: same_in_def)

section \<open>Framing\<close>

definition in_of :: "nat \<Rightarrow> world \<Rightarrow> bytes" where
  "in_of fd w = (case conns w fd of None \<Rightarrow> [] | Some c \<Rightarrow> inb c)"

definition erase_in :: "nat \<Rightarrow> nat \<Rightarrow> world \<Rightarrow> world" where
  "erase_in fd n w = upd fd (\<lambda>c. c\<lparr>inb := drop n (inb c)\<rparr>) w"

lemma in_of_erase [simp]: "in_of fd (erase_in fd n w) = drop n (in_of fd w)"
  by (simp add: in_of_def erase_in_def split: option.splits)

lemma in_of_packet [simp]: "in_of fd (handle_packet cfg x t p w) = in_of fd w"
  using same_in_inb [OF same_in_packet [of w cfg x t p], of fd]
  by (auto simp: in_of_def split: option.splits)

function parse_frames :: "server_cfg \<Rightarrow> nat \<Rightarrow> world \<Rightarrow> world" where
  "parse_frames cfg fd w =
     (if alive w fd \<and> k_header_size \<le> length (in_of fd w) then
        let len = header_len (in_of fd w); type = header_type (in_of fd w) in
        if k_max_payload < len then doom fd w
        else if length (in_of fd w) < k_header_size + len then w
        else parse_frames cfg fd (erase_in fd (k_header_size + len)
               (handle_packet cfg fd type (take len (drop k_header_size (in_of fd w))) w))
      else w)"
  by pat_completeness auto
termination by (relation "measure (\<lambda>(cfg, fd, w). length (in_of fd w))") (auto simp: k_header_size_def)

declare parse_frames.simps [simp del]


lemma recvs_packet [simp]: "recvs (handle_packet cfg x t p w) = recvs w"
  using same_in_packet [of w cfg x t p] by (simp add: same_in_def)

lemma recvs_doom [simp]: "recvs (doom fd w) = recvs w"
  using same_core_doom [of w fd] by (simp add: same_core_def)

lemma recvs_parse [simp]: "recvs (parse_frames cfg fd w) = recvs w"
proof (induction cfg fd w rule: parse_frames.induct)
  case (1 cfg fd w)
  then show ?case by (subst parse_frames.simps) (simp add: Let_def erase_in_def)
qed

section \<open>Reading\<close>

text \<open>One answer of \<^verbatim>\<open>recv\<close> holds at most the 64 KiB the call has room for; what the script offers beyond
  that stays in the socket. An empty answer is the peer's orderly shutdown.\<close>

definition k_recv_buf :: nat where "k_recv_buf = 65536"

definition recv_rest :: "bytes \<Rightarrow> recv_res list \<Rightarrow> recv_res list" where
  "recv_rest bs script = (if length bs \<le> k_recv_buf then script else Got (drop k_recv_buf bs) # script)"

definition set_recvs :: "nat \<Rightarrow> recv_res list \<Rightarrow> world \<Rightarrow> world" where
  "set_recvs fd script w = w\<lparr>recvs := (recvs w)(fd := script)\<rparr>"

definition append_in :: "nat \<Rightarrow> bytes \<Rightarrow> world \<Rightarrow> world" where
  "append_in fd bs w = upd fd (\<lambda>c. c\<lparr>inb := inb c @ bs\<rparr>) w"

fun recv_weight :: "recv_res \<Rightarrow> nat" where
  "recv_weight (Got bs) = Suc (length bs)"
| "recv_weight _ = 1"

lemma recv_rest_weight:
  "bs \<noteq> [] \<Longrightarrow> sum_list (map recv_weight (recv_rest bs script)) < Suc (length bs + sum_list (map recv_weight script))"
  by (auto simp: recv_rest_def k_recv_buf_def)

function on_readable :: "server_cfg \<Rightarrow> nat \<Rightarrow> world \<Rightarrow> world" where
  "on_readable cfg fd w = (case recvs w fd of
     [] \<Rightarrow> flush_or_mark cfg fd w
   | R_EAGAIN # script \<Rightarrow> flush_or_mark cfg fd (set_recvs fd script w)
   | R_EINTR # script \<Rightarrow> on_readable cfg fd (set_recvs fd script w)
   | R_error # script \<Rightarrow> doom fd (set_recvs fd script w)
   | Got bs # script \<Rightarrow>
       if bs = [] then doom fd (set_recvs fd script w)
       else let got = take k_recv_buf bs; w = set_recvs fd (recv_rest bs script) w in
         if k_max_payload + k_header_size + k_recv_buf < length (in_of fd w) + length got then doom fd w
         else let w = parse_frames cfg fd (append_in fd got w) in
           if \<not> alive w fd then w else on_readable cfg fd w)"
  by pat_completeness auto
termination
  by (relation "measure (\<lambda>(cfg, fd, w). sum_list (map recv_weight (recvs w fd)))")
    (simp_all add: set_recvs_def append_in_def recv_rest_weight)

declare on_readable.simps [simp del]

section \<open>Flush pass, accept and reap\<close>

definition flush_one :: "server_cfg \<Rightarrow> nat \<Rightarrow> world \<Rightarrow> world" where
  "flush_one cfg fd w = (case conns w fd of None \<Rightarrow> w | Some c \<Rightarrow>
     let w = upd fd (\<lambda>c. c\<lparr>dirty := False\<rparr>) w in if closing c then w else flush_send cfg fd w)"

text \<open>\<^verbatim>\<open>flush_send\<close> never appends to \<^verbatim>\<open>g_dirty\<close>, so the index loop is a fold over the queue as it stands.\<close>

definition flush_dirty :: "server_cfg \<Rightarrow> world \<Rightarrow> world" where
  "flush_dirty cfg w = (fold (flush_one cfg) (dirty_q w) w)\<lparr>dirty_q := []\<rparr>"

text \<open>Out of descriptors, the reserve is given up, one more \<^verbatim>\<open>accept\<close> takes the pending connection and
  closes it, and the reserve is opened again, which may fail.\<close>

definition accept_one :: "server_cfg \<Rightarrow> nat \<Rightarrow> world \<Rightarrow> world" where
  "accept_one cfg fd w = (if max_conns cfg \<le> n_conns w then w
     else if \<not> add_ok cfg fd then w
     else (case conns w fd of
         None \<Rightarrow> w\<lparr>conns := (conns w)(fd \<mapsto> conn_init), n_conns := n_conns w + 1, tk := session_add fd (tk w)\<rparr>
       | Some _ \<Rightarrow> w\<lparr>tk := session_add fd (tk w)\<rparr>))"

fun accept_loop :: "server_cfg \<Rightarrow> accept_res list \<Rightarrow> world \<Rightarrow> accept_res list \<times> world" where
  "accept_loop cfg [] w = ([], w)"
| "accept_loop cfg (Accepted fd # script) w = accept_loop cfg script (accept_one cfg fd w)"
| "accept_loop cfg (A_EINTR # script) w = accept_loop cfg script w"
| "accept_loop cfg (A_ECONNABORTED # script) w = accept_loop cfg script w"
| "accept_loop cfg (A_EAGAIN # script) w = (script, w)"
| "accept_loop cfg (A_EMFILE reopened # script) w =
     (if reserve w then (tl script, w\<lparr>reserve := reopened\<rparr>) else (script, w))"
| "accept_loop cfg (A_error # script) w = (script, w)"

definition on_accept :: "server_cfg \<Rightarrow> world \<Rightarrow> world" where
  "on_accept cfg w = (let (script, w) = accept_loop cfg (accepts w) w in w\<lparr>accepts := script\<rparr>)"

text \<open>One turn of \<^verbatim>\<open>reap_doomed\<close>. Its notice may doom others, so the loop below re-reads the length.\<close>

definition reap_one :: "server_cfg \<Rightarrow> nat \<Rightarrow> world \<Rightarrow> world" where
  "reap_one cfg fd w = (case conns w fd of None \<Rightarrow> w | Some c \<Rightarrow>
     let w = (if room c \<noteq> [] \<and> nick c \<noteq> []
              then broadcast cfg (room c) s_notice (nick c @ ascii '' left'') (Some fd) (leave_room cfg fd w)
              else leave_room cfg fd w) in
     w\<lparr>conns := (conns w)(fd := None), n_conns := n_conns w - 1, tk := session_remove fd (tk w)\<rparr>)"

partial_function (option) reap_loop :: "server_cfg \<Rightarrow> nat \<Rightarrow> world \<Rightarrow> world option" where
  "reap_loop cfg i w = (if i < length (doomed w)
     then reap_loop cfg (Suc i) (reap_one cfg (doomed w ! i) w) else Some w)"

definition reap_doomed :: "server_cfg \<Rightarrow> world \<Rightarrow> world option" where
  "reap_doomed cfg w = map_option (\<lambda>w. w\<lparr>doomed := []\<rparr>) (reap_loop cfg 0 w)"

section \<open>The event loop\<close>

datatype source = Listener | Signal | Client nat

record event =
  src :: source
  ev_err :: bool
  ev_out :: bool
  ev_in :: bool

text \<open>What \<^verbatim>\<open>epoll_wait\<close> returns, and the six clock readings of one turn.\<close>

datatype wait_res = Events "event list" | W_EINTR | W_error

record clock =
  t_drain0 :: int
  t_drain1 :: int
  t_tick0 :: int
  t_tick1 :: int
  t_flush0 :: int
  t_flush1 :: int

definition client_event :: "server_cfg \<Rightarrow> nat \<Rightarrow> event \<Rightarrow> world \<Rightarrow> world" where
  "client_event cfg fd e w = (if \<not> alive w fd then w
     else if ev_err e then doom fd w
     else (let w = (if ev_out e then flush_send cfg fd w else w) in
       if alive w fd \<and> ev_in e then on_readable cfg fd w else w))"

definition handle_event :: "server_cfg \<Rightarrow> event \<Rightarrow> bool \<times> world \<Rightarrow> bool \<times> world" where
  "handle_event cfg e s = (case src e of
     Listener \<Rightarrow> (fst s, on_accept cfg (snd s))
   | Signal \<Rightarrow> (False, snd s)
   | Client fd \<Rightarrow> (fst s, client_event cfg fd e (snd s)))"

definition set_tk :: "(tick_state \<Rightarrow> tick_state) \<Rightarrow> world \<Rightarrow> world" where
  "set_tk f w = w\<lparr>tk := f (tk w)\<rparr>"

definition server_tick :: "server_cfg \<Rightarrow> clock \<Rightarrow> world \<Rightarrow> world" where
  "server_tick cfg t w = (if \<not> tick_due (t_tick0 t) (tk w) then w
     else (let w = set_tk run_tick w;
               w = (if coalesce cfg then flush_tick_rooms cfg w else w) in
           set_tk (tick_book (t_tick0 t) (t_tick1 t)) w))"

definition flush_phase :: "server_cfg \<Rightarrow> world \<Rightarrow> world option" where
  "flush_phase cfg w = (if batch_flush cfg
     then map_option (flush_dirty cfg) (reap_doomed cfg (flush_dirty cfg w)) else reap_doomed cfg w)"

text \<open>The body of the main loop: the first component says whether the loop goes on.\<close>

definition loop_turn :: "server_cfg \<Rightarrow> clock \<Rightarrow> wait_res \<Rightarrow> world \<Rightarrow> (bool \<times> world) option" where
  "loop_turn cfg t r w = (case r of
     W_EINTR \<Rightarrow> Some (True, w)
   | W_error \<Rightarrow> Some (False, w)
   | Events es \<Rightarrow>
       (let (running, w) = fold (handle_event cfg) es (True, set_tk (drain_begin (t_drain0 t)) w);
            w = set_tk (drain_end (t_drain1 t)) w;
            w = server_tick cfg t w;
            w = set_tk (flush_begin (t_flush0 t)) w in
        map_option (\<lambda>w. (running, set_tk (flush_end (t_flush1 t)) w)) (flush_phase cfg w)))"

definition world_init :: "tick_state \<Rightarrow> (nat \<Rightarrow> send_res list) \<Rightarrow> (nat \<Rightarrow> recv_res list) \<Rightarrow> accept_res list \<Rightarrow> world" where
  "world_init g ss rs acs = \<lparr>conns = Map.empty, n_conns = 0, rooms = Map.empty, doomed = [], dirty_q = [], tick_buf = [],
     tick_frames = 0, tick_dropped = 0, tk = g, sends = ss, recvs = rs, accepts = acs, wire = (\<lambda>_. []), reserve = True\<rparr>"

text \<open>The main loop over a list of waits; it returns when the list is used up, on a signal, or when the
  wait fails.\<close>

fun serve :: "server_cfg \<Rightarrow> (clock \<times> wait_res) list \<Rightarrow> world \<Rightarrow> world option" where
  "serve cfg [] w = Some w"
| "serve cfg ((t, r) # turns) w = (case loop_turn cfg t r w of None \<Rightarrow> None
     | Some (running, w) \<Rightarrow> if running then serve cfg turns w else Some w)"

declare reap_loop.simps [code]

end
