(* ===== verification/EpollFraming.thy ===== *)
theory EpollFraming
  imports EpollServer
begin

text \<open>
  Framing in the epoll server: no handler reads or writes a connection's input buffer, so a byte
  stream gives the same result however \<^verbatim>\<open>recv\<close> cuts it, and what is left over after parsing is less
  than one frame.
\<close>

section \<open>Handlers commute with arriving bytes\<close>

definition commutes :: "nat \<Rightarrow> bytes \<Rightarrow> (world \<Rightarrow> world) \<Rightarrow> bool" where
  "commutes x b f \<longleftrightarrow> (\<forall>w. f (append_in x b w) = append_in x b (f w))"

lemma commutesD: "commutes x b f \<Longrightarrow> f (append_in x b w) = append_in x b (f w)"
  by (simp add: commutes_def)

lemma append_in_fields [simp]:
  "rooms (append_in x b w) = rooms w" "tick_buf (append_in x b w) = tick_buf w" "recvs (append_in x b w) = recvs w"
  "accepts (append_in x b w) = accepts w" "n_conns (append_in x b w) = n_conns w" "tk (append_in x b w) = tk w"
  "doomed (append_in x b w) = doomed w" "dirty_q (append_in x b w) = dirty_q w" "sends (append_in x b w) = sends w"
  "wire (append_in x b w) = wire w" "tick_dropped (append_in x b w) = tick_dropped w"
  "tick_frames (append_in x b w) = tick_frames w"
  "conns (append_in x b w) fd = (if fd = x then map_option (\<lambda>c. c\<lparr>inb := inb c @ b\<rparr>) (conns w x) else conns w fd)"
  by (simp_all add: append_in_def)

definition arrive :: "nat \<Rightarrow> bytes \<Rightarrow> nat \<Rightarrow> conn \<Rightarrow> conn" where
  "arrive x b fd c = (if fd = x then c\<lparr>inb := inb c @ b\<rparr> else c)"

lemma arrive_fields [simp]:
  "nick (arrive x b fd c) = nick c" "room (arrive x b fd c) = room c" "outb (arrive x b fd c) = outb c"
  "armed_write (arrive x b fd c) = armed_write c" "closing (arrive x b fd c) = closing c"
  "dirty (arrive x b fd c) = dirty c"
  by (simp_all add: arrive_def)

lemma case_append_in:
  "(case conns (append_in x b w) fd of None \<Rightarrow> n | Some c \<Rightarrow> f c)
     = (case conns w fd of None \<Rightarrow> n | Some c \<Rightarrow> f (arrive x b fd c))"
  by (auto simp: arrive_def split: option.split)

lemma alive_append [simp]: "alive (append_in x b w) fd = alive w fd"
  by (simp add: alive_def split: option.splits)

lemma commutes_comp: "commutes x b f \<Longrightarrow> commutes x b g \<Longrightarrow> commutes x b (\<lambda>w. g (f w))"
  by (simp add: commutes_def)

lemma commutes_fold: "(\<And>y. commutes x b (f y)) \<Longrightarrow> commutes x b (fold f ys)"
proof (induction ys)
  case (Cons y ys)
  then show ?case by (simp add: commutes_def)
qed (simp add: commutes_def)

lemma commutes_upd:
  assumes "\<And>c. g (c\<lparr>inb := inb c @ b\<rparr>) = (g c)\<lparr>inb := inb (g c) @ b\<rparr>"
  shows "upd fd g (append_in x b w) = append_in x b (upd fd g w)"
  using assms by (auto simp: upd_def append_in_def fun_eq_iff option.map_comp comp_def intro!: world.equality)

lemma append_in_update:
  "(append_in x b w)\<lparr>doomed := d\<rparr> = append_in x b (w\<lparr>doomed := d\<rparr>)"
  "(append_in x b w)\<lparr>dirty_q := d\<rparr> = append_in x b (w\<lparr>dirty_q := d\<rparr>)"
  "(append_in x b w)\<lparr>rooms := rs\<rparr> = append_in x b (w\<lparr>rooms := rs\<rparr>)"
  "(append_in x b w)\<lparr>tick_buf := tb\<rparr> = append_in x b (w\<lparr>tick_buf := tb\<rparr>)"
  "(append_in x b w)\<lparr>tick_dropped := td\<rparr> = append_in x b (w\<lparr>tick_dropped := td\<rparr>)"
  "(append_in x b w)\<lparr>sends := ss\<rparr> = append_in x b (w\<lparr>sends := ss\<rparr>)"
  "(append_in x b w)\<lparr>wire := wi\<rparr> = append_in x b (w\<lparr>wire := wi\<rparr>)"
  "(append_in x b w)\<lparr>tk := g\<rparr> = append_in x b (w\<lparr>tk := g\<rparr>)"
  unfolding append_in_def upd_def by (cases w, simp)+

lemmas commute_simps = commutes_upd append_in_update case_append_in

lemma commutes_doom: "commutes x b (doom fd)"
  unfolding commutes_def doom_def
  by (simp add: commute_simps del: append_in_fields(13) split: option.split)

lemma commutes_mask: "commutes x b (update_epoll_mask cfg fd)"
  unfolding commutes_def update_epoll_mask_def Let_def
  by (simp add: commute_simps del: append_in_fields(13) split: option.split)

lemma commutes_queue: "commutes x b (queue_send fd t p)"
  unfolding commutes_def queue_send_def
  by (simp add: commute_simps commutesD [OF commutes_doom] del: append_in_fields(13) split: option.split)

lemma commutes_mark: "commutes x b (mark_dirty fd)"
  unfolding commutes_def mark_dirty_def
  by (simp add: commute_simps del: append_in_fields(13) split: option.split)

lemma commutes_flush: "commutes x b (flush_send cfg fd)"
  unfolding commutes_def flush_send_def Let_def
  by (simp add: commute_simps commutesD [OF commutes_doom] commutesD [OF commutes_mask] split_beta
      del: append_in_fields(13) split: option.split)

lemma commutes_flush_or_mark: "commutes x b (flush_or_mark cfg fd)"
  using commutes_flush commutes_mark unfolding flush_or_mark_def commutes_def by simp

lemma commutes_deliver: "commutes x b (deliver cfg t p e fd)"
  unfolding commutes_def deliver_def
  by (simp add: commutesD [OF commutes_queue] commutesD [OF commutes_flush_or_mark])

lemma commutes_broadcast: "commutes x b (broadcast cfg r t p e)"
  using commutes_fold [of x b "deliver cfg t p e", OF commutes_deliver]
  by (simp add: broadcast_def commutes_def split: option.splits)

lemma commutes_drop: "commutes x b (drop_member cfg fd r)"
  unfolding commutes_def
proof
  fix w
  show "drop_member cfg fd r (append_in x b w) = append_in x b (drop_member cfg fd r w)"
    by (cases "rooms w r"; cases "removeAll fd (the (rooms w r)) = []"; cases "coalesce cfg")
      (simp_all add: drop_member_def Let_def append_in_update)
qed

lemma commutes_leave: "commutes x b (leave_room cfg fd)"
  unfolding commutes_def leave_room_def
  by (simp add: commute_simps commutesD [OF commutes_drop] del: append_in_fields(13) split: option.split)

lemma commutes_enter: "commutes x b (enter_room cfg fd r)"
  unfolding commutes_def enter_room_def by (auto simp: commute_simps)

lemma commutes_record: "commutes x b (record_chat cfg r l)"
  unfolding commutes_def record_chat_def Let_def by (auto simp: commute_simps)

lemma commutes_packet: "commutes x b (handle_packet cfg fd t p)"
proof -
  note c = commutesD [OF commutes_queue] commutesD [OF commutes_broadcast] commutesD [OF commutes_leave]
    commutesD [OF commutes_enter] commutesD [OF commutes_record] commutesD [OF commutes_doom] commute_simps
  have "commutes x b (on_nick fd p)" unfolding commutes_def on_nick_def Let_def by (simp add: c)
  moreover have "commutes x b (on_join cfg fd p)"
    unfolding commutes_def on_join_def Let_def by (simp add: c del: append_in_fields(13) split: option.split)
  moreover have "commutes x b (on_chat cfg fd p)"
    unfolding commutes_def on_chat_def Let_def by (simp add: c del: append_in_fields(13) split: option.split)
  ultimately show ?thesis unfolding commutes_def handle_packet_def by (simp add: c)
qed


lemma commutes_erase:
  "n \<le> length (in_of fd w) \<Longrightarrow> erase_in fd n (append_in fd b w) = append_in fd b (erase_in fd n w)"
  by (cases "conns w fd")
    (auto simp: erase_in_def append_in_def upd_def in_of_def intro!: world.equality)

lemma alive_conn: "alive w fd \<Longrightarrow> \<exists>c. conns w fd = Some c \<and> \<not> closing c"
  by (auto simp: alive_def split: option.splits)

lemma in_of_append: "alive w fd \<Longrightarrow> in_of fd (append_in fd b w) = in_of fd w @ b"
  using alive_conn [of w fd] by (auto simp: in_of_def)

lemma header_append:
  "k_header_size \<le> length bs \<Longrightarrow> header_len (bs @ b) = header_len bs \<and> header_type (bs @ b) = header_type bs"
  by (simp add: header_len_def header_type_def k_header_size_def take_append drop_append)

section \<open>Chunking\<close>

text \<open>Bytes that arrive after parsing stopped can as well have been there from the start.\<close>

lemma parse_append:
  "parse_frames cfg fd (append_in fd b (parse_frames cfg fd w)) = parse_frames cfg fd (append_in fd b w)"
proof (induction cfg fd w rule: parse_frames.induct)
  case (1 cfg fd w)
  let ?in = "in_of fd w"
  show ?case
  proof (cases "alive w fd \<and> k_header_size \<le> length ?in")
    case False
    then show ?thesis by (subst (2) parse_frames.simps) auto
  next
    case True
    let ?len = "header_len ?in"
    have joined: "in_of fd (append_in fd b w) = ?in @ b" using True by (simp add: in_of_append)
    have hd: "header_len (?in @ b) = ?len" "header_type (?in @ b) = header_type ?in"
      using header_append True by auto
    consider (big) "k_max_payload < ?len" | (part) "?len \<le> k_max_payload" "length ?in < k_header_size + ?len"
      | (whole) "?len \<le> k_max_payload" "k_header_size + ?len \<le> length ?in" by linarith
    then show ?thesis
    proof cases
      case big
      have l: "parse_frames cfg fd w = doom fd w" using True big by (subst parse_frames.simps) simp
      have r: "parse_frames cfg fd (append_in fd b w) = append_in fd b (doom fd w)"
        using True big hd by (subst parse_frames.simps) (simp add: joined commutesD [OF commutes_doom])
      have "\<not> alive (doom fd w) fd" using True by (auto simp: alive_def doom_def split: option.splits)
      then have "parse_frames cfg fd (append_in fd b (doom fd w)) = append_in fd b (doom fd w)"
        by (subst parse_frames.simps) simp
      then show ?thesis using l r by simp
    next
      case part
      then have "parse_frames cfg fd w = w" using True by (subst parse_frames.simps) simp
      then show ?thesis by simp
    next
      case whole
      let ?w = "handle_packet cfg fd (header_type ?in) (take ?len (drop k_header_size ?in)) w"
      let ?e = "erase_in fd (k_header_size + ?len) ?w"
      have l: "parse_frames cfg fd w = parse_frames cfg fd ?e"
        using True whole by (subst parse_frames.simps) (simp add: Let_def)
      have "take ?len (drop k_header_size (?in @ b)) = take ?len (drop k_header_size ?in)" using whole by simp
      moreover have "erase_in fd (k_header_size + ?len) (append_in fd b ?w) = append_in fd b ?e"
        using whole by (intro commutes_erase) simp
      ultimately have r: "parse_frames cfg fd (append_in fd b w) = parse_frames cfg fd (append_in fd b ?e)"
        using True whole hd
        by (subst parse_frames.simps) (simp add: Let_def joined commutesD [OF commutes_packet])
      show ?thesis unfolding l r using 1 True whole by (simp add: Let_def)
    qed
  qed
qed

lemma append_in_append: "append_in fd c (append_in fd b w) = append_in fd (b @ c) w"
  by (auto simp: append_in_def upd_def option.map_comp comp_def intro!: world.equality)

text \<open>
  C14. The server's framing does not depend on how TCP cuts the stream: feeding the chunks one by one
  and parsing after each ends in the same server state (queues, rooms, sent bytes, closed connections)
  as parsing the whole stream at once, also when a frame in the middle dooms the connection.
\<close>
theorem framing_chunk_independent:
  "fold (\<lambda>b w. parse_frames cfg fd (append_in fd b w)) (b # bs) w = parse_frames cfg fd (append_in fd (concat (b # bs)) w)"
proof (induction bs arbitrary: b)
  case (Cons b' bs)
  have "fold (\<lambda>b w. parse_frames cfg fd (append_in fd b w)) (b # b' # bs) w
      = fold (\<lambda>b w. parse_frames cfg fd (append_in fd b w)) ((b @ b') # bs) w"
    by (simp add: parse_append append_in_append)
  then show ?case using Cons [of "b @ b'"] by simp
qed simp

section \<open>What is left over\<close>

definition incomplete :: "bytes \<Rightarrow> bool" where
  "incomplete bs \<longleftrightarrow> length bs < k_header_size
     \<or> (header_len bs \<le> k_max_payload \<and> length bs < k_header_size + header_len bs)"

lemma incomplete_short: "incomplete bs \<Longrightarrow> length bs < k_header_size + k_max_payload"
  by (auto simp: incomplete_def k_max_payload_def)

lemma parse_incomplete: "alive (parse_frames cfg fd w) fd \<Longrightarrow> incomplete (in_of fd (parse_frames cfg fd w))"
proof (induction cfg fd w rule: parse_frames.induct)
  case (1 cfg fd w)
  have d: "\<not> alive (doom fd w) fd" by (auto simp: alive_def doom_def split: option.splits)
  show ?case
    using 1 d by (subst parse_frames.simps, subst (asm) (3) parse_frames.simps)
      (auto simp: Let_def incomplete_def split: if_splits)
qed

end
