(* ===== verification/EpollSend.thy ===== *)
theory EpollSend
  imports EpollFraming
begin

text \<open>
  The send path of the epoll server: no bytes are lost between a connection's queue and the wire, a
  queue never passes the backpressure cap, and a connection with bytes waiting is armed for writing,
  queued for the flush pass, or the one whose event is being handled.
\<close>

section \<open>The per-connection invariant\<close>

text \<open>\<open>ex\<close>: descriptors whose handler has yet to flush; \<open>dm\<close>: descriptors the reaper will still visit; \<open>dq\<close>:
  descriptors the flush pass will still visit.\<close>

definition conn_ok :: "nat set \<Rightarrow> nat set \<Rightarrow> nat set \<Rightarrow> nat \<Rightarrow> conn \<Rightarrow> bool" where
  "conn_ok ex dm dq fd c \<longleftrightarrow> length (outb c) \<le> k_send_cap \<and> (closing c \<longrightarrow> fd \<in> dm) \<and> (dirty c \<longrightarrow> fd \<in> dq)
     \<and> (\<not> closing c \<longrightarrow> (armed_write c \<longrightarrow> outb c \<noteq> []) \<and> (outb c \<noteq> [] \<longrightarrow> armed_write c \<or> dirty c \<or> fd \<in> ex))"

definition send_ok :: "nat \<Rightarrow> nat set \<Rightarrow> nat set \<Rightarrow> world \<Rightarrow> bool" where
  "send_ok i ex dq w \<longleftrightarrow> i \<le> length (doomed w)
     \<and> (\<forall>fd c. conns w fd = Some c \<longrightarrow> conn_ok ex (set (drop i (doomed w))) dq fd c)"

lemma send_okD: "send_ok i ex dq w \<Longrightarrow> conns w fd = Some c \<Longrightarrow> conn_ok ex (set (drop i (doomed w))) dq fd c"
  by (simp add: send_ok_def)

lemma conn_ok_mono:
  "conn_ok ex dm dq fd c \<Longrightarrow> dm \<subseteq> dm' \<Longrightarrow> fd \<in> ex \<longrightarrow> fd \<in> ex' \<Longrightarrow> fd \<in> dq \<longrightarrow> fd \<in> dq' \<Longrightarrow> conn_ok ex' dm' dq' fd c"
  by (auto simp: conn_ok_def)

lemma send_ok_mono: "send_ok i ex dq w \<Longrightarrow> ex \<subseteq> ex' \<Longrightarrow> dq \<subseteq> dq' \<Longrightarrow> send_ok i ex' dq' w"
  unfolding send_ok_def by (blast intro: conn_ok_mono)

lemma send_ok_cong:
  "send_ok i ex dq w \<Longrightarrow> conns w' = conns w \<Longrightarrow> doomed w' = doomed w \<Longrightarrow> send_ok i ex dq w'"
  by (simp add: send_ok_def)

lemma send_ok_upd:
  assumes "send_ok i ex dq w" "ex \<subseteq> insert fd ex'" "dq \<subseteq> insert fd dq'"
    and "\<And>c. conns w fd = Some c \<Longrightarrow> conn_ok ex' (set (drop i (doomed w))) dq' fd (f c)"
  shows "send_ok i ex' dq' (upd fd f w)"
  unfolding send_ok_def
proof (intro conjI allI impI)
  fix x c assume "conns (upd fd f w) x = Some c"
  then show "conn_ok ex' (set (drop i (doomed (upd fd f w)))) dq' x c"
    using assms(4) conn_ok_mono [OF send_okD [OF assms(1)] subset_refl, of x c ex' dq'] assms(2,3)
    by (cases "x = fd") auto
qed (use assms(1) in \<open>simp add: send_ok_def\<close>)

lemma conns_doom: "conns (doom fd w) x = (if x = fd then map_option (\<lambda>c. c\<lparr>closing := True\<rparr>) (conns w fd) else conns w x)"
  by (auto simp: doom_def split: option.splits)

lemma doomed_doom: "doomed (doom fd w) = (if alive w fd then doomed w @ [fd] else doomed w)"
  by (auto simp: doom_def alive_def split: option.splits)

lemma doom_fields [simp]:
  "dirty_q (doom fd w) = dirty_q w" "wire (doom fd w) = wire w" "sends (doom fd w) = sends w"
  by (auto simp: doom_def split: option.splits)

lemma send_ok_doom:
  assumes "send_ok i ex dq w" "ex \<subseteq> insert fd ex'"
  shows "send_ok i ex' dq (doom fd w)"
  unfolding send_ok_def
proof (intro conjI allI impI)
  have i: "i \<le> length (doomed w)" using assms(1) by (simp add: send_ok_def)
  then show "i \<le> length (doomed (doom fd w))" by (simp add: doomed_doom)
  have sub: "set (drop i (doomed w)) \<subseteq> set (drop i (doomed (doom fd w)))" using i by (auto simp: doomed_doom)
  fix x c assume c: "conns (doom fd w) x = Some c"
  show "conn_ok ex' (set (drop i (doomed (doom fd w)))) dq x c"
  proof (cases "x = fd")
    case True
    then obtain c0 where c0: "conns w fd = Some c0" "c = c0\<lparr>closing := True\<rparr>" using c by (auto simp: conns_doom)
    then have "fd \<in> set (drop i (doomed (doom fd w)))"
      using send_okD [OF assms(1) c0(1)] i by (auto simp: doomed_doom alive_def conn_ok_def)
    then show ?thesis using send_okD [OF assms(1) c0(1)] c0(2) True by (simp add: conn_ok_def)
  next
    case False
    then have "conns w x = Some c" using c by (simp add: conns_doom)
    then show ?thesis using conn_ok_mono [OF send_okD [OF assms(1)] sub, of x c ex' dq] False assms(2) by auto
  qed
qed

section \<open>Queueing\<close>

lemma wire_header_length [simp]: "length (wire_header n t) = k_header_size"
  by (simp add: wire_header_def k_header_size_def)

lemma send_ok_queue:
  assumes "send_ok i ex dq w"
  shows "send_ok i (insert fd ex) dq (queue_send fd t p w)"
    and "send_ok i (insert fd ex) dq (queue_tick_frame fd p w)"
  using assms send_ok_doom [OF assms, of fd "insert fd ex"] send_ok_mono [OF assms, of "insert fd ex" dq]
  by (auto simp: queue_send_def queue_tick_frame_def conn_ok_def dest: send_okD intro!: send_ok_upd [OF assms]
      split: option.split)

section \<open>Flushing\<close>

lemma send_loop_split:
  "send_loop script out = (script', took, left, failed) \<Longrightarrow> took @ left = out"
proof (induction script out arbitrary: took left rule: send_loop.induct)
  case (3 n script b out)
  then show ?case
    by (cases "send_loop script (drop n (b # out))") (fastforce split: if_splits)
qed auto

lemma send_loop_short: "send_loop script out = (script', took, left, failed) \<Longrightarrow> length left \<le> length out"
  using send_loop_split by fastforce

lemma conns_mask:
  "conns (update_epoll_mask cfg fd w) x = (if x = fd \<and> mod_ok cfg fd
     then map_option (\<lambda>c. c\<lparr>armed_write := (outb c \<noteq> [])\<rparr>) (conns w fd) else conns w x)"
  by (auto simp: update_epoll_mask_def Let_def split: option.splits)

lemma mask_fields [simp]:
  "doomed (update_epoll_mask cfg fd w) = doomed w" "dirty_q (update_epoll_mask cfg fd w) = dirty_q w"
  "wire (update_epoll_mask cfg fd w) = wire w" "sends (update_epoll_mask cfg fd w) = sends w"
  by (auto simp: update_epoll_mask_def Let_def split: option.splits)

text \<open>What one flush does, by the outcome of its loop.\<close>

lemma flush_effect:
  assumes "conns w fd = Some c" "send_loop (sends w fd) (outb c) = (script, took, left, failed)" "mod_ok cfg fd"
  shows "conns (flush_send cfg fd w) x = (if x = fd then Some (if failed then c\<lparr>outb := left, closing := True\<rparr>
           else c\<lparr>outb := left, armed_write := (left \<noteq> [])\<rparr>) else conns w x)"
    and "doomed (flush_send cfg fd w) = (if failed \<and> \<not> closing c then doomed w @ [fd] else doomed w)"
    and "wire (flush_send cfg fd w) = (wire w)(fd := wire w fd @ took)"
    and "dirty_q (flush_send cfg fd w) = dirty_q w"
  using assms by (simp_all add: flush_send_def Let_def conns_doom conns_mask doomed_doom alive_def)

lemma flush_none: "conns w fd = None \<Longrightarrow> flush_send cfg fd w = w"
  by (simp add: flush_send_def)

lemma send_ok_flush:
  assumes ok: "send_ok i ex dq w" and m: "mod_ok cfg fd"
  shows "send_ok i (ex - {fd}) dq (flush_send cfg fd w)"
proof (cases "conns w fd")
  case None
  then have "conn_ok (ex - {fd}) (set (drop i (doomed w))) dq x c" if "conns w x = Some c" for x c
    using conn_ok_mono [OF send_okD [OF ok that] subset_refl, of "ex - {fd}" dq] that None by (cases "x = fd") auto
  then show ?thesis using ok unfolding flush_none [OF None] send_ok_def by blast
next
  case (Some c)
  obtain script took left failed where l: "send_loop (sends w fd) (outb c) = (script, took, left, failed)"
    by (metis prod_cases4)
  note eff = flush_effect [OF Some l m] and i = ok [unfolded send_ok_def, THEN conjunct1]
  have sub: "set (drop i (doomed w)) \<subseteq> set (drop i (doomed (flush_send cfg fd w)))" using i by (auto simp: eff)
  show ?thesis
    unfolding send_ok_def
  proof (intro conjI allI impI)
    show "i \<le> length (doomed (flush_send cfg fd w))" using i by (simp add: eff)
    fix x c' assume c': "conns (flush_send cfg fd w) x = Some c'"
    show "conn_ok (ex - {fd}) (set (drop i (doomed (flush_send cfg fd w)))) dq x c'"
    proof (cases "x = fd")
      case True
      then show ?thesis
        using send_okD [OF ok Some] send_loop_short [OF l] i c' by (auto simp: conn_ok_def eff split: if_splits)
    next
      case False
      then have "conns w x = Some c'" using c' by (simp add: eff)
      then show ?thesis using conn_ok_mono [OF send_okD [OF ok] sub] False by simp
    qed
  qed
qed


section \<open>Deferred flushes\<close>

definition send_inv :: "server_cfg \<Rightarrow> nat \<Rightarrow> nat set \<Rightarrow> world \<Rightarrow> bool" where
  "send_inv cfg i ex w \<longleftrightarrow> send_ok i ex (set (dirty_q w)) w \<and> (batch_flush cfg \<or> dirty_q w = [])"

lemma send_inv_mono: "send_inv cfg i ex w \<Longrightarrow> ex \<subseteq> ex' \<Longrightarrow> send_inv cfg i ex' w"
  unfolding send_inv_def using send_ok_mono by blast

lemma queue_fields [simp]:
  "dirty_q (queue_send fd t p w) = dirty_q w" "dirty_q (queue_tick_frame fd p w) = dirty_q w"
  "wire (queue_send fd t p w) = wire w" "wire (queue_tick_frame fd p w) = wire w"
  by (auto simp: queue_send_def queue_tick_frame_def split: option.split)

lemma dirty_flush [simp]: "dirty_q (flush_send cfg fd w) = dirty_q w"
  by (simp add: flush_send_def Let_def split_beta split: option.split)

lemma send_inv_doom: "send_inv cfg i ex w \<Longrightarrow> ex \<subseteq> insert fd ex' \<Longrightarrow> send_inv cfg i ex' (doom fd w)"
  using send_ok_doom unfolding send_inv_def by auto

lemma send_inv_queue:
  "send_inv cfg i ex w \<Longrightarrow> send_inv cfg i (insert fd ex) (queue_send fd t p w)"
  "send_inv cfg i ex w \<Longrightarrow> send_inv cfg i (insert fd ex) (queue_tick_frame fd p w)"
  by (simp_all add: send_inv_def send_ok_queue)

lemma send_inv_flush: "send_inv cfg i ex w \<Longrightarrow> mod_ok cfg fd \<Longrightarrow> send_inv cfg i (ex - {fd}) (flush_send cfg fd w)"
  by (simp add: send_inv_def send_ok_flush)

lemma send_inv_mark:
  assumes "send_inv cfg i ex w" "batch_flush cfg"
  shows "send_inv cfg i (ex - {fd}) (mark_dirty fd w)"
proof (cases "\<exists>c. conns w fd = Some c \<and> \<not> dirty c \<and> outb c \<noteq> []")
  case True
  then obtain c where c: "conns w fd = Some c" "\<not> dirty c" "outb c \<noteq> []" by blast
  have ok: "send_ok i ex (set (dirty_q w)) w" using assms by (simp add: send_inv_def)
  have "conn_ok (ex - {fd}) (set (drop i (doomed w))) (insert fd (set (dirty_q w))) fd (c\<lparr>dirty := True\<rparr>)"
    using send_okD [OF ok c(1)] c by (auto simp: conn_ok_def)
  then have "send_ok i (ex - {fd}) (insert fd (set (dirty_q w))) (upd fd (\<lambda>c. c\<lparr>dirty := True\<rparr>) w)"
    using c by (intro send_ok_upd [OF ok]) auto
  then have "send_ok i (ex - {fd}) (insert fd (set (dirty_q w))) (mark_dirty fd w)"
    by (rule send_ok_cong) (simp_all add: mark_dirty_def c)
  then show ?thesis using c assms by (simp add: send_inv_def mark_dirty_def)
next
  case False
  then have w: "mark_dirty fd w = w" by (auto simp: mark_dirty_def split: option.split)
  have ok: "send_ok i ex (set (dirty_q w)) w" using assms by (simp add: send_inv_def)
  have "conn_ok (ex - {fd}) (set (drop i (doomed w))) (set (dirty_q w)) x c" if "conns w x = Some c" for x c
    using send_okD [OF ok that] False that by (auto simp: conn_ok_def)
  then show ?thesis using assms ok by (simp add: w send_inv_def send_ok_def)
qed

lemma send_inv_flush_or_mark:
  "send_inv cfg i ex w \<Longrightarrow> mod_ok cfg fd \<Longrightarrow> send_inv cfg i (ex - {fd}) (flush_or_mark cfg fd w)"
  by (simp add: flush_or_mark_def send_inv_flush send_inv_mark)

lemma send_inv_deliver:
  assumes "send_inv cfg i ex w" "\<forall>x. mod_ok cfg x"
  shows "send_inv cfg i ex (deliver cfg t p e fd w)"
  using send_inv_mono [OF send_inv_flush_or_mark [OF send_inv_queue(1) [OF assms(1)]], of fd fd ex] assms
  by (auto simp: deliver_def)

lemma send_inv_cong:
  "send_inv cfg i ex w \<Longrightarrow> conns w' = conns w \<Longrightarrow> doomed w' = doomed w \<Longrightarrow> dirty_q w' = dirty_q w
     \<Longrightarrow> send_inv cfg i ex w'"
  by (simp add: send_inv_def send_ok_def)

lemma send_inv_member:
  assumes "send_inv cfg i ex w" "\<forall>x. mod_ok cfg x"
  shows "send_inv cfg i ex (tick_member cfg p fd w)"
proof (cases "alive w fd")
  case True
  have "send_inv cfg i (insert fd ex) ((queue_tick_frame fd p w)\<lparr>tick_frames := tick_frames w + 1\<rparr>)"
    by (rule send_inv_cong [OF send_inv_queue(2) [OF assms(1)]]) simp_all
  from send_inv_mono [OF send_inv_flush_or_mark [OF this, of fd]] show ?thesis
    using True assms(2) by (simp add: tick_member_def)
qed (use assms in \<open>simp add: tick_member_def\<close>)

lemma send_inv_fold:
  "(\<And>y w. send_inv cfg i ex w \<Longrightarrow> send_inv cfg i ex (f y w)) \<Longrightarrow> send_inv cfg i ex w \<Longrightarrow> send_inv cfg i ex (fold f ys w)"
  by (induction ys arbitrary: w) auto

lemma send_inv_broadcast:
  "send_inv cfg i ex w \<Longrightarrow> \<forall>x. mod_ok cfg x \<Longrightarrow> send_inv cfg i ex (broadcast cfg r t p e w)"
  by (auto simp: broadcast_def intro: send_inv_fold send_inv_deliver split: option.split)

lemma send_inv_tick_rooms:
  assumes "send_inv cfg i ex w" "\<forall>x. mod_ok cfg x"
  shows "send_inv cfg i ex (flush_tick_rooms cfg w)"
proof -
  have "send_inv cfg i ex (tick_room cfg e v)" if "send_inv cfg i ex v" for e v
    using that assms(2) by (auto simp: tick_room_def intro: send_inv_fold send_inv_member split: option.split)
  then have "send_inv cfg i ex (fold (tick_room cfg) (tick_buf w) w)" using assms(1) by (rule send_inv_fold)
  then show ?thesis unfolding flush_tick_rooms_def by (rule send_inv_cong) simp_all
qed

end
