(* ===== verification/EpollRooms.thy ===== *)
theory EpollRooms
  imports EpollSend
begin

text \<open>
  The tables of the epoll server: rooms list exactly the connections that say they are in them, the
  connection count is right and under the cap, the tick bitmap holds the open descriptors, and a
  tick buffer fits its frame and has a room to go to.
\<close>

section \<open>Invariant\<close>

definition rooms_ok :: "world \<Rightarrow> bool" where
  "rooms_ok w \<longleftrightarrow>
     (\<forall>r ms. rooms w r = Some ms \<longrightarrow> r \<noteq> [] \<and> ms \<noteq> [] \<and> distinct ms)
     \<and> (\<forall>r ms fd. rooms w r = Some ms \<longrightarrow> fd \<in> set ms \<longrightarrow> map_option room (conns w fd) = Some r)
     \<and> (\<forall>fd c. conns w fd = Some c \<longrightarrow> room c \<noteq> [] \<longrightarrow> (\<exists>ms. rooms w (room c) = Some ms \<and> fd \<in> set ms))"

definition bufs_ok :: "server_cfg \<Rightarrow> world \<Rightarrow> bool" where
  "bufs_ok cfg w \<longleftrightarrow> distinct (map fst (tick_buf w)) \<and> (coalesce cfg \<or> tick_buf w = [])
     \<and> (\<forall>e \<in> set (tick_buf w). length (snd e) \<le> k_tick_cap \<and> (snd e \<noteq> [] \<longrightarrow> rooms w (fst e) \<noteq> None))"

definition counts_ok :: "server_cfg \<Rightarrow> world \<Rightarrow> bool" where
  "counts_ok cfg w \<longleftrightarrow> finite (dom (conns w)) \<and> n_conns w = card (dom (conns w)) \<and> n_conns w \<le> max_conns cfg
     \<and> tick_inv (tk w) \<and> live_set (tk w) = {fd \<in> dom (conns w). enabled (tk w) \<and> fd < slots (tk w)}"

definition tables_ok :: "server_cfg \<Rightarrow> world \<Rightarrow> bool" where
  "tables_ok cfg w \<longleftrightarrow> rooms_ok w \<and> bufs_ok cfg w \<and> counts_ok cfg w"

text \<open>The kernel answers \<^verbatim>\<open>EPOLL_CTL_MOD\<close> on an open descriptor with success (when it does not, \<^verbatim>\<open>update_epoll_mask\<close>
  leaves the mask as it was, and a connection may keep queued bytes unarmed), and inserting into a hash
  container adds one element and keeps the others.\<close>

definition cfg_ok :: "server_cfg \<Rightarrow> bool" where
  "cfg_ok cfg \<longleftrightarrow> (\<forall>fd. mod_ok cfg fd) \<and> (\<forall>x xs. mset (place_fd cfg x xs) = mset (x # xs))
     \<and> (\<forall>x xs. mset (place_buf cfg x xs) = mset (x # xs))"

lemma cfg_okD:
  assumes "cfg_ok cfg"
  shows "mod_ok cfg fd" "set (place_fd cfg x xs) = insert x (set xs)"
    "distinct (place_fd cfg x xs) \<longleftrightarrow> x \<notin> set xs \<and> distinct xs"
    "set (place_buf cfg e es) = insert e (set es)"
    "distinct (map fst (place_buf cfg e es)) \<longleftrightarrow> fst e \<notin> fst ` set es \<and> distinct (map fst es)"
proof -
  have "mset (place_fd cfg x xs) = mset (x # xs)" using assms by (simp add: cfg_ok_def)
  from mset_eq_setD [OF this] mset_eq_imp_distinct_iff [OF this]
  show "set (place_fd cfg x xs) = insert x (set xs)" "distinct (place_fd cfg x xs) \<longleftrightarrow> x \<notin> set xs \<and> distinct xs"
    by simp_all
  have m: "mset (place_buf cfg e es) = mset (e # es)" using assms unfolding cfg_ok_def by blast
  then show "set (place_buf cfg e es) = insert e (set es)" by (metis list.simps(15) mset_eq_setD)
  have "mset (map fst (place_buf cfg e es)) = mset (map fst (e # es))" unfolding mset_map m by simp
  from mset_eq_imp_distinct_iff [OF this]
  show "distinct (map fst (place_buf cfg e es)) \<longleftrightarrow> fst e \<notin> fst ` set es \<and> distinct (map fst es)" by simp
qed (use assms in \<open>simp add: cfg_ok_def\<close>)

section \<open>Steps that keep the tables\<close>

lemma same_core_room: "same_core w w' \<Longrightarrow> map_option room (conns w' fd) = map_option room (conns w fd)"
proof -
  assume "same_core w w'"
  then have "map_option core (conns w' fd) = map_option core (conns w fd)" by (simp add: same_core_def)
  then have "map_option (fst \<circ> snd) (map_option core (conns w' fd)) = map_option (fst \<circ> snd) (map_option core (conns w fd))"
    by simp
  then show ?thesis by (simp add: option.map_comp comp_def core_def)
qed

lemma rooms_ok_cong:
  assumes "rooms_ok w" "rooms w' = rooms w" "\<And>fd. map_option room (conns w' fd) = map_option room (conns w fd)"
  shows "rooms_ok w'"
proof -
  have "\<exists>ms. rooms w (room c) = Some ms \<and> fd \<in> set ms" if c: "conns w' fd = Some c" "room c \<noteq> []" for fd c
  proof -
    obtain d where "conns w fd = Some d" "room d = room c"
      using assms(3) [of fd] c by (cases "conns w fd") auto
    then show ?thesis using assms(1) c unfolding rooms_ok_def by metis
  qed
  then show ?thesis using assms unfolding rooms_ok_def by simp
qed

lemma dom_eq_map_option: "(\<And>x. map_option f (m x) = map_option f (m' x)) \<Longrightarrow> dom m = dom m'"
  by (auto simp: dom_def) (metis option.map_disc_iff option.distinct(1) not_None_eq)+

lemma tables_ok_cong:
  assumes "tables_ok cfg w" "rooms w' = rooms w" "tick_buf w' = tick_buf w" "n_conns w' = n_conns w"
    and room: "\<And>fd. map_option room (conns w' fd) = map_option room (conns w fd)"
    and t: "live_set (tk w') = live_set (tk w)" "live_n (tk w') = live_n (tk w)" "enabled (tk w') = enabled (tk w)"
      "slots (tk w') = slots (tk w)"
  shows "tables_ok cfg w'"
proof -
  have "dom (conns w') = dom (conns w)" by (rule dom_eq_map_option) (rule room)
  moreover have "tick_inv (tk w)" using assms(1) by (simp add: tables_ok_def counts_ok_def)
  then have "tick_inv (tk w')" by (simp add: tick_inv_def t)
  ultimately show ?thesis
    using assms rooms_ok_cong [of w w'] by (simp add: tables_ok_def bufs_ok_def counts_ok_def)
qed

lemma tables_same_core: "tables_ok cfg w \<Longrightarrow> same_core w w' \<Longrightarrow> tables_ok cfg w'"
  by (erule tables_ok_cong) (simp_all add: same_core_room, simp_all add: same_core_def)

lemma tables_upd: "tables_ok cfg w \<Longrightarrow> (\<And>c. room (f c) = room c) \<Longrightarrow> tables_ok cfg (upd fd f w)"
  by (erule tables_ok_cong) (auto simp: option.map_comp comp_def)

lemma touch_block_fields [simp]:
  "live (touch_block s g) = live g" "live_n (touch_block s g) = live_n g" "enabled (touch_block s g) = enabled g"
  "slots (touch_block s g) = slots g"
  by (simp_all add: touch_block_def split_beta Let_def)

lemma fold_touch_fields:
  "live (fold touch_block xs g) = live g \<and> live_n (fold touch_block xs g) = live_n g
     \<and> enabled (fold touch_block xs g) = enabled g \<and> slots (fold touch_block xs g) = slots g"
  by (induction xs arbitrary: g) simp_all

text \<open>No tick hook changes the bitmap.\<close>

definition same_sessions :: "tick_state \<Rightarrow> tick_state \<Rightarrow> bool" where
  "same_sessions g g' \<longleftrightarrow> live g' = live g \<and> live_n g' = live_n g \<and> enabled g' = enabled g \<and> slots g' = slots g"

lemma tick_hooks_sessions:
  "same_sessions g (on_msg fd g)" "same_sessions g (run_tick g)" "same_sessions g (tick_book a b g)"
  "same_sessions g (drain_begin a g)" "same_sessions g (drain_end a g)" "same_sessions g (flush_begin a g)"
  "same_sessions g (flush_end a g)"
  using fold_touch_fields [of "tick_slots g" g]
  by (simp_all add: same_sessions_def on_msg_def run_tick_def tick_book_def Let_def drain_begin_def drain_end_def
      flush_begin_def flush_end_def)

lemma tables_tk: "tables_ok cfg w \<Longrightarrow> same_sessions (tk w) g \<Longrightarrow> tables_ok cfg (w\<lparr>tk := g\<rparr>)"
  by (erule tables_ok_cong) (auto simp: same_sessions_def live_set_def is_live_def)


section \<open>Steps that change the tables\<close>

lemma conn_room_listed: "rooms_ok w \<Longrightarrow> conns w fd = Some c \<Longrightarrow> room c \<noteq> [] \<Longrightarrow> \<exists>ms. rooms w (room c) = Some ms \<and> fd \<in> set ms"
  by (simp add: rooms_ok_def)

lemma removeAll_Nil_iff: "removeAll a xs = [] \<longleftrightarrow> set xs \<subseteq> {a}"
  by (induction xs) auto

lemma leave_tables:
  assumes "conns w fd = Some c" "room c \<noteq> []" "rooms w (room c) = Some ms"
  shows "rooms (leave_room cfg fd w) = (rooms w)(room c := (if removeAll fd ms = [] then None else Some (removeAll fd ms)))"
    and "tick_buf (leave_room cfg fd w) = (if removeAll fd ms = [] \<and> coalesce cfg
           then filter (\<lambda>e. fst e \<noteq> room c) (tick_buf w) else tick_buf w)"
  using assms by (simp_all add: leave_room_def drop_member_def Let_def)

lemma rooms_ok_leave:
  assumes ok: "rooms_ok w" and c: "conns w fd = Some c" and r: "room c \<noteq> []"
  shows "rooms_ok (leave_room cfg fd w)"
proof -
  obtain ms where ms: "rooms w (room c) = Some ms" "fd \<in> set ms" using conn_room_listed [OF ok c r] by blast
  let ?w = "leave_room cfg fd w" and ?ms = "removeAll fd ms"
  have rm: "rooms ?w = (rooms w)(room c := (if ?ms = [] then None else Some ?ms))"
    using leave_tables(1) [OF c r ms(1)] .
  have cn: "conns ?w x = (if x = fd then Some (c\<lparr>room := []\<rparr>) else conns w x)" for x
    using c r by (simp add: leave_room_def)
  have only: "fd \<notin> set ms'" if "rooms w r' = Some ms'" "r' \<noteq> room c" for r' ms'
  proof
    assume "fd \<in> set ms'"
    then have "map_option room (conns w fd) = Some r'" using ok that(1) unfolding rooms_ok_def by blast
    then show False using c that(2) by simp
  qed
  have "map_option room (conns ?w x) = Some r'" if "rooms ?w r' = Some ms'" "x \<in> set ms'" for r' ms' x
  proof -
    have "x \<noteq> fd \<and> (\<exists>ms0. rooms w r' = Some ms0 \<and> x \<in> set ms0)"
      using that rm only ms by (auto split: if_splits)
    then show ?thesis using ok by (auto simp: rooms_ok_def cn)
  qed
  moreover have "r' \<noteq> [] \<and> ms' \<noteq> [] \<and> distinct ms'" if "rooms ?w r' = Some ms'" for r' ms'
    using that ok ms rm r by (auto simp: rooms_ok_def distinct_removeAll split: if_splits)
  moreover have "\<exists>ms'. rooms ?w (room d) = Some ms' \<and> x \<in> set ms'" if d: "conns ?w x = Some d" "room d \<noteq> []" for x d
  proof -
    have x: "x \<noteq> fd" "conns w x = Some d" using d by (auto simp: cn split: if_splits)
    then obtain ms0 where "rooms w (room d) = Some ms0" "x \<in> set ms0" using conn_room_listed [OF ok] d(2) by blast
    then show ?thesis using x ms by (auto simp: rm removeAll_Nil_iff)
  qed
  ultimately show ?thesis unfolding rooms_ok_def by blast
qed

lemma leave_fields [simp]:
  "n_conns (leave_room cfg fd w) = n_conns w" "tk (leave_room cfg fd w) = tk w"
  "doomed (leave_room cfg fd w) = doomed w" "dirty_q (leave_room cfg fd w) = dirty_q w"
  "wire (leave_room cfg fd w) = wire w"
  by (simp_all add: leave_room_def split: option.split)

lemma conns_leave: "conns (leave_room cfg fd w) x = (if x = fd then map_option (\<lambda>c. c\<lparr>room := []\<rparr>) (conns w fd) else conns w x)"
  by (auto simp: leave_room_def split: option.split)

lemma dom_leave [simp]: "dom (conns (leave_room cfg fd w)) = dom (conns w)"
  by (auto simp: dom_def conns_leave)

lemma leave_outside: "conns w fd = None \<or> map_option room (conns w fd) = Some [] \<Longrightarrow> leave_room cfg fd w = w"
  by (auto simp: leave_room_def split: option.split)

lemma tables_leave:
  assumes "tables_ok cfg w"
  shows "tables_ok cfg (leave_room cfg fd w)"
proof (cases "\<exists>c. conns w fd = Some c \<and> room c \<noteq> []")
  case False
  then have "leave_room cfg fd w = w" by (intro leave_outside) auto
  then show ?thesis using assms by simp
next
  case True
  then obtain c where c: "conns w fd = Some c" "room c \<noteq> []" by blast
  have "rooms_ok w" using assms by (simp add: tables_ok_def)
  note rooms = rooms_ok_leave [OF this c] and listed = conn_room_listed [OF this c]
  then obtain ms where ms: "rooms w (room c) = Some ms" by blast
  have "bufs_ok cfg (leave_room cfg fd w)"
    using assms by (auto simp: tables_ok_def bufs_ok_def leave_tables [OF c ms] distinct_map_filter)
  then show ?thesis using rooms assms by (simp add: tables_ok_def counts_ok_def)
qed

lemma conns_enter: "conns (enter_room cfg fd r w) x = (if x = fd then map_option (\<lambda>c. c\<lparr>room := r\<rparr>) (conns w fd) else conns w x)"
  by (simp add: enter_room_def)

lemma enter_fields [simp]:
  "n_conns (enter_room cfg fd r w) = n_conns w" "tk (enter_room cfg fd r w) = tk w"
  "doomed (enter_room cfg fd r w) = doomed w" "dirty_q (enter_room cfg fd r w) = dirty_q w"
  "tick_buf (enter_room cfg fd r w) = tick_buf w"
  by (simp_all add: enter_room_def)

lemma tables_enter:
  assumes ok: "tables_ok cfg w" and cfg: "cfg_ok cfg" and c: "conns w fd = Some c" "room c = []" and r: "r \<noteq> []"
  shows "tables_ok cfg (enter_room cfg fd r w)"
proof -
  let ?w = "enter_room cfg fd r w"
  have rok: "rooms_ok w" using ok by (simp add: tables_ok_def)
  have out: "fd \<notin> set ms" if "rooms w r' = Some ms" for r' ms
  proof
    assume "fd \<in> set ms"
    then have "map_option room (conns w fd) = Some r'" using rok that unfolding rooms_ok_def by blast
    then show False using rok that c unfolding rooms_ok_def by auto
  qed
  define ms where "ms = (case rooms w r of None \<Rightarrow> [fd] | Some ms \<Rightarrow> place_fd cfg fd ms)"
  have rm: "rooms ?w = (rooms w)(r \<mapsto> ms)" using out by (auto simp: enter_room_def ms_def split: option.split)
  have set: "set ms = insert fd (case rooms w r of None \<Rightarrow> {} | Some ms \<Rightarrow> set ms)" and dist: "distinct ms"
    using cfg_okD(2,3) [OF cfg] out rok by (auto simp: ms_def rooms_ok_def split: option.split)
  have "map_option room (conns ?w x) = Some r'" if "rooms ?w r' = Some ms'" "x \<in> set ms'" for r' ms' x
  proof (cases "x = fd")
    case True
    then have "r' = r" using that out rm by (auto split: if_splits)
    then show ?thesis using True c by (simp add: conns_enter)
  next
    case False
    then have "\<exists>ms0. rooms w r' = Some ms0 \<and> x \<in> set ms0"
      using that rm set by (auto split: if_splits option.splits)
    then show ?thesis using rok False by (auto simp: rooms_ok_def conns_enter)
  qed
  moreover have "r' \<noteq> [] \<and> ms' \<noteq> [] \<and> distinct ms'" if "rooms ?w r' = Some ms'" for r' ms'
    using that rok rm set dist r by (auto simp: rooms_ok_def split: if_splits)
  moreover have "\<exists>ms'. rooms ?w (room d) = Some ms' \<and> x \<in> set ms'" if d: "conns ?w x = Some d" "room d \<noteq> []" for x d
  proof (cases "x = fd")
    case True
    then show ?thesis using d c by (auto simp: conns_enter rm set)
  next
    case False
    then obtain ms0 where "rooms w (room d) = Some ms0" "x \<in> set ms0"
      using d conn_room_listed [OF rok, of x d] by (auto simp: conns_enter)
    then show ?thesis by (auto simp: rm set)
  qed
  ultimately have "rooms_ok ?w" unfolding rooms_ok_def by blast
  moreover have "dom (conns ?w) = dom (conns w)" by (auto simp: dom_def conns_enter)
  ultimately show ?thesis using ok by (auto simp: tables_ok_def counts_ok_def bufs_ok_def rm)
qed

end
