(* ===== verification/EpollReap.thy ===== *)
theory EpollReap
  imports EpollRooms
begin

text \<open>
  What dooming does to the server: every handler only appends newly closed connections to the doomed
  list, each once. The reaper's index loop over that growing list therefore ends.
\<close>

section \<open>Dooming\<close>

definition dooms :: "world \<Rightarrow> world \<Rightarrow> bool" where
  "dooms w w' \<longleftrightarrow> (\<exists>ds. doomed w' = doomed w @ ds \<and> distinct ds \<and> (\<forall>x \<in> set ds. alive w x)
     \<and> (\<forall>x. alive w' x \<longleftrightarrow> alive w x \<and> x \<notin> set ds))"

named_theorems dooms_intros

lemma dooms_keep:
  assumes "doomed w' = doomed w" "\<And>x. map_option closing (conns w' x) = map_option closing (conns w x)"
  shows "dooms w w'"
proof -
  have "alive w' x = alive w x" for x
    using assms(2) [of x] by (cases "conns w x"; cases "conns w' x") (auto simp: alive_def)
  then show ?thesis using assms(1) by (auto simp: dooms_def)
qed

lemma dooms_refl [dooms_intros]: "dooms w w"
  by (rule dooms_keep) simp_all

lemma dooms_trans:
  assumes "dooms a b" "dooms b c"
  shows "dooms a c"
proof -
  obtain ds es where "doomed b = doomed a @ ds" "distinct ds" "\<forall>x \<in> set ds. alive a x" "\<forall>x. alive b x \<longleftrightarrow> alive a x \<and> x \<notin> set ds"
    "doomed c = doomed b @ es" "distinct es" "\<forall>x \<in> set es. alive b x" "\<forall>x. alive c x \<longleftrightarrow> alive b x \<and> x \<notin> set es"
    using assms unfolding dooms_def by blast
  then show ?thesis unfolding dooms_def by (intro exI [of _ "ds @ es"]) auto
qed

lemma dooms_alive: "dooms w w' \<Longrightarrow> alive w' x \<Longrightarrow> alive w x"
  by (auto simp: dooms_def)

lemma alive_doom: "alive (doom fd w) x \<longleftrightarrow> alive w x \<and> x \<noteq> fd"
  by (auto simp: alive_def conns_doom split: option.splits)

lemma dooms_doom [dooms_intros]: "dooms w (doom fd w)"
  unfolding dooms_def
  by (intro exI [of _ "if alive w fd then [fd] else []"]) (auto simp: alive_doom doomed_doom)

lemma dooms_upd [dooms_intros]: "(\<And>c. closing (f c) = closing c) \<Longrightarrow> dooms w (upd fd f w)"
  by (rule dooms_keep) (auto simp: option.map_comp comp_def)

lemma dooms_mask [dooms_intros]: "dooms w (update_epoll_mask cfg fd w)"
  by (rule dooms_keep) (simp_all add: conns_mask option.map_comp comp_def)

lemma dooms_queue [dooms_intros]: "dooms w (queue_send fd t p w)" "dooms w (queue_tick_frame fd p w)"
  unfolding queue_send_def queue_tick_frame_def by (auto intro: dooms_intros split: option.split)

lemma dooms_mark [dooms_intros]: "dooms w (mark_dirty fd w)"
  by (rule dooms_keep) (auto simp: mark_dirty_def split: option.split)

lemma dooms_flush [dooms_intros]: "dooms w (flush_send cfg fd w)"
proof (cases "conns w fd")
  case None
  then show ?thesis by (simp add: flush_none dooms_refl)
next
  case (Some c)
  obtain script took left failed where l: "send_loop (sends w fd) (outb c) = (script, took, left, failed)"
    by (metis prod_cases4)
  let ?w = "(upd fd (\<lambda>c. c\<lparr>outb := left\<rparr>) w)\<lparr>sends := (sends w)(fd := script), wire := (wire w)(fd := wire w fd @ took)\<rparr>"
  have base: "dooms w ?w" by (rule dooms_keep) (simp_all add: option.map_comp comp_def)
  have "flush_send cfg fd w = (if failed then doom fd ?w else update_epoll_mask cfg fd ?w)"
    using Some l by (simp add: flush_send_def Let_def)
  then show ?thesis
    using dooms_trans [OF base dooms_doom [of ?w fd]] dooms_trans [OF base dooms_mask [of ?w cfg fd]]
    by (cases failed) (simp_all only: if_True if_False)
qed

lemma dooms_flush_or_mark [dooms_intros]: "dooms w (flush_or_mark cfg fd w)"
  by (simp add: flush_or_mark_def dooms_intros)

lemma dooms_deliver [dooms_intros]: "dooms w (deliver cfg t p e fd w)"
  using dooms_trans [OF dooms_queue(1) dooms_flush_or_mark] by (simp add: deliver_def dooms_refl)

lemma dooms_fold: "(\<And>y w. dooms w (f y w)) \<Longrightarrow> dooms w (fold f ys w)"
proof (induction ys arbitrary: w)
  case (Cons y ys)
  then show ?case using dooms_trans [of w "f y w"] by simp
qed (simp add: dooms_refl)

lemma dooms_broadcast [dooms_intros]: "dooms w (broadcast cfg r t p e w)"
  by (auto simp: broadcast_def intro: dooms_fold dooms_intros split: option.split)

lemma dooms_leave [dooms_intros]: "dooms w (leave_room cfg fd w)"
  by (rule dooms_keep) (simp_all add: conns_leave option.map_comp comp_def)

lemma dooms_enter [dooms_intros]: "dooms w (enter_room cfg fd r w)"
  by (rule dooms_keep) (simp_all add: conns_enter option.map_comp comp_def)

lemma dooms_tk [dooms_intros]: "dooms w (w\<lparr>tk := g\<rparr>)"
  by (rule dooms_keep) simp_all

lemma dooms_record [dooms_intros]: "dooms w (record_chat cfg r l w)"
  by (rule dooms_keep) (simp_all add: record_chat_def Let_def)

lemma dooms_packet [dooms_intros]: "dooms w (handle_packet cfg fd t p w)"
proof -
  have "dooms w (on_nick fd p w)"
    unfolding on_nick_def Let_def by (rule dooms_trans [OF dooms_upd dooms_queue(1)]) simp
  moreover have "dooms w (on_join cfg fd p w)"
  proof -
    have go: "dooms v (broadcast cfg r t q e (queue_send fd t' q' (enter_room cfg fd r' v)))" for r t q e t' q' r' v
      by (rule dooms_trans [OF dooms_trans [OF dooms_enter dooms_queue(1)] dooms_broadcast])
    have out: "dooms w (leave_room cfg fd (broadcast cfg r t q e w))" for r t q e
      by (rule dooms_trans [OF dooms_broadcast dooms_leave])
    show ?thesis
      by (auto simp: on_join_def Let_def intro: dooms_intros go dooms_trans [OF out go] split: option.split)
  qed
  moreover have "dooms w (on_chat cfg fd p w)"
    by (auto simp: on_chat_def Let_def intro: dooms_intros dooms_trans [OF dooms_tk dooms_record]
        dooms_trans [OF dooms_tk dooms_broadcast] split: option.split)
  ultimately show ?thesis by (simp add: handle_packet_def dooms_intros)
qed

section \<open>The reaper\<close>

definition live_conns :: "world \<Rightarrow> nat set" where
  "live_conns w = {fd. alive w fd}"

lemma dooms_potential:
  assumes "dooms w w'" "finite (live_conns w)"
  shows "length (doomed w') + card (live_conns w') = length (doomed w) + card (live_conns w) \<and> finite (live_conns w')"
proof -
  obtain ds where ds: "doomed w' = doomed w @ ds" "distinct ds" "\<forall>x \<in> set ds. alive w x"
    "\<forall>x. alive w' x \<longleftrightarrow> alive w x \<and> x \<notin> set ds" using assms(1) unfolding dooms_def by blast
  have eq: "live_conns w' = live_conns w - set ds" using ds(4) by (auto simp: live_conns_def)
  have "set ds \<subseteq> live_conns w" using ds(3) by (auto simp: live_conns_def)
  then have "card (live_conns w') + card (set ds) = card (live_conns w)"
    using assms(2) unfolding eq by (simp add: card_Diff_subset card_mono)
  then show ?thesis using ds(1) assms(2) eq distinct_card [OF ds(2)] by simp
qed

text \<open>Everything a turn of the reaper does before it erases the connection.\<close>

definition say_bye :: "server_cfg \<Rightarrow> nat \<Rightarrow> conn \<Rightarrow> world \<Rightarrow> world" where
  "say_bye cfg fd c w = (if room c \<noteq> [] \<and> nick c \<noteq> []
     then broadcast cfg (room c) s_notice (nick c @ ascii '' left'') (Some fd) (leave_room cfg fd w)
     else leave_room cfg fd w)"

lemma reap_one_eq:
  "reap_one cfg fd w = (case conns w fd of None \<Rightarrow> w | Some c \<Rightarrow> (let v = say_bye cfg fd c w in
     v\<lparr>conns := (conns v)(fd := None), n_conns := n_conns v - 1, tk := session_remove fd (tk v)\<rparr>))"
  by (simp add: reap_one_def say_bye_def Let_def split: option.split)

lemma dooms_say_bye: "dooms w (say_bye cfg fd c w)"
  by (simp add: say_bye_def dooms_leave dooms_trans [OF dooms_leave dooms_broadcast])

lemma reap_one_potential:
  assumes "finite (live_conns w)"
  shows "length (doomed (reap_one cfg fd w)) + card (live_conns (reap_one cfg fd w)) \<le> length (doomed w) + card (live_conns w)
    \<and> finite (live_conns (reap_one cfg fd w)) \<and> length (doomed w) \<le> length (doomed (reap_one cfg fd w))"
proof (cases "conns w fd")
  case None
  then show ?thesis using assms by (simp add: reap_one_eq)
next
  case (Some c)
  let ?v = "say_bye cfg fd c w"
  note pot = dooms_potential [OF dooms_say_bye [of w cfg fd c] assms]
  have "live_conns (reap_one cfg fd w) \<subseteq> live_conns ?v" and d: "doomed (reap_one cfg fd w) = doomed ?v"
    using Some by (auto simp: reap_one_eq Let_def live_conns_def alive_def split: if_splits)
  moreover have "length (doomed w) \<le> length (doomed ?v)" using dooms_say_bye [of w cfg fd c] by (auto simp: dooms_def)
  ultimately show ?thesis
    using pot card_mono [of "live_conns ?v" "live_conns (reap_one cfg fd w)"] by (auto intro: finite_subset)
qed

text \<open>The loop's own induction rule: a property that every turn keeps holds at the end.\<close>

lemma reap_loop_induct:
  assumes "finite (live_conns w)" "i \<le> length (doomed w)" "P i w"
    and step: "\<And>i w. i < length (doomed w) \<Longrightarrow> P i w \<Longrightarrow> P (Suc i) (reap_one cfg (doomed w ! i) w)"
  shows "\<exists>w'. reap_loop cfg i w = Some w' \<and> P (length (doomed w')) w'"
  using assms(1-3)
proof (induction "length (doomed w) + card (live_conns w) - i" arbitrary: i w rule: less_induct)
  case less
  show ?case
  proof (cases "i < length (doomed w)")
    case True
    note pot = reap_one_potential [OF less.prems(1), of cfg "doomed w ! i"]
    have "\<exists>w'. reap_loop cfg (Suc i) (reap_one cfg (doomed w ! i) w) = Some w' \<and> P (length (doomed w')) w'"
      by (rule less.hyps) (use pot True step less.prems in auto)
    then show ?thesis using True by (simp add: reap_loop.simps [of cfg i w])
  next
    case False
    then have "reap_loop cfg i w = Some w" by (subst reap_loop.simps) simp
    then show ?thesis using False less.prems by simp
  qed
qed

lemma reap_one_none:
  assumes "conns w x = None"
  shows "conns (reap_one cfg fd w) x = None"
proof -
  have keep: "conns v' x = None" if "same_core v v'" "conns v x = None" for v v'
    using that by (metis map_option_is_None same_core_def)
  have leave: "conns (leave_room cfg fd w) x = None" using assms by (auto simp: leave_room_def split: option.split)
  show ?thesis
    using assms leave keep [OF same_core_broadcast leave] by (simp add: reap_one_eq Let_def say_bye_def split: option.split)
qed

lemma reap_one_gone: "conns (reap_one cfg fd w) fd = None"
  by (simp add: reap_one_eq Let_def split: option.split)

lemma doomed_reap_one: "\<exists>ds. doomed (reap_one cfg fd w) = doomed w @ ds"
  using dooms_say_bye [of w cfg fd] by (auto simp: reap_one_eq Let_def dooms_def split: option.split) blast

text \<open>
  C17. The reaper ends although the notices it sends may doom further connections while it runs: with
  finitely many connections the loop over the growing list returns, having visited at most the
  connections doomed at the start plus those that were alive, and every connection it visited is gone.
\<close>
theorem reap_cascade_ends:
  assumes "finite (dom (conns w))"
  shows "\<exists>w'. reap_loop cfg 0 w = Some w' \<and> length (doomed w') \<le> length (doomed w) + card {fd. alive w fd}
    \<and> (\<forall>fd \<in> set (doomed w'). conns w' fd = None)"
proof -
  let ?P = "\<lambda>i v. length (doomed v) + card (live_conns v) \<le> length (doomed w) + card (live_conns w) \<and> finite (live_conns v)
      \<and> i \<le> length (doomed v) \<and> (\<forall>fd \<in> set (take i (doomed v)). conns v fd = None)"
  have fin: "finite (live_conns w)"
    using finite_subset [OF _ assms, of "live_conns w"] by (force simp: live_conns_def alive_def split: option.splits)
  have step: "?P (Suc i) (reap_one cfg (doomed v ! i) v)" if i: "i < length (doomed v)" and P: "?P i v" for i v
  proof -
    let ?v = "reap_one cfg (doomed v ! i) v"
    obtain ds where ds: "doomed ?v = doomed v @ ds" using doomed_reap_one by blast
    have "take (Suc i) (doomed ?v) = take i (doomed v) @ [doomed v ! i]" using i ds by (simp add: take_Suc_conv_app_nth)
    then have "\<forall>fd \<in> set (take (Suc i) (doomed ?v)). conns ?v fd = None"
      using P reap_one_none [of v] reap_one_gone by auto
    then show ?thesis using P i ds reap_one_potential [of v cfg "doomed v ! i"] by simp
  qed
  have "?P 0 w" using fin by simp
  from reap_loop_induct [where P = ?P, OF fin le0 this step]
  show ?thesis by (auto simp: live_conns_def)
qed

definition demo_doomed :: world where
  "demo_doomed = (world_init (snd (tick_init 0 0 0 0)) (\<lambda>_. []) (\<lambda>_. []) [])
     \<lparr>conns := [4 \<mapsto> conn_init\<lparr>closing := True\<rparr>, 5 \<mapsto> conn_init], n_conns := 2, doomed := [4]\<rparr>"

lemma reap_cascade_ends_witness:
  "\<exists>w' cfg. reap_loop cfg 0 demo_doomed = Some w' \<and> length (doomed w') \<le> 2"
proof -
  have "alive demo_doomed fd \<longleftrightarrow> fd = 5" for fd by (simp add: demo_doomed_def alive_def conn_init_def)
  moreover have "dom (conns demo_doomed) = {4, 5}" "doomed demo_doomed = [4]" by (auto simp: demo_doomed_def)
  ultimately have "card {fd. alive demo_doomed fd} = 1" "finite (dom (conns demo_doomed))" "length (doomed demo_doomed) = 1"
    by simp_all
  then show ?thesis using reap_cascade_ends [of demo_doomed] by (metis one_add_one)
qed

end
