(* ===== verification/EpollDelivery.thy ===== *)
theory EpollDelivery
  imports EpollReap
begin

text \<open>
  Who gets what: the bytes a connection has been sent together with those still queued are its stream,
  and a broadcast appends one frame to the stream of every live member of the room and to no other.
\<close>

section \<open>Streams\<close>

definition out_of :: "nat \<Rightarrow> world \<Rightarrow> bytes" where
  "out_of fd w = (case conns w fd of None \<Rightarrow> [] | Some c \<Rightarrow> outb c)"

definition stream :: "nat \<Rightarrow> world \<Rightarrow> bytes" where
  "stream fd w = wire w fd @ out_of fd w"

definition frame :: "u16 \<Rightarrow> bytes \<Rightarrow> bytes" where
  "frame t p = wire_header (length p) t @ p"

lemma out_of_upd [simp]: "out_of x (upd fd f w) = (case conns w x of None \<Rightarrow> [] | Some c \<Rightarrow> outb (if x = fd then f c else c))"
  by (simp add: out_of_def split: option.split)

lemma out_of_doom [simp]: "out_of x (doom fd w) = out_of x w"
  by (simp add: out_of_def conns_doom split: option.split)

lemma out_of_mask [simp]: "out_of x (update_epoll_mask cfg fd w) = out_of x w"
  by (simp add: out_of_def conns_mask split: option.split)

lemma stream_flush [simp]: "stream x (flush_send cfg fd w) = stream x w"
proof (cases "conns w fd")
  case None
  then show ?thesis by (simp add: flush_none)
next
  case (Some c)
  obtain script took left failed where l: "send_loop (sends w fd) (outb c) = (script, took, left, failed)"
    by (metis prod_cases4)
  let ?w = "(upd fd (\<lambda>c. c\<lparr>outb := left\<rparr>) w)\<lparr>sends := (sends w)(fd := script), wire := (wire w)(fd := wire w fd @ took)\<rparr>"
  have "flush_send cfg fd w = (if failed then doom fd ?w else update_epoll_mask cfg fd ?w)"
    using Some l by (simp add: flush_send_def Let_def)
  then have "stream x (flush_send cfg fd w) = wire ?w x @ out_of x ?w" by (simp add: stream_def)
  also have "out_of x ?w = (if x = fd then left else out_of x w)" using Some by (simp add: out_of_def)
  finally show ?thesis using send_loop_split [OF l] Some by (simp add: stream_def out_of_def)
qed

lemma stream_mark [simp]: "stream x (mark_dirty fd w) = stream x w"
  by (cases "conns w fd"; cases "x = fd") (simp_all add: stream_def mark_dirty_def out_of_def)

lemma stream_flush_or_mark [simp]: "stream x (flush_or_mark cfg fd w) = stream x w"
  by (simp add: flush_or_mark_def)

section \<open>Delivery to one member\<close>

definition untouched :: "nat \<Rightarrow> world \<Rightarrow> world \<Rightarrow> bool" where
  "untouched x w w' \<longleftrightarrow> conns w' x = conns w x \<and> wire w' x = wire w x"

lemma untouched_refl [simp]: "untouched x w w"
  by (simp add: untouched_def)

lemma untouched_trans: "untouched x a b \<Longrightarrow> untouched x b c \<Longrightarrow> untouched x a c"
  by (simp add: untouched_def)

lemma untouched_doom: "x \<noteq> fd \<Longrightarrow> untouched x w (doom fd w)"
  by (simp add: untouched_def conns_doom)

lemma untouched_queue: "x \<noteq> fd \<Longrightarrow> untouched x w (queue_send fd t p w)"
  by (auto simp: queue_send_def untouched_def conns_doom split: option.split)

lemma untouched_flush: "x \<noteq> fd \<Longrightarrow> untouched x w (flush_send cfg fd w)"
  by (auto simp: flush_send_def Let_def untouched_def conns_doom conns_mask split_beta split: option.split)

lemma untouched_mark: "x \<noteq> fd \<Longrightarrow> untouched x w (mark_dirty fd w)"
  by (simp add: untouched_def mark_dirty_def split: option.split)

lemma untouched_flush_or_mark: "x \<noteq> fd \<Longrightarrow> untouched x w (flush_or_mark cfg fd w)"
  by (simp add: flush_or_mark_def untouched_flush untouched_mark)

lemma untouched_deliver: "x \<noteq> fd \<or> e = Some x \<or> \<not> alive w x \<Longrightarrow> untouched x w (deliver cfg t p e fd w)"
  by (cases "x = fd") (auto simp: deliver_def
      intro: untouched_trans [OF untouched_queue untouched_flush_or_mark])

lemma untouched_fold:
  "x \<notin> set ms \<or> e = Some x \<or> \<not> alive w x \<Longrightarrow> untouched x w (fold (deliver cfg t p e) ms w)"
proof (induction ms arbitrary: w)
  case (Cons m ms)
  have u: "untouched x w (deliver cfg t p e m w)" using Cons.prems by (intro untouched_deliver) auto
  then have "x \<notin> set ms \<or> e = Some x \<or> \<not> alive (deliver cfg t p e m w) x"
    using Cons.prems by (auto simp: untouched_def alive_def)
  then show ?case using u Cons.IH untouched_trans by fastforce
qed (simp add: untouched_def)

lemma deliver_self:
  assumes "alive w x" "e \<noteq> Some x" "length p \<le> k_max_payload"
  shows "if k_send_cap < length (out_of x w) + k_header_size + length p
    then stream x (deliver cfg t p e x w) = stream x w \<and> \<not> alive (deliver cfg t p e x w) x
    else stream x (deliver cfg t p e x w) = stream x w @ frame t p"
proof -
  obtain c where c: "conns w x = Some c" "\<not> closing c" using alive_conn [OF assms(1)] by blast
  have "\<not> alive (flush_or_mark cfg x (doom x w)) x"
    using dooms_alive [OF dooms_flush_or_mark, of cfg x "doom x w" x] alive_doom by blast
  moreover have "stream x (deliver cfg t p e x w) = stream x (queue_send x t p w)"
    using assms by (simp add: deliver_def)
  moreover have "stream x (queue_send x t p w) = (if k_send_cap < length (outb c) + k_header_size + length p
      then stream x w else stream x w @ frame t p)"
    using c assms by (simp add: queue_send_def stream_def frame_def out_of_def conns_doom)
  ultimately show ?thesis
    using c assms by (auto simp: out_of_def deliver_def queue_send_def split: if_splits)
qed

lemma broadcast_member:
  assumes "rooms w r = Some ms" "distinct ms" "length p \<le> k_max_payload" "x \<in> set ms" "e \<noteq> Some x" "alive w x"
  shows "if k_send_cap < length (out_of x w) + k_header_size + length p
          then stream x (broadcast cfg r t p e w) = stream x w \<and> \<not> alive (broadcast cfg r t p e w) x
          else stream x (broadcast cfg r t p e w) = stream x w @ frame t p"
proof -
  obtain as bs where ms: "ms = as @ x # bs" using assms(4) by (meson split_list)
  then have "x \<notin> set as" "x \<notin> set bs" using assms(2) by auto
  let ?a = "fold (deliver cfg t p e) as w"
  let ?b = "deliver cfg t p e x ?a"
  have a: "untouched x w ?a" using \<open>x \<notin> set as\<close> by (intro untouched_fold) simp
  have b: "untouched x ?b (broadcast cfg r t p e w)"
    using \<open>x \<notin> set bs\<close> assms(1) ms untouched_fold [of x bs e ?b cfg t p] by (simp add: broadcast_def)
  have "alive ?a x" "out_of x ?a = out_of x w" "stream x ?a = stream x w"
    using assms(6) a by (auto simp: untouched_def alive_def out_of_def stream_def)
  moreover have "stream x (broadcast cfg r t p e w) = stream x ?b" "alive (broadcast cfg r t p e w) x = alive ?b x"
    using b by (auto simp: untouched_def alive_def out_of_def stream_def)
  ultimately show ?thesis using assms(5) deliver_self [of ?a x e p cfg t] assms(3) by auto
qed

text \<open>
  C16. A broadcast of a frame that fits reaches exactly the room: for every live member other than the
  excepted one, the bytes sent and queued for it grow by that one frame, or, if its queue has no room
  left, it is doomed and nothing is added; every other connection and its wire are untouched. This
  holds in both flush modes and whatever the sockets answer.
\<close>
theorem broadcast_reaches_room:
  assumes "rooms w r = Some ms" "distinct ms" "length p \<le> k_max_payload"
  shows "if x \<in> set ms \<and> e \<noteq> Some x \<and> alive w x
    then (if k_send_cap < length (out_of x w) + k_header_size + length p
          then stream x (broadcast cfg r t p e w) = stream x w \<and> \<not> alive (broadcast cfg r t p e w) x
          else stream x (broadcast cfg r t p e w) = stream x w @ frame t p)
    else conns (broadcast cfg r t p e w) x = conns w x \<and> wire (broadcast cfg r t p e w) x = wire w x"
  using broadcast_member [OF assms, of x e cfg t] untouched_fold [of x ms e w cfg t p] assms(1)
  by (auto simp: broadcast_def untouched_def)

definition demo_room :: world where
  "demo_room = \<lparr>conns = [1 \<mapsto> conn_init\<lparr>room := [7], nick := [65]\<rparr>, 2 \<mapsto> conn_init\<lparr>room := [7], nick := [66]\<rparr>,
     3 \<mapsto> conn_init], n_conns = 3, rooms = [[7] \<mapsto> [1, 2]], doomed = [], dirty_q = [], tick_buf = [],
     tick_frames = 0, tick_dropped = 0, tk = snd (tick_init 0 0 0 0), sends = (\<lambda>fd. if fd = 2 then [Sent 3] else []),
     recvs = (\<lambda>_. []), accepts = [], wire = (\<lambda>_. []), reserve = True\<rparr>"

definition demo_mode :: "bool \<Rightarrow> server_cfg" where
  "demo_mode batch = \<lparr>batch_flush = batch, coalesce = False, max_conns = 4, mod_ok = (\<lambda>_. True), add_ok = (\<lambda>_. True),
     place_fd = (#), place_buf = (#)\<rparr>"

lemma broadcast_reaches_room_witness:
  "rooms demo_room [7] = Some [1, 2] \<and> alive demo_room 2
   \<and> stream 2 (broadcast (demo_mode False) [7] s_chat [9] (Some 1) demo_room) = [1, 0, 101, 0, 9]"
proof -
  have "rooms demo_room [7] = Some [1, 2]" "alive demo_room 2" "out_of 2 demo_room = []" "stream 2 demo_room = []"
    by (simp_all add: demo_room_def alive_def conn_init_def out_of_def stream_def)
  moreover have "frame s_chat [9] = [1, 0, 101, 0, 9]" by code_simp
  ultimately show ?thesis
    using broadcast_reaches_room [of demo_room "[7]" "[1, 2]" "[9]" 2 "Some 1" "demo_mode False" s_chat]
    by (simp add: k_max_payload_def k_send_cap_def k_header_size_def)
qed

section \<open>Lines that are too long\<close>

lemma stream_deliver_oversize: "k_max_payload < length p \<Longrightarrow> stream x (deliver cfg t p e fd w) = stream x w"
  by (simp add: deliver_def queue_send_def split: option.split)

lemma stream_fold_oversize: "k_max_payload < length p \<Longrightarrow> stream x (fold (deliver cfg t p e) ms w) = stream x w"
  by (induction ms arbitrary: w) (simp_all add: stream_deliver_oversize)

text \<open>
  C39. A chat payload the protocol accepts (up to 1024 bytes) can make a line, nickname and separator
  included, that is longer than the payload limit. Without coalescing such a message is lost without
  a trace: nothing is added to the stream of any connection, the sender's included.
\<close>
theorem long_chat_line_reaches_nobody:
  assumes "conns w fd = Some c" "room c \<noteq> []" "\<not> coalesce cfg"
    and "length payload \<le> k_max_payload" "k_max_payload < length (nick c) + 2 + length payload"
  shows "stream x (handle_packet cfg fd c_chat payload w) = stream x w"
proof -
  have "k_max_payload < length (nick c @ ascii '': '' @ payload)" using assms(5) by (simp add: ascii_def)
  then have "stream x (broadcast cfg (room c) s_chat (nick c @ ascii '': '' @ payload) None v) = stream x v" for v
    unfolding broadcast_def using stream_fold_oversize by (simp split: option.split)
  moreover have "stream x (w\<lparr>tk := g\<rparr>) = stream x w" for g by (simp add: stream_def out_of_def)
  ultimately show ?thesis
    using assms(1-3) by (simp add: handle_packet_def on_chat_def Let_def c_set_nick_def c_join_def c_chat_def)
qed

lemma long_chat_line_reaches_nobody_witness:
  "alive demo_room 1 \<and> alive demo_room 2
   \<and> stream 1 (handle_packet (demo_mode True) 1 c_chat (replicate 1022 0) demo_room) = []
   \<and> stream 2 (handle_packet (demo_mode True) 1 c_chat (replicate 1022 0) demo_room) = []"
proof -
  have "stream x (handle_packet (demo_mode True) 1 c_chat (replicate 1022 0) demo_room) = stream x demo_room" for x
    using long_chat_line_reaches_nobody [of demo_room 1 "conn_init\<lparr>room := [7], nick := [65]\<rparr>" "demo_mode True"
        "replicate 1022 0" x]
    by (simp add: demo_room_def demo_mode_def conn_init_def k_max_payload_def)
  moreover have "stream 1 demo_room = []" "stream 2 demo_room = []" "alive demo_room 1" "alive demo_room 2"
    by (simp_all add: demo_room_def stream_def out_of_def alive_def conn_init_def)
  ultimately show ?thesis by simp
qed

end
