(* ===== verification/LoadWire.thy ===== *)
theory LoadWire
  imports EpollDelivery
begin

text \<open>
  The load generator's wire format (\<^verbatim>\<open>src/client-bench/src/wire.h\<close>, \<^verbatim>\<open>wire.cpp\<close>) and its receive parser
  \<^verbatim>\<open>consume_frames\<close> (\<^verbatim>\<open>traffic.cpp\<close>). The receive slot is the list of its \<^verbatim>\<open>rx_len\<close> buffered bytes. Main result:
  whatever way TCP cuts the stream the epoll server produced, the parser counts every delivery in it
  once and records the latency of exactly the messages this process sent.
\<close>

section \<open>Headers\<close>

record proto =
  len_includes_header :: bool
  id_set_nick :: u16
  id_join :: u16
  id_chat :: u16
  id_notice :: u16
  id_chat_out :: u16
  id_tick_out :: u16

definition g_proto :: proto where
  "g_proto = \<lparr>len_includes_header = False, id_set_nick = 1, id_join = 2, id_chat = 3,
     id_notice = 100, id_chat_out = 101, id_tick_out = 102\<rparr>"

definition k_prefix_slack :: nat where "k_prefix_slack = 16"
definition k_max_blob :: nat where "k_max_blob = k_max_payload - k_prefix_slack"
definition k_blob_header :: nat where "k_blob_header = 20"

definition put_header :: "proto \<Rightarrow> u16 \<Rightarrow> nat \<Rightarrow> bytes" where
  "put_header p type len =
     le_bytes (of_nat (if len_includes_header p then len + k_header_size else len) :: u16) @ le_bytes type"

definition put_frame :: "proto \<Rightarrow> bytes \<Rightarrow> u16 \<Rightarrow> bytes \<Rightarrow> bytes" where
  "put_frame p out type data = out @ put_header p type (length data) @ data"

definition payload_len :: "proto \<Rightarrow> u16 \<Rightarrow> nat option" where
  "payload_len p raw = (if \<not> len_includes_header p then Some (unat raw)
     else if unat raw < k_header_size then None else Some (unat raw - k_header_size))"

section \<open>The receive parser\<close>

record traffic_stats =
  latency :: hist
  self_lag :: hist
  sent :: u64
  frames_in :: u64
  bytes_in :: u64
  samples_bad :: u64
  foreign :: u64
  backpressed :: u64
  lost_conns :: int

definition stats_init :: traffic_stats where
  "stats_init = \<lparr>latency = hist_init, self_lag = hist_init, sent = 0, frames_in = 0, bytes_in = 0,
     samples_bad = 0, foreign = 0, backpressed = 0, lost_conns = 0\<rparr>"

fun memchr :: "byte \<Rightarrow> bytes \<Rightarrow> nat option" where
  "memchr b [] = None"
| "memchr b (x # xs) = (if x = b then Some 0 else map_option Suc (memchr b xs))"

definition bad :: "traffic_stats \<Rightarrow> traffic_stats" where
  "bad st = st\<lparr>samples_bad := samples_bad st + 1\<rparr>"

text \<open>The lambda \<^verbatim>\<open>sample\<close>: one chat payload, one delivery sample.\<close>

definition sample :: "u32 \<Rightarrow> int \<Rightarrow> bytes \<Rightarrow> traffic_stats \<Rightarrow> traffic_stats" where
  "sample node recv_ts p st =
     (if length p < k_blob_header then bad st
      else case memchr 58 p of None \<Rightarrow> bad st
      | Some sep \<Rightarrow>
        if length p < sep + 2 then bad st
        else let blob = drop (sep + 2) p in
          if length blob < k_blob_header then bad st
          else if (le_word (take 4 (drop 12 blob)) :: u32) \<noteq> node then st\<lparr>foreign := foreign st + 1\<rparr>
          else st\<lparr>latency := hist_add (recv_ts - sint (le_word (take 8 blob) :: i64)) (latency st)\<rparr>)"

text \<open>The entries of a tick frame.\<close>

function tick_entries :: "u32 \<Rightarrow> int \<Rightarrow> bytes \<Rightarrow> traffic_stats \<Rightarrow> traffic_stats" where
  "tick_entries node recv_ts bs st =
     (if 2 \<le> length bs then
        let elen = unat (le_word (take 2 bs) :: u16); rest = drop 2 bs in
        if length rest < elen then bad st
        else tick_entries node recv_ts (drop elen rest)
               (sample node recv_ts (take elen rest) (st\<lparr>frames_in := frames_in st + 1\<rparr>))
      else st)"
  by pat_completeness auto
termination by (relation "measure (\<lambda>(node, ts, bs, st). length bs)") auto

declare tick_entries.simps [simp del]

definition count_frame :: "proto \<Rightarrow> u32 \<Rightarrow> int \<Rightarrow> u16 \<Rightarrow> bytes \<Rightarrow> traffic_stats \<Rightarrow> traffic_stats" where
  "count_frame p node recv_ts type payload st =
     (if type = id_tick_out p then tick_entries node recv_ts payload st
      else let st = st\<lparr>frames_in := frames_in st + 1\<rparr> in
        if type \<noteq> id_chat_out p \<or> length payload < k_blob_header then st
        else sample node recv_ts payload st)"

text \<open>\<^verbatim>\<open>consume_frames\<close>: the bytes left in the slot, moved to its front, and the counters.\<close>

function consume_frames :: "proto \<Rightarrow> u32 \<Rightarrow> int \<Rightarrow> bytes \<Rightarrow> traffic_stats \<Rightarrow> bytes \<times> traffic_stats" where
  "consume_frames p node recv_ts rx st =
     (if k_header_size \<le> length rx then
        case payload_len p (le_word (take 2 rx)) of None \<Rightarrow> ([], bad st)
        | Some len \<Rightarrow>
          if length rx < k_header_size + len then (rx, st)
          else consume_frames p node recv_ts (drop (k_header_size + len) rx)
                 (count_frame p node recv_ts (le_word (take 2 (drop 2 rx))) (take len (drop k_header_size rx)) st)
      else (rx, st))"
  by pat_completeness auto
termination by (relation "measure (\<lambda>(p, node, ts, rx, st). length rx)") (auto simp: k_header_size_def)

declare consume_frames.simps [simp del]

section \<open>Round trips\<close>

lemma length_put_header [simp]: "length (put_header p t n) = k_header_size"
  by (simp add: put_header_def k_header_size_def)

lemma put_header_fields:
  "take 2 (put_header p t n @ xs) = le_bytes (of_nat (if len_includes_header p then n + k_header_size else n) :: u16)"
  "take 2 (drop 2 (put_header p t n @ xs)) = le_bytes t"
  by (simp_all add: put_header_def)

lemma payload_len_put_header:
  "n + k_header_size < 2 ^ 16 \<Longrightarrow> payload_len p (le_word (take 2 (put_header p t n @ xs))) = Some n"
  using unat_of_nat_u16 [of "n + k_header_size"] unat_of_nat_u16 [of n]
  by (simp only: put_header_fields) (simp add: payload_len_def k_header_size_def)

text \<open>One whole frame at the front of the slot, under either length convention.\<close>

lemma consume_frame:
  assumes "length d + k_header_size < 2 ^ 16"
  shows "consume_frames p node ts (put_frame p [] t d @ rest) st = consume_frames p node ts rest (count_frame p node ts t d st)"
proof -
  define rx where "rx = put_header p t (length d) @ d @ rest"
  have "payload_len p (le_word (take 2 rx)) = Some (length d)" "(le_word (take 2 (drop 2 rx)) :: u16) = t"
    unfolding rx_def by (rule payload_len_put_header [OF assms]) (simp only: put_header_fields, simp)
  moreover have "k_header_size + length d \<le> length rx" "take (length d) (drop k_header_size rx) = d"
    "drop (k_header_size + length d) rx = rest"
    by (simp_all add: rx_def)
  ultimately show ?thesis
    by (subst consume_frames.simps) (simp add: put_frame_def flip: rx_def)
qed

lemma consume_partial:
  assumes "length rx < k_header_size \<or> (\<exists>len. payload_len p (le_word (take 2 rx)) = Some len \<and> length rx < k_header_size + len)"
  shows "consume_frames p node ts rx st = (rx, st)"
  using assms by (subst consume_frames.simps) auto

text \<open>Under the study convention reading in two pieces is reading at once.\<close>

lemma consume_append:
  assumes "\<not> len_includes_header p"
  shows "consume_frames p node ts (a @ b) st = (case consume_frames p node ts a st of (r, st') \<Rightarrow> consume_frames p node ts (r @ b) st')"
  using assms
proof (induction p node ts a st rule: consume_frames.induct)
  case (1 p node ts rx st)
  show ?case
  proof (cases "k_header_size \<le> length rx \<and> k_header_size + unat (le_word (take 2 rx) :: u16) \<le> length rx")
    case False
    then have "consume_frames p node ts rx st = (rx, st)"
      using 1(2) by (intro consume_partial) (auto simp: payload_len_def)
    then show ?thesis by simp
  next
    case True
    define len where "len = unat (le_word (take 2 rx) :: u16)"
    have len: "payload_len p (le_word (take 2 rx)) = Some len" using 1(2) by (simp add: payload_len_def len_def)
    have hd: "take 2 (rx @ b) = take 2 rx" "take 2 (drop 2 (rx @ b)) = take 2 (drop 2 rx)"
      "take len (drop k_header_size (rx @ b)) = take len (drop k_header_size rx)"
      "drop (k_header_size + len) (rx @ b) = drop (k_header_size + len) rx @ b"
      using True by (auto simp: k_header_size_def len_def)
    have long: "k_header_size \<le> length rx" "k_header_size + len \<le> length rx" using True by (simp_all add: len_def)
    have "consume_frames p node ts (rx @ b) st = consume_frames p node ts (drop (k_header_size + len) rx @ b)
        (count_frame p node ts (le_word (take 2 (drop 2 rx))) (take len (drop k_header_size rx)) st)"
      using long len by (subst consume_frames.simps) (simp only: hd, simp)
    moreover have "consume_frames p node ts rx st = consume_frames p node ts (drop (k_header_size + len) rx)
        (count_frame p node ts (le_word (take 2 (drop 2 rx))) (take len (drop k_header_size rx)) st)"
      using long len by (subst consume_frames.simps) simp
    ultimately show ?thesis using 1(1) [OF long(1) len] long(2) 1(2) by simp
  qed
qed

section \<open>What the server sends\<close>

text \<open>A chat line as it comes back: the nickname the server puts in front, then the blob of \<^verbatim>\<open>run_traffic\<close>
  (intended send time, sequence number, node, client, filler).\<close>

record chat_line =
  l_nick :: bytes
  l_due :: i64
  l_seq :: u32
  l_node :: u32
  l_index :: i32
  l_fill :: bytes

definition make_blob :: "i64 \<Rightarrow> u32 \<Rightarrow> u32 \<Rightarrow> i32 \<Rightarrow> bytes \<Rightarrow> bytes" where
  "make_blob due seq node index fill = le_bytes due @ le_bytes seq @ le_bytes node @ le_bytes index @ fill"

definition line_bytes :: "chat_line \<Rightarrow> bytes" where
  "line_bytes l = l_nick l @ ascii '': '' @ make_blob (l_due l) (l_seq l) (l_node l) (l_index l) (l_fill l)"

datatype delivery = Notice bytes | Chat chat_line | Ticks "chat_line list"

definition tick_entry :: "bytes \<Rightarrow> bytes" where
  "tick_entry line = le_bytes (of_nat (length line) :: u16) @ line"

fun server_frame :: "delivery \<Rightarrow> bytes" where
  "server_frame (Notice p) = frame s_notice p"
| "server_frame (Chat l) = frame s_chat (line_bytes l)"
| "server_frame (Ticks ls) = frame s_tick (concat (map (\<lambda>l. tick_entry (line_bytes l)) ls))"

fun sendable :: "delivery \<Rightarrow> bool" where
  "sendable (Notice p) \<longleftrightarrow> length p \<le> k_max_payload"
| "sendable (Chat l) \<longleftrightarrow> 58 \<notin> set (l_nick l) \<and> length (line_bytes l) \<le> k_max_payload"
| "sendable (Ticks ls) \<longleftrightarrow> (\<forall>l \<in> set ls. 58 \<notin> set (l_nick l))
     \<and> length (concat (map (\<lambda>l. tick_entry (line_bytes l)) ls)) \<le> k_tick_cap"

text \<open>What one delivery should do to the counters.\<close>

definition delivered :: "u32 \<Rightarrow> int \<Rightarrow> chat_line \<Rightarrow> traffic_stats \<Rightarrow> traffic_stats" where
  "delivered node ts l st = (let st = st\<lparr>frames_in := frames_in st + 1\<rparr> in
     if l_node l = node then st\<lparr>latency := hist_add (ts - sint (l_due l)) (latency st)\<rparr>
     else st\<lparr>foreign := foreign st + 1\<rparr>)"

fun effect :: "u32 \<Rightarrow> int \<Rightarrow> delivery \<Rightarrow> traffic_stats \<Rightarrow> traffic_stats" where
  "effect node ts (Notice p) st = st\<lparr>frames_in := frames_in st + 1\<rparr>"
| "effect node ts (Chat l) st = delivered node ts l st"
| "effect node ts (Ticks ls) st = fold (delivered node ts) ls st"

lemma memchr_first: "b \<notin> set xs \<Longrightarrow> memchr b (xs @ b # ys) = Some (length xs)"
  by (induction xs) auto

lemma length_make_blob [simp]: "length (make_blob d s n i f) = k_blob_header + length f"
  by (simp add: make_blob_def k_blob_header_def)

lemma make_blob_fields:
  "take 8 (make_blob d s n i f) = le_bytes d" "take 4 (drop 12 (make_blob d s n i f)) = le_bytes n"
  by (simp_all add: make_blob_def)

lemma sample_line:
  assumes "58 \<notin> set (l_nick l)"
  shows "sample node ts (line_bytes l) (st\<lparr>frames_in := frames_in st + 1\<rparr>) = delivered node ts l st"
proof -
  define blob where "blob = make_blob (l_due l) (l_seq l) (l_node l) (l_index l) (l_fill l)"
  have line: "line_bytes l = l_nick l @ 58 # 32 # blob"
    by (simp add: line_bytes_def blob_def ascii_def of_char_def)
  have "length blob = k_blob_header + length (l_fill l)"
    "take 8 blob = le_bytes (l_due l)" "take 4 (drop 12 blob) = le_bytes (l_node l)"
    by (simp_all only: blob_def length_make_blob make_blob_fields)
  then show ?thesis
    using memchr_first [OF assms, of "32 # blob"] by (auto simp: sample_def line Let_def delivered_def)
qed

lemma tick_entries_lines:
  assumes "\<forall>l \<in> set ls. 58 \<notin> set (l_nick l) \<and> length (line_bytes l) < 2 ^ 16"
  shows "tick_entries node ts (concat (map (\<lambda>l. tick_entry (line_bytes l)) ls)) st = fold (delivered node ts) ls st"
  using assms
proof (induction ls arbitrary: st)
  case Nil
  then show ?case by (subst tick_entries.simps) simp
next
  case (Cons l ls)
  let ?rest = "concat (map (\<lambda>l. tick_entry (line_bytes l)) ls)"
  have "tick_entries node ts (le_bytes (of_nat (length (line_bytes l)) :: u16) @ line_bytes l @ ?rest) st
      = tick_entries node ts ?rest (delivered node ts l st)"
    using Cons.prems sample_line [of l node ts st] unat_of_nat_u16 [of "length (line_bytes l)"]
    by (subst tick_entries.simps) (simp add: Let_def)
  then show ?case using Cons by (simp add: tick_entry_def)
qed

lemma consume_delivery:
  assumes "sendable d"
  shows "consume_frames g_proto node ts (server_frame d @ rest) st = consume_frames g_proto node ts rest (effect node ts d st)"
proof -
  have fr: "frame t p = put_frame g_proto [] t p" for t p
    by (simp add: frame_def wire_header_def put_frame_def put_header_def g_proto_def)
  have consume: "consume_frames g_proto node ts (frame t p @ rest) st
      = consume_frames g_proto node ts rest (count_frame g_proto node ts t p st)" if "length p \<le> k_tick_cap" for t p
    unfolding fr by (rule consume_frame) (use that in \<open>simp add: k_tick_cap_def k_header_size_def\<close>)
  show ?thesis
  proof (cases d)
    case (Notice p)
    then show ?thesis
      using assms consume by (simp add: count_frame_def g_proto_def s_notice_def k_max_payload_def k_tick_cap_def)
  next
    case (Chat l)
    have "k_blob_header \<le> length (line_bytes l)" by (simp add: line_bytes_def)
    then have "count_frame g_proto node ts s_chat (line_bytes l) st = delivered node ts l st"
      using sample_line [of l node ts st] assms Chat by (simp add: count_frame_def g_proto_def s_chat_def)
    then show ?thesis
      using assms Chat consume [of "line_bytes l"] by (simp add: k_max_payload_def k_tick_cap_def)
  next
    case (Ticks ls)
    have "length (line_bytes l) \<le> length (concat (map (\<lambda>l. tick_entry (line_bytes l)) ls))" if "l \<in> set ls" for l
      using split_list [OF that] by (auto simp: tick_entry_def)
    then have "\<forall>l \<in> set ls. 58 \<notin> set (l_nick l) \<and> length (line_bytes l) < 2 ^ 16"
      using assms Ticks by (fastforce simp: k_tick_cap_def)
    from tick_entries_lines [OF this]
    have "count_frame g_proto node ts s_tick (concat (map (\<lambda>l. tick_entry (line_bytes l)) ls)) st
        = fold (delivered node ts) ls st"
      by (simp add: count_frame_def g_proto_def s_tick_def)
    then show ?thesis
      using assms Ticks consume [of "concat (map (\<lambda>l. tick_entry (line_bytes l)) ls)"] by simp
  qed
qed

lemma consume_deliveries:
  "\<forall>d \<in> set ds. sendable d \<Longrightarrow>
    consume_frames g_proto node ts (concat (map server_frame ds)) st = ([], fold (effect node ts) ds st)"
proof (induction ds arbitrary: st)
  case Nil
  then show ?case by (simp add: consume_partial k_header_size_def)
next
  case (Cons d ds)
  then show ?case by (simp add: consume_delivery)
qed

text \<open>Reading a stream in pieces, each parsed as it arrives.\<close>

definition receive :: "u32 \<Rightarrow> int \<Rightarrow> bytes \<Rightarrow> bytes \<times> traffic_stats \<Rightarrow> bytes \<times> traffic_stats" where
  "receive node ts chunk s = consume_frames g_proto node ts (fst s @ chunk) (snd s)"

lemma receive_chunks:
  "consume_frames g_proto node ts rx st = (rx, st) \<Longrightarrow>
    fold (receive node ts) chunks (rx, st) = consume_frames g_proto node ts (rx @ concat chunks) st"
proof (induction chunks arbitrary: rx st)
  case Nil
  then show ?case by simp
next
  case (Cons c cs)
  have app: "consume_frames g_proto node ts (a @ b) st
      = (case consume_frames g_proto node ts a st of (r, st') \<Rightarrow> consume_frames g_proto node ts (r @ b) st')" for a b st
    by (rule consume_append) (simp add: g_proto_def)
  obtain r st' where r: "consume_frames g_proto node ts (rx @ c) st = (r, st')" by fastforce
  then have "consume_frames g_proto node ts r st' = (r, st')" using app [of "rx @ c" "[]" st] by simp
  then show ?case
    using Cons.IH [of r st'] app [of "rx @ c" "concat cs" st] r by (simp add: receive_def)
qed

text \<open>
  C27. The load generator reads back exactly what the epoll server wrote: however TCP cuts a stream of
  server frames (notices, chat lines, tick frames carrying many lines), feeding the pieces to
  \<^verbatim>\<open>consume_frames\<close> leaves an empty slot, counts every notice and every chat line once, adds one latency
  sample, receive time minus intended send time, for each line stamped with this node, counts the
  other lines as foreign, and never counts anything as unparsed.
\<close>
theorem loadgen_measures_what_server_sends:
  assumes "\<forall>d \<in> set ds. sendable d" "concat chunks = concat (map server_frame ds)"
  shows "fold (receive node ts) chunks ([], st) = ([], fold (effect node ts) ds st)"
  using receive_chunks [of node ts "[]" st chunks] consume_deliveries [OF assms(1), of node ts st]
  by (simp add: assms(2) consume_partial k_header_size_def)

definition demo_line :: chat_line where
  "demo_line = \<lparr>l_nick = [110, 48], l_due = 5000, l_seq = 0, l_node = 7, l_index = 3, l_fill = [97]\<rparr>"

lemma loadgen_measures_what_server_sends_witness:
  "fold (receive 7 8000) (map (\<lambda>b. [b]) (server_frame (Chat demo_line))) ([], stats_init)
   = ([], stats_init\<lparr>frames_in := 1, latency := hist_add 3000 hist_init\<rparr>)"
proof -
  have s: "concat (map (\<lambda>b. [b]) (server_frame (Chat demo_line))) = concat (map server_frame [Chat demo_line])"
    by (simp only: concat_map_singleton) simp
  have ok: "\<forall>d \<in> set [Chat demo_line]. sendable d"
    by (simp add: demo_line_def line_bytes_def ascii_def k_max_payload_def k_blob_header_def)
  from loadgen_measures_what_server_sends [OF ok s, of 7 8000 stats_init] show ?thesis
    by (simp add: delivered_def demo_line_def stats_init_def)
qed

end
