(* ===== verification/LoadNet.thy ===== *)
theory LoadNet
  imports LoadWire "HOL-Library.Sublist"
begin

text \<open>
  The load generator's sockets (\<^verbatim>\<open>src/client-bench/src/netutil.cpp\<close>, \<^verbatim>\<open>conn.h\<close>): the non-blocking send and
  receive helpers and the receive slab. As for the server, the kernel's answers are scripts, an
  exhausted script answers \<^verbatim>\<open>EAGAIN\<close>, and the bytes the kernel took are collected. A \<^verbatim>\<open>send\<close> of a nonempty
  buffer does not return 0; the script entry \<open>Sent 0\<close> is read as a hard error.
  The receive slot of a descriptor is its slice of the slab; the null slot of a descriptor beyond the slab does not
  arise, because the slab has a slot for every descriptor (\<open>conn_table_fits\<close> in \<open>LoadMain\<close>).
\<close>

section \<open>Connections\<close>

datatype conn_state = St_none | St_connecting | St_ready | St_dead

record client =
  cl_state :: conn_state
  cl_index :: int
  cl_seq :: u32
  cl_pending :: bytes
  cl_rx :: bytes

definition client_init :: client where
  "client_init = \<lparr>cl_state = St_none, cl_index = - 1, cl_seq = 0, cl_pending = [], cl_rx = []\<rparr>"

definition k_rx_cap :: nat where "k_rx_cap = 64 * 1024"

section \<open>Limits and source addresses\<close>

text \<open>\<^verbatim>\<open>raise_fd_limit\<close>: the soft limit reached and whether the call succeeded; \<open>lim\<close> is what \<^verbatim>\<open>getrlimit\<close> gave
  (soft, hard), \<open>set_ok\<close> whether \<^verbatim>\<open>setrlimit\<close> succeeds. \<open>got\<close> is untouched when \<^verbatim>\<open>getrlimit\<close> fails.\<close>

definition raise_fd_limit :: "(nat \<times> nat) option \<Rightarrow> bool \<Rightarrow> nat \<Rightarrow> nat \<Rightarrow> bool \<times> nat" where
  "raise_fd_limit lim set_ok want got = (case lim of None \<Rightarrow> (False, got)
     | Some (cur, hard) \<Rightarrow> let target = (if hard < want then hard else want) in
         if cur < target \<and> \<not> set_ok then (False, cur) else (True, target))"

text \<open>The last octet of the source address; \<open>None\<close> when the socket is left unbound.\<close>

definition bind_octet :: "int \<Rightarrow> int \<Rightarrow> int \<Rightarrow> int option" where
  "bind_octet src_ips src_ip_base i = (if src_ips \<le> 1 then None else Some (src_ip_base + i mod src_ips))"

text \<open>\<^verbatim>\<open>start_connect\<close>: the answers of \<^verbatim>\<open>socket\<close> (a descriptor or an error), of the bind and of \<^verbatim>\<open>connect\<close>
  (\<open>None\<close> is success or \<^verbatim>\<open>EINPROGRESS\<close>). On failure the socket is closed.\<close>

definition start_connect :: "int + nat \<Rightarrow> int option \<Rightarrow> int option \<Rightarrow> int + nat" where
  "start_connect sock bound conn = (case sock of Inl err \<Rightarrow> Inl err
     | Inr fd \<Rightarrow> case bound of Some err \<Rightarrow> Inl err
       | None \<Rightarrow> case conn of Some err \<Rightarrow> Inl err | None \<Rightarrow> Inr fd)"

text \<open>The slab: the byte range of a descriptor's slot.\<close>

definition rx_slab_ptr :: "nat \<Rightarrow> int \<Rightarrow> nat option" where
  "rx_slab_ptr n_slots fd = (if fd < 0 \<or> n_slots \<le> nat fd then None else Some (nat fd * k_rx_cap))"

section \<open>Sending\<close>

text \<open>What a send leaves: the script, the bytes the kernel took, \<^verbatim>\<open>pending\<close>, and the return value.\<close>

definition flush_pending :: "send_res list \<Rightarrow> bytes \<Rightarrow> send_res list \<times> bytes \<times> bytes \<times> bool" where
  "flush_pending script pend = (case send_loop script pend of (script, took, left, failed) \<Rightarrow> (script, took, left, \<not> failed))"

definition send_frame :: "send_res list \<Rightarrow> bytes \<Rightarrow> bytes \<Rightarrow> send_res list \<times> bytes \<times> bytes \<times> bool" where
  "send_frame script pend fr =
     (if pend \<noteq> [] then flush_pending script (pend @ fr)
      else case send_loop script fr of (script, took, left, failed) \<Rightarrow>
        if failed then (script, took, pend, False) else (script, took, left, True))"

text \<open>The traffic of one connection: frames handed to \<^verbatim>\<open>send_frame\<close> and \<^verbatim>\<open>EPOLLOUT\<close> flushes, until one fails.\<close>

datatype tx_op = Frame bytes | Flush

record tx =
  tx_script :: "send_res list"
  tx_wire :: bytes
  tx_pending :: bytes
  tx_ok :: bool

definition tx_step :: "tx_op \<Rightarrow> tx \<Rightarrow> tx" where
  "tx_step op s = (if \<not> tx_ok s then s else
     case (case op of Frame fr \<Rightarrow> send_frame (tx_script s) (tx_pending s) fr
           | Flush \<Rightarrow> flush_pending (tx_script s) (tx_pending s))
     of (script, took, pend, ok) \<Rightarrow> \<lparr>tx_script = script, tx_wire = tx_wire s @ took, tx_pending = pend, tx_ok = ok\<rparr>)"

fun tx_bytes :: "tx_op \<Rightarrow> bytes" where
  "tx_bytes (Frame fr) = fr"
| "tx_bytes Flush = []"

definition tx_inv :: "bytes \<Rightarrow> tx \<Rightarrow> bool" where
  "tx_inv bs s \<longleftrightarrow> prefix (tx_wire s) bs \<and> (tx_ok s \<longrightarrow> tx_wire s @ tx_pending s = bs)"

lemma send_frame_split:
  assumes "send_frame script pend fr = (script', took, pend', ok)"
  shows "prefix took (pend @ fr) \<and> (ok \<longrightarrow> took @ pend' = pend @ fr)"
proof -
  obtain s t l f where "send_loop script (pend @ fr) = (s, t, l, f)" by (metis prod_cases4)
  then show ?thesis
    using assms send_loop_split [of script "pend @ fr" s t l f]
    by (auto simp: send_frame_def flush_pending_def intro: prefixI [OF sym] split: if_splits)
qed

lemma flush_pending_split:
  "flush_pending script pend = (script', took, pend', ok) \<Longrightarrow> took @ pend' = pend"
  using send_loop_split by (fastforce simp: flush_pending_def split: prod.splits)

lemma tx_step_inv: "tx_inv bs s \<Longrightarrow> tx_inv (bs @ tx_bytes op) (tx_step op s)"
proof (cases "tx_ok s")
  case False
  then show "tx_inv bs s \<Longrightarrow> ?thesis" by (simp add: tx_inv_def tx_step_def prefix_def) fastforce
next
  case True
  assume inv: "tx_inv bs s"
  show ?thesis
  proof (cases op)
    case (Frame fr)
    obtain script took pend ok where r: "send_frame (tx_script s) (tx_pending s) fr = (script, took, pend, ok)"
      by (metis prod_cases4)
    then show ?thesis
      using send_frame_split [OF r] inv True Frame by (auto simp: tx_inv_def tx_step_def)
  next
    case Flush
    obtain script took pend ok where r: "flush_pending (tx_script s) (tx_pending s) = (script, took, pend, ok)"
      by (metis prod_cases4)
    then show ?thesis
      using flush_pending_split [OF r] inv True Flush by (auto simp: tx_inv_def tx_step_def intro: prefixI [OF sym])
  qed
qed

text \<open>
  C28. The load generator never reorders, repeats or invents outgoing bytes: whatever frames it submits
  and whenever it flushes, and whatever partial sends, interrupts and errors the socket answers, the
  bytes the kernel took are a prefix of the frames in submission order, and as long as no call has
  failed the bytes taken plus the pending tail are exactly those frames.
\<close>
theorem loadgen_stream_intact:
  "tx_inv (concat (map tx_bytes ops)) (fold tx_step ops \<lparr>tx_script = script, tx_wire = [], tx_pending = [], tx_ok = True\<rparr>)"
proof (induction ops rule: rev_induct)
  case Nil
  then show ?case by (simp add: tx_inv_def)
next
  case (snoc op ops)
  then show ?case using tx_step_inv [OF snoc.IH, of op] by simp
qed

section \<open>Receiving\<close>

text \<open>\<^verbatim>\<open>recv\<close> with room for \<open>n\<close> bytes: what does not fit stays in the socket.\<close>

definition unread :: "nat \<Rightarrow> bytes \<Rightarrow> recv_res list \<Rightarrow> recv_res list" where
  "unread n bs script = (if length bs \<le> n then script else Got (drop n bs) # script)"

lemma unread_weight:
  "bs \<noteq> [] \<Longrightarrow> 0 < n \<Longrightarrow> sum_list (map recv_weight (unread n bs script)) < Suc (length bs + sum_list (map recv_weight script))"
  by (cases bs) (auto simp: unread_def)

text \<open>The slot, the bytes received so far, the remaining script; then the return value.\<close>

function read_available :: "recv_res list \<Rightarrow> bytes \<Rightarrow> u64 \<Rightarrow> recv_res list \<times> bytes \<times> u64 \<times> bool" where
  "read_available script slot n_in =
     (let room = k_rx_cap - length slot in
      if room = 0 then (script, slot, n_in, False)
      else case script of
        [] \<Rightarrow> ([], slot, n_in, True)
      | R_EAGAIN # script \<Rightarrow> (script, slot, n_in, True)
      | R_EINTR # script \<Rightarrow> read_available script slot n_in
      | R_error # script \<Rightarrow> (script, slot, n_in, False)
      | Got bs # script \<Rightarrow>
          if bs = [] then (script, slot, n_in, False)
          else let got = take room bs; n_in = n_in + of_nat (length got) in
            if length got < room then (script, slot @ got, n_in, True)
            else read_available (unread room bs script) (slot @ got) n_in)"
  by pat_completeness auto
termination
  by (relation "measure (\<lambda>(script, slot, n_in). sum_list (map recv_weight script))") (auto simp: unread_weight)

declare read_available.simps [simp del]

lemma read_available_full: "k_rx_cap \<le> length slot \<Longrightarrow> read_available script slot n_in = (script, slot, n_in, False)"
  by (subst read_available.simps) (simp add: Let_def)

lemma read_available_bounded:
  "read_available script slot n_in = (script', slot', n_in', ok) \<Longrightarrow> length slot \<le> k_rx_cap \<Longrightarrow>
    length slot' \<le> k_rx_cap \<and> (ok \<longrightarrow> length slot' < k_rx_cap) \<and> (\<exists>got. slot' = slot @ got)"
proof (induction script slot n_in arbitrary: script' slot' n_in' ok rule: read_available.induct)
  case (1 script slot n_in)
  show ?case
  proof (cases "length slot = k_rx_cap")
    case True
    then show ?thesis using 1(3) by (simp add: read_available_full)
  next
    case False
    then have room: "k_rx_cap - length slot \<noteq> 0" "length slot < k_rx_cap" using 1(4) by auto
    show ?thesis
    proof (cases script)
      case Nil
      then show ?thesis using 1(3) room by (subst (asm) read_available.simps) (simp add: Let_def)
    next
      case (Cons r rest)
      show ?thesis
      proof (cases r)
        case (Got bs)
        define k where "k = k_rx_cap - length slot"
        consider "bs = []" | "bs \<noteq> []" "length bs < k" | "bs \<noteq> []" "k \<le> length bs" by linarith
        then show ?thesis
        proof cases
          case 3
          have "read_available script slot n_in = read_available (unread k bs rest) (slot @ take k bs) (n_in + of_nat k)"
            using 3 room Cons Got by (subst read_available.simps) (simp add: Let_def min_absorb2 flip: k_def)
          moreover have "length (slot @ take k bs) = k_rx_cap" using 3 room by (simp add: k_def)
          ultimately show ?thesis using 1(3) by (auto simp: read_available_full)
        qed (use 1(3) room Cons Got in \<open>subst (asm) read_available.simps, auto simp: Let_def k_def min_def split: if_splits\<close>)+
      next
        case R_EINTR
        then have "read_available rest slot n_in = (script', slot', n_in', ok)"
          using 1(3) room Cons by (subst (asm) read_available.simps) (simp add: Let_def)
        then show ?thesis using 1(2) [OF refl room(1) Cons R_EINTR] 1(4) by simp
      qed (use 1(3) room Cons in \<open>subst (asm) read_available.simps, simp add: Let_def\<close>)+
    qed
  qed
qed

text \<open>
  C33. A read that fills the receive slot kills the connection: when the socket holds at least as many
  bytes as the slot has room for, \<^verbatim>\<open>read_available\<close> stores them, goes round for more, finds no room and
  returns false, which both phases take as a dead peer, although the peer is healthy and the slot may
  hold nothing but complete frames.
\<close>
theorem full_slot_read_reports_dead:
  assumes "length slot < k_rx_cap" "k_rx_cap - length slot \<le> length bs"
  shows "read_available (Got bs # script) slot n_in =
    (unread (k_rx_cap - length slot) bs script, slot @ take (k_rx_cap - length slot) bs,
     n_in + of_nat (k_rx_cap - length slot), False)"
proof -
  define k where "k = k_rx_cap - length slot"
  have "bs \<noteq> []" "k \<noteq> 0" using assms by (auto simp: k_def)
  then have "read_available (Got bs # script) slot n_in = read_available (unread k bs script) (slot @ take k bs) (n_in + of_nat k)"
    using assms by (subst read_available.simps) (simp add: Let_def min_absorb2 flip: k_def)
  also have "\<dots> = (unread k bs script, slot @ take k bs, n_in + of_nat k, False)"
    using assms by (intro read_available_full) (simp add: k_def)
  finally show ?thesis by (simp add: k_def)
qed

lemma full_slot_read_reports_dead_witness:
  "snd (snd (snd (read_available [Got (replicate 65536 0)] [] 0))) = False"
  using full_slot_read_reports_dead [of "[]" "replicate 65536 0" "[]" 0] by (simp add: k_rx_cap_def)

end
