(* ===== verification/LoadConfig.thy ===== *)
theory LoadConfig
  imports LoadNet Complex_Main
begin

text \<open>
  The load generator's command line (\<^verbatim>\<open>src/client-bench/src/config.cpp\<close>) and its chat corpus
  (\<^verbatim>\<open>corpus.cpp\<close>). \<^verbatim>\<open>int\<close> values are integers in the range of 32 bits; a \<^verbatim>\<open>double\<close> is a rational, an infinity
  or not a number, and the reading of one from text is the parameter \<open>atof\<close>. The text pools of \<^verbatim>\<open>corpus_data.cpp\<close>, a generated table, are
  parameters. Shown: what an accepted command line guarantees, and that every corpus line fits the
  byte budget, keeps whole UTF-8 characters and wastes less than one character of the budget.
\<close>

section \<open>Command line\<close>

text \<open>The two comparisons with zero the program makes. Neither holds of a NaN; the signed zeros compare
  equal and are one value here.\<close>

datatype double = Finite rat | Pos_Inf | Neg_Inf | Not_A_Num

fun below_zero :: "double \<Rightarrow> bool" where
  "below_zero (Finite r) = (r < 0)"
| "below_zero Neg_Inf = True"
| "below_zero _ = False"

fun not_above_zero :: "double \<Rightarrow> bool" where
  "not_above_zero (Finite r) = (r \<le> 0)"
| "not_above_zero Neg_Inf = True"
| "not_above_zero _ = False"

record config =
  cfg_host :: string
  cfg_port :: u16
  cfg_conns :: int
  cfg_per_room :: int
  cfg_src_ips :: int
  cfg_src_ip_base :: int
  cfg_inflight :: int
  cfg_rcvbuf :: int
  cfg_sndbuf :: int
  cfg_rate :: double
  cfg_duration :: int
  cfg_size :: int
  cfg_size_mix :: bool
  cfg_node :: u32
  cfg_use_corpus :: bool
  cfg_corpus_seed :: u32
  cfg_dump :: string
  cfg_server_pid :: int

definition config_init :: config where
  "config_init = \<lparr>cfg_host = ''127.0.0.1'', cfg_port = 9000, cfg_conns = 10000, cfg_per_room = 10, cfg_src_ips = 1,
     cfg_src_ip_base = 1, cfg_inflight = 256, cfg_rcvbuf = 8192, cfg_sndbuf = 8192, cfg_rate = Finite 1, cfg_duration = 10,
     cfg_size = 64, cfg_size_mix = False, cfg_node = 0, cfg_use_corpus = False, cfg_corpus_seed = 1, cfg_dump = [],
     cfg_server_pid = 0\<rparr>"

definition k_size_classes :: "int list" where
  "k_size_classes = [16, 32, 256, 1000]"

text \<open>\<^verbatim>\<open>atoi\<close>: white space, a sign, digits; \<^verbatim>\<open>strtol\<close> saturates at 64 bits and the result is cut to 32.\<close>

fun digits_value :: "string \<Rightarrow> int \<Rightarrow> int" where
  "digits_value [] acc = acc"
| "digits_value (ch # s) acc = (let d = of_char ch - (48 :: int) in
     if 0 \<le> d \<and> d \<le> 9 then digits_value s (acc * 10 + d) else acc)"

definition signed_value :: "string \<Rightarrow> int" where
  "signed_value s = (case s of [] \<Rightarrow> 0
     | ch # t \<Rightarrow> if ch = CHR ''-'' then - digits_value t 0 else if ch = CHR ''+'' then digits_value t 0 else digits_value s 0)"

definition is_space :: "char \<Rightarrow> bool" where
  "is_space ch \<longleftrightarrow> (of_char ch :: nat) \<in> {9, 10, 11, 12, 13, 32}"

definition to_i32 :: "int \<Rightarrow> int" where
  "to_i32 x = (x + 2 ^ 31) mod 2 ^ 32 - 2 ^ 31"

definition atoi :: "string \<Rightarrow> int" where
  "atoi s = to_i32 (max (- (2 ^ 63)) (min (2 ^ 63 - 1) (signed_value (dropWhile is_space s))))"

type_synonym args = "config \<times> proto"

text \<open>Options with one integer argument (the uses of \<^verbatim>\<open>next_int\<close> on a field).\<close>

definition int_option :: "string \<Rightarrow> (int \<Rightarrow> config \<Rightarrow> config) option" where
  "int_option a =
     (if a = ''--conns'' then Some (\<lambda>n c. c\<lparr>cfg_conns := n\<rparr>)
      else if a = ''--per-room'' then Some (\<lambda>n c. c\<lparr>cfg_per_room := n\<rparr>)
      else if a = ''--src-ips'' then Some (\<lambda>n c. c\<lparr>cfg_src_ips := n\<rparr>)
      else if a = ''--src-ip-base'' then Some (\<lambda>n c. c\<lparr>cfg_src_ip_base := n\<rparr>)
      else if a = ''--server-pid'' then Some (\<lambda>n c. c\<lparr>cfg_server_pid := n\<rparr>)
      else if a = ''--inflight'' then Some (\<lambda>n c. c\<lparr>cfg_inflight := n\<rparr>)
      else if a = ''--rcvbuf'' then Some (\<lambda>n c. c\<lparr>cfg_rcvbuf := n\<rparr>)
      else if a = ''--sndbuf'' then Some (\<lambda>n c. c\<lparr>cfg_sndbuf := n\<rparr>)
      else if a = ''--duration'' then Some (\<lambda>n c. c\<lparr>cfg_duration := n\<rparr>)
      else if a = ''--size'' then Some (\<lambda>n c. c\<lparr>cfg_size := n\<rparr>)
      else None)"

text \<open>One argument: how many of the following arguments it takes, and the new settings; \<open>None\<close> rejects
  the command line.\<close>

definition parse_one :: "(string \<Rightarrow> double) \<Rightarrow> string \<Rightarrow> string list \<Rightarrow> args \<Rightarrow> (nat \<times> args) option" where
  "parse_one atof a rest s = (case s of (c, p) \<Rightarrow>
     (if a = ''--host'' \<and> rest \<noteq> [] then Some (1, c\<lparr>cfg_host := hd rest\<rparr>, p)
      else if a = ''--port'' \<and> rest \<noteq> [] then Some (1, c\<lparr>cfg_port := word_of_int (atoi (hd rest))\<rparr>, p)
      else if a = ''--rate'' \<and> rest \<noteq> [] then Some (1, c\<lparr>cfg_rate := atof (hd rest)\<rparr>, p)
      else if a = ''--size-mix'' then Some (0, c\<lparr>cfg_size_mix := True\<rparr>, p)
      else if a = ''--corpus'' then Some (0, c\<lparr>cfg_use_corpus := True\<rparr>, p)
      else if a = ''--corpus-seed'' then
        (if rest = [] \<or> atoi (hd rest) < 0 then None
         else Some (1, c\<lparr>cfg_corpus_seed := word_of_int (atoi (hd rest))\<rparr>, p))
      else if a = ''--proto'' \<and> rest \<noteq> [] then
        (if hd rest = ''study'' then Some (1, c, p\<lparr>len_includes_header := False\<rparr>)
         else if hd rest = ''iouring'' then Some (1, c, p\<lparr>len_includes_header := True\<rparr>) else None)
      else if a = ''--dump'' \<and> rest \<noteq> [] then Some (1, c\<lparr>cfg_dump := hd rest\<rparr>, p)
      else if a = ''--node'' then
        (if rest = [] \<or> atoi (hd rest) < 0 then None
         else Some (1, c\<lparr>cfg_node := word_of_int (atoi (hd rest))\<rparr>, p))
      else case int_option a of None \<Rightarrow> None
        | Some f \<Rightarrow> if rest = [] then None else Some (1, f (atoi (hd rest)) c, p)))"

function parse_loop :: "(string \<Rightarrow> double) \<Rightarrow> string list \<Rightarrow> args \<Rightarrow> args option" where
  "parse_loop atof [] s = Some s"
| "parse_loop atof (a # rest) s = (case parse_one atof a rest s of None \<Rightarrow> None
     | Some (k, s') \<Rightarrow> parse_loop atof (drop k rest) s')"
  by pat_completeness auto
termination by (relation "measure (\<lambda>(f, as, s). length as)") auto

text \<open>The checks after the loop. The sum \<^verbatim>\<open>src_ip_base + src_ips\<close> is signed 32-bit arithmetic: beyond the
  range the behaviour is undefined.\<close>

definition check_config :: "config \<Rightarrow> config option res" where
  "check_config c =
     (if cfg_conns c \<le> 0 \<or> cfg_per_room c \<le> 0 \<or> cfg_src_ips c \<le> 0 \<or> cfg_inflight c \<le> 0 then Inr None
      else if cfg_src_ip_base c < 1 then Inr None
      else if 2 ^ 31 \<le> cfg_src_ip_base c + cfg_src_ips c then Inl Undefined
      else if 255 < cfg_src_ip_base c + cfg_src_ips c - 1 then Inr None
      else if cfg_server_pid c < 0 then Inr None
      else if below_zero (cfg_rate c) \<or> cfg_duration c < 0 then Inr None
      else let sz = (if cfg_size c < 0 then 0 else cfg_size c) in
        Inr (Some (c\<lparr>cfg_size := (if int k_max_blob < sz + int k_blob_header
                                   then int (k_max_blob - k_blob_header) else sz)\<rparr>)))"

definition parse_args :: "(string \<Rightarrow> double) \<Rightarrow> string list \<Rightarrow> args option res" where
  "parse_args atof argv = (case parse_loop atof argv (config_init, g_proto) of None \<Rightarrow> Inr None
     | Some (c, p) \<Rightarrow> map_sum id (map_option (\<lambda>c. (c, p))) (check_config c))"

text \<open>Settings the rest of the program may rely on.\<close>

definition config_ok :: "config \<Rightarrow> bool" where
  "config_ok c \<longleftrightarrow> 0 < cfg_conns c \<and> 0 < cfg_per_room c \<and> 0 < cfg_inflight c
     \<and> 1 \<le> cfg_src_ip_base c \<and> 1 \<le> cfg_src_ips c \<and> cfg_src_ip_base c + cfg_src_ips c \<le> 256
     \<and> 0 \<le> cfg_server_pid c \<and> \<not> below_zero (cfg_rate c) \<and> 0 \<le> cfg_duration c
     \<and> 0 \<le> cfg_size c \<and> cfg_size c + int k_blob_header \<le> int k_max_blob"

lemma check_config_ok: "check_config c = Inr (Some c') \<Longrightarrow> config_ok c'"
  by (auto simp: check_config_def config_ok_def Let_def k_max_blob_def k_max_payload_def k_prefix_slack_def
      k_blob_header_def split: if_splits)

lemma parse_args_ok: "parse_args atof argv = Inr (Some (c, p)) \<Longrightarrow> config_ok c"
  by (auto simp: parse_args_def map_sum_def split: option.splits sum.splits elim!: check_config_ok)

lemma atoi_range: "- (2 ^ 31) \<le> atoi s \<and> atoi s < 2 ^ 31"
  unfolding atoi_def to_i32_def by simp

lemma bind_octet_range: "config_ok c \<Longrightarrow> bind_octet (cfg_src_ips c) (cfg_src_ip_base c) i = Some o' \<Longrightarrow> 1 \<le> o' \<and> o' \<le> 255"
proof -
  assume c: "config_ok c" and o: "bind_octet (cfg_src_ips c) (cfg_src_ip_base c) i = Some o'"
  have "0 \<le> i mod cfg_src_ips c" "i mod cfg_src_ips c < cfg_src_ips c" using c by (simp_all add: config_ok_def)
  moreover have "o' = cfg_src_ip_base c + i mod cfg_src_ips c" "1 \<le> cfg_src_ip_base c"
      "cfg_src_ip_base c + cfg_src_ips c \<le> 256"
    using c o by (simp_all add: config_ok_def bind_octet_def split: if_splits)
  ultimately show ?thesis by linarith
qed

text \<open>
  C35. A command line that is accepted yields settings the rest of the program can rely on, whatever the
  arguments were: positive counts, source addresses that stay inside 127.0.0.1 to 127.0.0.255 for every
  connection index, no negative duration or process id, a message size whose blob fits the
  payload budget, and a rate that does not compare below zero. Such a rate is a number that is not
  negative, infinite, or not a number at all: the check lets the last two through.
\<close>
theorem accepted_settings_in_range:
  assumes "parse_args atof argv = Inr (Some (c, p))"
  shows "0 < cfg_conns c \<and> 0 < cfg_per_room c \<and> 0 < cfg_inflight c \<and> 0 \<le> cfg_server_pid c
    \<and> (case cfg_rate c of Finite r \<Rightarrow> 0 \<le> r | Neg_Inf \<Rightarrow> False | Pos_Inf \<Rightarrow> True | Not_A_Num \<Rightarrow> True)
    \<and> 0 \<le> cfg_duration c \<and> 0 \<le> cfg_size c \<and> nat (cfg_size c) + k_blob_header \<le> k_max_blob
    \<and> (case bind_octet (cfg_src_ips c) (cfg_src_ip_base c) i of None \<Rightarrow> True | Some octet \<Rightarrow> 1 \<le> octet \<and> octet \<le> 255)"
proof -
  have ok: "config_ok c" using parse_args_ok [OF assms] .
  then have "nat (cfg_size c) + k_blob_header \<le> k_max_blob"
    unfolding config_ok_def by linarith
  moreover have "case cfg_rate c of Finite r \<Rightarrow> 0 \<le> r | Neg_Inf \<Rightarrow> False | Pos_Inf \<Rightarrow> True | Not_A_Num \<Rightarrow> True"
    using ok by (cases "cfg_rate c") (simp_all add: config_ok_def)
  ultimately show ?thesis using ok bind_octet_range [OF ok] by (auto simp: config_ok_def split: option.split)
qed

lemma accepted_settings_in_range_witness:
  "\<exists>c. parse_args (\<lambda>_. Finite 1) [''--size'', ''5000'', ''--src-ips'', ''3''] = Inr (Some (c, g_proto))
     \<and> nat (cfg_size c) + k_blob_header \<le> k_max_blob \<and> bind_octet (cfg_src_ips c) (cfg_src_ip_base c) 5 = Some 3"
proof -
  let ?c = "config_init\<lparr>cfg_size := 988, cfg_src_ips := 3\<rparr>"
  have "atoi ''5000'' = 5000" "atoi ''3'' = 3"
    by (simp_all add: atoi_def is_space_def signed_value_def to_i32_def Let_def)
  then have p: "parse_args (\<lambda>_. Finite 1) [''--size'', ''5000'', ''--src-ips'', ''3''] = Inr (Some (?c, g_proto))"
    by (simp add: parse_args_def parse_one_def int_option_def check_config_def config_init_def k_max_blob_def
        k_max_payload_def k_prefix_slack_def k_blob_header_def Let_def)
  then show ?thesis
    using accepted_settings_in_range [OF p, of 5] by (intro exI [of _ ?c]) (simp add: bind_octet_def config_init_def)
qed

text \<open>\<^verbatim>\<open>--rate nan\<close> passes the check.\<close>

lemma nan_rate_accepted:
  "parse_args (\<lambda>_. Not_A_Num) [''--rate'', ''nan''] = Inr (Some (config_init\<lparr>cfg_rate := Not_A_Num\<rparr>, g_proto))"
  by (simp add: parse_args_def parse_one_def int_option_def check_config_def config_init_def k_max_blob_def
      k_max_payload_def k_prefix_slack_def k_blob_header_def Let_def)

section \<open>Corpus\<close>

definition lcg_mul :: u64 where "lcg_mul = 6364136223846793005"
definition lcg_inc :: u64 where "lcg_inc = 1442695040888963407"

definition lcg :: "u32 \<Rightarrow> u64" where
  "lcg seed = ucast seed * lcg_mul + lcg_inc"

definition lcg_next :: "u64 \<Rightarrow> u32 \<times> u64" where
  "lcg_next s = (let s = s * lcg_mul + lcg_inc in (ucast (drop_bit 33 s), s))"

definition lcg_pick :: "nat \<Rightarrow> u64 \<Rightarrow> nat \<times> u64" where
  "lcg_pick n s = (let (x, s) = lcg_next s in (unat x mod n, s))"

definition lcg_roll :: "u64 \<Rightarrow> nat \<times> u64" where
  "lcg_roll s = (let (x, s) = lcg_next s in (unat x mod 100, s))"

definition pick_from :: "bytes list \<Rightarrow> u64 \<Rightarrow> bytes \<times> u64" where
  "pick_from arr s = (let (i, s) = lcg_pick (length arr) s in (arr ! i, s))"

text \<open>The five pools of \<^verbatim>\<open>corpus_data\<close>.\<close>

record pools =
  k_tiny :: "bytes list"
  k_short :: "bytes list"
  k_mid :: "bytes list"
  k_long :: "bytes list"
  k_xlong :: "bytes list"

text \<open>One line before truncation: a roll chooses the class, then the pool is sampled.\<close>

definition assemble :: "pools \<Rightarrow> u64 \<Rightarrow> bytes \<times> u64" where
  "assemble ps s = (let (k, s) = lcg_roll s in
     if k < 45 then
       (let (a, s) = pick_from (k_tiny ps) s; (r, s) = lcg_roll s in
        if r < 25 then (let (b, s) = pick_from (k_tiny ps) s in (a @ ascii '' '' @ b, s)) else (a, s))
     else if k < 75 then pick_from (k_short ps) s
     else if k < 94 then pick_from (k_mid ps) s
     else if k < 99 then
       (let (a, s) = pick_from (k_mid ps) s; (b, s) = pick_from (k_mid ps) s in (a @ ascii '' '' @ b, s))
     else (let (r, s) = lcg_roll s in if r < 70 then pick_from (k_long ps) s else pick_from (k_xlong ps) s))"

definition continuation :: "byte \<Rightarrow> bool" where
  "continuation b \<longleftrightarrow> b AND 0xC0 = 0x80"

fun cut_back :: "bytes \<Rightarrow> nat \<Rightarrow> nat" where
  "cut_back s 0 = 0"
| "cut_back s (Suc n) = (if continuation (s ! Suc n) then cut_back s n else Suc n)"

definition truncate_line :: "nat \<Rightarrow> bytes \<Rightarrow> bytes" where
  "truncate_line max_bytes s = (if max_bytes < length s then take (cut_back s max_bytes) s else s)"

record corpus =
  lines :: "bytes list"
  cursor :: nat
  total_bytes :: nat
  min_bytes :: nat
  max_bytes :: nat

fun build_loop :: "pools \<Rightarrow> nat \<Rightarrow> nat \<Rightarrow> u64 \<Rightarrow> corpus \<Rightarrow> corpus" where
  "build_loop ps 0 m s b = b"
| "build_loop ps (Suc n) m s b = (let (text, s) = assemble ps s; t = truncate_line m text in
     build_loop ps n m s (b\<lparr>lines := lines b @ [t], total_bytes := total_bytes b + length t,
       min_bytes := min (min_bytes b) (length t), max_bytes := max (max_bytes b) (length t)\<rparr>))"

definition build :: "pools \<Rightarrow> u32 \<Rightarrow> nat \<Rightarrow> nat \<Rightarrow> corpus" where
  "build ps seed entries m = (let b = build_loop ps entries m (lcg seed)
       \<lparr>lines = [], cursor = 0, total_bytes = 0, min_bytes = 2 ^ 64 - 1, max_bytes = 0\<rparr> in
     if lines b = [] then b\<lparr>min_bytes := 0\<rparr> else b)"

definition next_line :: "corpus \<Rightarrow> bytes \<times> corpus" where
  "next_line b = (lines b ! cursor b, b\<lparr>cursor := (if cursor b + 1 = length (lines b) then 0 else cursor b + 1)\<rparr>)"

section \<open>Truncation keeps characters whole\<close>

text \<open>UTF-8 text as characters: a lead byte, then up to three continuation bytes.\<close>

definition utf8_char :: "bytes \<Rightarrow> bool" where
  "utf8_char ch \<longleftrightarrow> ch \<noteq> [] \<and> length ch \<le> 4 \<and> \<not> continuation (hd ch) \<and> (\<forall>b \<in> set (tl ch). continuation b)"

definition utf8 :: "bytes \<Rightarrow> bool" where
  "utf8 s \<longleftrightarrow> (\<exists>cs. s = concat cs \<and> (\<forall>ch \<in> set cs. utf8_char ch))"

lemma utf8_append: "utf8 a \<Longrightarrow> utf8 b \<Longrightarrow> utf8 (a @ b)"
  unfolding utf8_def by (metis Un_iff concat_append set_append)

lemma utf8_space: "utf8 (ascii '' '')"
  by (auto simp: utf8_def utf8_char_def ascii_def continuation_def of_char_def intro!: exI [of _ "[[32]]"])

lemma cut_back_le: "cut_back s n \<le> n"
  by (induction n) (auto intro: le_SucI)

lemma cut_back_stop: "cut_back s n \<noteq> 0 \<Longrightarrow> \<not> continuation (s ! cut_back s n)"
  by (induction n) auto

lemma cut_back_skip: "cut_back s n < i \<Longrightarrow> i \<le> n \<Longrightarrow> continuation (s ! i)"
  by (induction n) (auto simp: le_Suc_eq split: if_splits)

text \<open>The stop lands on the boundary of the character that the budget falls into.\<close>

lemma nth_char_continuation:
  assumes "utf8_char ch" "0 < j" "j < length ch"
  shows "continuation (ch ! j)"
proof -
  have "ch ! j \<in> set (tl ch)" using assms by (cases ch) (auto simp: nth_Cons split: nat.splits)
  then show ?thesis using assms(1) by (simp add: utf8_char_def)
qed

lemma cut_back_boundary:
  assumes "\<forall>ch \<in> set cs. utf8_char ch" "n < length (concat cs)"
  shows "\<exists>as ch bs. cs = as @ ch # bs \<and> cut_back (concat cs) n = length (concat as)
    \<and> length (concat as) \<le> n \<and> n < length (concat as) + length ch"
proof -
  have "\<exists>as ch bs. cs = as @ ch # bs \<and> length (concat as) \<le> n \<and> n < length (concat as) + length ch"
    using assms(2)
  proof (induction cs rule: rev_induct)
    case (snoc c cs)
    show ?case
    proof (cases "n < length (concat cs)")
      case True
      then obtain as ch bs where "cs = as @ ch # bs" "length (concat as) \<le> n" "n < length (concat as) + length ch"
        using snoc.IH by blast
      then show ?thesis by (intro exI [of _ as] exI [of _ ch] exI [of _ "bs @ [c]"]) simp
    next
      case False
      then show ?thesis using snoc.prems by (intro exI [of _ cs] exI [of _ c] exI [of _ "[]"]) simp
    qed
  qed simp
  then obtain as ch bs where split: "cs = as @ ch # bs" "length (concat as) \<le> n" "n < length (concat as) + length ch"
    by blast
  let ?k = "length (concat as)"
  have ch: "utf8_char ch" using assms(1) split(1) by simp
  have inside: "continuation (concat cs ! i)" if "?k < i" "i \<le> n" for i
  proof -
    have "i - ?k < length ch" "0 < i - ?k" using that split(3) by auto
    then show ?thesis using nth_char_continuation [OF ch, of "i - ?k"] that by (simp add: split(1) nth_append)
  qed
  have lead: "\<not> continuation (concat cs ! ?k)" using ch split(1) by (auto simp: nth_append utf8_char_def hd_conv_nth)
  have "cut_back (concat cs) n \<le> ?k"
    using inside [of "cut_back (concat cs) n"] cut_back_stop [of "concat cs" n] cut_back_le [of "concat cs" n]
    by fastforce
  moreover have "?k \<le> cut_back (concat cs) n"
    using lead cut_back_skip [of "concat cs" n ?k] split(2) by fastforce
  ultimately show ?thesis using split by (intro exI conjI) auto
qed

lemma truncate_line_spec:
  assumes "utf8 s"
  shows "utf8 (truncate_line m s) \<and> prefix (truncate_line m s) s \<and> length (truncate_line m s) \<le> m
    \<and> (truncate_line m s \<noteq> s \<longrightarrow> m < length (truncate_line m s) + 4)"
proof (cases "m < length s")
  case False
  then show ?thesis using assms by (simp add: truncate_line_def)
next
  case True
  obtain cs where cs: "s = concat cs" "\<forall>ch \<in> set cs. utf8_char ch" using assms by (auto simp: utf8_def)
  obtain as ch bs where b: "cs = as @ ch # bs" "cut_back s m = length (concat as)" "length (concat as) \<le> m"
      "m < length (concat as) + length ch"
    using cut_back_boundary [of cs m] cs True by auto
  have "truncate_line m s = concat as" using True b cs(1) by (simp add: truncate_line_def)
  moreover have "utf8 (concat as)" using cs(2) b(1) by (auto simp: utf8_def)
  moreover have "length ch \<le> 4" using cs(2) b(1) by (simp add: utf8_char_def)
  ultimately show ?thesis using b cs(1) by auto
qed

section \<open>The whole corpus\<close>

definition pools_ok :: "pools \<Rightarrow> bool" where
  "pools_ok ps \<longleftrightarrow> (\<forall>arr \<in> {k_tiny ps, k_short ps, k_mid ps, k_long ps, k_xlong ps}. arr \<noteq> [] \<and> (\<forall>t \<in> set arr. utf8 t))"

text \<open>The texts drawn, before truncation.\<close>

fun drawn :: "pools \<Rightarrow> nat \<Rightarrow> u64 \<Rightarrow> bytes list" where
  "drawn ps 0 s = []"
| "drawn ps (Suc n) s = (let (text, s) = assemble ps s in text # drawn ps n s)"

lemma pick_from_in: "arr \<noteq> [] \<Longrightarrow> fst (pick_from arr s) \<in> set arr"
  by (simp add: pick_from_def lcg_pick_def split: prod.split)

lemma pick_from_utf8: "pools_ok ps \<Longrightarrow> arr \<in> {k_tiny ps, k_short ps, k_mid ps, k_long ps, k_xlong ps} \<Longrightarrow> pick_from arr s = (t, s') \<Longrightarrow> utf8 t"
  using pick_from_in [of arr s] by (auto simp: pools_ok_def)

lemma assemble_utf8:
  assumes "pools_ok ps" "assemble ps s = (t, s')"
  shows "utf8 t"
proof -
  have pick: "utf8 t" if "pick_from arr s = (t, s')" "arr \<in> {k_tiny ps, k_short ps, k_mid ps, k_long ps, k_xlong ps}" for arr s t s'
    using pick_from_utf8 [OF assms(1) that(2,1)] .
  show ?thesis
    using assms(2)
    by (auto simp: assemble_def Let_def utf8_append utf8_space dest!: pick split: prod.splits if_splits)
qed

lemma drawn_utf8: "pools_ok ps \<Longrightarrow> t \<in> set (drawn ps n s) \<Longrightarrow> utf8 t"
  by (induction n arbitrary: s) (auto simp: Let_def dest: assemble_utf8 [OF _ sym] split: prod.splits)

lemma length_drawn [simp]: "length (drawn ps n s) = n"
  by (induction n arbitrary: s) (auto simp: Let_def split: prod.split)

lemma build_loop_spec:
  "lines (build_loop ps n m s b) = lines b @ map (truncate_line m) (drawn ps n s)"
  "total_bytes (build_loop ps n m s b) = total_bytes b + sum_list (map (length \<circ> truncate_line m) (drawn ps n s))"
  "min_bytes (build_loop ps n m s b) = fold min (map (length \<circ> truncate_line m) (drawn ps n s)) (min_bytes b)"
  "max_bytes (build_loop ps n m s b) = fold max (map (length \<circ> truncate_line m) (drawn ps n s)) (max_bytes b)"
proof (induction n arbitrary: s b)
  case (Suc n)
  case 1
  then show ?case using Suc(1) by (simp add: Let_def split: prod.split)
  case 2
  then show ?case using Suc(2) by (simp add: Let_def split: prod.split)
  case 3
  then show ?case using Suc(3) by (simp add: Let_def min.commute split: prod.split)
  case 4
  then show ?case using Suc(4) by (simp add: Let_def max.commute split: prod.split)
qed simp_all

text \<open>The running minimum starts at the largest \<^verbatim>\<open>size_t\<close>, the maximum at 0.\<close>

lemma build_extremes:
  assumes "0 < entries" "\<And>t. t \<in> set (drawn ps entries (lcg seed)) \<Longrightarrow> length (truncate_line m t) < 2 ^ 64"
  defines "b \<equiv> build ps seed entries m"
  shows "min_bytes b = Min (length ` set (lines b)) \<and> max_bytes b = Max (length ` set (lines b))"
proof -
  define ts where "ts = map (length \<circ> truncate_line m) (drawn ps entries (lcg seed))"
  have "length (drawn ps entries (lcg seed)) = entries" by simp
  then have ne: "drawn ps entries (lcg seed) \<noteq> []" using assms(1) by fastforce
  have b: "lines b = map (truncate_line m) (drawn ps entries (lcg seed))"
      "min_bytes b = fold min ts (2 ^ 64 - 1)" "max_bytes b = fold max ts 0"
    using ne by (simp_all add: b_def build_def Let_def build_loop_spec ts_def)
  have ls: "length ` set (lines b) = set ts" by (auto simp: b(1) ts_def)
  have fin: "finite (set ts)" "set ts \<noteq> {}" using ne by (simp_all add: ts_def)
  have "x \<le> 2 ^ 64 - 1" if "x \<in> set ts" for x using assms(2) that by (fastforce simp: ts_def)
  then have "Min (set ts) \<le> 2 ^ 64 - 1" using Min_in [OF fin] by blast
  moreover have "fold min ts (2 ^ 64 - 1) = min (2 ^ 64 - 1) (Min (set ts))"
    using fin by (simp flip: Min.set_eq_fold)
  moreover have "fold max ts 0 = Max (set ts)" using fin by (simp flip: Max.set_eq_fold)
  ultimately show ?thesis using b(2,3) by (simp add: ls)
qed

text \<open>
  C36. The chat corpus is well formed for every seed: it has the requested number of lines, one per text
  drawn from the pools, each line is that text cut to the byte budget on a character boundary (valid
  UTF-8, a prefix of the text, within the budget, and less than one character short of it if anything
  was cut), the recorded total is the sum of the line sizes, and the recorded minimum and maximum are the
  smallest and the largest of them. The budget is a \<^verbatim>\<open>size_t\<close>.
\<close>
theorem corpus_lines_whole_characters:
  fixes seed :: u32 and m :: nat
  assumes "pools_ok ps" "0 < entries" "m < 2 ^ 64"
  defines "b \<equiv> build ps seed entries m" and "ts \<equiv> drawn ps entries (lcg seed)"
  shows "length (lines b) = entries \<and> total_bytes b = sum_list (map length (lines b))
    \<and> min_bytes b = Min (length ` set (lines b)) \<and> max_bytes b = Max (length ` set (lines b))
    \<and> (\<forall>i < entries. utf8 (lines b ! i) \<and> prefix (lines b ! i) (ts ! i) \<and> length (lines b ! i) \<le> m
      \<and> (lines b ! i \<noteq> ts ! i \<longrightarrow> m < length (lines b ! i) + 4))"
proof (intro conjI)
  have len: "length ts = entries" by (simp add: ts_def)
  then have ne: "ts \<noteq> []" using assms(2) by fastforce
  have lines: "lines b = map (truncate_line m) ts" "total_bytes b = sum_list (map (length \<circ> truncate_line m) ts)"
    using ne by (simp_all add: b_def build_def Let_def build_loop_spec ts_def)
  then show "length (lines b) = entries" "total_bytes b = sum_list (map length (lines b))" by (simp_all add: ts_def)
  have spec: "utf8 (truncate_line m t) \<and> prefix (truncate_line m t) t \<and> length (truncate_line m t) \<le> m
      \<and> (truncate_line m t \<noteq> t \<longrightarrow> m < length (truncate_line m t) + 4)" if "t \<in> set ts" for t
    using truncate_line_spec drawn_utf8 [OF assms(1)] that by (simp add: ts_def)
  then show "\<forall>i < entries. utf8 (lines b ! i) \<and> prefix (lines b ! i) (ts ! i) \<and> length (lines b ! i) \<le> m
      \<and> (lines b ! i \<noteq> ts ! i \<longrightarrow> m < length (lines b ! i) + 4)"
    using len by (simp add: lines)
  have short: "length (truncate_line m t) < 2 ^ 64" if "t \<in> set (drawn ps entries (lcg seed))" for t
    using spec that assms(3) le_less_trans unfolding ts_def by blast
  show "min_bytes b = Min (length ` set (lines b))" "max_bytes b = Max (length ` set (lines b))"
    using build_extremes [OF assms(2) short] by (simp_all add: b_def)
qed

definition demo_pools :: pools where
  "demo_pools = \<lparr>k_tiny = [[0xE3, 0x85, 0x8B]], k_short = [[0xE3, 0x85, 0x8B, 0x61]], k_mid = [[0x61]], k_long = [[0x62]],
     k_xlong = [[0x63, 0xE3, 0x85, 0x8B]]\<rparr>"

lemma demo_pools_ok: "pools_ok demo_pools"
proof -
  have 1: "utf8_char [0xE3, 0x85, 0x8B]" "utf8_char [0x61]" "utf8_char [0x62]" "utf8_char [0x63]"
    by (simp_all add: utf8_char_def continuation_def)
  have "utf8 (concat cs)" if "\<forall>ch \<in> set cs. utf8_char ch" for cs using that by (auto simp: utf8_def)
  from this [of "[[0xE3, 0x85, 0x8B]]"] this [of "[[0xE3, 0x85, 0x8B], [0x61]]"] this [of "[[0x61]]"] this [of "[[0x62]]"]
    this [of "[[0x63], [0xE3, 0x85, 0x8B]]"] 1
  show ?thesis by (simp add: pools_ok_def demo_pools_def)
qed

lemma corpus_lines_whole_characters_witness:
  "length (lines (build demo_pools 1 3 5)) = 3 \<and> utf8 (lines (build demo_pools 1 3 5) ! 1)
   \<and> length (lines (build demo_pools 1 3 5) ! 1) \<le> 5
   \<and> max_bytes (build demo_pools 1 3 5) = Max (length ` set (lines (build demo_pools 1 3 5)))"
  using corpus_lines_whole_characters [OF demo_pools_ok, of 3 5 1] by simp

end
