(* ===== verification/LoadConnect.thy ===== *)
theory LoadConnect
  imports LoadConfig "HOL-Library.Multiset"
begin

text \<open>
  The establish phase (\<^verbatim>\<open>src/client-bench/src/connect.cpp\<close>): paced connects, the login frames, and the books
  of \<^verbatim>\<open>run_connect\<close>. Kernel answers are arguments of the operations; \<^verbatim>\<open>fail_reasons\<close> is the multiset of its
  error numbers. Shown: in every state the phase can reach, every connect started is accounted for
  exactly once, the pacing limit holds, \<^verbatim>\<open>live\<close> lists exactly the ready descriptors, and each of them has
  sent, or has pending, exactly its nickname and its room.
\<close>

section \<open>State\<close>

record connect_run =
  clients :: "nat \<Rightarrow> client"
  started :: int
  established :: int
  failed :: int
  inflight :: int
  fail_reasons :: "int multiset"
  live_fds :: "nat list"
  cr_sends :: "nat \<Rightarrow> send_res list"
  cr_recvs :: "nat \<Rightarrow> recv_res list"
  cr_wire :: "nat \<Rightarrow> bytes"

definition run_init :: "(nat \<Rightarrow> send_res list) \<Rightarrow> (nat \<Rightarrow> recv_res list) \<Rightarrow> connect_run" where
  "run_init ss rs = \<lparr>clients = (\<lambda>_. client_init), started = 0, established = 0, failed = 0, inflight = 0,
     fail_reasons = {#}, live_fds = [], cr_sends = ss, cr_recvs = rs, cr_wire = (\<lambda>_. [])\<rparr>"

definition fail :: "int \<Rightarrow> connect_run \<Rightarrow> connect_run" where
  "fail err s = s\<lparr>failed := failed s + 1, fail_reasons := add_mset err (fail_reasons s)\<rparr>"

definition set_client :: "nat \<Rightarrow> client \<Rightarrow> connect_run \<Rightarrow> connect_run" where
  "set_client fd c s = s\<lparr>clients := (clients s)(fd := c)\<rparr>"

section \<open>Starting a connect\<close>

text \<open>What \<^verbatim>\<open>start_connect\<close> and \<^verbatim>\<open>epoll_ctl\<close> answer.\<close>

datatype start_res = Started nat | Start_error int | Add_error nat int

definition issue_one :: "start_res \<Rightarrow> connect_run \<Rightarrow> connect_run" where
  "issue_one r s = (case r of
     Start_error err \<Rightarrow> (fail err s)\<lparr>started := started s + 1\<rparr>
   | Add_error fd err \<Rightarrow> (set_client fd client_init (fail err s))\<lparr>started := started s + 1\<rparr>
   | Started fd \<Rightarrow> (set_client fd ((clients s fd)\<lparr>cl_state := St_connecting, cl_index := started s\<rparr>) s)
        \<lparr>inflight := inflight s + 1, started := started s + 1, cr_wire := (cr_wire s)(fd := [])\<rparr>)"

text \<open>The pacing loop; \<open>k\<close> says how the kernel answers the next connect.\<close>

function issue :: "config \<Rightarrow> (connect_run \<Rightarrow> start_res) \<Rightarrow> connect_run \<Rightarrow> connect_run" where
  "issue cfg k s = (if inflight s < cfg_inflight cfg \<and> started s < cfg_conns cfg
     then issue cfg k (issue_one (k s) s) else s)"
  by pat_completeness auto
termination
  by (relation "measure (\<lambda>(cfg, k, s). nat (cfg_conns cfg - started s))")
    (auto simp: issue_one_def fail_def set_client_def split: start_res.split)

declare issue.simps [simp del]

section \<open>Events\<close>

function dec_digits :: "nat \<Rightarrow> bytes" where
  "dec_digits n = (if n < 10 then [48 + of_nat n] else dec_digits (n div 10) @ [48 + of_nat (n mod 10)])"
  by pat_completeness auto
termination by (relation "measure id") auto

declare dec_digits.simps [simp del]

definition login :: "config \<Rightarrow> proto \<Rightarrow> int \<Rightarrow> bytes \<Rightarrow> bytes" where
  "login cfg p i pend = (let tag = ascii ''n'' @ dec_digits (unat (cfg_node cfg)) in
     put_frame p (put_frame p pend (id_set_nick p) (tag @ ascii ''c'' @ dec_digits (nat i)))
       (id_join p) (tag @ ascii ''r'' @ dec_digits (nat (i div cfg_per_room cfg))))"

text \<open>An event: the descriptor, \<^verbatim>\<open>SO_ERROR\<close>, the readiness bits, and \<^verbatim>\<open>errno\<close> as the handler finds it.\<close>

record cevent =
  ce_fd :: nat
  ce_soerr :: int
  ce_err :: bool
  ce_out :: bool
  ce_in :: bool
  ce_errno :: int

definition ECONNRESET :: int where "ECONNRESET = 104"

definition do_flush :: "nat \<Rightarrow> connect_run \<Rightarrow> bool \<times> connect_run" where
  "do_flush fd s = (case flush_pending (cr_sends s fd) (cl_pending (clients s fd)) of (script, took, left, ok) \<Rightarrow>
     (ok, (set_client fd ((clients s fd)\<lparr>cl_pending := left\<rparr>) s)
        \<lparr>cr_sends := (cr_sends s)(fd := script), cr_wire := (cr_wire s)(fd := cr_wire s fd @ took)\<rparr>))"

definition connecting_event :: "config \<Rightarrow> proto \<Rightarrow> cevent \<Rightarrow> connect_run \<Rightarrow> connect_run" where
  "connecting_event cfg p e s = (let fd = ce_fd e; c = clients s fd in
     if ce_soerr e \<noteq> 0 \<or> ce_err e then
       set_client fd client_init ((fail (if ce_soerr e \<noteq> 0 then ce_soerr e else ECONNRESET) s)\<lparr>inflight := inflight s - 1\<rparr>)
     else let s = (set_client fd (c\<lparr>cl_pending := login cfg p (cl_index c) (cl_pending c), cl_state := St_ready\<rparr>) s)
                \<lparr>inflight := inflight s - 1, established := established s + 1, live_fds := live_fds s @ [fd]\<rparr>;
              (ok, s) = do_flush fd s in
       if \<not> ok then set_client fd client_init
         ((fail (ce_errno e) s)\<lparr>established := established s - 1, live_fds := butlast (live_fds s)\<rparr>)
       else s)"

definition ready_event :: "cevent \<Rightarrow> connect_run \<Rightarrow> connect_run" where
  "ready_event e s = (let fd = ce_fd e;
       (ok, s) = (if ce_out e then do_flush fd s else (True, s));
       (ok, s) = (if ok \<and> ce_in e
          then (case read_available (cr_recvs s fd) (cl_rx (clients s fd)) 0 of (script, slot, n_in, ok) \<Rightarrow>
            (ok, (set_client fd ((clients s fd)\<lparr>cl_rx := []\<rparr>) s)\<lparr>cr_recvs := (cr_recvs s)(fd := script)\<rparr>))
          else (ok, s)) in
     if \<not> ok \<or> ce_err e then set_client fd client_init
       ((fail (if ce_errno e \<noteq> 0 then ce_errno e else ECONNRESET) s)
          \<lparr>established := established s - 1, live_fds := remove1 fd (live_fds s)\<rparr>)
     else s)"

definition connect_event :: "config \<Rightarrow> proto \<Rightarrow> cevent \<Rightarrow> connect_run \<Rightarrow> connect_run" where
  "connect_event cfg p e s = (case cl_state (clients s (ce_fd e)) of
     St_connecting \<Rightarrow> connecting_event cfg p e s
   | St_ready \<Rightarrow> ready_event e s
   | _ \<Rightarrow> s)"

section \<open>The phase\<close>

datatype connect_wait = CW_Events "cevent list" | CW_EINTR | CW_Error

text \<open>The outer loop over what the waits return, each with the stop flag as its test reads it.\<close>

fun connect_loop :: "config \<Rightarrow> proto \<Rightarrow> (connect_run \<Rightarrow> start_res) \<Rightarrow> (bool \<times> connect_wait) list \<Rightarrow> connect_run \<Rightarrow> connect_run" where
  "connect_loop cfg p k [] s = s"
| "connect_loop cfg p k ((stopped, w) # ws) s =
     (if stopped \<or> cfg_conns cfg \<le> established s + failed s then s
      else let s = issue cfg k s in
        case w of CW_EINTR \<Rightarrow> connect_loop cfg p k ws s
        | CW_Error \<Rightarrow> s
        | CW_Events es \<Rightarrow> if es = [] \<and> inflight s = 0 \<and> cfg_conns cfg \<le> started s then s
            else connect_loop cfg p k ws (fold (connect_event cfg p) es s))"

definition run_connect :: "config \<Rightarrow> proto \<Rightarrow> (connect_run \<Rightarrow> start_res) \<Rightarrow> (bool \<times> connect_wait) list \<Rightarrow> connect_run \<Rightarrow> int \<times> connect_run" where
  "run_connect cfg p k ws s = (let s = connect_loop cfg p k ws s in
     (established s, s\<lparr>clients := (\<lambda>fd. if fd \<in> set (live_fds s) then (clients s fd)\<lparr>cl_rx := []\<rparr> else clients s fd)\<rparr>))"

section \<open>Accounting\<close>

text \<open>The kernel never hands out a descriptor that is open.\<close>

fun unused :: "start_res \<Rightarrow> connect_run \<Rightarrow> bool" where
  "unused (Started fd) s \<longleftrightarrow> cl_state (clients s fd) = St_none"
| "unused (Add_error fd err) s \<longleftrightarrow> cl_state (clients s fd) = St_none"
| "unused (Start_error err) s \<longleftrightarrow> True"

inductive connect_reach :: "config \<Rightarrow> proto \<Rightarrow> connect_run \<Rightarrow> bool" for cfg p where
  init: "connect_reach cfg p (run_init ss rs)"
| start: "connect_reach cfg p s \<Longrightarrow> inflight s < cfg_inflight cfg \<Longrightarrow> started s < cfg_conns cfg \<Longrightarrow> unused r s \<Longrightarrow>
    connect_reach cfg p (issue_one r s)"
| event: "connect_reach cfg p s \<Longrightarrow> connect_reach cfg p (connect_event cfg p e s)"

definition in_state :: "conn_state \<Rightarrow> connect_run \<Rightarrow> nat set" where
  "in_state st s = {fd. cl_state (clients s fd) = st}"

definition books_ok :: "config \<Rightarrow> connect_run \<Rightarrow> bool" where
  "books_ok cfg s \<longleftrightarrow> established s + failed s + inflight s = started s \<and> started s \<le> cfg_conns cfg
     \<and> inflight s \<le> cfg_inflight cfg \<and> int (size (fail_reasons s)) = failed s
     \<and> distinct (live_fds s) \<and> int (length (live_fds s)) = established s \<and> set (live_fds s) = in_state St_ready s
     \<and> finite (in_state St_connecting s) \<and> int (card (in_state St_connecting s)) = inflight s"

fun greeted :: "config \<Rightarrow> proto \<Rightarrow> client \<Rightarrow> bytes \<Rightarrow> conn_state \<Rightarrow> bool" where
  "greeted cfg p c out St_ready \<longleftrightarrow> out @ cl_pending c = login cfg p (cl_index c) []"
| "greeted cfg p c out St_connecting \<longleftrightarrow> out = [] \<and> cl_pending c = []"
| "greeted cfg p c out St_none \<longleftrightarrow> cl_pending c = []"
| "greeted cfg p c out St_dead \<longleftrightarrow> False"

definition all_greeted :: "config \<Rightarrow> proto \<Rightarrow> connect_run \<Rightarrow> bool" where
  "all_greeted cfg p s \<longleftrightarrow> (\<forall>fd. greeted cfg p (clients s fd) (cr_wire s fd) (cl_state (clients s fd)))"

lemma in_state_set [simp]:
  "in_state st (set_client fd c s) = (if cl_state c = st then insert fd (in_state st s) else in_state st s - {fd})"
  by (auto simp: in_state_def set_client_def)

lemma in_state_cong: "clients s' = clients s \<Longrightarrow> in_state st s' = in_state st s"
  by (simp add: in_state_def)

lemma in_state_fail [simp]: "in_state st (fail err s) = in_state st s"
  by (simp add: fail_def in_state_def)

lemma set_client_fields [simp]:
  "started (set_client fd c s) = started s" "established (set_client fd c s) = established s"
  "failed (set_client fd c s) = failed s" "inflight (set_client fd c s) = inflight s"
  "fail_reasons (set_client fd c s) = fail_reasons s" "live_fds (set_client fd c s) = live_fds s"
  "cr_sends (set_client fd c s) = cr_sends s" "cr_recvs (set_client fd c s) = cr_recvs s"
  "cr_wire (set_client fd c s) = cr_wire s" "clients (set_client fd c s) = (clients s)(fd := c)"
  by (simp_all add: set_client_def)

lemma fail_fields [simp]:
  "started (fail err s) = started s" "established (fail err s) = established s"
  "failed (fail err s) = failed s + 1" "inflight (fail err s) = inflight s"
  "fail_reasons (fail err s) = add_mset err (fail_reasons s)" "live_fds (fail err s) = live_fds s"
  "cr_sends (fail err s) = cr_sends s" "cr_recvs (fail err s) = cr_recvs s"
  "cr_wire (fail err s) = cr_wire s" "clients (fail err s) = clients s"
  by (simp_all add: fail_def)

lemma in_state_update [simp]:
  "in_state st (s\<lparr>started := a\<rparr>) = in_state st s" "in_state st (s\<lparr>inflight := a\<rparr>) = in_state st s"
  "in_state st (s\<lparr>established := a\<rparr>) = in_state st s" "in_state st (s\<lparr>live_fds := l\<rparr>) = in_state st s"
  "in_state st (s\<lparr>cr_wire := w\<rparr>) = in_state st s" "in_state st (s\<lparr>cr_sends := ss\<rparr>) = in_state st s"
  "in_state st (s\<lparr>cr_recvs := rs\<rparr>) = in_state st s"
  by (simp_all add: in_state_def)

lemma mem_in_state: "fd \<in> in_state st s \<longleftrightarrow> cl_state (clients s fd) = st"
  by (simp add: in_state_def)

lemma client_init_fields [simp]: "cl_state client_init = St_none" "cl_pending client_init = []"
  by (simp_all add: client_init_def)

lemma books_issue:
  assumes "books_ok cfg s" "inflight s < cfg_inflight cfg" "started s < cfg_conns cfg" "unused r s"
  shows "books_ok cfg (issue_one r s)"
  using assms by (cases r) (auto simp: books_ok_def issue_one_def mem_in_state card_insert_disjoint)

text \<open>Losing a connection that is being set up, and losing a ready one.\<close>

lemma books_drop_connecting:
  assumes "books_ok cfg s" "cl_state (clients s fd) = St_connecting"
  shows "books_ok cfg (set_client fd client_init ((fail err s)\<lparr>inflight := inflight s - 1\<rparr>))"
proof -
  have "fd \<in> in_state St_connecting s" "fd \<notin> in_state St_ready s" using assms(2) by (simp_all add: mem_in_state)
  then show ?thesis
    using assms(1) card_Suc_Diff1 [of "in_state St_connecting s" fd] by (auto simp: books_ok_def)
qed

lemma books_drop_ready:
  assumes "books_ok cfg s" "cl_state (clients s fd) = St_ready"
  shows "books_ok cfg (set_client fd client_init
    ((fail err s)\<lparr>established := established s - 1, live_fds := remove1 fd (live_fds s)\<rparr>))"
proof -
  have "fd \<in> set (live_fds s)" "fd \<notin> in_state St_connecting s"
    using assms by (simp_all add: mem_in_state books_ok_def)
  moreover from this have "int (length (remove1 fd (live_fds s))) = int (length (live_fds s)) - 1"
    using length_pos_if_in_set [of fd "live_fds s"] by (simp add: length_remove1 of_nat_diff Suc_leI)
  ultimately show ?thesis using assms(1) by (auto simp: books_ok_def)
qed

lemma books_cong:
  assumes "books_ok cfg s" "\<And>st. in_state st s' = in_state st s" "live_fds s' = live_fds s" "started s' = started s"
    "established s' = established s" "failed s' = failed s" "inflight s' = inflight s" "fail_reasons s' = fail_reasons s"
  shows "books_ok cfg s'"
  using assms by (simp add: books_ok_def)

lemma do_flush_fields:
  assumes "do_flush fd s = (ok, s')"
  shows "live_fds s' = live_fds s" "started s' = started s" "established s' = established s" "failed s' = failed s"
    "inflight s' = inflight s" "fail_reasons s' = fail_reasons s" "in_state st s' = in_state st s"
    "cl_state (clients s' x) = cl_state (clients s x)" "cl_index (clients s' x) = cl_index (clients s x)"
    "cr_wire s' x @ cl_pending (clients s' x) = cr_wire s x @ cl_pending (clients s x)"
    "x \<noteq> fd \<Longrightarrow> cr_wire s' x = cr_wire s x \<and> clients s' x = clients s x"
  using assms by (auto simp: do_flush_def in_state_def set_client_def dest: flush_pending_split split: prod.splits)

lemma books_flush: "books_ok cfg s \<Longrightarrow> do_flush fd s = (ok, s') \<Longrightarrow> books_ok cfg s'"
  by (erule books_cong) (simp_all add: do_flush_fields)

lemma books_connecting:
  assumes "books_ok cfg s" "cl_state (clients s (ce_fd e)) = St_connecting"
  shows "books_ok cfg (connecting_event cfg p e s)"
proof (cases "ce_soerr e \<noteq> 0 \<or> ce_err e")
  case True
  then show ?thesis using books_drop_connecting [OF assms] by (simp add: connecting_event_def Let_def)
next
  case False
  let ?fd = "ce_fd e"
  let ?c = "clients s ?fd"
  define s1 where "s1 = (set_client ?fd (?c\<lparr>cl_pending := login cfg p (cl_index ?c) (cl_pending ?c), cl_state := St_ready\<rparr>) s)
                \<lparr>inflight := inflight s - 1, established := established s + 1, live_fds := live_fds s @ [?fd]\<rparr>"
  obtain ok s2 where f: "do_flush ?fd s1 = (ok, s2)" by fastforce
  have fd: "?fd \<in> in_state St_connecting s" "?fd \<notin> set (live_fds s)"
    using assms by (simp_all add: mem_in_state books_ok_def)
  then have "books_ok cfg s1"
    using assms(1) card_Suc_Diff1 [of "in_state St_connecting s" ?fd] by (auto simp: books_ok_def s1_def)
  then have s2: "books_ok cfg s2" using f by (rule books_flush)
  have "live_fds s2 = live_fds s @ [?fd]" "cl_state (clients s2 ?fd) = St_ready"
    using do_flush_fields [OF f] by (simp_all add: s1_def)
  then have "remove1 ?fd (live_fds s2) = butlast (live_fds s2)" using fd(2) by (simp add: remove1_append)
  then have "books_ok cfg (set_client ?fd client_init
      ((fail (ce_errno e) s2)\<lparr>established := established s2 - 1, live_fds := butlast (live_fds s2)\<rparr>))"
    using books_drop_ready [OF s2 \<open>cl_state (clients s2 ?fd) = St_ready\<close>, of "ce_errno e"] by simp
  then show ?thesis using False s2 f by (simp add: connecting_event_def Let_def flip: s1_def)
qed

text \<open>What a ready event has done when it reaches its last test.\<close>

definition ready_io :: "cevent \<Rightarrow> connect_run \<Rightarrow> bool \<times> connect_run" where
  "ready_io e s = (let fd = ce_fd e; (ok, s) = (if ce_out e then do_flush fd s else (True, s)) in
     if ok \<and> ce_in e
          then (case read_available (cr_recvs s fd) (cl_rx (clients s fd)) 0 of (script, slot, n_in, ok) \<Rightarrow>
            (ok, (set_client fd ((clients s fd)\<lparr>cl_rx := []\<rparr>) s)\<lparr>cr_recvs := (cr_recvs s)(fd := script)\<rparr>))
          else (ok, s))"

lemma ready_event_io:
  "ready_event e s = (case ready_io e s of (ok, s) \<Rightarrow>
     if \<not> ok \<or> ce_err e then set_client (ce_fd e) client_init
       ((fail (if ce_errno e \<noteq> 0 then ce_errno e else ECONNRESET) s)
          \<lparr>established := established s - 1, live_fds := remove1 (ce_fd e) (live_fds s)\<rparr>)
     else s)"
  by (simp add: ready_event_def ready_io_def Let_def split: prod.split)

lemma ready_io_fields:
  assumes "ready_io e s = (ok, s')"
  shows "live_fds s' = live_fds s" "started s' = started s" "established s' = established s" "failed s' = failed s"
    "inflight s' = inflight s" "fail_reasons s' = fail_reasons s"
    "cl_state (clients s' x) = cl_state (clients s x)" "cl_index (clients s' x) = cl_index (clients s x)"
    "cr_wire s' x @ cl_pending (clients s' x) = cr_wire s x @ cl_pending (clients s x)"
    "x \<noteq> ce_fd e \<Longrightarrow> cr_wire s' x = cr_wire s x \<and> clients s' x = clients s x"
proof -
  obtain ok1 s1 where f: "(if ce_out e then do_flush (ce_fd e) s else (True, s)) = (ok1, s1)" by fastforce
  have s1: "live_fds s1 = live_fds s" "started s1 = started s" "established s1 = established s" "failed s1 = failed s"
    "inflight s1 = inflight s" "fail_reasons s1 = fail_reasons s"
    "cl_state (clients s1 x) = cl_state (clients s x)" "cl_index (clients s1 x) = cl_index (clients s x)"
    "cr_wire s1 x @ cl_pending (clients s1 x) = cr_wire s x @ cl_pending (clients s x)"
    "x \<noteq> ce_fd e \<Longrightarrow> cr_wire s1 x = cr_wire s x \<and> clients s1 x = clients s x" for x
    using f do_flush_fields [of "ce_fd e" s ok1 s1] by (auto split: if_splits)
  have "live_fds s' = live_fds s1 \<and> started s' = started s1 \<and> established s' = established s1 \<and> failed s' = failed s1
    \<and> inflight s' = inflight s1 \<and> fail_reasons s' = fail_reasons s1 \<and> cr_wire s' = cr_wire s1
    \<and> (\<forall>y. clients s' y = clients s1 y \<or> y = ce_fd e \<and> clients s' y = (clients s1 y)\<lparr>cl_rx := []\<rparr>)"
    using assms f by (auto simp: ready_io_def Let_def split: prod.splits if_splits)
  then show "live_fds s' = live_fds s" "started s' = started s" "established s' = established s" "failed s' = failed s"
    "inflight s' = inflight s" "fail_reasons s' = fail_reasons s"
    "cl_state (clients s' x) = cl_state (clients s x)" "cl_index (clients s' x) = cl_index (clients s x)"
    "cr_wire s' x @ cl_pending (clients s' x) = cr_wire s x @ cl_pending (clients s x)"
    "x \<noteq> ce_fd e \<Longrightarrow> cr_wire s' x = cr_wire s x \<and> clients s' x = clients s x"
    using s1(1-6) s1(7-10) [of x] by (auto dest: spec [of _ x])
qed

lemma books_ready:
  assumes "books_ok cfg s" "cl_state (clients s (ce_fd e)) = St_ready"
  shows "books_ok cfg (ready_event e s)"
proof -
  obtain ok s' where io: "ready_io e s = (ok, s')" by fastforce
  note f = ready_io_fields [OF io]
  have "books_ok cfg s'" by (rule books_cong [OF assms(1)]) (simp_all add: f in_state_def)
  moreover have "cl_state (clients s' (ce_fd e)) = St_ready" using f assms(2) by simp
  ultimately show ?thesis using books_drop_ready by (simp add: ready_event_io io)
qed

lemma books_event: "books_ok cfg s \<Longrightarrow> books_ok cfg (connect_event cfg p e s)"
  by (auto simp: connect_event_def books_connecting books_ready split: conn_state.split)

lemma books_reach: "connect_reach cfg p s \<Longrightarrow> config_ok cfg \<Longrightarrow> books_ok cfg s"
proof (induction rule: connect_reach.induct)
  case (init ss rs)
  then show ?case by (simp add: books_ok_def run_init_def in_state_def config_ok_def)
qed (simp_all add: books_issue books_event)

section \<open>Logins\<close>

lemma greeted_none: "all_greeted cfg p s \<Longrightarrow> cl_state (clients s fd) = St_none \<Longrightarrow> cl_pending (clients s fd) = []"
  unfolding all_greeted_def by (drule spec [of _ fd]) simp

lemma greeted_issue: "all_greeted cfg p s \<Longrightarrow> unused r s \<Longrightarrow> all_greeted cfg p (issue_one r s)"
  using greeted_none [of cfg p s] by (cases r) (auto simp: issue_one_def all_greeted_def)

lemma greeted_drop: "all_greeted cfg p s \<Longrightarrow> clients s' = (clients s)(fd := client_init) \<Longrightarrow> cr_wire s' = cr_wire s \<Longrightarrow> all_greeted cfg p s'"
  by (auto simp: all_greeted_def)

lemma greeted_same:
  assumes "greeted cfg p c out st" "st = St_ready" "cl_index c' = cl_index c" "out' @ cl_pending c' = out @ cl_pending c"
  shows "greeted cfg p c' out' st"
  using assms by simp

lemma greeted_flush:
  assumes "all_greeted cfg p s" "do_flush fd s = (ok, s')" "cl_state (clients s fd) = St_ready"
  shows "all_greeted cfg p s'"
  unfolding all_greeted_def
proof
  fix x
  note f = do_flush_fields [OF assms(2)]
  have "greeted cfg p (clients s x) (cr_wire s x) (cl_state (clients s x))" using assms(1) by (simp add: all_greeted_def)
  then show "greeted cfg p (clients s' x) (cr_wire s' x) (cl_state (clients s' x))"
    using f(11) [of x] greeted_same [of cfg p "clients s x" "cr_wire s x" St_ready "clients s' x" "cr_wire s' x"]
      f(8-10) [of x] assms(3)
    by (cases "x = fd") auto
qed

lemma greeted_connecting:
  assumes "all_greeted cfg p s" "cl_state (clients s (ce_fd e)) = St_connecting"
  shows "all_greeted cfg p (connecting_event cfg p e s)"
proof (cases "ce_soerr e \<noteq> 0 \<or> ce_err e")
  case True
  then show ?thesis using greeted_drop [OF assms(1)] by (simp add: connecting_event_def Let_def)
next
  case False
  let ?fd = "ce_fd e"
  let ?c = "clients s ?fd"
  define s1 where "s1 = (set_client ?fd (?c\<lparr>cl_pending := login cfg p (cl_index ?c) (cl_pending ?c), cl_state := St_ready\<rparr>) s)
                \<lparr>inflight := inflight s - 1, established := established s + 1, live_fds := live_fds s @ [?fd]\<rparr>"
  obtain ok s2 where f: "do_flush ?fd s1 = (ok, s2)" by fastforce
  have "greeted cfg p ?c (cr_wire s ?fd) St_connecting" using assms by (simp add: all_greeted_def flip: assms(2))
  then have "all_greeted cfg p s1" using assms(1) by (auto simp: all_greeted_def s1_def)
  moreover have "cl_state (clients s1 ?fd) = St_ready" by (simp add: s1_def)
  ultimately have "all_greeted cfg p s2" using greeted_flush f by blast
  then show ?thesis
    using greeted_drop [of cfg p s2 _ ?fd] False f by (simp add: connecting_event_def Let_def flip: s1_def)
qed

lemma greeted_ready:
  assumes "all_greeted cfg p s" "cl_state (clients s (ce_fd e)) = St_ready"
  shows "all_greeted cfg p (ready_event e s)"
proof -
  obtain ok s' where io: "ready_io e s = (ok, s')" by fastforce
  note f = ready_io_fields [OF io]
  have "greeted cfg p (clients s' x) (cr_wire s' x) (cl_state (clients s' x))" for x
  proof -
    have "greeted cfg p (clients s x) (cr_wire s x) (cl_state (clients s x))" using assms(1) by (simp add: all_greeted_def)
    then show ?thesis
      using f(10) [of x] greeted_same [of cfg p "clients s x" "cr_wire s x" St_ready "clients s' x" "cr_wire s' x"]
        f(7-9) [of x] assms(2)
      by (cases "x = ce_fd e") auto
  qed
  then have "all_greeted cfg p s'" by (simp add: all_greeted_def)
  then show ?thesis using greeted_drop [of cfg p s' _ "ce_fd e"] by (simp add: ready_event_io io)
qed

lemma greeted_reach: "connect_reach cfg p s \<Longrightarrow> all_greeted cfg p s"
proof (induction rule: connect_reach.induct)
  case (init ss rs)
  then show ?case by (simp add: all_greeted_def run_init_def)
next
  case (event s e)
  then show ?case by (auto simp: connect_event_def greeted_connecting greeted_ready split: conn_state.split)
qed (simp add: greeted_issue)

section \<open>The whole phase\<close>

lemma reach_issue: "connect_reach cfg p s \<Longrightarrow> \<forall>s. unused (k s) s \<Longrightarrow> connect_reach cfg p (issue cfg k s)"
proof (induction cfg k s rule: issue.induct)
  case (1 cfg k s)
  then show ?case by (subst issue.simps) (auto intro: connect_reach.start)
qed

lemma reach_events: "connect_reach cfg p s \<Longrightarrow> connect_reach cfg p (fold (connect_event cfg p) es s)"
  by (induction es arbitrary: s) (simp_all add: connect_reach.event)

lemma reach_loop: "connect_reach cfg p s \<Longrightarrow> \<forall>s. unused (k s) s \<Longrightarrow> connect_reach cfg p (connect_loop cfg p k ws s)"
proof (induction cfg p k ws s rule: connect_loop.induct)
  case (2 cfg p k stopped w ws s)
  then show ?case by (auto simp: Let_def reach_issue reach_events split: connect_wait.split)
qed simp

text \<open>
  C29. Whatever the kernel answers and whenever the phase is cut short, its books balance under an
  accepted configuration: established, failed and in-flight connects add up to those started, which are
  never more than asked for, never more than \<^verbatim>\<open>--inflight\<close> are open at a time; every failure has one
  recorded reason; \<^verbatim>\<open>live\<close> holds each ready descriptor once and nothing else; and each of them has sent
  or has pending exactly its nickname and room frames.
\<close>
theorem connect_books_balance:
  assumes "config_ok cfg" "\<forall>s. unused (k s) s" "s = connect_loop cfg p k ws (run_init ss rs)"
  shows "established s + failed s + inflight s = started s \<and> started s \<le> cfg_conns cfg
    \<and> inflight s = int (card {fd. cl_state (clients s fd) = St_connecting}) \<and> inflight s \<le> cfg_inflight cfg
    \<and> int (size (fail_reasons s)) = failed s
    \<and> distinct (live_fds s) \<and> int (length (live_fds s)) = established s
    \<and> (\<forall>fd. fd \<in> set (live_fds s) \<longleftrightarrow> cl_state (clients s fd) = St_ready)
    \<and> (\<forall>fd \<in> set (live_fds s). cr_wire s fd @ cl_pending (clients s fd) = login cfg p (cl_index (clients s fd)) [])"
proof -
  have "connect_reach cfg p s" using reach_loop [OF connect_reach.init assms(2)] assms(3) by simp
  then have b: "books_ok cfg s" and g: "all_greeted cfg p s" using books_reach assms(1) greeted_reach by blast+
  have "cr_wire s fd @ cl_pending (clients s fd) = login cfg p (cl_index (clients s fd)) []" if "fd \<in> set (live_fds s)" for fd
  proof -
    have "cl_state (clients s fd) = St_ready" using b that by (simp add: books_ok_def mem_in_state)
    moreover have "greeted cfg p (clients s fd) (cr_wire s fd) (cl_state (clients s fd))" using g by (simp add: all_greeted_def)
    ultimately show ?thesis by simp
  qed
  then show ?thesis using b by (simp add: books_ok_def in_state_def)
qed

text \<open>A kernel that answers with the lowest closed descriptor, or refuses.\<close>

definition demo_kernel :: "connect_run \<Rightarrow> start_res" where
  "demo_kernel s = (if cl_state (clients s 3) = St_none then Started 3 else Start_error 24)"

definition demo_run :: connect_run where
  "demo_run = connect_loop (config_init\<lparr>cfg_conns := 2\<rparr>) g_proto demo_kernel
     [(False, CW_Events [\<lparr>ce_fd = 3, ce_soerr = 0, ce_err = False, ce_out = True, ce_in = False, ce_errno = 0\<rparr>])]
     (run_init (\<lambda>_. []) (\<lambda>_. []))"

lemma send_loop_Nil: "send_loop [] out = ([], [], out, False)"
  by (cases out) simp_all

lemma connect_books_balance_witness:
  "config_ok (config_init\<lparr>cfg_conns := 2\<rparr>) \<and> live_fds demo_run = [3] \<and> started demo_run = 2
   \<and> established demo_run + failed demo_run + inflight demo_run = 2"
proof -
  have cfg: "config_ok (config_init\<lparr>cfg_conns := 2\<rparr>)"
    by (simp add: config_ok_def config_init_def k_blob_header_def k_max_blob_def k_max_payload_def k_prefix_slack_def)
  have k: "\<forall>s. unused (demo_kernel s) s" by (simp add: demo_kernel_def)
  have "live_fds demo_run = [3]" "started demo_run = 2"
    by (simp_all add: demo_run_def config_init_def run_init_def issue.simps issue_one_def demo_kernel_def connect_event_def
        connecting_event_def do_flush_def flush_pending_def send_loop_Nil fail_def set_client_def client_init_def Let_def)
  then show ?thesis using connect_books_balance [OF cfg k demo_run_def] cfg by simp
qed

end
