(* ===== verification/TextFormat.thy ===== *)
theory TextFormat
  imports LoadConnect
begin

text \<open>
  Text as the load generator writes it and as its readers take it apart: decimal numbers of \<^verbatim>\<open>printf\<close>, the
  \<^verbatim>\<open>strtoull\<close> of C, and \<^verbatim>\<open>splitlines\<close>, \<^verbatim>\<open>split\<close>, \<^verbatim>\<open>int\<close> of Python on ASCII text. Shown: what is printed is read back.
\<close>

section \<open>Numbers\<close>

definition digit :: "byte \<Rightarrow> bool" where
  "digit b \<longleftrightarrow> 48 \<le> b \<and> b \<le> 57"

definition digits_nat :: "bytes \<Rightarrow> nat" where
  "digits_nat ds = foldl (\<lambda>a d. a * 10 + unat (d - 48)) 0 ds"

definition dec_int :: "int \<Rightarrow> bytes" where
  "dec_int x = (if x < 0 then 45 # dec_digits (nat (- x)) else dec_digits (nat x))"

lemma unat_digit: "n < 10 \<Longrightarrow> unat (48 + of_nat n :: byte) = 48 + n"
  by (simp add: unat_word_ariths unat_of_nat)

lemma digit_of_nat: "n < 10 \<Longrightarrow> digit (48 + of_nat n)"
  by (simp add: digit_def word_le_nat_alt unat_digit)

lemma digit_value: "n < 10 \<Longrightarrow> unat (of_nat n :: byte) = n"
  by (simp add: unat_of_nat take_bit_nat_eq_self)

lemma dec_digits_ok: "dec_digits n \<noteq> [] \<and> list_all digit (dec_digits n) \<and> digits_nat (dec_digits n) = n"
proof (induction n rule: less_induct)
  case (less n)
  show ?case
  proof (cases "n < 10")
    case True
    then show ?thesis by (subst (1 2 3) dec_digits.simps) (simp add: digits_nat_def digit_of_nat digit_value)
  next
    case False
    then have "n div 10 < n" by simp
    note ih = less.IH [OF this]
    have "dec_digits n = dec_digits (n div 10) @ [48 + of_nat (n mod 10)]" using False by (subst dec_digits.simps) simp
    moreover have "n div 10 * 10 + n mod 10 = n" by simp
    ultimately show ?thesis using ih by (simp add: digits_nat_def digit_of_nat digit_value)
  qed
qed

lemma dec_digits_digit: "d \<in> set (dec_digits n) \<Longrightarrow> digit d"
  using dec_digits_ok [of n] by (auto simp: list_all_iff)

lemma dec_digits_value [simp]: "digits_nat (dec_digits n) = n" "dec_digits n \<noteq> []"
  using dec_digits_ok by auto

lemma digit_facts: "digit b \<Longrightarrow> b \<noteq> 45 \<and> b \<noteq> 43 \<and> b \<noteq> 95 \<and> b \<noteq> 61 \<and> b \<noteq> 32 \<and> b \<noteq> 10 \<and> b \<noteq> 41 \<and> b \<noteq> 0"
  by (auto simp: digit_def)

text \<open>\<^verbatim>\<open>strtoull(s, &end, 10)\<close>: the value, saturated, and the rest of the text; without a digit nothing is
  consumed.\<close>

definition c_space :: "byte \<Rightarrow> bool" where
  "c_space b \<longleftrightarrow> b \<in> {9, 10, 11, 12, 13, 32}"

definition strtoull :: "bytes \<Rightarrow> u64 \<times> bytes" where
  "strtoull s = (let t = dropWhile c_space s;
       (neg, u) = (case t of [] \<Rightarrow> (False, [])
                   | b # t' \<Rightarrow> if b = 45 then (True, t') else if b = 43 then (False, t') else (False, t));
       ds = takeWhile digit u; n = digits_nat ds in
     if ds = [] then (0, s)
     else (if 2 ^ 64 \<le> n then - 1 else if neg then - of_nat n else of_nat n, dropWhile digit u))"

text \<open>What may follow a number without being read into it.\<close>

definition stops :: "bytes \<Rightarrow> bool" where
  "stops s \<longleftrightarrow> (case s of [] \<Rightarrow> True | b # _ \<Rightarrow> \<not> digit b)"

lemma digits_append:
  assumes "list_all digit ds" "stops r"
  shows "takeWhile digit (ds @ r) = ds" "dropWhile digit (ds @ r) = r"
  using assms by (induction ds) (auto simp: stops_def split: list.splits)

lemma dec_head: obtains d ds where "dec_digits n = d # ds" "digit d"
  using dec_digits_ok [of n] by (cases "dec_digits n") auto

lemma not_c_space: "digit d \<Longrightarrow> \<not> c_space d"
  by (auto simp: c_space_def digit_def)

lemma strtoull_dec:
  assumes "- (2 ^ 64) < x" "x < 2 ^ 64" "stops r"
  shows "strtoull (dec_int x @ r) = (of_int x, r)"
proof -
  obtain d ds where d: "dec_digits (nat \<bar>x\<bar>) = d # ds" "digit d" by (rule dec_head)
  have all: "list_all digit (dec_digits (nat \<bar>x\<bar>))" using dec_digits_ok by blast
  have v: "digits_nat (d # ds) = nat \<bar>x\<bar>" using dec_digits_value(1) [of "nat \<bar>x\<bar>"] d by simp
  note t = digits_append [OF all assms(3), unfolded d(1)]
  have lt: "\<not> 2 ^ 64 \<le> nat \<bar>x\<bar>" using assms(1,2) by (simp add: not_le nat_less_iff)
  have w: "(of_nat (nat \<bar>x\<bar>) :: u64) = of_int \<bar>x\<bar>" by (rule of_nat_nat) simp
  show ?thesis
  proof (cases "x < 0")
    case True
    then have "dec_int x = 45 # d # ds" using d(1) by (simp add: dec_int_def)
    moreover have "dropWhile c_space (45 # d # ds @ r) = 45 # d # ds @ r" by (simp add: c_space_def)
    moreover have "- (of_int \<bar>x\<bar>) = (of_int x :: u64)" using True by simp
    ultimately show ?thesis using t v lt w by (simp add: strtoull_def)
  next
    case False
    then have "dec_int x = d # ds" using d(1) by (simp add: dec_int_def)
    moreover have "dropWhile c_space (d # ds @ r) = d # ds @ r" using not_c_space [OF d(2)] by simp
    moreover have "of_int \<bar>x\<bar> = (of_int x :: u64)" using False by simp
    ultimately show ?thesis using t v lt w digit_facts [OF d(2)] by (simp add: strtoull_def)
  qed
qed

section \<open>Python's strings\<close>

text \<open>Of the characters Python counts as white space or as a line end, the ones in ASCII.\<close>

definition white :: "byte \<Rightarrow> bool" where
  "white b \<longleftrightarrow> b \<in> {9, 10, 11, 12, 13, 28, 29, 30, 31, 32}"

definition line_end :: "byte \<Rightarrow> bool" where
  "line_end b \<longleftrightarrow> b \<in> {10, 11, 12, 13, 28, 29, 30}"

text \<open>\<^verbatim>\<open>s.split()\<close>.\<close>

function split_words :: "bytes \<Rightarrow> bytes list" where
  "split_words s = (let t = dropWhile white s in
     if t = [] then [] else takeWhile (\<lambda>b. \<not> white b) t # split_words (dropWhile (\<lambda>b. \<not> white b) t))"
  by pat_completeness auto
termination
proof (relation "measure length", goal_cases)
  case (2 s t)
  then obtain b t' where t: "t = b # t'" using list.exhaust by blast
  then have "\<not> white b" using 2(1) dropWhile_eq_Cons_conv [of white s b t'] by simp
  then have "length (dropWhile (\<lambda>b. \<not> white b) t) < length t"
    using t length_dropWhile_le [of "\<lambda>b. \<not> white b" t'] by simp
  then show ?case using 2(1) length_dropWhile_le [of white s] by simp
qed simp

declare split_words.simps [simp del]

text \<open>\<^verbatim>\<open>s.splitlines()\<close>; a carriage return and the line feed behind it are one line end.\<close>

fun after_end :: "bytes \<Rightarrow> bytes" where
  "after_end [] = []"
| "after_end [b] = []"
| "after_end (b # c # s) = (if b = 13 \<and> c = 10 then s else c # s)"

lemma after_end_length: "length (after_end s) \<le> length s - 1"
  by (cases s rule: after_end.cases) simp_all

function split_lines :: "bytes \<Rightarrow> bytes list" where
  "split_lines s = (if s = [] then []
     else takeWhile (\<lambda>b. \<not> line_end b) s # split_lines (after_end (dropWhile (\<lambda>b. \<not> line_end b) s)))"
  by pat_completeness auto
termination
proof (relation "measure length", goal_cases)
  case (2 s)
  have "length (after_end (dropWhile (\<lambda>b. \<not> line_end b) s)) \<le> length s - 1"
    using after_end_length [of "dropWhile (\<lambda>b. \<not> line_end b) s"] length_dropWhile_le [of "\<lambda>b. \<not> line_end b" s] by simp
  then show ?case using 2 by (cases s) auto
qed simp

declare split_lines.simps [simp del]

text \<open>\<^verbatim>\<open>int(s)\<close> of a word: a sign, then digits, single underscores allowed between digits.\<close>

fun digit_groups :: "bytes \<Rightarrow> bool" where
  "digit_groups [] \<longleftrightarrow> False"
| "digit_groups [d] \<longleftrightarrow> digit d"
| "digit_groups (d # e # s) \<longleftrightarrow> digit d \<and> (if e = 95 then digit_groups s else digit_groups (e # s))"

definition py_nat :: "bytes \<Rightarrow> nat option" where
  "py_nat s = (if digit_groups s then Some (digits_nat (filter digit s)) else None)"

definition py_int :: "bytes \<Rightarrow> int option" where
  "py_int s = (case s of [] \<Rightarrow> None
     | b # t \<Rightarrow> if b = 45 then map_option (\<lambda>n. - int n) (py_nat t)
               else if b = 43 then map_option int (py_nat t) else map_option int (py_nat s))"

text \<open>\<^verbatim>\<open>dict(p.split("=", 1) for p in ps)\<close>: a word without an equals sign is an error, a later key wins.\<close>

definition split_eq :: "bytes \<Rightarrow> (bytes \<times> bytes) option" where
  "split_eq p = (if 61 \<in> set p then Some (takeWhile (\<lambda>b. b \<noteq> 61) p, tl (dropWhile (\<lambda>b. b \<noteq> 61) p)) else None)"

fun kv_dict :: "bytes list \<Rightarrow> (bytes \<rightharpoonup> bytes) \<Rightarrow> (bytes \<rightharpoonup> bytes) option" where
  "kv_dict [] m = Some m"
| "kv_dict (p # ps) m = (case split_eq p of None \<Rightarrow> None | Some (k, v) \<Rightarrow> kv_dict ps (m(k \<mapsto> v)))"

section \<open>Reading back\<close>

definition word_ok :: "bytes \<Rightarrow> bool" where
  "word_ok t \<longleftrightarrow> t \<noteq> [] \<and> list_all (\<lambda>b. \<not> white b) t"

definition blank_first :: "bytes \<Rightarrow> bool" where
  "blank_first s \<longleftrightarrow> (case s of [] \<Rightarrow> True | b # _ \<Rightarrow> white b)"

lemma take_word:
  assumes "list_all (\<lambda>b. \<not> white b) t" "blank_first r"
  shows "takeWhile (\<lambda>b. \<not> white b) (t @ r) = t" "dropWhile (\<lambda>b. \<not> white b) (t @ r) = r"
  using assms by (induction t) (auto simp: blank_first_def split: list.splits)

lemma split_words_Nil [simp]: "split_words [] = []"
  by (simp add: split_words.simps)

lemma split_words_blank [simp]: "split_words (32 # s) = split_words s"
  by (subst (1 2) split_words.simps) (simp add: white_def)

lemma split_words_word: "word_ok t \<Longrightarrow> blank_first r \<Longrightarrow> split_words (t @ r) = t # split_words r"
proof -
  assume t: "word_ok t" and r: "blank_first r"
  then have "dropWhile white (t @ r) = t @ r" by (cases t) (auto simp: word_ok_def)
  then show ?thesis using t r by (subst split_words.simps) (simp add: take_word word_ok_def)
qed

lemma split_words_last: "word_ok t \<Longrightarrow> split_words t = [t]"
  using split_words_word [of t "[]"] by (simp add: blank_first_def)

lemma split_words_step: "word_ok t \<Longrightarrow> split_words (t @ 32 # s) = t # split_words s"
  using split_words_word [of t "32 # s"] by (simp add: blank_first_def white_def)

definition line_ok :: "bytes \<Rightarrow> bool" where
  "line_ok l \<longleftrightarrow> list_all (\<lambda>b. \<not> line_end b) l"

definition put_lines :: "bytes list \<Rightarrow> bytes" where
  "put_lines ls = concat (map (\<lambda>l. l @ [10]) ls)"

lemma split_lines_put:
  assumes "list_all line_ok ls"
  shows "split_lines (put_lines ls) = ls"
  using assms
proof (induction ls)
  case Nil
  then show ?case by (simp add: put_lines_def split_lines.simps)
next
  case (Cons l ls)
  have l: "list_all (\<lambda>b. \<not> line_end b) l" using Cons.prems by (simp add: line_ok_def)
  have e: "line_end 10" by (simp add: line_end_def)
  have "takeWhile (\<lambda>b. \<not> line_end b) (l @ 10 # put_lines ls) = l"
      "dropWhile (\<lambda>b. \<not> line_end b) (l @ 10 # put_lines ls) = 10 # put_lines ls"
    using l e by (induction l) auto
  moreover have "after_end (10 # put_lines ls) = put_lines ls" by (cases "put_lines ls") simp_all
  moreover have "put_lines (l # ls) = l @ 10 # put_lines ls" by (simp add: put_lines_def)
  ultimately show ?case using Cons by (subst split_lines.simps) simp
qed

lemma digit_groups_digits: "ds \<noteq> [] \<Longrightarrow> list_all digit ds \<Longrightarrow> digit_groups ds"
  by (induction ds rule: digit_groups.induct) (auto simp: digit_facts)

lemma py_nat_dec [simp]: "py_nat (dec_digits n) = Some n"
  using dec_digits_ok [of n] digit_groups_digits by (auto simp: py_nat_def list_all_iff filter_True)

lemma py_int_dec [simp]: "py_int (dec_int x) = Some x"
proof (cases "x < 0")
  case True
  then show ?thesis by (simp add: dec_int_def py_int_def)
next
  case False
  obtain d ds where d: "dec_digits (nat x) = d # ds" "digit d" by (rule dec_head)
  have "py_nat (d # ds) = Some (nat x)" using py_nat_dec [of "nat x"] d by simp
  then show ?thesis using False d digit_facts [OF d(2)] by (simp add: dec_int_def py_int_def)
qed

lemma dec_digits_int: "dec_digits n = dec_int (int n)"
  by (simp add: dec_int_def)

lemma not_white: "digit b \<Longrightarrow> \<not> white b" "\<not> white 45"
  by (auto simp: white_def digit_def)

lemma word_ok_dec [simp]: "word_ok (dec_digits n)" "word_ok (dec_int x)"
  using dec_digits_ok not_white by (auto simp: word_ok_def dec_int_def list_all_iff)

lemma line_ok_word: "word_ok t \<Longrightarrow> line_ok t"
  by (auto simp: word_ok_def line_ok_def white_def line_end_def list_all_iff)

lemma line_ok_append [simp]: "line_ok (a @ b) \<longleftrightarrow> line_ok a \<and> line_ok b"
  by (simp add: line_ok_def)

lemma line_ok_blank [simp]: "line_ok (32 # a) \<longleftrightarrow> line_ok a"
  by (simp add: line_ok_def line_end_def)

lemma split_eq_word: "61 \<notin> set k \<Longrightarrow> split_eq (k @ 61 # v) = Some (k, v)"
proof -
  assume "61 \<notin> set k"
  then have "takeWhile (\<lambda>b. b \<noteq> 61) (k @ 61 # v) = k" "dropWhile (\<lambda>b. b \<noteq> 61) (k @ 61 # v) = 61 # v"
    by (induction k) auto
  then show ?thesis by (simp add: split_eq_def)
qed

end
