(* ===== verification/ProfilerReport.thy ===== *)
theory ProfilerReport
  imports Profiler TextFormat
begin

text \<open>
  The reports of the profiler (\<^verbatim>\<open>profiler_scope.cpp\<close>) as text, in ticks and in the four time units. \<open>rnd\<close> rounds to
  a \<^verbatim>\<open>long double\<close>, which holds every 64-bit count; \<open>num\<close> prints one with a width and a number of places. A
  report over a walk of the map that fails is \<open>None\<close>. Shown: the integer table is read back field by field,
  and with exact arithmetic the average times the calls is the total in every unit.
\<close>

datatype time_unit = Nanosec | Microsec | Millisec | Sec

fun unit_suffix :: "time_unit \<Rightarrow> bytes" where
  "unit_suffix Nanosec = ascii ''ns''"
| "unit_suffix Microsec = ascii ''us''"
| "unit_suffix Millisec = ascii ''ms''"
| "unit_suffix Sec = ascii ''s''"

fun unit_divisor :: "time_unit \<Rightarrow> rat" where
  "unit_divisor Nanosec = 1"
| "unit_divisor Microsec = 1000"
| "unit_divisor Millisec = 1000000"
| "unit_divisor Sec = 1000000000"

definition convert_ns :: "(rat \<Rightarrow> rat) \<Rightarrow> u64 \<Rightarrow> time_unit \<Rightarrow> rat" where
  "convert_ns rnd ns u = rnd (of_nat (unat ns) / unit_divisor u)"

text \<open>Total, average, smallest and largest time.\<close>

definition times_of :: "(rat \<Rightarrow> rat) \<Rightarrow> time_unit \<Rightarrow> summary_data \<Rightarrow> rat \<times> rat \<times> rat \<times> rat" where
  "times_of rnd u s = (let tot = convert_ns rnd (total_ns s) u in
     (tot, rnd (tot / of_nat (unat (call_count s))), convert_ns rnd (smin_ns s) u, convert_ns rnd (smax_ns s) u))"

definition rule_line :: bytes where "rule_line = replicate 34 45"

definition calls_line :: "cstr \<Rightarrow> summary_data \<Rightarrow> bytes" where
  "calls_line name s = ascii ''Scope '' @ name @ ascii '' Calls : '' @ dec_digits (unat (call_count s))"

definition ticks_block :: "cstr \<times> summary_data \<Rightarrow> bytes list" where
  "ticks_block r = (case r of (name, s) \<Rightarrow>
     [calls_line name s, ascii ''Total ns     : '' @ dec_digits (unat (total_ns s)),
      ascii ''Min ns       : '' @ dec_digits (unat (smin_ns s)), ascii ''Max ns       : '' @ dec_digits (unat (smax_ns s)), rule_line])"

definition print_ticks :: "manager \<Rightarrow> bytes option" where
  "print_ticks M = map_option (\<lambda>rows. put_lines (rule_line # concat (map ticks_block rows))) (report_rows M)"

definition times_block :: "(nat \<Rightarrow> nat \<Rightarrow> rat \<Rightarrow> bytes) \<Rightarrow> (rat \<Rightarrow> rat) \<Rightarrow> time_unit \<Rightarrow> cstr \<times> summary_data \<Rightarrow> bytes list" where
  "times_block num rnd u r = (case r of (name, s) \<Rightarrow> case times_of rnd u s of (tot, avg, mn, mx) \<Rightarrow>
     let line = (\<lambda>label x. ascii label @ num 16 4 x @ 32 # unit_suffix u) in
     [calls_line name s, line ''Total Time   : '' tot, line ''Average Time : '' avg, line ''Min Time     : '' mn,
      line ''Max Time     : '' mx, rule_line])"

definition print_times :: "(nat \<Rightarrow> nat \<Rightarrow> rat \<Rightarrow> bytes) \<Rightarrow> (rat \<Rightarrow> rat) \<Rightarrow> time_unit \<Rightarrow> manager \<Rightarrow> bytes option" where
  "print_times num rnd u M = map_option (\<lambda>rows. put_lines (rule_line # concat (map (times_block num rnd u) rows))) (report_rows M)"

text \<open>The three reports to a file; \<open>Some None\<close> when it does not open.\<close>

definition save_txt :: "bool \<Rightarrow> (nat \<Rightarrow> nat \<Rightarrow> rat \<Rightarrow> bytes) \<Rightarrow> (rat \<Rightarrow> rat) \<Rightarrow> time_unit \<Rightarrow> manager \<Rightarrow> bytes option option" where
  "save_txt opens num rnd u M = (if \<not> opens then Some None
     else map_option (\<lambda>rows. Some (put_lines (rule_line # concat (map (times_block num rnd u) rows)))) (report_rows M))"

definition comma_line :: "bytes list \<Rightarrow> bytes" where
  "comma_line fs = concat (map (\<lambda>f. f @ [44]) (butlast fs)) @ last fs"

definition csv_row :: "(nat \<Rightarrow> nat \<Rightarrow> rat \<Rightarrow> bytes) \<Rightarrow> (rat \<Rightarrow> rat) \<Rightarrow> time_unit \<Rightarrow> cstr \<times> summary_data \<Rightarrow> bytes" where
  "csv_row num rnd u r = (case r of (name, s) \<Rightarrow> case times_of rnd u s of (tot, avg, mn, mx) \<Rightarrow>
     comma_line [name, dec_digits (unat (call_count s)), num 0 4 tot, num 0 4 avg, num 0 4 mn, num 0 4 mx])"

definition save_csv :: "bool \<Rightarrow> (nat \<Rightarrow> nat \<Rightarrow> rat \<Rightarrow> bytes) \<Rightarrow> (rat \<Rightarrow> rat) \<Rightarrow> time_unit \<Rightarrow> manager \<Rightarrow> bytes option option" where
  "save_csv opens num rnd u M = (let x = unit_suffix u; col = (\<lambda>label. ascii label @ ascii '' ('' @ x @ ascii '')'') in
     if \<not> opens then Some None
     else map_option (\<lambda>rows. Some (put_lines (comma_line [ascii ''Scope Name'', ascii ''Call Count'', col ''Total Time'',
       col ''Average Time'', col ''Min Time'', col ''Max Time''] # map (csv_row num rnd u) rows))) (report_rows M))"

definition func_row :: "cstr \<times> summary_data \<Rightarrow> bytes list" where
  "func_row r = (case r of (name, s) \<Rightarrow> [name, dec_digits (unat (call_count s)), dec_digits (unat (total_ns s)),
     dec_digits (unat (smin_ns s)), dec_digits (unat (smax_ns s))])"

definition save_func_csv :: "bool \<Rightarrow> manager \<Rightarrow> bytes option option" where
  "save_func_csv opens M = (if \<not> opens then Some None
     else map_option (\<lambda>rows. Some (put_lines (ascii ''Scope Name,Call Count,Total ns,Min ns,Max ns''
       # map (\<lambda>r. comma_line (func_row r)) rows))) (report_rows M))"

section \<open>The file and the terminal\<close>

lemma save_txt_prints: "save_txt True num rnd u M = map_option Some (print_times num rnd u M)"
  by (simp add: save_txt_def print_times_def option.map_comp comp_def)

lemma average_of_times:
  assumes "times_of id u s = (tot, avg, mn, mx)" "call_count s \<noteq> 0"
  shows "avg * of_nat (unat (call_count s)) = tot" "tot * unit_divisor u = of_nat (unat (total_ns s))"
proof -
  have "unit_divisor u \<noteq> 0" by (cases u) simp_all
  moreover have "(of_nat (unat (call_count s)) :: rat) \<noteq> 0" using assms(2) by (simp only: of_nat_eq_0_iff unat_eq_0 not_False_eq_True)
  ultimately show "tot * unit_divisor u = of_nat (unat (total_ns s))" "avg * of_nat (unat (call_count s)) = tot"
    using assms(1) by (auto simp: times_of_def convert_ns_def Let_def)
qed

section \<open>Reading the integer table\<close>

fun fields :: "bytes \<Rightarrow> bytes list" where
  "fields [] = [[]]"
| "fields (b # s) = (if b = 44 then [] # fields s else case fields s of [] \<Rightarrow> [[b]] | f # fs \<Rightarrow> (b # f) # fs)"

lemma fields_field: "44 \<notin> set f \<Longrightarrow> fields (f @ 44 # s) = f # fields s"
  by (induction f) auto

lemma fields_last: "44 \<notin> set f \<Longrightarrow> fields f = [f]"
  by (induction f) auto

lemma fields_comma_line: "fs \<noteq> [] \<Longrightarrow> \<forall>f \<in> set fs. 44 \<notin> set f \<Longrightarrow> fields (comma_line fs) = fs"
  by (induction fs) (auto simp: comma_line_def fields_field fields_last)

lemma dec_digits_no_comma: "44 \<notin> set (dec_digits n)"
  using dec_digits_digit by (force simp: digit_def)

lemma func_row_fields: "44 \<notin> set (fst r) \<Longrightarrow> fields (comma_line (func_row r)) = func_row r"
  by (rule fields_comma_line) (auto simp: func_row_def dec_digits_no_comma split: prod.splits)

text \<open>What is in the table: one line per row, its fields the name and the four numbers of the summary.\<close>

lemma func_csv_reads_back:
  assumes "report_rows M = Some rows" "list_all (\<lambda>r. word_ok (fst r) \<and> 44 \<notin> set (fst r)) rows"
  shows "\<exists>t. save_func_csv True M = Some (Some t) \<and> map fields (tl (split_lines t)) = map func_row rows"
proof -
  have d: "line_ok (dec_digits n)" for n using word_ok_dec(1) by (rule line_ok_word)
  have head: "line_ok (ascii ''Scope Name,Call Count,Total ns,Min ns,Max ns'')"
    by (simp add: line_ok_def line_end_def ascii_def of_char_def)
  have "line_ok (comma_line (func_row r))" if "word_ok (fst r)" for r
    using d line_ok_word [OF that] by (cases r) (simp add: comma_line_def func_row_def line_ok_def line_end_def)
  then have "list_all line_ok (ascii ''Scope Name,Call Count,Total ns,Min ns,Max ns'' # map (\<lambda>r. comma_line (func_row r)) rows)"
    using assms(2) head by (auto simp: list_all_iff)
  from split_lines_put [OF this] show ?thesis
    using assms by (auto simp: save_func_csv_def list_all_iff func_row_fields)
qed

end
