(* ===== verification/LoadTraffic.thy ===== *)
theory LoadTraffic
  imports LoadConnect
begin

text \<open>
  The measuring phase (\<^verbatim>\<open>src/client-bench/src/traffic.cpp\<close>): the open-loop send schedule, the service of the
  sockets, the drain, and the verdict. Clock readings and kernel answers are arguments. The slot length,
  one division of \<^verbatim>\<open>double\<close>s done once, is an argument of the schedule.
\<close>

section \<open>State\<close>

record schedule =
  sc_cfg :: config
  sc_proto :: proto
  sc_live :: "nat list"
  sc_start :: int
  sc_slot :: int

record traffic_run =
  tr_clients :: "nat \<Rightarrow> client"
  tr_stats :: traffic_stats
  tr_m :: nat
  tr_class :: nat
  tr_body :: corpus
  tr_sends :: "nat \<Rightarrow> send_res list"
  tr_recvs :: "nat \<Rightarrow> recv_res list"
  tr_wire :: "nat \<Rightarrow> bytes"

definition set_cl :: "nat \<Rightarrow> client \<Rightarrow> traffic_run \<Rightarrow> traffic_run" where
  "set_cl fd c s = s\<lparr>tr_clients := (tr_clients s)(fd := c)\<rparr>"

definition on_stats :: "(traffic_stats \<Rightarrow> traffic_stats) \<Rightarrow> traffic_run \<Rightarrow> traffic_run" where
  "on_stats f s = s\<lparr>tr_stats := f (tr_stats s)\<rparr>"

section \<open>Sending\<close>

definition filler :: "config \<Rightarrow> bytes" where
  "filler cfg = map (\<lambda>i. 97 + of_nat (i mod 26)) [0..<nat (max (cfg_size cfg) (k_size_classes ! 3))]"

text \<open>The text after the blob header: the next corpus line, or filler of the configured or rotating size.\<close>

definition body_text :: "config \<Rightarrow> traffic_run \<Rightarrow> bytes \<times> traffic_run" where
  "body_text cfg s = (if cfg_use_corpus cfg
     then (let (line, b) = next_line (tr_body s) in (line, s\<lparr>tr_body := b\<rparr>))
     else let (fill, s) = (if cfg_size_mix cfg
                then (nat (k_size_classes ! (tr_class s mod 4)), s\<lparr>tr_class := tr_class s + 1\<rparr>)
                else (nat (cfg_size cfg), s)) in
       (take (min fill (k_max_blob - k_blob_header)) (filler cfg), s))"

text \<open>An \<^verbatim>\<open>int64_t\<close> in the source; the theorems that put it on the wire ask for a value in that range.\<close>

definition due_at :: "schedule \<Rightarrow> nat \<Rightarrow> int" where
  "due_at sc m = sc_start sc + int m * sc_slot sc"

definition fd_of :: "schedule \<Rightarrow> nat \<Rightarrow> nat" where
  "fd_of sc m = sc_live sc ! (m mod length (sc_live sc))"

definition chat_frame :: "schedule \<Rightarrow> int \<Rightarrow> client \<Rightarrow> bytes \<Rightarrow> bytes" where
  "chat_frame sc due c text = put_frame (sc_proto sc) [] (id_chat (sc_proto sc))
     (make_blob (word_of_int due) (cl_seq c) (cfg_node (sc_cfg sc)) (word_of_int (cl_index c)) text)"

text \<open>The body of the send loop, for the message whose index is next.\<close>

definition send_due :: "schedule \<Rightarrow> int \<Rightarrow> traffic_run \<Rightarrow> traffic_run" where
  "send_due sc loop_ts s = (let due = due_at sc (tr_m s); fd = fd_of sc (tr_m s); c = tr_clients s fd;
       s = s\<lparr>tr_m := tr_m s + 1\<rparr> in
     if cl_state c \<noteq> St_ready then s
     else let s = on_stats (\<lambda>st. st\<lparr>self_lag := hist_add (loop_ts - due) (self_lag st)\<rparr>) s in
       if 64 * 1024 < length (cl_pending c) then on_stats (\<lambda>st. st\<lparr>backpressed := backpressed st + 1\<rparr>) s
       else let (text, s) = body_text (sc_cfg sc) s;
                fr = chat_frame sc due c text;
                s = on_stats (\<lambda>st. st\<lparr>sent := sent st + 1\<rparr>) s in
         case send_frame (tr_sends s fd) (cl_pending c) fr of (script, took, pend, ok) \<Rightarrow>
           (set_cl fd (c\<lparr>cl_seq := cl_seq c + 1, cl_pending := pend, cl_state := (if ok then St_ready else St_dead)\<rparr>) s)
             \<lparr>tr_sends := (tr_sends s)(fd := script), tr_wire := (tr_wire s)(fd := tr_wire s fd @ took)\<rparr>)"

fun burst :: "schedule \<Rightarrow> int \<Rightarrow> nat \<Rightarrow> traffic_run \<Rightarrow> traffic_run" where
  "burst sc loop_ts 0 s = s"
| "burst sc loop_ts (Suc n) s = (if loop_ts < due_at sc (tr_m s) then s else burst sc loop_ts n (send_due sc loop_ts s))"

definition max_burst :: "schedule \<Rightarrow> nat" where
  "max_burst sc = max 1024 (length (sc_live sc) div 8)"

section \<open>Serving the sockets\<close>

text \<open>An event carries the clock reading taken after its socket was read.\<close>

record tevent =
  te_fd :: nat
  te_err :: bool
  te_out :: bool
  te_in :: bool
  te_now :: int

definition tr_flush :: "nat \<Rightarrow> traffic_run \<Rightarrow> bool \<times> traffic_run" where
  "tr_flush fd s = (let c = tr_clients s fd in
     case flush_pending (tr_sends s fd) (cl_pending c) of (script, took, left, ok) \<Rightarrow>
       (ok, (set_cl fd (c\<lparr>cl_pending := left\<rparr>) s)
          \<lparr>tr_sends := (tr_sends s)(fd := script), tr_wire := (tr_wire s)(fd := tr_wire s fd @ took)\<rparr>))"

definition tr_read :: "nat \<Rightarrow> traffic_run \<Rightarrow> bool \<times> traffic_run" where
  "tr_read fd s = (let c = tr_clients s fd in
     case read_available (tr_recvs s fd) (cl_rx c) (bytes_in (tr_stats s)) of (script, slot, n_in, ok) \<Rightarrow>
       (ok, on_stats (\<lambda>st. st\<lparr>bytes_in := n_in\<rparr>) ((set_cl fd (c\<lparr>cl_rx := slot\<rparr>) s)\<lparr>tr_recvs := (tr_recvs s)(fd := script)\<rparr>)))"

definition tr_consume :: "schedule \<Rightarrow> nat \<Rightarrow> int \<Rightarrow> traffic_run \<Rightarrow> traffic_run" where
  "tr_consume sc fd now s = (let c = tr_clients s fd in
     case consume_frames (sc_proto sc) (cfg_node (sc_cfg sc)) now (cl_rx c) (tr_stats s) of (left, st) \<Rightarrow>
       (set_cl fd (c\<lparr>cl_rx := left\<rparr>) s)\<lparr>tr_stats := st\<rparr>)"

definition lose :: "nat \<Rightarrow> traffic_run \<Rightarrow> traffic_run" where
  "lose fd s = on_stats (\<lambda>st. st\<lparr>lost_conns := lost_conns st + 1\<rparr>) (set_cl fd ((tr_clients s fd)\<lparr>cl_state := St_dead\<rparr>) s)"

definition serve_io :: "schedule \<Rightarrow> tevent \<Rightarrow> traffic_run \<Rightarrow> bool \<times> traffic_run" where
  "serve_io sc e s = (let fd = te_fd e in
     case (if te_out e then tr_flush fd s else (True, s)) of (ok, s) \<Rightarrow>
       if ok \<and> te_in e then (case tr_read fd s of (ok, s) \<Rightarrow> (ok, tr_consume sc fd (te_now e) s)) else (ok, s))"

definition traffic_event :: "schedule \<Rightarrow> tevent \<Rightarrow> traffic_run \<Rightarrow> traffic_run" where
  "traffic_event sc e s =
     (if cl_state (tr_clients s (te_fd e)) \<noteq> St_ready then s
      else case serve_io sc e s of (ok, s) \<Rightarrow> if \<not> ok \<or> te_err e then lose (te_fd e) s else s)"

definition drain_event :: "schedule \<Rightarrow> tevent \<Rightarrow> traffic_run \<Rightarrow> traffic_run" where
  "drain_event sc e s = (let fd = te_fd e in
     if cl_state (tr_clients s fd) \<noteq> St_ready \<or> \<not> te_in e then s
     else case tr_read fd s of (ok, s) \<Rightarrow> if \<not> ok then lose fd s else tr_consume sc fd (te_now e) s)"

section \<open>The phase\<close>

datatype traffic_wait = TW_Events "tevent list" | TW_EINTR | TW_Error

text \<open>One turn: the stop flag, the clock at its start, and what the wait returns.\<close>

fun traffic_loop :: "schedule \<Rightarrow> int \<Rightarrow> (bool \<times> int \<times> traffic_wait) list \<Rightarrow> traffic_run \<Rightarrow> traffic_run" where
  "traffic_loop sc end_ts [] s = s"
| "traffic_loop sc end_ts ((stopped, loop_ts, w) # turns) s =
     (if stopped \<or> end_ts \<le> loop_ts then s
      else let s = burst sc loop_ts (max_burst sc) s in
        case w of TW_EINTR \<Rightarrow> traffic_loop sc end_ts turns s
        | TW_Error \<Rightarrow> s
        | TW_Events es \<Rightarrow> traffic_loop sc end_ts turns (fold (traffic_event sc) es s))"

fun drain_loop :: "schedule \<Rightarrow> (bool \<times> traffic_wait) list \<Rightarrow> traffic_run \<Rightarrow> traffic_run" where
  "drain_loop sc [] s = s"
| "drain_loop sc ((stopped, w) # turns) s =
     (if stopped then s else case w of TW_EINTR \<Rightarrow> drain_loop sc turns s
      | TW_Error \<Rightarrow> s
      | TW_Events es \<Rightarrow> drain_loop sc turns (fold (drain_event sc) es s))"

definition run_traffic :: "pools \<Rightarrow> schedule \<Rightarrow> (bool \<times> int \<times> traffic_wait) list \<Rightarrow> (bool \<times> traffic_wait) list \<Rightarrow> traffic_run \<Rightarrow> traffic_run" where
  "run_traffic ps sc turns drains s =
     (if not_above_zero (cfg_rate (sc_cfg sc)) \<or> cfg_duration (sc_cfg sc) \<le> 0 \<or> sc_live sc = [] then s
      else let s = (if cfg_use_corpus (sc_cfg sc)
              then s\<lparr>tr_body := build ps (cfg_corpus_seed (sc_cfg sc)) 4096 (k_max_blob - k_blob_header)\<rparr> else s);
            s = traffic_loop sc (sc_start sc + cfg_duration (sc_cfg sc) * 1000000000) turns s in
        drain_loop sc drains s)"

section \<open>The schedule is open loop\<close>

lemma set_cl_fields [simp]:
  "tr_clients (set_cl fd c s) = (tr_clients s)(fd := c)" "tr_stats (set_cl fd c s) = tr_stats s" "tr_m (set_cl fd c s) = tr_m s"
  "tr_body (set_cl fd c s) = tr_body s" "tr_sends (set_cl fd c s) = tr_sends s" "tr_recvs (set_cl fd c s) = tr_recvs s"
  "tr_wire (set_cl fd c s) = tr_wire s" "tr_class (set_cl fd c s) = tr_class s"
  by (simp_all add: set_cl_def)

lemma on_stats_fields [simp]:
  "tr_clients (on_stats f s) = tr_clients s" "tr_stats (on_stats f s) = f (tr_stats s)" "tr_m (on_stats f s) = tr_m s"
  "tr_body (on_stats f s) = tr_body s" "tr_sends (on_stats f s) = tr_sends s" "tr_recvs (on_stats f s) = tr_recvs s"
  "tr_wire (on_stats f s) = tr_wire s" "tr_class (on_stats f s) = tr_class s"
  by (simp_all add: on_stats_def)

lemma body_text_fields:
  assumes "body_text cfg s = (text, s')"
  shows "tr_clients s' = tr_clients s" "tr_stats s' = tr_stats s" "tr_m s' = tr_m s" "tr_sends s' = tr_sends s"
    "tr_wire s' = tr_wire s" "tr_recvs s' = tr_recvs s"
  using assms by (auto simp: body_text_def Let_def split: prod.splits if_splits)

lemma tr_m_send_due [simp]: "tr_m (send_due sc t s) = Suc (tr_m s)"
  by (auto simp: send_due_def Let_def body_text_fields split: prod.split)

lemma int_div_less_iff: "0 < b \<Longrightarrow> x div b < c \<longleftrightarrow> x < c * b" for b c x :: int
proof -
  assume b: "0 < b"
  have x: "x div b * b + x mod b = x" "0 \<le> x mod b" "x mod b < b" using b by simp_all
  show ?thesis
  proof
    assume "x div b < c"
    then have "(x div b + 1) * b \<le> c * b" using b by (intro mult_right_mono) auto
    then show "x < c * b" using x by (simp only: distrib_right)
  next
    assume "x < c * b"
    then have "x div b * b < c * b" using x by linarith
    then show "x div b < c" using b by (simp only: mult_less_cancel_right)
  qed
qed

lemma burst_issues:
  assumes "0 < sc_slot sc"
  shows "tr_m (burst sc t n s) = max (tr_m s) (min (tr_m s + n) (nat ((t - sc_start sc) div sc_slot sc + 1)))"
proof (induction n arbitrary: s)
  case (Suc n)
  have "t < due_at sc (tr_m s) \<longleftrightarrow> (t - sc_start sc) div sc_slot sc < int (tr_m s)"
    using assms by (simp add: due_at_def int_div_less_iff algebra_simps)
  then show ?case
    using Suc.IH [of "send_due sc t s"] by (cases "t < due_at sc (tr_m s)") (auto simp: max_def min_def)
qed simp

text \<open>
  C30. The send schedule is open loop: after the send pass of a turn that began at time \<open>t\<close> every message
  due by \<open>t\<close> has been attempted, or the burst cap was used up, and none that was not yet due. How far
  the schedule has advanced depends on the clock alone, not on what connections, sockets or the server
  did.
\<close>
theorem schedule_is_open_loop:
  assumes "0 < sc_slot sc" "m = tr_m (burst sc t (max_burst sc) s)"
  shows "m = max (tr_m s) (min (tr_m s + max_burst sc) (nat ((t - sc_start sc) div sc_slot sc + 1)))
    \<and> (\<forall>i. tr_m s \<le> i \<and> i < m \<longrightarrow> due_at sc i \<le> t)
    \<and> (m < tr_m s + max_burst sc \<longrightarrow> t < due_at sc m)"
proof -
  define q where "q = (t - sc_start sc) div sc_slot sc"
  have m: "m = max (tr_m s) (min (tr_m s + max_burst sc) (nat (q + 1)))"
    unfolding assms(2) q_def by (rule burst_issues [OF assms(1)])
  have due: "t < due_at sc i \<longleftrightarrow> q < int i" for i
    using assms(1) by (simp add: due_at_def q_def int_div_less_iff algebra_simps)
  have "due_at sc i \<le> t" if "tr_m s \<le> i" "i < m" for i
  proof -
    have "i < nat (q + 1)" using that m by (auto simp: max_def min_def split: if_splits)
    then show ?thesis using due [of i] by linarith
  qed
  moreover have "t < due_at sc m" if "m < tr_m s + max_burst sc"
    using that m due [of m] by (auto simp: max_def min_def split: if_splits)
  ultimately show ?thesis using m by (auto simp: q_def)
qed

definition demo_schedule :: schedule where
  "demo_schedule = \<lparr>sc_cfg = config_init, sc_proto = g_proto, sc_live = [3], sc_start = 100, sc_slot = 10\<rparr>"

definition demo_traffic :: traffic_run where
  "demo_traffic = \<lparr>tr_clients = (\<lambda>fd. client_init\<lparr>cl_state := St_ready\<rparr>), tr_stats = stats_init, tr_m = 1, tr_class = 0,
     tr_body = \<lparr>lines = [], cursor = 0, total_bytes = 0, min_bytes = 0, max_bytes = 0\<rparr>, tr_sends = (\<lambda>_. [S_error]),
     tr_recvs = (\<lambda>_. []), tr_wire = (\<lambda>_. [])\<rparr>"

lemma schedule_is_open_loop_witness:
  "tr_m (burst demo_schedule 135 (max_burst demo_schedule) demo_traffic) = 4 \<and> due_at demo_schedule 3 = 130"
  using schedule_is_open_loop [of demo_schedule _ 135 demo_traffic, OF _ refl]
  by (simp add: demo_schedule_def demo_traffic_def max_burst_def due_at_def)

section \<open>Books\<close>

text \<open>The parser touches only its own counters.\<close>

definition tx_part :: "traffic_stats \<Rightarrow> hist \<times> u64 \<times> u64 \<times> u64 \<times> int" where
  "tx_part st = (self_lag st, sent st, backpressed st, bytes_in st, lost_conns st)"

lemma tx_part_bad [simp]: "tx_part (bad st) = tx_part st"
  by (simp add: tx_part_def bad_def)

lemma tx_part_update [simp]:
  "tx_part (st\<lparr>frames_in := n\<rparr>) = tx_part st" "tx_part (st\<lparr>foreign := n\<rparr>) = tx_part st" "tx_part (st\<lparr>latency := h\<rparr>) = tx_part st"
  by (simp_all add: tx_part_def)

lemma tx_part_sample [simp]: "tx_part (sample node ts p st) = tx_part st"
  by (simp add: sample_def Let_def split: option.split)

lemma tx_part_tick [simp]: "tx_part (tick_entries node ts bs st) = tx_part st"
proof (induction node ts bs st rule: tick_entries.induct)
  case (1 node ts bs st)
  then show ?case by (subst tick_entries.simps) (simp add: Let_def)
qed

lemma tx_part_count [simp]: "tx_part (count_frame p node ts t d st) = tx_part st"
  by (simp add: count_frame_def Let_def)

lemma tx_part_consume: "consume_frames p node ts bs st = (r, st') \<Longrightarrow> tx_part st' = tx_part st"
proof (induction p node ts bs st rule: consume_frames.induct)
  case (1 p node ts bs st)
  show ?case
  proof (cases "\<exists>len. k_header_size \<le> length bs \<and> payload_len p (le_word (take 2 bs)) = Some len \<and> \<not> length bs < k_header_size + len")
    case True
    then obtain len where len: "k_header_size \<le> length bs" "payload_len p (le_word (take 2 bs)) = Some len"
        "\<not> length bs < k_header_size + len"
      by blast
    have "consume_frames p node ts bs st = consume_frames p node ts (drop (k_header_size + len) bs)
        (count_frame p node ts (le_word (take 2 (drop 2 bs))) (take len (drop k_header_size bs)) st)"
      using len by (subst consume_frames.simps) simp
    then show ?thesis using 1(1) [OF len] 1(2) by simp
  next
    case False
    then show ?thesis using 1(2) by (subst (asm) consume_frames.simps) (auto split: if_splits option.splits)
  qed
qed

definition lag_books :: "traffic_run \<Rightarrow> bool" where
  "lag_books s \<longleftrightarrow> total (self_lag (tr_stats s)) = sent (tr_stats s) + backpressed (tr_stats s)"

lemma lag_books_cong: "tx_part (tr_stats s') = tx_part (tr_stats s) \<Longrightarrow> lag_books s' = lag_books s"
  by (simp add: lag_books_def tx_part_def)

lemma lag_books_send: "lag_books s \<Longrightarrow> lag_books (send_due sc t s)"
  by (auto simp: lag_books_def send_due_def Let_def hist_add_fields body_text_fields split: prod.split)

lemma lag_books_burst: "lag_books s \<Longrightarrow> lag_books (burst sc t n s)"
  by (induction n arbitrary: s) (simp_all add: lag_books_send)

lemma event_parts:
  "lag_books (snd (tr_flush fd s)) = lag_books s" "lag_books (snd (tr_read fd s)) = lag_books s"
  "lag_books (lose fd s) = lag_books s"
  by (auto simp: tr_flush_def tr_read_def lose_def lag_books_def Let_def split: prod.split)

lemma lag_books_consume [simp]: "lag_books (tr_consume sc fd now s) = lag_books s"
  by (auto simp: tr_consume_def Let_def intro!: lag_books_cong dest: tx_part_consume split: prod.split)

lemma lag_books_io:
  assumes "serve_io sc e s = (ok, s')" "lag_books s"
  shows "lag_books s'"
proof -
  obtain ok1 s1 where 1: "(if te_out e then tr_flush (te_fd e) s else (True, s)) = (ok1, s1)" by fastforce
  obtain ok2 s2 where 2: "tr_read (te_fd e) s1 = (ok2, s2)" by fastforce
  have "lag_books s1" using 1 assms(2) event_parts(1) [of "te_fd e" s] by (auto split: if_splits)
  moreover from this have "lag_books s2" using 2 event_parts(2) [of "te_fd e" s1] by simp
  ultimately show ?thesis using assms(1) 1 2 by (auto simp: serve_io_def Let_def split: if_splits)
qed

lemma lag_books_event: "lag_books s \<Longrightarrow> lag_books (traffic_event sc e s)"
  using lag_books_io [of sc e s] by (auto simp: traffic_event_def event_parts(3) split: prod.split)

lemma lag_books_drain: "lag_books s \<Longrightarrow> lag_books (drain_event sc e s)"
  using event_parts(2) [of "te_fd e" s] by (auto simp: drain_event_def Let_def event_parts(3) split: prod.split)

lemma lag_books_fold:
  "lag_books s \<Longrightarrow> lag_books (fold (traffic_event sc) es s)" "lag_books s \<Longrightarrow> lag_books (fold (drain_event sc) es s)"
  by (induction es arbitrary: s) (simp_all add: lag_books_event lag_books_drain)

lemma lag_books_loop: "lag_books s \<Longrightarrow> lag_books (traffic_loop sc end_ts turns s)"
proof (induction sc end_ts turns s rule: traffic_loop.induct)
  case (2 sc end_ts stopped loop_ts w turns s)
  then show ?case by (auto simp: Let_def lag_books_burst lag_books_fold split: traffic_wait.split)
qed simp

lemma lag_books_drain_loop: "lag_books s \<Longrightarrow> lag_books (drain_loop sc turns s)"
proof (induction sc turns s rule: drain_loop.induct)
  case (2 sc stopped w turns s)
  then show ?case by (auto simp: lag_books_fold split: traffic_wait.split)
qed simp

text \<open>Self-lag is sampled for every message the schedule reaches on a ready connection, sent or held back.\<close>

lemma lag_books_run: "lag_books s \<Longrightarrow> lag_books (run_traffic ps sc turns drains s)"
proof -
  assume "lag_books s"
  moreover from this have "lag_books (s\<lparr>tr_body := b\<rparr>)" for b by (simp add: lag_books_def)
  ultimately show ?thesis by (simp add: run_traffic_def Let_def lag_books_loop lag_books_drain_loop)
qed

section \<open>Losses\<close>

text \<open>A dead connection stays dead, and no event of it changes anything.\<close>

definition dead :: "nat \<Rightarrow> traffic_run \<Rightarrow> bool" where
  "dead fd s \<longleftrightarrow> cl_state (tr_clients s fd) = St_dead"

lemma dead_send: "dead fd s \<Longrightarrow> dead fd (send_due sc t s)"
  by (auto simp: dead_def send_due_def Let_def body_text_fields split: prod.split)

lemma dead_burst: "dead fd s \<Longrightarrow> dead fd (burst sc t n s)"
  by (induction n arbitrary: s) (simp_all add: dead_send)

lemma dead_io:
  "dead fd s \<Longrightarrow> dead fd (snd (tr_flush k s))" "dead fd s \<Longrightarrow> dead fd (snd (tr_read k s))"
  "dead fd s \<Longrightarrow> dead fd (tr_consume sc k now s)" "dead fd s \<Longrightarrow> dead fd (lose k s)"
  by (auto simp: dead_def tr_flush_def tr_read_def tr_consume_def lose_def Let_def split: prod.split)

lemma dead_serve_io: "dead fd s \<Longrightarrow> serve_io sc e s = (ok, s') \<Longrightarrow> dead fd s'"
proof -
  assume d: "dead fd s" and io: "serve_io sc e s = (ok, s')"
  obtain ok1 s1 where 1: "(if te_out e then tr_flush (te_fd e) s else (True, s)) = (ok1, s1)" by fastforce
  obtain ok2 s2 where 2: "tr_read (te_fd e) s1 = (ok2, s2)" by fastforce
  have "dead fd s1" using 1 d dead_io(1) [of fd s "te_fd e"] by (auto split: if_splits)
  moreover from this have "dead fd s2" using 2 dead_io(2) [of fd s1 "te_fd e"] by simp
  ultimately show "dead fd s'" using io 1 2 dead_io(3) by (auto simp: serve_io_def Let_def split: if_splits)
qed

lemma dead_event:
  assumes "dead fd s"
  shows "dead fd (traffic_event sc e s)" "dead fd (drain_event sc e s)"
    "te_fd e = fd \<Longrightarrow> traffic_event sc e s = s" "te_fd e = fd \<Longrightarrow> drain_event sc e s = s"
proof -
  show "dead fd (traffic_event sc e s)"
    using assms dead_serve_io [OF assms, of sc e] dead_io(4) by (auto simp: traffic_event_def split: prod.split)
  show "dead fd (drain_event sc e s)"
    using assms dead_io(2) [OF assms, of "te_fd e"] dead_io(3,4) by (auto simp: drain_event_def Let_def split: prod.split)
  show "te_fd e = fd \<Longrightarrow> traffic_event sc e s = s" "te_fd e = fd \<Longrightarrow> drain_event sc e s = s"
    using assms by (simp_all add: dead_def traffic_event_def drain_event_def)
qed

text \<open>The same waits with every event of one descriptor taken out.\<close>

fun without :: "nat \<Rightarrow> traffic_wait \<Rightarrow> traffic_wait" where
  "without fd (TW_Events es) = TW_Events (filter (\<lambda>e. te_fd e \<noteq> fd) es)"
| "without fd w = w"

lemma dead_events:
  assumes "dead fd s"
  shows "fold (traffic_event sc) (filter (\<lambda>e. te_fd e \<noteq> fd) es) s = fold (traffic_event sc) es s"
    "fold (drain_event sc) (filter (\<lambda>e. te_fd e \<noteq> fd) es) s = fold (drain_event sc) es s"
    "dead fd (fold (traffic_event sc) es s)" "dead fd (fold (drain_event sc) es s)"
  using assms by (induction es arbitrary: s) (simp_all add: dead_event)

lemma dead_traffic_loop:
  "dead fd s \<Longrightarrow> traffic_loop sc end_ts (map (\<lambda>(a, b, w). (a, b, without fd w)) turns) s = traffic_loop sc end_ts turns s
     \<and> dead fd (traffic_loop sc end_ts turns s)"
proof (induction sc end_ts turns s rule: traffic_loop.induct)
  case (2 sc end_ts stopped loop_ts w turns s)
  then show ?case by (cases w) (auto simp: Let_def dead_burst dead_events)
qed simp

lemma dead_drain_loop:
  "dead fd s \<Longrightarrow> drain_loop sc (map (\<lambda>(a, w). (a, without fd w)) turns) s = drain_loop sc turns s
     \<and> dead fd (drain_loop sc turns s)"
proof (induction sc turns s rule: drain_loop.induct)
  case (2 sc stopped w turns s)
  then show ?case by (cases w) (auto simp: dead_events)
qed simp

lemma send_due_dies:
  assumes "fd = fd_of sc (tr_m s)" "cl_state (tr_clients s fd) = St_ready" "cl_state (tr_clients (send_due sc t s) fd) = St_dead"
  shows "(\<exists>fr script took pend. send_frame (tr_sends s fd) (cl_pending (tr_clients s fd)) fr = (script, took, pend, False))
    \<and> sent (tr_stats (send_due sc t s)) = sent (tr_stats s) + 1
    \<and> lost_conns (tr_stats (send_due sc t s)) = lost_conns (tr_stats s)"
proof -
  obtain body s1 where b: "body_text (sc_cfg sc) (on_stats (\<lambda>st. st\<lparr>self_lag := hist_add (t - due_at sc (tr_m s)) (self_lag st)\<rparr>)
      (s\<lparr>tr_m := tr_m s + 1\<rparr>)) = (body, s1)" by fastforce
  let ?c = "tr_clients s fd"
  let ?fr = "chat_frame sc (due_at sc (tr_m s)) ?c body"
  obtain script took pend ok where f: "send_frame (tr_sends s fd) (cl_pending ?c) ?fr = (script, took, pend, ok)"
    by (metis prod_cases4)
  have room: "\<not> 64 * 1024 < length (cl_pending ?c)"
    using assms by (auto simp: send_due_def Let_def simp flip: assms(1))
  note fields = body_text_fields [OF b]
  have "\<not> ok" using assms room b f fields by (auto simp: send_due_def Let_def simp flip: assms(1))
  moreover have "sent (tr_stats (send_due sc t s)) = sent (tr_stats s) + 1"
      "lost_conns (tr_stats (send_due sc t s)) = lost_conns (tr_stats s)"
    using assms(2) room b f fields by (simp_all add: send_due_def Let_def flip: assms(1))
  moreover have "send_frame (tr_sends s fd) (cl_pending ?c) ?fr = (script, took, pend, False)" using f calculation(1) by simp
  ultimately show ?thesis by blast
qed

text \<open>
  C32. A connection that dies in a scheduled send is never counted as lost: it dies there because \<^verbatim>\<open>send_frame\<close>
  fails, whatever was pending; the message counts as sent, \<^verbatim>\<open>lost_conns\<close> is unchanged, and for the rest of the
  traffic loop and of the drain the run is the same as if every later event of that connection, hang-ups
  included, had been left out, so nothing that happens to it later reaches the count the verdict tests. (A
  connection whose flush fails on \<^verbatim>\<open>EPOLLOUT\<close>, or that the server closes, is counted.)
\<close>
theorem failed_send_never_counted:
  fixes t end_ts :: int
  assumes "fd = fd_of sc (tr_m s)" "cl_state (tr_clients s fd) = St_ready"
  defines "v \<equiv> send_due sc t s"
  assumes "cl_state (tr_clients v fd) = St_dead"
  shows "(\<exists>fr script took pend. send_frame (tr_sends s fd) (cl_pending (tr_clients s fd)) fr = (script, took, pend, False))
    \<and> sent (tr_stats v) = sent (tr_stats s) + 1 \<and> lost_conns (tr_stats v) = lost_conns (tr_stats s)
    \<and> traffic_loop sc end_ts turns v = traffic_loop sc end_ts (map (\<lambda>(a, b, w). (a, b, without fd w)) turns) v
    \<and> drain_loop sc drains (traffic_loop sc end_ts turns v)
        = drain_loop sc (map (\<lambda>(a, w). (a, without fd w)) drains) (traffic_loop sc end_ts turns v)"
proof -
  have d: "dead fd v" using assms(4) by (simp add: dead_def)
  note loop = dead_traffic_loop [OF d, of sc end_ts turns]
  show ?thesis
    using send_due_dies [OF assms(1,2) assms(4) [unfolded v_def]] loop dead_drain_loop [OF loop [THEN conjunct2], of sc drains]
    by (simp add: v_def)
qed

text \<open>By contrast, a flush that fails on \<^verbatim>\<open>EPOLLOUT\<close> is counted.\<close>

lemma failed_flush_counted:
  assumes "cl_state (tr_clients s (te_fd e)) = St_ready" "te_out e" "\<not> fst (tr_flush (te_fd e) s)"
  shows "lost_conns (tr_stats (traffic_event sc e s)) = lost_conns (tr_stats s) + 1"
  using assms by (auto simp: traffic_event_def serve_io_def tr_flush_def lose_def Let_def split: prod.splits)

definition demo_hangup :: tevent where
  "demo_hangup = \<lparr>te_fd = 3, te_err = True, te_out = False, te_in = False, te_now = 140\<rparr>"

lemma failed_send_never_counted_witness:
  "lost_conns (tr_stats (traffic_loop demo_schedule 150 [(False, 90, TW_Events [demo_hangup])] (send_due demo_schedule 135 demo_traffic))) = 0"
proof -
  have nonempty: "send_loop (S_error # script) fr = (script, [], fr, True)" if "fr \<noteq> []" for fr script
    using that by (cases fr) simp_all
  have fr: "chat_frame sc d c tx \<noteq> []" for sc d c tx
  proof -
    have "0 < length (chat_frame sc d c tx)" by (simp add: chat_frame_def put_frame_def k_blob_header_def)
    then show ?thesis by auto
  qed
  have "cl_state (tr_clients (send_due demo_schedule 135 demo_traffic) 3) = St_dead"
    by (auto simp: send_due_def Let_def send_frame_def nonempty fr body_text_fields demo_schedule_def demo_traffic_def
        fd_of_def client_init_def split: prod.split)
  then have "lost_conns (tr_stats (send_due demo_schedule 135 demo_traffic)) = 0"
      "traffic_loop demo_schedule 150 [(False, 90, TW_Events [demo_hangup])] (send_due demo_schedule 135 demo_traffic)
       = traffic_loop demo_schedule 150 [(False, 90, TW_Events [])] (send_due demo_schedule 135 demo_traffic)"
    using failed_send_never_counted [of 3 demo_schedule demo_traffic 135 150 "[(False, 90, TW_Events [demo_hangup])]" "[]"]
    by (simp_all add: demo_schedule_def demo_traffic_def fd_of_def stats_init_def client_init_def demo_hangup_def
        del: traffic_loop.simps)
  moreover have "burst demo_schedule 90 n (send_due demo_schedule 135 demo_traffic) = send_due demo_schedule 135 demo_traffic" for n
    by (cases n) (simp_all add: due_at_def demo_schedule_def demo_traffic_def)
  ultimately show ?thesis by (simp add: Let_def)
qed

section \<open>Message sizes\<close>

definition corpus_ready :: "config \<Rightarrow> traffic_run \<Rightarrow> bool" where
  "corpus_ready cfg s \<longleftrightarrow> (cfg_use_corpus cfg \<longrightarrow> cursor (tr_body s) < length (lines (tr_body s))
     \<and> (\<forall>l \<in> set (lines (tr_body s)). length l \<le> k_max_blob - k_blob_header))"

lemma body_text_fits:
  assumes "corpus_ready cfg s" "body_text cfg s = (fill, s')"
  shows "length fill \<le> k_max_blob - k_blob_header \<and> corpus_ready cfg s'"
  using assms
  by (auto simp: corpus_ready_def body_text_def next_line_def Let_def split: if_splits prod.splits)

lemma corpus_ready_build:
  assumes "pools_ok ps" "cfg_use_corpus cfg \<longrightarrow> tr_body s = build ps seed 4096 (k_max_blob - k_blob_header)"
  shows "corpus_ready cfg s"
proof -
  let ?m = "k_max_blob - k_blob_header"
  have lines: "lines (build ps seed 4096 ?m) = map (truncate_line ?m) (drawn ps 4096 (lcg seed))"
    using build_loop_spec(1) [of ps 4096 ?m "lcg seed"] by (simp add: build_def Let_def del: build_loop.simps drawn.simps)
  then have "length l \<le> ?m" if "l \<in> set (lines (build ps seed 4096 ?m))" for l
    using that drawn_utf8 [OF assms(1)] truncate_line_spec by auto
  moreover have "length (lines (build ps seed 4096 ?m)) = 4096" using lines length_drawn by (metis length_map)
  moreover have "cursor (build_loop ps n m g b) = cursor b" for n m g b
    by (induction n arbitrary: g b) (simp_all add: Let_def split: prod.split)
  then have "cursor (build ps seed 4096 ?m) = 0"
    by (simp add: build_def Let_def del: build_loop.simps)
  ultimately show ?thesis using assms(2) by (simp add: corpus_ready_def)
qed

text \<open>A scheduled message that does not kill its connection reaches the wire or the pending bytes as one frame.\<close>

lemma send_due_issues:
  assumes "fd = fd_of sc (tr_m s)" "cl_state (tr_clients s fd) = St_ready" "length (cl_pending (tr_clients s fd)) \<le> 64 * 1024"
    and "corpus_ready (sc_cfg sc) s" "cl_state (tr_clients (send_due sc t s) fd) = St_ready"
  obtains fill where "length fill \<le> k_max_blob - k_blob_header"
    "tr_wire (send_due sc t s) fd @ cl_pending (tr_clients (send_due sc t s) fd)
      = tr_wire s fd @ cl_pending (tr_clients s fd) @ chat_frame sc (due_at sc (tr_m s)) (tr_clients s fd) fill"
proof -
  let ?s = "on_stats (\<lambda>st. st\<lparr>self_lag := hist_add (t - due_at sc (tr_m s)) (self_lag st)\<rparr>) (s\<lparr>tr_m := tr_m s + 1\<rparr>)"
  obtain fill s1 where b: "body_text (sc_cfg sc) ?s = (fill, s1)" by fastforce
  let ?c = "tr_clients s fd"
  let ?fr = "chat_frame sc (due_at sc (tr_m s)) ?c fill"
  obtain script took pend ok where f: "send_frame (tr_sends s fd) (cl_pending ?c) ?fr = (script, took, pend, ok)"
    by (metis prod_cases4)
  note fields = body_text_fields [OF b]
  have "corpus_ready (sc_cfg sc) ?s" using assms(4) by (simp add: corpus_ready_def)
  then have fill: "length fill \<le> k_max_blob - k_blob_header" using body_text_fits b by blast
  have room: "\<not> 64 * 1024 < length (cl_pending ?c)" using assms(3) by simp
  have "ok" using assms(2,5) room b f fields by (auto simp: send_due_def Let_def simp flip: assms(1) split: if_splits)
  moreover have "tr_wire (send_due sc t s) fd = tr_wire s fd @ took" "cl_pending (tr_clients (send_due sc t s) fd) = pend"
    using assms(2) room b f fields by (simp_all add: send_due_def Let_def flip: assms(1))
  ultimately show ?thesis using that [OF fill] send_frame_split [OF f] by simp
qed

section \<open>Verdict\<close>

text \<open>\<^verbatim>\<open>report\<close> computes with \<^verbatim>\<open>double\<close>s: \<open>rnd\<close> rounds a rational to the nearest one.\<close>

definition k_lag_floor_ns :: int where "k_lag_floor_ns = 1000000"
definition k_lag_ratio :: int where "k_lag_ratio = 5"

datatype verdict_kind = Void_Fanout | Void_Lost | Void_No_Samples | Void_Beyond | Void_Lag | Warn | Usable

definition fanout_bad :: "(rat \<Rightarrow> rat) \<Rightarrow> config \<Rightarrow> traffic_stats \<Rightarrow> bool" where
  "fanout_bad rnd cfg st = (sent st \<noteq> 0 \<and>
     (let fanout = rnd (rnd (of_nat (unat (frames_in st))) / rnd (of_nat (unat (sent st))));
          want = of_int (cfg_per_room cfg) in
      rnd (want * rnd (105 / 100)) < fanout \<or> fanout < rnd (want * rnd (95 / 100))))"

definition pct99 :: "(rat \<Rightarrow> rat) \<Rightarrow> hist \<Rightarrow> int \<times> bool" where
  "pct99 rnd h = hist_pct (word_of_int \<lfloor>rnd (rnd (99 / 100) * rnd (of_nat (unat (total h))))\<rfloor>) h"

definition verdict :: "(rat \<Rightarrow> rat) \<Rightarrow> config \<Rightarrow> traffic_stats \<Rightarrow> verdict_kind" where
  "verdict rnd cfg st = (let (lat99, lat_beyond) = pct99 rnd (latency st); (lag99, lag_beyond) = pct99 rnd (self_lag st) in
     if fanout_bad rnd cfg st then Void_Fanout
     else if 0 < cfg_conns cfg \<and> \<lfloor>rnd (rnd (5 / 1000) * of_int (cfg_conns cfg))\<rfloor> < lost_conns st then Void_Lost
     else if total (latency st) = 0 then Void_No_Samples
     else if lat_beyond then Void_Beyond
     else if lat99 < lag99 * k_lag_ratio \<and> k_lag_floor_ns \<le> lag99 then Void_Lag
     else if lat99 < lag99 * k_lag_ratio then Warn
     else Usable)"

definition report :: "(rat \<Rightarrow> rat) \<Rightarrow> config \<Rightarrow> traffic_stats \<Rightarrow> bool" where
  "report rnd cfg st \<longleftrightarrow> not_above_zero (cfg_rate cfg) \<or> cfg_duration cfg \<le> 0 \<or> verdict rnd cfg st \<in> {Warn, Usable}"

lemma report_gates:
  assumes "report rnd cfg st" "\<not> not_above_zero (cfg_rate cfg)" "0 < cfg_duration cfg"
  shows "\<not> fanout_bad rnd cfg st" "0 < cfg_conns cfg \<Longrightarrow> lost_conns st \<le> \<lfloor>rnd (rnd (5 / 1000) * of_int (cfg_conns cfg))\<rfloor>"
    "total (latency st) \<noteq> 0" "\<not> snd (pct99 rnd (latency st))"
    "fst (pct99 rnd (self_lag st)) * k_lag_ratio \<le> fst (pct99 rnd (latency st)) \<or> fst (pct99 rnd (self_lag st)) < k_lag_floor_ns"
  using assms by (auto simp: report_def verdict_def Let_def split: prod.splits if_splits)

end
