(* ===== verification/LoadDump.thy ===== *)
theory LoadDump
  imports TextFormat LoadTraffic
begin

text \<open>
  What leaves one process of the load generator and what is made of it: the dump of a run
  (\<^verbatim>\<open>dump_stats\<close> in \<^verbatim>\<open>src/client-bench/src/traffic.cpp\<close>, \<^verbatim>\<open>dump_histogram\<close> in \<^verbatim>\<open>histogram.cpp\<close>), the reader and merger of
  dumps (\<^verbatim>\<open>src/client-bench/merge.py\<close>), and the server's CPU time read from \<^verbatim>\<open>/proc\<close>. A Python exception or
  \<^verbatim>\<open>sys.exit\<close> is \<open>None\<close>. Printing and reading a \<^verbatim>\<open>double\<close> are the parameters \<open>fmt\<close> (digits, number) and \<open>flt\<close>.
\<close>

section \<open>The dump\<close>

definition hist_header :: "bytes \<Rightarrow> hist \<Rightarrow> bytes" where
  "hist_header label h = ascii ''hist '' @ label @ ascii '' total='' @ dec_digits (unat (total h))
     @ ascii '' overflow='' @ dec_digits (unat (overflow h))
     @ ascii '' min='' @ dec_int (if total h \<noteq> 0 then min_ns h else 0)
     @ ascii '' max='' @ dec_int (max_ns h) @ ascii '' bucket_ns='' @ dec_int bucket_ns"

definition bucket_line :: "hist \<Rightarrow> nat \<Rightarrow> bytes" where
  "bucket_line h b = dec_digits b @ [32] @ dec_digits (unat (counts h b))"

definition dump_histogram :: "bytes \<Rightarrow> hist \<Rightarrow> bytes list" where
  "dump_histogram label h = hist_header label h
     # map (bucket_line h) (filter (\<lambda>b. counts h b \<noteq> 0) [0..<buckets]) @ [ascii ''end'']"

definition dump_line :: "string \<Rightarrow> bytes \<Rightarrow> bytes" where
  "dump_line key v = ascii key @ 32 # v"

text \<open>\<open>cpu\<close> is \<^verbatim>\<open>server_cpu_pct\<close> and \<^verbatim>\<open>server_kern_pct\<close>; the first is negative when nothing was sampled.\<close>

definition dump_stats :: "(nat \<Rightarrow> double \<Rightarrow> bytes) \<Rightarrow> config \<Rightarrow> rat \<times> rat \<Rightarrow> traffic_stats \<Rightarrow> bytes" where
  "dump_stats fmt cfg cpu st = put_lines
     ([ascii ''netbench-dump v1 lag_floor_ns='' @ dec_int k_lag_floor_ns @ ascii '' lag_ratio='' @ dec_int k_lag_ratio,
       dump_line ''node'' (dec_digits (unat (cfg_node cfg))),
       dump_line ''conns'' (dec_int (cfg_conns cfg)),
       dump_line ''per_room'' (dec_int (cfg_per_room cfg)),
       dump_line ''rate'' (fmt 6 (cfg_rate cfg)),
       dump_line ''duration'' (dec_int (cfg_duration cfg)),
       dump_line ''sent'' (dec_digits (unat (sent st))),
       dump_line ''frames_in'' (dec_digits (unat (frames_in st))),
       dump_line ''bytes_in'' (dec_digits (unat (bytes_in st))),
       dump_line ''unparsed'' (dec_digits (unat (samples_bad st))),
       dump_line ''foreign'' (dec_digits (unat (foreign st))),
       dump_line ''backpressed'' (dec_digits (unat (backpressed st))),
       dump_line ''lost_conns'' (dec_int (lost_conns st))]
      @ (if 0 \<le> fst cpu then [dump_line ''server_cpu_pct'' (fmt 2 (Finite (fst cpu))), dump_line ''server_kern_pct'' (fmt 2 (Finite (snd cpu)))] else [])
      @ dump_histogram (ascii ''latency'') (latency st) @ dump_histogram (ascii ''self_lag'') (self_lag st))"

section \<open>The merger\<close>

text \<open>A \<^verbatim>\<open>Counter\<close>: its entries in insertion order.\<close>

type_synonym counter = "(int \<times> int) list"

fun counter_add :: "int \<times> int \<Rightarrow> counter \<Rightarrow> counter" where
  "counter_add (b, n) [] = [(b, n)]"
| "counter_add (b, n) ((k, v) # c) = (if k = b then (k, v + n) # c else (k, v) # counter_add (b, n) c)"

record py_hist =
  ph_counts :: counter
  ph_total :: int
  ph_overflow :: int
  ph_min :: "int option"
  ph_max :: int
  ph_bucket_ns :: int

definition py_hist_init :: py_hist where
  "py_hist_init = \<lparr>ph_counts = [], ph_total = 0, ph_overflow = 0, ph_min = None, ph_max = 0, ph_bucket_ns = 1000\<rparr>"

definition py_merge :: "counter \<Rightarrow> int \<Rightarrow> int \<Rightarrow> int \<Rightarrow> int \<Rightarrow> int \<Rightarrow> py_hist \<Rightarrow> py_hist option" where
  "py_merge other tot over mn mx ns h = (if ph_total h \<noteq> 0 \<and> ns \<noteq> ph_bucket_ns h then None
     else Some (h\<lparr>ph_bucket_ns := ns, ph_counts := fold counter_add other (ph_counts h), ph_total := ph_total h + tot,
       ph_overflow := ph_overflow h + over, ph_max := max (ph_max h) mx,
       ph_min := (if tot \<noteq> 0 then Some (case ph_min h of None \<Rightarrow> mn | Some m \<Rightarrow> min m mn) else ph_min h)\<rparr>))"

text \<open>\<^verbatim>\<open>pct\<close>: \<open>rnd\<close> rounds a product of \<^verbatim>\<open>float\<close>s.\<close>

fun py_scan :: "rat \<Rightarrow> counter \<Rightarrow> int \<Rightarrow> int option" where
  "py_scan want [] seen = None"
| "py_scan want ((b, n) # c) seen = (if want \<le> of_int (seen + n) then Some b else py_scan want c (seen + n))"

definition py_pct :: "(rat \<Rightarrow> rat) \<Rightarrow> rat \<Rightarrow> py_hist \<Rightarrow> int \<times> bool" where
  "py_pct rnd p h = (if ph_total h = 0 then (0, False)
     else case py_scan (rnd (p * of_int (ph_total h))) (sort_key fst (ph_counts h)) 0 of
       Some b \<Rightarrow> (b * ph_bucket_ns h, False)
     | None \<Rightarrow> (if ph_counts h = [] then 0 else Max (fst ` set (ph_counts h)) * ph_bucket_ns h, True))"

text \<open>\<^verbatim>\<open>lat\<close>, \<^verbatim>\<open>lag\<close>, \<^verbatim>\<open>meta\<close>, and \<^verbatim>\<open>scalars\<close> by what it holds under a key: a sum, the first value seen, or a
  list.\<close>

record merged =
  m_lat :: py_hist
  m_lag :: py_hist
  m_meta :: "bytes \<rightharpoonup> int"
  m_sums :: "bytes \<rightharpoonup> int"
  m_first :: "bytes \<rightharpoonup> bytes"
  m_cpu :: "bytes \<rightharpoonup> double list"
  m_nodes :: "bytes list"

definition merged_init :: merged where
  "merged_init = \<lparr>m_lat = py_hist_init, m_lag = py_hist_init, m_meta = Map.empty, m_sums = Map.empty, m_first = Map.empty,
     m_cpu = Map.empty, m_nodes = []\<rparr>"

definition check_meta :: "(bytes \<rightharpoonup> bytes) \<Rightarrow> bytes \<Rightarrow> merged \<Rightarrow> merged option" where
  "check_meta kv key s = (case kv key of None \<Rightarrow> None | Some v \<Rightarrow> case py_int v of None \<Rightarrow> None
     | Some n \<Rightarrow> (case m_meta s key of
         None \<Rightarrow> Some (s\<lparr>m_meta := (m_meta s)(key \<mapsto> n)\<rparr>)
       | Some m \<Rightarrow> if m = n then Some s else None))"

definition sum_keys :: "bytes list" where
  "sum_keys = map ascii [''sent'', ''frames_in'', ''bytes_in'', ''unparsed'', ''foreign'', ''backpressed'', ''lost_conns'', ''conns'']"

definition first_keys :: "bytes list" where
  "first_keys = map ascii [''rate'', ''duration'', ''per_room'']"

definition cpu_keys :: "bytes list" where
  "cpu_keys = map ascii [''server_cpu_pct'', ''server_kern_pct'']"

definition py_scalar :: "(bytes \<Rightarrow> double option) \<Rightarrow> bytes \<Rightarrow> bytes \<Rightarrow> merged \<Rightarrow> merged option" where
  "py_scalar flt key v s =
     (if key \<in> set sum_keys then map_option (\<lambda>n. s\<lparr>m_sums := (m_sums s)(key \<mapsto> (case m_sums s key of None \<Rightarrow> 0 | Some a \<Rightarrow> a) + n)\<rparr>) (py_int v)
      else if key \<in> set first_keys then Some (case m_first s key of None \<Rightarrow> s\<lparr>m_first := (m_first s)(key \<mapsto> v)\<rparr> | Some _ \<Rightarrow> s)
      else if key \<in> set cpu_keys then map_option (\<lambda>x. s\<lparr>m_cpu := (m_cpu s)(key \<mapsto> (case m_cpu s key of None \<Rightarrow> [] | Some xs \<Rightarrow> xs) @ [x])\<rparr>) (flt v)
      else if key = ascii ''node'' then Some (s\<lparr>m_nodes := m_nodes s @ [v]\<rparr>)
      else Some s)"

text \<open>The bucket lines up to \<^verbatim>\<open>end\<close>: the counter and the lines behind it.\<close>

fun read_counts :: "bytes list \<Rightarrow> counter \<Rightarrow> (counter \<times> bytes list) option" where
  "read_counts [] c = Some (c, [])"
| "read_counts (l # ls) c = (if l = ascii ''end'' then Some (c, ls)
     else case split_words l of
       [b, n] \<Rightarrow> (case (py_int b, py_int n) of (Some b, Some n) \<Rightarrow> read_counts ls (counter_add (b, n) c) | _ \<Rightarrow> None)
     | _ \<Rightarrow> None)"

definition kv_int :: "(bytes \<rightharpoonup> bytes) \<Rightarrow> string \<Rightarrow> int option" where
  "kv_int kv key = (case kv (ascii key) of None \<Rightarrow> None | Some v \<Rightarrow> py_int v)"

definition merge_hist :: "bytes \<Rightarrow> (bytes \<rightharpoonup> bytes) \<Rightarrow> counter \<Rightarrow> merged \<Rightarrow> merged option" where
  "merge_hist label kv c s =
     (case (kv_int kv ''total'', kv_int kv ''overflow'', kv_int kv ''min'', kv_int kv ''max'', kv_int kv ''bucket_ns'') of
       (Some tot, Some over, Some mn, Some mx, Some ns) \<Rightarrow>
         if label = ascii ''latency'' then map_option (\<lambda>h. s\<lparr>m_lat := h\<rparr>) (py_merge c tot over mn mx ns (m_lat s))
         else map_option (\<lambda>h. s\<lparr>m_lag := h\<rparr>) (py_merge c tot over mn mx ns (m_lag s))
     | _ \<Rightarrow> None)"

lemma read_counts_shorter: "read_counts ls c = Some (c', rest) \<Longrightarrow> length rest \<le> length ls"
proof (induction ls arbitrary: c)
  case (Cons l ls)
  then show ?case by (auto split: if_splits list.splits option.splits intro: le_SucI)
qed simp

function parse_body :: "(bytes \<Rightarrow> double option) \<Rightarrow> bytes list \<Rightarrow> merged \<Rightarrow> merged option" where
  "parse_body flt [] s = Some s"
| "parse_body flt (l # ls) s = (let parts = split_words l in
     if parts = [] then parse_body flt ls s
     else if hd parts = ascii ''hist'' then
       (if tl parts = [] then None
        else case kv_dict (drop 2 parts) Map.empty of None \<Rightarrow> None
          | Some kv \<Rightarrow> case read_counts ls [] of None \<Rightarrow> None
          | Some (c, rest) \<Rightarrow> case merge_hist (parts ! 1) kv c s of None \<Rightarrow> None | Some s \<Rightarrow> parse_body flt rest s)
     else if length parts = 2 then (case py_scalar flt (parts ! 0) (parts ! 1) s of None \<Rightarrow> None | Some s \<Rightarrow> parse_body flt ls s)
     else parse_body flt ls s)"
  by pat_completeness auto
termination
  by (relation "measure (\<lambda>(flt, ls, s). length ls)") (auto dest: read_counts_shorter)

definition parse_dump :: "(bytes \<Rightarrow> double option) \<Rightarrow> bytes \<Rightarrow> merged \<Rightarrow> merged option" where
  "parse_dump flt txt s = (case split_lines txt of [] \<Rightarrow> None
     | l # ls \<Rightarrow> if take 14 l \<noteq> ascii ''netbench-dump '' then None
       else let hd = split_words l in
         if length hd < 2 \<or> hd ! 1 \<noteq> ascii ''v1'' then None
         else case kv_dict (drop 2 hd) Map.empty of None \<Rightarrow> None
           | Some kv \<Rightarrow> case check_meta kv (ascii ''lag_floor_ns'') s of None \<Rightarrow> None
           | Some s \<Rightarrow> case check_meta kv (ascii ''lag_ratio'') s of None \<Rightarrow> None
           | Some s \<Rightarrow> parse_body flt ls s)"

fun merge_dumps :: "(bytes \<Rightarrow> double option) \<Rightarrow> bytes list \<Rightarrow> merged \<Rightarrow> merged option" where
  "merge_dumps flt [] s = Some s"
| "merge_dumps flt (t # ts) s = (case parse_dump flt t s of None \<Rightarrow> None | Some s \<Rightarrow> merge_dumps flt ts s)"

section \<open>The server's CPU time\<close>

text \<open>\<^verbatim>\<open>strrchr\<close>: what follows the last occurrence.\<close>

definition after_last :: "byte \<Rightarrow> bytes \<Rightarrow> bytes option" where
  "after_last b s = (if b \<in> set s then Some (rev (takeWhile (\<lambda>x. x \<noteq> b) (rev s))) else None)"

text \<open>The loop over \<^verbatim>\<open>vals\<close>, with \<open>k\<close> entries left to fill.\<close>

fun stat_fields :: "nat \<Rightarrow> bytes \<Rightarrow> u64 list" where
  "stat_fields 0 p = []"
| "stat_fields (Suc k) p = (let q = dropWhile (\<lambda>b. b = 32) p in
     if q = [] then []
     else let (v, r) = strtoull q in v # stat_fields k (if r = q then tl q else r))"

definition k_stat_buf :: nat where "k_stat_buf = 4096"

text \<open>\<open>file\<close> is what \<^verbatim>\<open>/proc/<pid>/stat\<close> holds, if it opens.\<close>

definition read_proc_cpu :: "bytes option \<Rightarrow> (u64 \<times> u64) option" where
  "read_proc_cpu file = (case file of None \<Rightarrow> None | Some f \<Rightarrow>
     let buf = take (k_stat_buf - 1) f in
     if buf = [] then None
     else case after_last 41 (takeWhile (\<lambda>b. b \<noteq> 0) buf) of None \<Rightarrow> None
       | Some p \<Rightarrow> let vals = stat_fields 13 p in
           if length vals < 13 then None else Some (vals ! 11, vals ! 12))"

text \<open>The line the kernel writes: process id, command name, state letter, and numbers from the parent's
  id on.\<close>

definition stat_line :: "nat \<Rightarrow> bytes \<Rightarrow> byte \<Rightarrow> int list \<Rightarrow> bytes" where
  "stat_line pid comm letter xs = dec_digits pid @ ascii '' ('' @ comm @ ascii '') '' @ letter
     # concat (map (\<lambda>x. 32 # dec_int x) xs) @ [10]"

lemma after_last_app: "b \<notin> set r \<Longrightarrow> after_last b (p @ b # r) = Some r"
proof -
  assume "b \<notin> set r"
  then have "takeWhile (\<lambda>x. x \<noteq> b) (rev r @ b # rev p) = rev r" by (induction "rev r") (auto simp: takeWhile_tail)
  then show ?thesis by (simp add: after_last_def)
qed

lemma stops_numbers: "stops (concat (map (\<lambda>x. 32 # dec_int x) xs) @ [10])"
  by (cases xs) (simp_all add: stops_def digit_def)

lemma dec_int_chars: "b \<in> set (dec_int x) \<Longrightarrow> b = 45 \<or> digit b"
  using dec_digits_digit by (auto simp: dec_int_def split: if_splits)

lemma dec_int_clean: "32 \<notin> set (dec_int x)" "41 \<notin> set (dec_int x)" "0 \<notin> set (dec_int x)"
  using dec_int_chars [of 32] dec_int_chars [of 41] dec_int_chars [of 0] by (auto simp: digit_def)

lemma dec_int_nonempty [simp]: "dec_int x \<noteq> []"
  by (simp add: dec_int_def)

lemma stat_fields_numbers:
  assumes "\<forall>x\<in>set xs. - (2 ^ 64) < x \<and> x < 2 ^ 64" "k \<le> length xs"
  shows "stat_fields k (concat (map (\<lambda>x. 32 # dec_int x) xs) @ [10]) = take k (map of_int xs)"
  using assms
proof (induction xs arbitrary: k)
  case (Cons x xs)
  let ?r = "concat (map (\<lambda>x. 32 # dec_int x) xs) @ [10]"
  obtain b t where d: "dec_int x = b # t" "b \<noteq> 32"
    using dec_int_clean(1) [of x] by (cases "dec_int x") auto
  have s: "strtoull (dec_int x @ ?r) = (of_int x, ?r)"
    using Cons.prems by (intro strtoull_dec stops_numbers) simp_all
  have "?r \<noteq> dec_int x @ ?r" using d by simp
  moreover have "dropWhile (\<lambda>b. b = 32) (32 # dec_int x @ ?r) = dec_int x @ ?r" using d by simp
  ultimately have "stat_fields (Suc n) (32 # dec_int x @ ?r) = of_int x # stat_fields n ?r" for n
    using s d by (simp add: Let_def)
  then show ?case using Cons by (cases k) simp_all
qed simp

lemma stat_fields_letter:
  assumes "b \<noteq> 32" "\<not> c_space b" "b \<noteq> 45" "b \<noteq> 43" "\<not> digit b"
  shows "stat_fields (Suc k) (32 # b # s) = 0 # stat_fields k s"
proof -
  have "strtoull (b # s) = (0, b # s)" using assms by (simp add: strtoull_def)
  then show ?thesis using assms by simp
qed

text \<open>
  C34. The reading of the server's CPU time is not fooled by its name: for any command name without a NUL,
  spaces, parentheses and digits included, and any state letter, \<^verbatim>\<open>read_proc_cpu\<close> returns the eleventh and the
  twelfth number behind the letter, \<^verbatim>\<open>utime\<close> and \<^verbatim>\<open>stime\<close> of a line of \<^verbatim>\<open>/proc/<pid>/stat\<close>, negative numbers
  among the others notwithstanding.
\<close>
theorem proc_cpu_whatever_the_name:
  assumes "0 \<notin> set comm" "65 \<le> letter" "letter < 123" "12 \<le> length xs" "\<forall>x\<in>set xs. - (2 ^ 64) < x \<and> x < 2 ^ 64"
    and "length (stat_line pid comm letter xs) < k_stat_buf"
  shows "read_proc_cpu (Some (stat_line pid comm letter xs)) = Some (of_int (xs ! 10), of_int (xs ! 11))"
proof -
  let ?ns = "concat (map (\<lambda>x. 32 # dec_int x) xs) @ [10]" and ?f = "stat_line pid comm letter xs"
  have "\<not> letter \<le> 57" using assms(2) order_trans [of 65 letter 57] by auto
  then have l: "letter \<noteq> 0" "letter \<noteq> 41" "letter \<noteq> 32" "letter \<noteq> 45" "letter \<noteq> 43" "\<not> digit letter" "\<not> c_space letter"
    using assms(2,3) by (auto simp: digit_def c_space_def)
  have n: "0 \<notin> set ?ns" "41 \<notin> set ?ns" using dec_int_clean by auto
  have "0 \<notin> set ?f" using assms(1) l n dec_digits_digit [of 0 pid] by (auto simp: stat_line_def ascii_def digit_def)
  then have "takeWhile (\<lambda>b. b \<noteq> 0) ?f = ?f" by (intro takeWhile_eq_all_conv [THEN iffD2]) metis
  moreover have "after_last 41 ?f = Some (32 # letter # ?ns)"
  proof -
    have "?f = (dec_digits pid @ ascii '' ('' @ comm) @ 41 # 32 # letter # ?ns" by (simp add: stat_line_def ascii_def)
    moreover have "41 \<notin> set (32 # letter # ?ns)" using l n by auto
    ultimately show ?thesis using after_last_app by metis
  qed
  moreover have "take (k_stat_buf - 1) ?f = ?f" using assms(6) by (simp add: take_all)
  moreover have "?f \<noteq> []" by (simp add: stat_line_def)
  moreover have "stat_fields (Suc 12) (32 # letter # ?ns) = 0 # stat_fields 12 ?ns"
    by (rule stat_fields_letter) (use l in simp_all)
  then have "stat_fields 13 (32 # letter # ?ns) = 0 # take 12 (map of_int xs)"
    unfolding stat_fields_numbers [OF assms(5,4)] by simp
  ultimately show ?thesis using assms(4) by (simp add: read_proc_cpu_def takeWhile_eq_all_conv [THEN iffD2])
qed

lemma proc_cpu_whatever_the_name_witness:
  "read_proc_cpu (Some (stat_line 812 (ascii ''a) R 1'') 83 [1, 812, 812, 0, - 1, 4194304, 90, 0, 0, 0, 1234, 567, 0]))
    = Some (1234, 567)"
proof -
  have "length (stat_line 812 (ascii ''a) R 1'') 83 [1, 812, 812, 0, - 1, 4194304, 90, 0, 0, 0, 1234, 567, 0]) < k_stat_buf"
    by (simp add: stat_line_def ascii_def dec_int_def dec_digits.simps k_stat_buf_def)
  then show ?thesis using proc_cpu_whatever_the_name [of "ascii ''a) R 1''" 83 "[1, 812, 812, 0, - 1, 4194304, 90, 0, 0, 0, 1234, 567, 0]" 812]
    by (simp add: ascii_def)
qed

end
