(* ===== verification/LoadMerge.thy ===== *)
theory LoadMerge
  imports LoadDump
begin

text \<open>
  Reading back what was written: every line of a dump is taken apart by \<^verbatim>\<open>merge.py\<close> into what \<^verbatim>\<open>dump_stats\<close> put
  into it, and a whole dump is accepted.
\<close>

section \<open>Lines\<close>

lemma word_ok_append: "word_ok a \<Longrightarrow> word_ok b \<Longrightarrow> word_ok (a @ b)"
  by (simp add: word_ok_def)

lemma split_dump_line: "word_ok (ascii key) \<Longrightarrow> word_ok v \<Longrightarrow> split_words (dump_line key v) = [ascii key, v]"
  by (simp add: dump_line_def split_words_step split_words_last)

lemma line_ok_dump_line: "word_ok (ascii key) \<Longrightarrow> word_ok v \<Longrightarrow> line_ok (dump_line key v)"
  using line_ok_word by (simp add: dump_line_def)

definition header_words :: "bytes \<Rightarrow> hist \<Rightarrow> bytes list" where
  "header_words label h = [ascii ''hist'', label, ascii ''total='' @ dec_digits (unat (total h)),
     ascii ''overflow='' @ dec_digits (unat (overflow h)), ascii ''min='' @ dec_int (if total h \<noteq> 0 then min_ns h else 0),
     ascii ''max='' @ dec_int (max_ns h), ascii ''bucket_ns='' @ dec_int bucket_ns]"

lemma keys_ok:
  "word_ok (ascii ''hist'')" "word_ok (ascii ''total='')" "word_ok (ascii ''overflow='')" "word_ok (ascii ''min='')"
  "word_ok (ascii ''max='')" "word_ok (ascii ''bucket_ns='')" "word_ok (ascii ''end'')"
  by (simp_all add: word_ok_def ascii_def white_def)

lemma hist_header_words:
  "hist_header label h = concat (map (\<lambda>w. w @ [32]) (butlast (header_words label h))) @ last (header_words label h)"
  by (simp add: hist_header_def header_words_def ascii_def)

lemma split_joined:
  "list_all word_ok ws \<Longrightarrow> ws \<noteq> [] \<Longrightarrow> split_words (concat (map (\<lambda>w. w @ [32]) (butlast ws)) @ last ws) = ws"
  by (induction ws) (auto simp: split_words_step split_words_last)

lemma line_ok_joined:
  "list_all word_ok ws \<Longrightarrow> ws \<noteq> [] \<Longrightarrow> line_ok (concat (map (\<lambda>w. w @ [32]) (butlast ws)) @ last ws)"
  by (induction ws) (auto simp: line_ok_word line_ok_def [of "[]"])

lemma header_words_ok: "word_ok label \<Longrightarrow> list_all word_ok (header_words label h)"
  by (simp add: header_words_def keys_ok word_ok_append)

lemma split_hist_header: "word_ok label \<Longrightarrow> split_words (hist_header label h) = header_words label h"
  unfolding hist_header_words by (rule split_joined) (simp_all add: header_words_ok, simp add: header_words_def)

lemma line_ok_header: "word_ok label \<Longrightarrow> line_ok (hist_header label h)"
  unfolding hist_header_words by (rule line_ok_joined) (simp_all add: header_words_ok, simp add: header_words_def)

lemma kv_header:
  "\<exists>kv. kv_dict (drop 2 (header_words label h)) Map.empty = Some kv \<and> kv_int kv ''total'' = Some (int (unat (total h)))
     \<and> kv_int kv ''overflow'' = Some (int (unat (overflow h))) \<and> kv_int kv ''min'' = Some (if total h \<noteq> 0 then min_ns h else 0)
     \<and> kv_int kv ''max'' = Some (max_ns h) \<and> kv_int kv ''bucket_ns'' = Some bucket_ns"
proof -
  have e: "split_eq (ascii ''total='' @ v) = Some (ascii ''total'', v)" "split_eq (ascii ''overflow='' @ v) = Some (ascii ''overflow'', v)"
    "split_eq (ascii ''min='' @ v) = Some (ascii ''min'', v)" "split_eq (ascii ''max='' @ v) = Some (ascii ''max'', v)"
    "split_eq (ascii ''bucket_ns='' @ v) = Some (ascii ''bucket_ns'', v)" for v
    using split_eq_word [of "ascii ''total''" v] split_eq_word [of "ascii ''overflow''" v] split_eq_word [of "ascii ''min''" v]
      split_eq_word [of "ascii ''max''" v] split_eq_word [of "ascii ''bucket_ns''" v] by (simp_all add: ascii_def)
  have d: "py_int (dec_digits n) = Some (int n)" for n by (simp add: dec_digits_int)
  show ?thesis by (simp add: header_words_def e) (simp add: kv_int_def ascii_def d)
qed

lemma bucket_line_facts:
  "split_words (bucket_line h b) = [dec_digits b, dec_digits (unat (counts h b))]" "line_ok (bucket_line h b)"
  "bucket_line h b \<noteq> ascii ''end''"
proof -
  show "split_words (bucket_line h b) = [dec_digits b, dec_digits (unat (counts h b))]"
    by (simp add: bucket_line_def split_words_step split_words_last)
  show "line_ok (bucket_line h b)" using line_ok_word by (simp add: bucket_line_def)
  obtain d ds where "dec_digits b = d # ds" "digit d" by (rule dec_head)
  then show "bucket_line h b \<noteq> ascii ''end''" by (auto simp: bucket_line_def ascii_def digit_def)
qed

definition entries :: "hist \<Rightarrow> nat list \<Rightarrow> counter" where
  "entries h bs = map (\<lambda>b. (int b, int (unat (counts h b)))) bs"

lemma read_counts_dump:
  "read_counts (map (bucket_line h) bs @ ascii ''end'' # rest) c = Some (fold counter_add (entries h bs) c, rest)"
proof (induction bs arbitrary: c)
  case (Cons b bs)
  have "py_int (dec_digits n) = Some (int n)" for n by (simp add: dec_digits_int)
  then show ?case using Cons bucket_line_facts [of h b] by (simp add: entries_def)
qed (simp add: entries_def)

definition used :: "hist \<Rightarrow> nat list" where
  "used h = filter (\<lambda>b. counts h b \<noteq> 0) [0..<buckets]"

lemma dump_histogram_ok: "word_ok label \<Longrightarrow> list_all line_ok (dump_histogram label h)"
  using bucket_line_facts(2) line_ok_header line_ok_word [OF keys_ok(7)] by (simp add: dump_histogram_def list_all_iff)

text \<open>What the reader makes of the histogram of one dump.\<close>

definition add_hist :: "hist \<Rightarrow> py_hist \<Rightarrow> py_hist option" where
  "add_hist h = py_merge (fold counter_add (entries h (used h)) []) (int (unat (total h))) (int (unat (overflow h)))
     (if total h \<noteq> 0 then min_ns h else 0) (max_ns h) bucket_ns"

lemma parse_histogram:
  assumes "word_ok label"
  shows "parse_body flt (dump_histogram label h @ rest) s =
    (case (if label = ascii ''latency'' then map_option (\<lambda>h. s\<lparr>m_lat := h\<rparr>) (add_hist h (m_lat s))
           else map_option (\<lambda>h. s\<lparr>m_lag := h\<rparr>) (add_hist h (m_lag s))) of
       None \<Rightarrow> None | Some s \<Rightarrow> parse_body flt rest s)"
proof -
  have w: "header_words label h \<noteq> []" "hd (header_words label h) = ascii ''hist''" "tl (header_words label h) \<noteq> []"
    "header_words label h ! 1 = label" by (simp_all add: header_words_def)
  obtain kv where kv: "kv_dict (drop 2 (header_words label h)) Map.empty = Some kv" "kv_int kv ''total'' = Some (int (unat (total h)))"
     "kv_int kv ''overflow'' = Some (int (unat (overflow h)))" "kv_int kv ''min'' = Some (if total h \<noteq> 0 then min_ns h else 0)"
     "kv_int kv ''max'' = Some (max_ns h)" "kv_int kv ''bucket_ns'' = Some bucket_ns" using kv_header by blast
  have m: "merge_hist label kv c s = (if label = ascii ''latency''
      then map_option (\<lambda>h. s\<lparr>m_lat := h\<rparr>) (py_merge c (int (unat (total h))) (int (unat (overflow h))) (if total h \<noteq> 0 then min_ns h else 0) (max_ns h) bucket_ns (m_lat s))
      else map_option (\<lambda>h. s\<lparr>m_lag := h\<rparr>) (py_merge c (int (unat (total h))) (int (unat (overflow h))) (if total h \<noteq> 0 then min_ns h else 0) (max_ns h) bucket_ns (m_lag s)))" for c
    unfolding merge_hist_def kv by simp
  have d: "dump_histogram label h @ rest = hist_header label h # (map (bucket_line h) (used h) @ ascii ''end'' # rest)"
    by (simp add: dump_histogram_def used_def)
  show ?thesis unfolding d parse_body.simps Let_def split_hist_header [OF assms] w kv(1) read_counts_dump
    using w by (simp add: m add_hist_def)
qed

section \<open>One dump\<close>

lemma parse_scalar:
  assumes "word_ok (ascii key)" "word_ok v" "ascii key \<noteq> ascii ''hist''"
  shows "parse_body flt (dump_line key v # ls) s
    = (case py_scalar flt (ascii key) v s of None \<Rightarrow> None | Some s \<Rightarrow> parse_body flt ls s)"
  using assms by (simp add: split_dump_line)

definition bump :: "bytes \<times> int \<Rightarrow> (bytes \<rightharpoonup> int) \<Rightarrow> (bytes \<rightharpoonup> int)" where
  "bump e m = m(fst e \<mapsto> (case m (fst e) of None \<Rightarrow> 0 | Some a \<Rightarrow> a) + snd e)"

definition sums_of :: "config \<Rightarrow> traffic_stats \<Rightarrow> (bytes \<times> int) list" where
  "sums_of cfg st = [(ascii ''conns'', cfg_conns cfg), (ascii ''sent'', int (unat (sent st))),
     (ascii ''frames_in'', int (unat (frames_in st))), (ascii ''bytes_in'', int (unat (bytes_in st))),
     (ascii ''unparsed'', int (unat (samples_bad st))), (ascii ''foreign'', int (unat (foreign st))),
     (ascii ''backpressed'', int (unat (backpressed st))), (ascii ''lost_conns'', lost_conns st)]"

text \<open>What is asked of \<^verbatim>\<open>printf("%.6f")\<close> and \<^verbatim>\<open>float()\<close>: a printed number is one word, and can be read.\<close>

definition text_ok :: "(nat \<Rightarrow> double \<Rightarrow> bytes) \<Rightarrow> (bytes \<Rightarrow> double option) \<Rightarrow> bool" where
  "text_ok fmt flt \<longleftrightarrow> (\<forall>n r. word_ok (fmt n r) \<and> flt (fmt n r) \<noteq> None)"

definition meta_ok :: "(bytes \<rightharpoonup> int) \<Rightarrow> bool" where
  "meta_ok m \<longleftrightarrow> m (ascii ''lag_floor_ns'') \<in> {None, Some k_lag_floor_ns} \<and> m (ascii ''lag_ratio'') \<in> {None, Some k_lag_ratio}"

definition dump_head :: bytes where
  "dump_head = ascii ''netbench-dump v1 lag_floor_ns='' @ dec_int k_lag_floor_ns @ ascii '' lag_ratio='' @ dec_int k_lag_ratio"

lemma dump_head_words:
  "split_words dump_head = [ascii ''netbench-dump'', ascii ''v1'', ascii ''lag_floor_ns='' @ dec_int k_lag_floor_ns,
     ascii ''lag_ratio='' @ dec_int k_lag_ratio]" "take 14 dump_head = ascii ''netbench-dump ''" "line_ok dump_head"
proof -
  let ?ws = "[ascii ''netbench-dump'', ascii ''v1'', ascii ''lag_floor_ns='' @ dec_int k_lag_floor_ns,
     ascii ''lag_ratio='' @ dec_int k_lag_ratio]"
  have h: "dump_head = concat (map (\<lambda>w. w @ [32]) (butlast ?ws)) @ last ?ws" by (simp add: dump_head_def ascii_def)
  have "word_ok (ascii ''netbench-dump'')" "word_ok (ascii ''v1'')" "word_ok (ascii ''lag_floor_ns='')" "word_ok (ascii ''lag_ratio='')"
    by (simp_all add: word_ok_def ascii_def white_def)
  then have w: "list_all word_ok ?ws" by (simp add: word_ok_append)
  show "split_words dump_head = ?ws" unfolding h by (rule split_joined [OF w]) simp
  show "line_ok dump_head" unfolding h by (rule line_ok_joined [OF w]) simp
  show "take 14 dump_head = ascii ''netbench-dump ''" by (simp add: dump_head_def ascii_def)
qed

lemma head_dict:
  "\<exists>kv. kv_dict (drop 2 (split_words dump_head)) Map.empty = Some kv \<and> kv (ascii ''lag_floor_ns'') = Some (dec_int k_lag_floor_ns)
     \<and> kv (ascii ''lag_ratio'') = Some (dec_int k_lag_ratio)"
proof -
  have "split_eq (ascii ''lag_floor_ns='' @ v) = Some (ascii ''lag_floor_ns'', v)" "split_eq (ascii ''lag_ratio='' @ v) = Some (ascii ''lag_ratio'', v)" for v
    using split_eq_word [of "ascii ''lag_floor_ns''" v] split_eq_word [of "ascii ''lag_ratio''" v] by (simp_all add: ascii_def)
  then show ?thesis by (simp add: dump_head_words(1)) (simp add: ascii_def)
qed

definition lines_of :: "(nat \<Rightarrow> double \<Rightarrow> bytes) \<Rightarrow> config \<Rightarrow> traffic_stats \<Rightarrow> bytes list" where
  "lines_of fmt cfg st = [dump_line ''node'' (dec_digits (unat (cfg_node cfg))), dump_line ''conns'' (dec_int (cfg_conns cfg)),
       dump_line ''per_room'' (dec_int (cfg_per_room cfg)), dump_line ''rate'' (fmt 6 (cfg_rate cfg)),
       dump_line ''duration'' (dec_int (cfg_duration cfg)), dump_line ''sent'' (dec_digits (unat (sent st))),
       dump_line ''frames_in'' (dec_digits (unat (frames_in st))), dump_line ''bytes_in'' (dec_digits (unat (bytes_in st))),
       dump_line ''unparsed'' (dec_digits (unat (samples_bad st))), dump_line ''foreign'' (dec_digits (unat (foreign st))),
       dump_line ''backpressed'' (dec_digits (unat (backpressed st))), dump_line ''lost_conns'' (dec_int (lost_conns st))]"

definition cpu_lines :: "(nat \<Rightarrow> double \<Rightarrow> bytes) \<Rightarrow> rat \<times> rat \<Rightarrow> bytes list" where
  "cpu_lines fmt cpu = (if 0 \<le> fst cpu then [dump_line ''server_cpu_pct'' (fmt 2 (Finite (fst cpu))), dump_line ''server_kern_pct'' (fmt 2 (Finite (snd cpu)))] else [])"

lemma dump_stats_lines:
  "dump_stats fmt cfg cpu st = put_lines (dump_head # lines_of fmt cfg st @ cpu_lines fmt cpu
     @ dump_histogram (ascii ''latency'') (latency st) @ dump_histogram (ascii ''self_lag'') (self_lag st))"
  by (simp add: dump_stats_def dump_head_def lines_of_def cpu_lines_def)

lemma scalar_keys:
  "list_all (\<lambda>k. word_ok (ascii k) \<and> ascii k \<noteq> ascii ''hist'') [''node'', ''conns'', ''per_room'', ''rate'', ''duration'', ''sent'',
     ''frames_in'', ''bytes_in'', ''unparsed'', ''foreign'', ''backpressed'', ''lost_conns'', ''server_cpu_pct'', ''server_kern_pct'']"
  by (simp add: word_ok_def ascii_def white_def)

lemma scalar_key:
  assumes "k \<in> set [''node'', ''conns'', ''per_room'', ''rate'', ''duration'', ''sent'', ''frames_in'', ''bytes_in'', ''unparsed'', ''foreign'',
     ''backpressed'', ''lost_conns'', ''server_cpu_pct'', ''server_kern_pct'']"
  shows "word_ok (ascii k)" "ascii k \<noteq> ascii ''hist''"
  using assms scalar_keys unfolding list_all_iff by blast+

lemma py_scalar_sum:
  assumes "key \<in> set sum_keys" "py_int v = Some n"
  shows "py_scalar flt key v s = Some (s\<lparr>m_sums := bump (key, n) (m_sums s)\<rparr>)"
  using assms by (simp add: py_scalar_def bump_def)

lemma py_scalar_keeps:
  assumes "key \<notin> set sum_keys" "key \<in> set cpu_keys \<Longrightarrow> flt v \<noteq> None"
  shows "\<exists>s'. py_scalar flt key v s = Some s' \<and> m_lat s' = m_lat s \<and> m_lag s' = m_lag s \<and> m_meta s' = m_meta s \<and> m_sums s' = m_sums s"
  using assms by (auto simp: py_scalar_def split: option.splits)

lemma key_sets:
  "ascii ''node'' \<notin> set sum_keys" "ascii ''per_room'' \<notin> set sum_keys" "ascii ''rate'' \<notin> set sum_keys" "ascii ''duration'' \<notin> set sum_keys"
  "ascii ''server_cpu_pct'' \<notin> set sum_keys" "ascii ''server_kern_pct'' \<notin> set sum_keys" "ascii ''node'' \<notin> set cpu_keys"
  "ascii ''per_room'' \<notin> set cpu_keys" "ascii ''rate'' \<notin> set cpu_keys" "ascii ''duration'' \<notin> set cpu_keys"
  by (simp_all add: sum_keys_def cpu_keys_def ascii_def)

text \<open>Reading a stretch of scalar lines: the histograms stay, the sums grow.\<close>

definition reads_to :: "(bytes \<Rightarrow> double option) \<Rightarrow> bytes list \<Rightarrow> (bytes \<times> int) list \<Rightarrow> bool" where
  "reads_to flt ls es \<longleftrightarrow> (\<forall>s rest. \<exists>s'. parse_body flt (ls @ rest) s = parse_body flt rest s' \<and> m_lat s' = m_lat s \<and> m_lag s' = m_lag s
     \<and> m_meta s' = m_meta s \<and> m_sums s' = fold bump es (m_sums s))"

lemma reads_toD:
  "reads_to flt ls es \<Longrightarrow> \<exists>s'. parse_body flt (ls @ rest) s = parse_body flt rest s' \<and> m_lat s' = m_lat s \<and> m_lag s' = m_lag s
     \<and> m_meta s' = m_meta s \<and> m_sums s' = fold bump es (m_sums s)"
  by (simp add: reads_to_def)

lemma reads_to_Nil: "reads_to flt [] []"
  by (auto simp: reads_to_def)

lemma reads_to_append: "reads_to flt ls es \<Longrightarrow> reads_to flt ls' es' \<Longrightarrow> reads_to flt (ls @ ls') (es @ es')"
  unfolding reads_to_def by (metis append_assoc fold_append o_apply)

lemma reads_to_sum:
  assumes "word_ok (ascii key)" "ascii key \<noteq> ascii ''hist''" "ascii key \<in> set sum_keys" "word_ok v" "py_int v = Some n"
  shows "reads_to flt [dump_line key v] [(ascii key, n)]"
  using parse_scalar [OF assms(1,4,2)] py_scalar_sum [OF assms(3,5)] by (auto simp: reads_to_def)

lemma reads_to_keep:
  assumes "word_ok (ascii key)" "ascii key \<noteq> ascii ''hist''" "ascii key \<notin> set sum_keys" "word_ok v" "ascii key \<in> set cpu_keys \<Longrightarrow> flt v \<noteq> None"
  shows "reads_to flt [dump_line key v] []"
  unfolding reads_to_def
proof (intro allI)
  fix s rest
  obtain s' where "py_scalar flt (ascii key) v s = Some s'" "m_lat s' = m_lat s" "m_lag s' = m_lag s" "m_meta s' = m_meta s" "m_sums s' = m_sums s"
    using py_scalar_keeps [OF assms(3), of flt v s] assms(5) by blast
  then show "\<exists>s'. parse_body flt ([dump_line key v] @ rest) s = parse_body flt rest s' \<and> m_lat s' = m_lat s \<and> m_lag s' = m_lag s
     \<and> m_meta s' = m_meta s \<and> m_sums s' = fold bump [] (m_sums s)"
    using parse_scalar [OF assms(1,4,2), of flt rest s] by auto
qed

lemma reads_to_Cons: "reads_to flt [l] e \<Longrightarrow> reads_to flt ls es \<Longrightarrow> reads_to flt (l # ls) (e @ es)"
  using reads_to_append [of flt "[l]" e ls es] by simp

definition line_keys :: "string list" where
  "line_keys = [''node'', ''conns'', ''per_room'', ''rate'', ''duration'', ''sent'', ''frames_in'', ''bytes_in'', ''unparsed'',
     ''foreign'', ''backpressed'', ''lost_conns'', ''server_cpu_pct'', ''server_kern_pct'']"

lemma line_key: "k \<in> set line_keys \<Longrightarrow> word_ok (ascii k) \<and> ascii k \<noteq> ascii ''hist''"
  using scalar_keys unfolding list_all_iff line_keys_def by blast

lemma reads_sum:
  assumes "reads_to flt ls es" "k \<in> set line_keys" "ascii k \<in> set sum_keys" "word_ok v" "py_int v = Some n"
  shows "reads_to flt (dump_line k v # ls) ((ascii k, n) # es)"
  using reads_to_Cons [OF reads_to_sum assms(1)] line_key [OF assms(2)] assms(3-5) by simp

lemma reads_keep:
  assumes "reads_to flt ls es" "k \<in> set line_keys" "ascii k \<notin> set sum_keys" "word_ok v" "ascii k \<in> set cpu_keys \<longrightarrow> flt v \<noteq> None"
  shows "reads_to flt (dump_line k v # ls) es"
  using reads_to_Cons [OF reads_to_keep assms(1)] line_key [OF assms(2)] assms(3-5) by simp

lemma line_key_sets:
  "list_all (\<lambda>k. k \<in> set line_keys \<and> ascii k \<in> set sum_keys)
     [''conns'', ''sent'', ''frames_in'', ''bytes_in'', ''unparsed'', ''foreign'', ''backpressed'', ''lost_conns'']"
  "list_all (\<lambda>k. k \<in> set line_keys \<and> ascii k \<notin> set sum_keys)
     [''node'', ''per_room'', ''rate'', ''duration'', ''server_cpu_pct'', ''server_kern_pct'']"
  by (simp_all add: line_keys_def sum_keys_def ascii_def)

lemma reads_lines:
  assumes "text_ok fmt flt"
  shows "reads_to flt (lines_of fmt cfg st) (sums_of cfg st)"
proof -
  have f: "word_ok (fmt n r)" for n r using assms by (simp add: text_ok_def)
  have d: "py_int (dec_digits n) = Some (int n)" for n by (simp add: dec_digits_int)
  show ?thesis unfolding lines_of_def sums_of_def
    by (intro reads_sum reads_keep reads_to_Nil) (use line_key_sets key_sets f d in simp_all)
qed

lemma reads_cpu:
  assumes "text_ok fmt flt"
  shows "reads_to flt (cpu_lines fmt cpu) []"
proof -
  have f: "word_ok (fmt n r)" "flt (fmt n r) \<noteq> None" for n r using assms by (simp_all add: text_ok_def)
  have "reads_to flt [dump_line ''server_cpu_pct'' (fmt 2 a), dump_line ''server_kern_pct'' (fmt 2 b)] []" for a b
    by (intro reads_keep reads_to_Nil) (use line_key_sets f in simp_all)
  then show ?thesis by (simp add: cpu_lines_def reads_to_Nil)
qed

lemma labels_ok: "word_ok (ascii ''latency'')" "word_ok (ascii ''self_lag'')" "ascii ''self_lag'' \<noteq> ascii ''latency''"
  by (simp_all add: word_ok_def ascii_def white_def)

lemma dump_lines_ok:
  assumes "text_ok fmt flt"
  shows "list_all line_ok (dump_head # lines_of fmt cfg st @ cpu_lines fmt cpu
     @ dump_histogram (ascii ''latency'') (latency st) @ dump_histogram (ascii ''self_lag'') (self_lag st))"
proof -
  have f: "word_ok (fmt n r)" for n r using assms by (simp add: text_ok_def)
  have "line_ok (dump_line k v)" if "word_ok v" "k \<in> set [''node'', ''conns'', ''per_room'', ''rate'', ''duration'', ''sent'',
     ''frames_in'', ''bytes_in'', ''unparsed'', ''foreign'', ''backpressed'', ''lost_conns'', ''server_cpu_pct'', ''server_kern_pct'']" for k v
    by (rule line_ok_dump_line [OF scalar_key(1) [OF that(2)] that(1)])
  then show ?thesis using f by (simp add: lines_of_def cpu_lines_def dump_head_words(3) dump_histogram_ok labels_ok)
qed

lemma check_meta_ok:
  assumes "kv key = Some (dec_int n)" "m_meta s key \<in> {None, Some n}"
  shows "\<exists>s'. check_meta kv key s = Some s' \<and> m_meta s' = (m_meta s)(key \<mapsto> n) \<and> m_lat s' = m_lat s \<and> m_lag s' = m_lag s \<and> m_sums s' = m_sums s"
proof (cases "m_meta s key")
  case None
  then show ?thesis using assms by (simp add: check_meta_def)
next
  case (Some m)
  then have "(m_meta s)(key \<mapsto> n) = m_meta s" using assms(2) by (auto simp: fun_upd_idem)
  then show ?thesis using assms Some by (simp add: check_meta_def)
qed

lemma parse_dump_ok:
  assumes t: "text_ok fmt flt" and m: "meta_ok (m_meta s)"
    and h: "add_hist (latency st) (m_lat s) = Some h1" "add_hist (self_lag st) (m_lag s) = Some h2"
  shows "\<exists>s'. parse_dump flt (dump_stats fmt cfg cpu st) s = Some s' \<and> m_lat s' = h1 \<and> m_lag s' = h2 \<and> meta_ok (m_meta s')
    \<and> m_sums s' = fold bump (sums_of cfg st) (m_sums s)"
proof -
  let ?h1 = "dump_histogram (ascii ''latency'') (latency st)" and ?h2 = "dump_histogram (ascii ''self_lag'') (self_lag st)"
  let ?ls = "lines_of fmt cfg st @ cpu_lines fmt cpu @ ?h1 @ ?h2"
  have ls: "split_lines (dump_stats fmt cfg cpu st) = dump_head # ?ls"
    unfolding dump_stats_lines by (rule split_lines_put [OF dump_lines_ok [OF t]])
  obtain kv where kv: "kv_dict (drop 2 (split_words dump_head)) Map.empty = Some kv" "kv (ascii ''lag_floor_ns'') = Some (dec_int k_lag_floor_ns)"
     "kv (ascii ''lag_ratio'') = Some (dec_int k_lag_ratio)" using head_dict by blast
  obtain s1 where s1: "check_meta kv (ascii ''lag_floor_ns'') s = Some s1" "m_meta s1 = (m_meta s)(ascii ''lag_floor_ns'' \<mapsto> k_lag_floor_ns)"
      "m_lat s1 = m_lat s" "m_lag s1 = m_lag s" "m_sums s1 = m_sums s" using check_meta_ok [where kv = kv, OF kv(2)] m by (auto simp: meta_ok_def)
  have n: "ascii ''lag_ratio'' \<noteq> ascii ''lag_floor_ns''" by (simp add: ascii_def)
  then have "m_meta s1 (ascii ''lag_ratio'') \<in> {None, Some k_lag_ratio}" using m s1(2) by (simp add: meta_ok_def)
  then obtain s2 where s2: "check_meta kv (ascii ''lag_ratio'') s1 = Some s2" "m_meta s2 = (m_meta s1)(ascii ''lag_ratio'' \<mapsto> k_lag_ratio)"
      "m_lat s2 = m_lat s" "m_lag s2 = m_lag s" "m_sums s2 = m_sums s" using check_meta_ok [where kv = kv, OF kv(3)] s1 by metis
  have "reads_to flt (lines_of fmt cfg st @ cpu_lines fmt cpu) (sums_of cfg st)"
    using reads_to_append [OF reads_lines [OF t] reads_cpu [OF t]] by simp
  from reads_toD [OF this, of "?h1 @ ?h2" s2] obtain s3 where s3: "parse_body flt ?ls s2 = parse_body flt (?h1 @ ?h2) s3"
      "m_lat s3 = m_lat s" "m_lag s3 = m_lag s" "m_meta s3 = m_meta s2" "m_sums s3 = fold bump (sums_of cfg st) (m_sums s)"
    unfolding s2(3-5) append_assoc by blast
  have "parse_body flt (?h1 @ ?h2) s3 = parse_body flt ?h2 (s3\<lparr>m_lat := h1\<rparr>)"
    unfolding parse_histogram [OF labels_ok(1)] using h(1) s3(2) by simp
  also have "\<dots> = parse_body flt [] (s3\<lparr>m_lat := h1, m_lag := h2\<rparr>)"
    using parse_histogram [OF labels_ok(2), of flt "self_lag st" "[]" "s3\<lparr>m_lat := h1\<rparr>"] labels_ok(3) h(2) s3(3) by simp
  finally have "parse_dump flt (dump_stats fmt cfg cpu st) s = Some (s3\<lparr>m_lat := h1, m_lag := h2\<rparr>)"
    using s1(1) s2(1) kv(1) s3(1) by (simp add: parse_dump_def ls dump_head_words)
  moreover have "meta_ok (m_meta s3)" using s3(4) s2(2) s1(2) n by (simp add: meta_ok_def)
  ultimately show ?thesis using s3(5) by simp
qed

end
