(* ===== verification/TickSetup.thy ===== *)
theory TickSetup
  imports LoadMerge
begin

text \<open>
  The tick of \<^verbatim>\<open>src/server-epoll/tick_logic.h\<close> outside the loop: its settings from the environment, the
  calibration of the burn, and the dump at exit. Shown: the calibrated rate is the median of the seven
  timed burns, whatever they were, and a dumped histogram is text the merger of the load generator reads.
\<close>

section \<open>Settings\<close>

text \<open>\<^verbatim>\<open>atoll\<close>, as \<^verbatim>\<open>strtoll\<close> saturates.\<close>

definition atoll :: "string \<Rightarrow> int" where
  "atoll s = max (- (2 ^ 63)) (min (2 ^ 63 - 1) (signed_value (dropWhile is_space s)))"

definition env_u64 :: "string option \<Rightarrow> u64 \<Rightarrow> u64" where
  "env_u64 v d = (case v of None \<Rightarrow> d | Some s \<Rightarrow> fst (strtoull (ascii s)))"

record tick_settings =
  ts_hz :: u32
  ts_ns_msg :: u64
  ts_ns_ent :: u64
  ts_width :: u64
  ts_dump :: "string option"

definition tick_defaults :: tick_settings where
  "tick_defaults = \<lparr>ts_hz = 0, ts_ns_msg = 0, ts_ns_ent = 0, ts_width = 64, ts_dump = None\<rparr>"

definition read_settings :: "(string \<Rightarrow> string option) \<Rightarrow> tick_settings" where
  "read_settings env = (let hz = (case env ''CHAT_TICK_HZ'' of None \<Rightarrow> 0 | Some s \<Rightarrow> word_of_int (atoi s)) in
     if hz = 0 then tick_defaults
     else \<lparr>ts_hz = hz, ts_ns_msg = env_u64 (env ''LOGIC_NS_PER_MSG'') 0, ts_ns_ent = env_u64 (env ''LOGIC_NS_PER_ENTITY_TICK'') 0,
       ts_width = env_u64 (env ''LOGIC_BYTES_PER_ENTITY'') 64, ts_dump = env ''CHAT_TICK_DUMP''\<rparr>)"

text \<open>\<^verbatim>\<open>init\<close>: \<open>map_ok\<close> says whether \<^verbatim>\<open>mmap\<close> gives an arena of so many bytes, \<open>alloc_ok\<close> whether the bitmap and the
  tables of the histograms can be allocated.\<close>

definition tick_start :: "(u64 \<Rightarrow> bool) \<Rightarrow> bool \<Rightarrow> tick_settings \<Rightarrow> nat \<Rightarrow> int \<Rightarrow> bool \<times> tick_state" where
  "tick_start map_ok alloc_ok v cap now =
     (let (ok, g) = tick_init (unat (ts_hz v)) (unat (ts_width v)) cap now in
      (ok \<and> (ts_hz v \<noteq> 0 \<longrightarrow> map_ok (of_nat (slots g) * ts_width v) \<and> alloc_ok), g))"

lemma tick_start_state: "snd (tick_start m a v n now) = snd (tick_init (unat (ts_hz v)) (unat (ts_width v)) n now)"
  by (simp add: tick_start_def split: prod.split)

lemma tick_start_off: "ts_hz v = 0 \<Longrightarrow> fst (tick_start m a v n now)"
  by (simp add: tick_start_def tick_init_def split: prod.split)

text \<open>A width that lets the server start is a positive number of cache lines.\<close>

lemma tick_start_width:
  "fst (tick_start m a v n now) \<Longrightarrow> ts_hz v \<noteq> 0 \<Longrightarrow> 64 \<le> unat (ts_width v) \<and> unat (ts_width v) mod 64 = 0"
  by (simp add: tick_start_def tick_init_def Let_def unat_eq_0 split: prod.splits if_splits)

text \<open>The size of the arena is a product of two 64-bit numbers that nothing checks: with this width the server starts
  on a map of 66560 bytes, while the block of slot 1 begins at 2^60 + 64.\<close>

lemma arena_too_small:
  "fst (tick_start (\<lambda>n. n = 66560) True \<lparr>ts_hz = 30, ts_ns_msg = 0, ts_ns_ent = 0, ts_width = 2 ^ 60 + 64, ts_dump = None\<rparr> 976 now)"
  by (simp add: tick_start_def tick_init_def Let_def)

section \<open>Calibration\<close>

text \<open>The clock before and after each burn; \<open>None\<close> when the readings run out before a burn took 20 ms.\<close>

fun size_burn :: "(int \<times> int) list \<Rightarrow> u64 \<Rightarrow> u64 option" where
  "size_burn [] iters = None"
| "size_burn ((t0, t1) # ts) iters = (if 20000000 \<le> t1 - t0 then Some iters else size_burn ts (iters * 2))"

definition burn_rate :: "(rat \<Rightarrow> rat) \<Rightarrow> u64 \<Rightarrow> int \<times> int \<Rightarrow> rat" where
  "burn_rate rnd iters t = rnd (rnd (of_nat (unat iters)) / rnd (of_int (snd t - fst t)))"

text \<open>The inner and the outer loop of the insertion sort.\<close>

fun sift :: "rat list \<Rightarrow> nat \<Rightarrow> rat list" where
  "sift r 0 = r"
| "sift r (Suc j) = (if r ! Suc j < r ! j then sift (r[j := r ! Suc j, Suc j := r ! j]) j else r)"

definition sort_rates :: "rat list \<Rightarrow> rat list" where
  "sort_rates r = fold (\<lambda>i r. sift r i) [1..<length r] r"

definition calibrate :: "(rat \<Rightarrow> rat) \<Rightarrow> (int \<times> int) list \<Rightarrow> (int \<times> int) list \<Rightarrow> rat option" where
  "calibrate rnd warm ts = map_option (\<lambda>iters. sort_rates (map (burn_rate rnd iters) ts) ! 3) (size_burn warm (2 ^ 20))"

text \<open>How long \<^verbatim>\<open>spin_ns\<close> burns.\<close>

definition spin_iters :: "(rat \<Rightarrow> rat) \<Rightarrow> rat \<Rightarrow> u64 \<Rightarrow> u64" where
  "spin_iters rnd rate ns = (if ns = 0 then 0 else word_of_int \<lfloor>rnd (rnd (of_nat (unat ns)) * rate)\<rfloor> + 1)"

lemma insort_last_less: "x < y \<Longrightarrow> insort x (xs @ [y]) = insort x xs @ [y]"
  for x y :: rat by (induction xs) simp_all

lemma insort_last_ge: "sorted (xs @ [y]) \<Longrightarrow> y \<le> x \<Longrightarrow> insort x (xs @ [y]) = xs @ [y, x]"
  for x y :: rat
proof -
  assume s: "sorted (xs @ [y])" and "y \<le> x"
  then have "\<forall>z \<in> set xs. z \<le> x" by (auto simp: sorted_append intro: order_trans)
  then have "sorted (xs @ [y, x])" using s \<open>y \<le> x\<close> by (auto simp: sorted_append)
  moreover have "sorted (insort x (xs @ [y]))" using s by (simp add: sorted_insort)
  moreover have "mset (insort x (xs @ [y])) = mset (xs @ [y, x])" by simp
  ultimately show ?thesis by (metis properties_for_sort sorted_sort_id)
qed

lemma sift_insort:
  assumes "sorted (take j r)" "j < length r"
  shows "sift r j = insort (r ! j) (take j r) @ drop (Suc j) r"
  using assms
proof (induction j arbitrary: r)
  case 0
  then show ?case by (cases r) simp_all
next
  case (Suc j)
  let ?x = "r ! Suc j" and ?y = "r ! j"
  have tk: "take (Suc j) r = take j r @ [?y]" using Suc.prems(2) by (simp add: take_Suc_conv_app_nth)
  show ?case
  proof (cases "?x < ?y")
    case True
    let ?r = "r[j := ?x, Suc j := ?y]"
    have "take j ?r = take j r" "?r ! j = ?x" "drop (Suc j) ?r = ?y # drop (Suc (Suc j)) r"
      using Suc.prems(2) by (simp_all add: Cons_nth_drop_Suc [symmetric] drop_update_cancel)
    moreover have "sorted (take j r)" using Suc.prems(1) unfolding tk by (simp add: sorted_append)
    ultimately have "sift ?r j = insort ?x (take j r) @ ?y # drop (Suc (Suc j)) r"
      using Suc.IH [of ?r] Suc.prems(2) by simp
    then show ?thesis using True by (simp add: tk insort_last_less)
  next
    case False
    have "r = take j r @ ?y # ?x # drop (Suc (Suc j)) r"
      using Suc.prems(2) by (metis Cons_nth_drop_Suc Suc_lessD append_take_drop_id)
    then show ?thesis using False Suc.prems(1) by (simp add: tk insort_last_ge)
  qed
qed

lemma mset_insort_nth: "n < length q \<Longrightarrow> mset (insort (q ! n) (take n q) @ drop (Suc n) q) = mset q"
proof -
  assume n: "n < length q"
  have "mset q = mset (take n q @ q ! n # drop (Suc n) q)" by (rule arg_cong [OF id_take_nth_drop [OF n]])
  then show ?thesis by simp
qed

lemma sort_rates_sort: "sort_rates r = sort r"
proof -
  have "n \<le> length r \<Longrightarrow> (let q = fold (\<lambda>i r. sift r i) [1..<n] r in sorted (take n q) \<and> mset q = mset r)" for n
  proof (induction n)
    case (Suc n)
    let ?q = "fold (\<lambda>i r. sift r i) [1..<n] r"
    have q: "sorted (take n ?q)" "mset ?q = mset r" using Suc by (simp_all add: Let_def)
    then have n: "n < length ?q" using Suc.prems by (metis Suc_le_lessD mset_eq_length)
    show ?case
    proof (cases "n = 0")
      case False
      have e: "sift ?q n = insort (?q ! n) (take n ?q) @ drop (Suc n) ?q" by (rule sift_insort [OF q(1) n])
      have "sorted (take (Suc n) (sift ?q n))" unfolding e using n q(1) by (simp add: min_def sorted_insort)
      moreover have "mset (sift ?q n) = mset r" unfolding e mset_insort_nth [OF n] by (rule q(2))
      moreover have "fold (\<lambda>i r. sift r i) [1..<Suc n] r = sift ?q n" using False by simp
      ultimately show ?thesis unfolding Let_def by metis
    qed (use Suc.prems in \<open>cases r; simp\<close>)
  qed simp
  from this [of "length r"] show ?thesis
    unfolding sort_rates_def Let_def by (metis mset_eq_length order_refl properties_for_sort take_all)
qed

text \<open>The rate the server spins by is the median of the timed burns: three of the other six are at most as fast
  and three at least as fast, whatever the clock did.\<close>

lemma calibrate_median:
  "calibrate rnd warm ts = map_option (\<lambda>iters. sort (map (burn_rate rnd iters) ts) ! 3) (size_burn warm (2 ^ 20))"
  by (simp add: calibrate_def sort_rates_sort)

section \<open>The dump\<close>

text \<open>\<^verbatim>\<open>hist::dump\<close> writes what the load generator's \<^verbatim>\<open>dump_histogram\<close> writes.\<close>

definition hist_dump :: "bytes \<Rightarrow> hist \<Rightarrow> bytes list" where
  "hist_dump label h =
     (ascii ''hist '' @ label @ ascii '' total='' @ dec_digits (unat (total h)) @ ascii '' overflow='' @ dec_digits (unat (overflow h))
        @ ascii '' min='' @ dec_int (if total h \<noteq> 0 then min_ns h else 0) @ ascii '' max='' @ dec_int (max_ns h)
        @ ascii '' bucket_ns='' @ dec_int bucket_ns)
     # map (\<lambda>b. dec_digits b @ [32] @ dec_digits (unat (counts h b))) (filter (\<lambda>b. counts h b \<noteq> 0) [0..<buckets])
     @ [ascii ''end'']"

definition tick_dump :: "(nat \<Rightarrow> rat \<Rightarrow> bytes) \<Rightarrow> tick_settings \<Rightarrow> rat \<Rightarrow> tick_state \<Rightarrow> bytes" where
  "tick_dump fmt v rate g = put_lines
     ([ascii ''tick-dump v1 hz='' @ dec_digits (unat (ts_hz v)) @ ascii '' ns_per_entity='' @ dec_digits (unat (ts_ns_ent v))
         @ ascii '' ns_per_msg='' @ dec_digits (unat (ts_ns_msg v)) @ ascii '' bytes_per_entity='' @ dec_digits (unat (ts_width v))
         @ ascii '' iters_per_ns='' @ fmt 4 rate,
       dump_line ''ticks'' (dec_digits (unat (ticks g))),
       dump_line ''overruns'' (dec_digits (unat (overruns g))),
       dump_line ''msgs'' (dec_digits (unat (msgs g)))]
      @ hist_dump (ascii ''io_drain'') (h_drain g) @ hist_dump (ascii ''tick'') (h_tick g)
      @ hist_dump (ascii ''flush'') (h_flush g) @ hist_dump (ascii ''wakes'') (h_wakes g))"

lemma hist_dump_same: "hist_dump label h = dump_histogram label h"
  by (simp add: hist_dump_def dump_histogram_def hist_header_def bucket_line_def [abs_def])

text \<open>\<^verbatim>\<open>report\<close> writes it when the tick is on and a path is set.\<close>

definition tick_report :: "(nat \<Rightarrow> rat \<Rightarrow> bytes) \<Rightarrow> tick_settings \<Rightarrow> rat \<Rightarrow> tick_state \<Rightarrow> bytes option" where
  "tick_report fmt v rate g = (if enabled g \<and> ts_dump v \<noteq> None then Some (tick_dump fmt v rate g) else None)"

end
