(* ===== verification/SdsServer.thy ===== *)
theory SdsServer
  imports EpollServer RingBuffer CstrHashMap MallocVector
begin

text \<open>
  \<^verbatim>\<open>src/server-epoll/server_sds.cpp\<close>: the chat server of \<open>EpollServer\<close> on the engine's containers. A
  connection is a slot of a slab indexed by descriptor, its input a ring buffer, its output a linear
  queue between two cursors, a room a record of a second slab found through the chained hash map, and
  membership a doubly linked list through the slots. What the C++ standard leaves undefined is an
  outcome here: a slot that holds no connection, a room index past the slab, a copy past the end of an
  array, a walk that does not end are \<open>Inl Undefined\<close>, and a failed \<^verbatim>\<open>LNX_CHECK\<close> is \<open>Inl Check_Trap\<close>. The
  kernel's answers are scripts, as in \<open>EpollServer\<close>. Descriptors, slot numbers and cursors are naturals.
\<close>

section \<open>Outcomes\<close>

definition bind_res :: "'a res \<Rightarrow> ('a \<Rightarrow> 'b res) \<Rightarrow> 'b res" where
  "bind_res m k = (case m of Inl e \<Rightarrow> Inl e | Inr x \<Rightarrow> k x)"

lemma bind_res_simps [simp]: "bind_res (Inr x) k = k x" "bind_res (Inl e) k = Inl e"
  by (simp_all add: bind_res_def)

text \<open>\<^verbatim>\<open>memcpy(dst + off, src, n)\<close> into an array that ends.\<close>

definition put :: "bytes \<Rightarrow> nat \<Rightarrow> bytes \<Rightarrow> bytes res" where
  "put dst off bs = (if off + length bs \<le> length dst then Inr (mem_copy dst off bs) else Inl Undefined)"

text \<open>What a pointer to a NUL-terminated array reads as.\<close>

definition cstring :: "bytes \<Rightarrow> cstr" where
  "cstring bs = takeWhile (\<lambda>b. b \<noteq> 0) bs"

section \<open>Sizes\<close>

definition k_max_frame :: nat where "k_max_frame = k_header_size + k_max_payload"
definition k_nick_max :: nat where "k_nick_max = 31"
definition k_room_max :: nat where "k_room_max = 63"
definition k_rx_ring :: nat where "k_rx_ring = 32 * 1024"
definition k_tx_region :: nat where "k_tx_region = k_send_cap + k_max_frame"

section \<open>State\<close>

record sconn =
  s_armed :: bool
  s_closing :: bool
  s_dirty :: bool
  s_nick_len :: u08
  s_room :: "nat option"
  s_prev :: "nat option"
  s_next :: "nat option"
  s_nick :: bytes
  s_in :: ring
  tx_head :: nat
  tx_tail :: nat
  tx_region :: bytes

record sroom =
  rm_name :: bytes
  rm_head :: "nat option"
  rm_count :: u32
  rm_next_free :: "nat option"
  rm_live :: bool

text \<open>The configuration. \<open>raw n\<close> is what \<open>n\<close> bytes of uninitialised storage hold, \<open>malloc_ok\<close> says which
  allocations succeed.\<close>

record sds_cfg =
  g_batch_flush :: bool
  g_short_read :: bool
  g_max_conns :: nat
  ctl_mod_ok :: "nat \<Rightarrow> bool"
  ctl_add_ok :: "nat \<Rightarrow> bool"
  raw :: "nat \<Rightarrow> bytes"
  malloc_ok :: "usize \<Rightarrow> bool"

definition g_slots :: "sds_cfg \<Rightarrow> nat" where
  "g_slots cfg = g_max_conns cfg + 64"

text \<open>\<open>slab\<close> merges the connection slab with \<^verbatim>\<open>g_live\<close>: a slot that holds no connection is \<open>None\<close>.\<close>

record sworld =
  slab :: "nat \<rightharpoonup> sconn"
  g_rooms :: "sroom list"
  g_room_free :: "nat option"
  g_room_index :: "nat cmap"
  g_doomed :: "nat mvec"
  g_dirty :: "nat mvec"
  g_total_live :: nat
  s_sends :: "nat \<Rightarrow> send_res list"
  s_recvs :: "nat \<Rightarrow> recv_res list"
  s_accepts :: "accept_res list"
  s_wire :: "nat \<Rightarrow> bytes"
  s_reserve :: bool

definition sconn_init :: "sds_cfg \<Rightarrow> sconn" where
  "sconn_init cfg = \<lparr>s_armed = False, s_closing = False, s_dirty = False, s_nick_len = 0, s_room = None, s_prev = None,
     s_next = None, s_nick = replicate (k_nick_max + 1) 0, s_in = ring_init k_rx_ring (raw cfg k_rx_ring), tx_head = 0,
     tx_tail = 0, tx_region = raw cfg k_tx_region\<rparr>"

text \<open>\<^verbatim>\<open>slot(fd)\<close>, and the record behind a room index.\<close>

definition with_slot :: "nat \<Rightarrow> sworld \<Rightarrow> (sconn \<Rightarrow> 'a res) \<Rightarrow> 'a res" where
  "with_slot fd s k = (case slab s fd of None \<Rightarrow> Inl Undefined | Some c \<Rightarrow> k c)"

definition set_slot :: "nat \<Rightarrow> sconn \<Rightarrow> sworld \<Rightarrow> sworld" where
  "set_slot fd c s = s\<lparr>slab := (slab s)(fd \<mapsto> c)\<rparr>"

definition with_room :: "nat \<Rightarrow> sworld \<Rightarrow> (sroom \<Rightarrow> 'a res) \<Rightarrow> 'a res" where
  "with_room i s k = (if i < length (g_rooms s) then k (g_rooms s ! i) else Inl Undefined)"

definition set_room :: "nat \<Rightarrow> sroom \<Rightarrow> sworld \<Rightarrow> sworld" where
  "set_room i r s = s\<lparr>g_rooms := (g_rooms s)[i := r]\<rparr>"

definition live_sds :: "sds_cfg \<Rightarrow> nat \<Rightarrow> sworld \<Rightarrow> bool" where
  "live_sds cfg fd s \<longleftrightarrow> fd < g_slots cfg \<and> slab s fd \<noteq> None"

definition push_checked :: "sds_cfg \<Rightarrow> nat \<Rightarrow> nat mvec \<Rightarrow> nat mvec res" where
  "push_checked cfg fd v = bind_res (mv_push_back 4 (malloc_ok cfg) (Outside fd) v)
     (\<lambda>v'. LNX_CHECK (mv_size v' = mv_size v + 1) (Inr v'))"

section \<open>Sending\<close>

definition update_epoll_mask_sds :: "sds_cfg \<Rightarrow> nat \<Rightarrow> sworld \<Rightarrow> sworld res" where
  "update_epoll_mask_sds cfg fd s = with_slot fd s (\<lambda>c.
     let want_write = tx_head c < tx_tail c in
     if want_write = s_armed c then Inr s
     else if \<not> ctl_mod_ok cfg fd then Inr s
     else Inr (set_slot fd (c\<lparr>s_armed := want_write\<rparr>) s))"

definition doom_sds :: "sds_cfg \<Rightarrow> nat \<Rightarrow> sworld \<Rightarrow> sworld res" where
  "doom_sds cfg fd s = with_slot fd s (\<lambda>c.
     if s_closing c then Inr s
     else bind_res (push_checked cfg fd (g_doomed s))
       (\<lambda>v. Inr ((set_slot fd (c\<lparr>s_closing := True\<rparr>) s)\<lparr>g_doomed := v\<rparr>)))"

text \<open>The queue of one connection: compaction when the frame would pass the end of the region, then the
  header and the payload at the tail.\<close>

definition tx_compact :: "nat \<Rightarrow> sconn \<Rightarrow> sconn res" where
  "tx_compact frame c = (let queued = tx_tail c - tx_head c in
     if k_tx_region < tx_tail c + frame
     then bind_res (put (tx_region c) 0 (take queued (drop (tx_head c) (tx_region c))))
       (\<lambda>t. Inr (c\<lparr>tx_region := t, tx_head := 0, tx_tail := queued\<rparr>))
     else Inr c)"

definition tx_append :: "u16 \<Rightarrow> bytes \<Rightarrow> sconn \<Rightarrow> sconn res" where
  "tx_append type payload c = (let len = length payload; frame = k_header_size + len in
     bind_res (tx_compact frame c) (\<lambda>c.
     bind_res (put (tx_region c) (tx_tail c) (wire_header len type)) (\<lambda>t.
     bind_res (put t (tx_tail c + k_header_size) payload) (\<lambda>t.
     Inr (c\<lparr>tx_region := t, tx_tail := tx_tail c + frame\<rparr>)))))"

definition queue_send_sds :: "sds_cfg \<Rightarrow> nat \<Rightarrow> u16 \<Rightarrow> bytes \<Rightarrow> sworld \<Rightarrow> sworld res" where
  "queue_send_sds cfg fd type payload s = with_slot fd s (\<lambda>c.
     if s_closing c then Inr s
     else if k_max_payload < length payload then Inr s
     else if k_send_cap < tx_tail c - tx_head c + (k_header_size + length payload) then doom_sds cfg fd s
     else bind_res (tx_append type payload c) (\<lambda>c. Inr (set_slot fd c s)))"

text \<open>The loop of \<^verbatim>\<open>flush_send\<close> on the region and the two cursors: the script left, the bytes taken, the
  cursors, and whether the socket failed.\<close>

fun tx_loop :: "send_res list \<Rightarrow> bytes \<Rightarrow> nat \<Rightarrow> nat \<Rightarrow> send_res list \<times> bytes \<times> nat \<times> nat \<times> bool" where
  "tx_loop [] t h e = ([], [], h, e, False)"
| "tx_loop (r # script) t h e =
     (if \<not> h < e then (r # script, [], h, e, False)
      else case r of
        Sent n \<Rightarrow> if n = 0 then (script, [], h, e, True)
          else let n = min n (e - h);
                   (h', e') = (if h + n = e then (0, 0) else (h + n, e));
                   (script', took, h'', e'', failed) = tx_loop script t h' e' in
               (script', take n (drop h t) @ took, h'', e'', failed)
      | S_EINTR \<Rightarrow> tx_loop script t h e
      | S_EAGAIN \<Rightarrow> (script, [], h, e, False)
      | S_error \<Rightarrow> (script, [], h, e, True))"

definition flush_send_sds :: "sds_cfg \<Rightarrow> nat \<Rightarrow> sworld \<Rightarrow> sworld res" where
  "flush_send_sds cfg fd s = with_slot fd s (\<lambda>c.
     let (script, took, h, e, failed) = tx_loop (s_sends s fd) (tx_region c) (tx_head c) (tx_tail c);
         s = (set_slot fd (c\<lparr>tx_head := h, tx_tail := e\<rparr>) s)
               \<lparr>s_sends := (s_sends s)(fd := script), s_wire := (s_wire s)(fd := s_wire s fd @ took)\<rparr> in
     if failed then doom_sds cfg fd s else update_epoll_mask_sds cfg fd s)"

definition mark_dirty_sds :: "sds_cfg \<Rightarrow> nat \<Rightarrow> sworld \<Rightarrow> sworld res" where
  "mark_dirty_sds cfg fd s = with_slot fd s (\<lambda>c.
     if \<not> s_dirty c \<and> tx_head c < tx_tail c
     then bind_res (push_checked cfg fd (g_dirty s))
       (\<lambda>v. Inr ((set_slot fd (c\<lparr>s_dirty := True\<rparr>) s)\<lparr>g_dirty := v\<rparr>))
     else Inr s)"

text \<open>The tail shared by \<^verbatim>\<open>broadcast\<close> and \<^verbatim>\<open>on_readable\<close>.\<close>

definition flush_or_mark_sds :: "sds_cfg \<Rightarrow> nat \<Rightarrow> sworld \<Rightarrow> sworld res" where
  "flush_or_mark_sds cfg fd s = (if \<not> g_batch_flush cfg then flush_send_sds cfg fd s else mark_dirty_sds cfg fd s)"

definition deliver_sds :: "sds_cfg \<Rightarrow> u16 \<Rightarrow> bytes \<Rightarrow> nat option \<Rightarrow> nat \<Rightarrow> sworld \<Rightarrow> sworld res" where
  "deliver_sds cfg type payload except fd s =
     (if except = Some fd then Inr s
      else with_slot fd s (\<lambda>c. if s_closing c then Inr s
        else bind_res (queue_send_sds cfg fd type payload s) (flush_or_mark_sds cfg fd)))"

text \<open>The walk along the membership list, cut off after \<open>n\<close> members. A list through the slots that is
  longer than the slab runs in a circle.\<close>

fun walk_members :: "sds_cfg \<Rightarrow> u16 \<Rightarrow> bytes \<Rightarrow> nat option \<Rightarrow> nat \<Rightarrow> nat option \<Rightarrow> sworld \<Rightarrow> sworld res" where
  "walk_members cfg type payload except n None s = Inr s"
| "walk_members cfg type payload except 0 (Some fd) s = Inl Undefined"
| "walk_members cfg type payload except (Suc n) (Some fd) s =
     bind_res (deliver_sds cfg type payload except fd s)
       (\<lambda>s. with_slot fd s (\<lambda>c. walk_members cfg type payload except n (s_next c) s))"

definition broadcast_sds :: "sds_cfg \<Rightarrow> nat option \<Rightarrow> u16 \<Rightarrow> bytes \<Rightarrow> nat option \<Rightarrow> sworld \<Rightarrow> sworld res" where
  "broadcast_sds cfg room_idx type payload except s = (case room_idx of None \<Rightarrow> Inr s
     | Some i \<Rightarrow> with_room i s (\<lambda>r. if \<not> rm_live r then Inr s
         else walk_members cfg type payload except (g_slots cfg) (rm_head r) s))"

section \<open>Rooms\<close>

text \<open>\<open>name\<close> is the string view; the lookup reads it as a C string, the copy takes all of it.\<close>

definition room_acquire :: "bytes \<Rightarrow> sworld \<Rightarrow> (nat \<times> sworld) res" where
  "room_acquire name s = (case cmap_find (cstring name) (g_room_index s) of
     Some i \<Rightarrow> Inr (i, s)
   | None \<Rightarrow> (case g_room_free s of
       None \<Rightarrow> Inl Check_Trap
     | Some i \<Rightarrow> with_room i s (\<lambda>r.
         bind_res (put (rm_name r) 0 (name @ [0])) (\<lambda>nm.
         Inr (i, (set_room i (r\<lparr>rm_name := nm, rm_head := None, rm_count := 0, rm_live := True\<rparr>) s)
           \<lparr>g_room_free := rm_next_free r, g_room_index := cmap_insert (cstring nm) i (g_room_index s)\<rparr>)))))"

definition room_release :: "nat \<Rightarrow> sworld \<Rightarrow> sworld res" where
  "room_release i s = with_room i s (\<lambda>r.
     Inr ((set_room i (r\<lparr>rm_live := False, rm_head := None, rm_next_free := g_room_free s\<rparr>) s)
       \<lparr>g_room_free := Some i, g_room_index := cmap_erase (cstring (rm_name r)) (g_room_index s)\<rparr>))"

definition set_prev :: "nat \<Rightarrow> nat option \<Rightarrow> sworld \<Rightarrow> sworld res" where
  "set_prev fd p s = with_slot fd s (\<lambda>c. Inr (set_slot fd (c\<lparr>s_prev := p\<rparr>) s))"

definition set_next :: "nat \<Rightarrow> nat option \<Rightarrow> sworld \<Rightarrow> sworld res" where
  "set_next fd q s = with_slot fd s (\<lambda>c. Inr (set_slot fd (c\<lparr>s_next := q\<rparr>) s))"

definition join_room :: "nat \<Rightarrow> nat \<Rightarrow> sworld \<Rightarrow> sworld res" where
  "join_room fd i s = with_slot fd s (\<lambda>c. with_room i s (\<lambda>r.
     let s = set_slot fd (c\<lparr>s_room := Some i, s_prev := None, s_next := rm_head r\<rparr>) s in
     bind_res (case rm_head r of None \<Rightarrow> Inr s | Some h \<Rightarrow> set_prev h (Some fd) s)
       (\<lambda>s. Inr (set_room i (r\<lparr>rm_head := Some fd, rm_count := rm_count r + 1\<rparr>) s))))"

text \<open>The two pointer updates that take a connection out of its list.\<close>

definition unlink :: "nat \<Rightarrow> sconn \<Rightarrow> sworld \<Rightarrow> sworld res" where
  "unlink i c s =
     bind_res (case s_prev c of
         Some p \<Rightarrow> set_next p (s_next c) s
       | None \<Rightarrow> with_room i s (\<lambda>r. Inr (set_room i (r\<lparr>rm_head := s_next c\<rparr>) s)))
     (\<lambda>s. case s_next c of Some q \<Rightarrow> set_prev q (s_prev c) s | None \<Rightarrow> Inr s)"

definition leave_room_sds :: "nat \<Rightarrow> sworld \<Rightarrow> sworld res" where
  "leave_room_sds fd s = with_slot fd s (\<lambda>c. case s_room c of None \<Rightarrow> Inr s
     | Some i \<Rightarrow>
         bind_res (unlink i c s) (\<lambda>s.
         with_slot fd s (\<lambda>c. with_room i s (\<lambda>r.
           let s = set_room i (r\<lparr>rm_count := rm_count r - 1\<rparr>) (set_slot fd (c\<lparr>s_prev := None, s_next := None\<rparr>) s) in
           bind_res (if rm_count r - 1 = 0 then room_release i s else Inr s) (\<lambda>s.
           with_slot fd s (\<lambda>c. Inr (set_slot fd (c\<lparr>s_room := None\<rparr>) s)))))))"

section \<open>Packets\<close>

text \<open>Assembling a message in \<^verbatim>\<open>g_line\<close>: its parts one behind the other, in an array of fixed size.\<close>

definition k_line :: nat where "k_line = k_nick_max + 2 + k_max_payload"

definition put_line :: "bytes list \<Rightarrow> bytes res" where
  "put_line parts = (if length (concat parts) \<le> k_line then Inr (concat parts) else Inl Undefined)"

definition nick_of :: "sconn \<Rightarrow> bytes" where
  "nick_of c = take (unat (s_nick_len c)) (s_nick c)"

definition on_nick_sds :: "sds_cfg \<Rightarrow> nat \<Rightarrow> bytes \<Rightarrow> sworld \<Rightarrow> sworld res" where
  "on_nick_sds cfg fd payload s = with_slot fd s (\<lambda>c.
     let n = min (length payload) k_nick_max in
     bind_res (put (s_nick c) 0 (take n payload)) (\<lambda>nk.
     bind_res (put nk n [0]) (\<lambda>nk.
     bind_res (put_line [ascii ''nick set to '', take n nk]) (\<lambda>line.
     queue_send_sds cfg fd s_notice line (set_slot fd (c\<lparr>s_nick := nk, s_nick_len := of_nat n\<rparr>) s)))))"

definition room_name_scratch :: "bytes \<Rightarrow> bytes" where
  "room_name_scratch payload = take (min (length payload) k_room_max) payload"

definition leave_old :: "sds_cfg \<Rightarrow> nat \<Rightarrow> sworld \<Rightarrow> sworld res" where
  "leave_old cfg fd s = with_slot fd s (\<lambda>c. if s_room c = None then Inr s
     else bind_res (put_line [nick_of c, ascii '' left'']) (\<lambda>line.
          bind_res (broadcast_sds cfg (s_room c) s_notice line (Some fd) s) (leave_room_sds fd)))"

definition enter_new :: "nat \<Rightarrow> bytes \<Rightarrow> sworld \<Rightarrow> sworld res" where
  "enter_new fd joined s = bind_res (room_acquire joined s) (\<lambda>(i, s). join_room fd i s)"

text \<open>The two messages after the join. The confirmation reads the room's name back from its record.\<close>

definition greet :: "sds_cfg \<Rightarrow> nat \<Rightarrow> bytes \<Rightarrow> sworld \<Rightarrow> sworld res" where
  "greet cfg fd joined s = with_slot fd s (\<lambda>c.
     case s_room c of None \<Rightarrow> Inl Undefined
     | Some i \<Rightarrow> with_room i s (\<lambda>r.
         bind_res (put_line [ascii ''joined '', take (length joined) (rm_name r)]) (\<lambda>line.
         bind_res (queue_send_sds cfg fd s_notice line s) (\<lambda>s. with_slot fd s (\<lambda>c.
         bind_res (put_line [nick_of c, ascii '' joined'']) (\<lambda>line.
         broadcast_sds cfg (s_room c) s_notice line (Some fd) s))))))"

definition on_join_sds :: "sds_cfg \<Rightarrow> nat \<Rightarrow> bytes \<Rightarrow> sworld \<Rightarrow> sworld res" where
  "on_join_sds cfg fd payload s = with_slot fd s (\<lambda>c.
     if s_nick_len c = 0 then queue_send_sds cfg fd s_notice (ascii ''set a nickname first'') s
     else let joined = room_name_scratch payload in
       if joined = [] then queue_send_sds cfg fd s_notice (ascii ''room name required'') s
       else bind_res (leave_old cfg fd s) (\<lambda>s. bind_res (enter_new fd joined s) (greet cfg fd joined)))"

definition on_chat_sds :: "sds_cfg \<Rightarrow> nat \<Rightarrow> bytes \<Rightarrow> sworld \<Rightarrow> sworld res" where
  "on_chat_sds cfg fd payload s = with_slot fd s (\<lambda>c.
     if s_room c = None then queue_send_sds cfg fd s_notice (ascii ''join a room first'') s
     else bind_res (put_line [nick_of c, ascii '': '', payload]) (\<lambda>line.
       broadcast_sds cfg (s_room c) s_chat line None s))"

definition handle_packet_sds :: "sds_cfg \<Rightarrow> nat \<Rightarrow> u16 \<Rightarrow> bytes \<Rightarrow> sworld \<Rightarrow> sworld res" where
  "handle_packet_sds cfg fd type payload s =
     (if type = c_set_nick then on_nick_sds cfg fd payload s
      else if type = c_join then on_join_sds cfg fd payload s
      else if type = c_chat then on_chat_sds cfg fd payload s
      else doom_sds cfg fd s)"

section \<open>Framing and reading\<close>

definition set_in :: "nat \<Rightarrow> (ring \<Rightarrow> ring) \<Rightarrow> sworld \<Rightarrow> sworld res" where
  "set_in fd f s = with_slot fd s (\<lambda>c. Inr (set_slot fd (c\<lparr>s_in := f (s_in c)\<rparr>) s))"

text \<open>One complete frame: handled in place and retired when it is contiguous, copied out first when it
  straddles the wrap.\<close>

definition take_frame :: "sds_cfg \<Rightarrow> nat \<Rightarrow> u16 \<Rightarrow> nat \<Rightarrow> sconn \<Rightarrow> sworld \<Rightarrow> sworld res" where
  "take_frame cfg fd type frame c s =
     (if frame \<le> unat (direct_dequeue_size (s_in c))
      then let p = take frame (drop (unat (direct_dequeue_ptr (s_in c))) (ring_buf (s_in c))) in
        bind_res (handle_packet_sds cfg fd type (drop k_header_size p) s) (set_in fd (commit_dequeue (of_nat frame)))
      else let (scratch, r) = dequeue (of_nat frame) (s_in c) in
        handle_packet_sds cfg fd type (drop k_header_size scratch) (set_slot fd (c\<lparr>s_in := r\<rparr>) s))"

text \<open>Every frame retires at least its header, so \<open>n\<close> turns are enough for \<open>4 n\<close> bytes.\<close>

fun parse_frames_sds :: "sds_cfg \<Rightarrow> nat \<Rightarrow> nat \<Rightarrow> sworld \<Rightarrow> sworld res" where
  "parse_frames_sds cfg n fd s = with_slot fd s (\<lambda>c.
     if s_closing c \<or> unat (used_size (s_in c)) < k_header_size then Inr s
     else let h = peek (of_nat k_header_size) (s_in c) in
       if k_max_payload < header_len h then doom_sds cfg fd s
       else let frame = k_header_size + header_len h in
         if unat (used_size (s_in c)) < frame then Inr s
         else (case n of 0 \<Rightarrow> Inl Undefined
           | Suc m \<Rightarrow> bind_res (take_frame cfg fd (header_type h) frame c s) (parse_frames_sds cfg m fd)))"

declare parse_frames_sds.simps [simp del]

definition set_script :: "nat \<Rightarrow> recv_res list \<Rightarrow> sworld \<Rightarrow> sworld" where
  "set_script fd script s = s\<lparr>s_recvs := (s_recvs s)(fd := script)\<rparr>"

text \<open>\<^verbatim>\<open>recv\<close> is asked for what the ring has room for, at most the scratch buffer; what the script offers
  beyond that stays in the socket.\<close>

definition recv_want :: "ring \<Rightarrow> nat" where
  "recv_want r = (if unat (free_size r) < k_recv_buf then unat (free_size r) else k_recv_buf)"

definition script_rest :: "nat \<Rightarrow> bytes \<Rightarrow> recv_res list \<Rightarrow> recv_res list" where
  "script_rest want bs script = (if length bs \<le> want then script else Got (drop want bs) # script)"

text \<open>One chunk goes into the ring, whole; then the complete frames come out.\<close>

definition ingest :: "sds_cfg \<Rightarrow> nat \<Rightarrow> bytes \<Rightarrow> sworld \<Rightarrow> sworld res" where
  "ingest cfg fd got s = with_slot fd s (\<lambda>c.
     let (n, r) = enqueue got (s_in c) in
     LNX_CHECK (n = of_nat (length got)) (parse_frames_sds cfg k_rx_ring fd (set_slot fd (c\<lparr>s_in := r\<rparr>) s)))"

fun read_loop :: "sds_cfg \<Rightarrow> nat \<Rightarrow> nat \<Rightarrow> sworld \<Rightarrow> sworld res" where
  "read_loop cfg n fd s = with_slot fd s (\<lambda>c.
     let want = recv_want (s_in c) in
     if want = 0 then doom_sds cfg fd s
     else case s_recvs s fd of
       [] \<Rightarrow> flush_or_mark_sds cfg fd s
     | R_EAGAIN # script \<Rightarrow> flush_or_mark_sds cfg fd (set_script fd script s)
     | R_error # script \<Rightarrow> doom_sds cfg fd (set_script fd script s)
     | R_EINTR # script \<Rightarrow> (case n of 0 \<Rightarrow> Inl Undefined | Suc m \<Rightarrow> read_loop cfg m fd (set_script fd script s))
     | Got bs # script \<Rightarrow>
         if bs = [] then doom_sds cfg fd (set_script fd script s)
         else (case n of 0 \<Rightarrow> Inl Undefined | Suc m \<Rightarrow>
           let got = take want bs in
           bind_res (ingest cfg fd got (set_script fd (script_rest want bs script) s)) (\<lambda>s.
           with_slot fd s (\<lambda>c. if s_closing c then Inr s
             else if g_short_read cfg \<and> length got < want then flush_or_mark_sds cfg fd s
             else read_loop cfg m fd s))))"

declare read_loop.simps [simp del]

definition script_weight :: "recv_res list \<Rightarrow> nat" where
  "script_weight script = sum_list (map recv_weight script)"

text \<open>Every answer uses up some of the script, whose weight bounds the turns.\<close>

definition on_readable_sds :: "sds_cfg \<Rightarrow> nat \<Rightarrow> sworld \<Rightarrow> sworld res" where
  "on_readable_sds cfg fd s = read_loop cfg (script_weight (s_recvs s fd)) fd s"

section \<open>Flush pass, accept and reap\<close>

text \<open>Element \<open>i\<close> of one of the two lists.\<close>

definition with_fd :: "nat \<Rightarrow> nat mvec \<Rightarrow> (nat \<Rightarrow> 'a res) \<Rightarrow> 'a res" where
  "with_fd i v k = bind_res (mv_at i v) (\<lambda>x. case x of None \<Rightarrow> Inl Undefined | Some fd \<Rightarrow> k fd)"

definition flush_one_sds :: "sds_cfg \<Rightarrow> nat \<Rightarrow> sworld \<Rightarrow> sworld res" where
  "flush_one_sds cfg fd s = (if \<not> live_sds cfg fd s then Inr s
     else with_slot fd s (\<lambda>c. let s = set_slot fd (c\<lparr>s_dirty := False\<rparr>) s in
       if s_closing c then Inr s else flush_send_sds cfg fd s))"

text \<open>The index loops re-read the size; a list of distinct descriptors is at most as long as the slab, so
  that many turns reach its end.\<close>

fun flush_loop :: "sds_cfg \<Rightarrow> nat \<Rightarrow> nat \<Rightarrow> sworld \<Rightarrow> sworld res" where
  "flush_loop cfg n i s = (if \<not> i < unat (mv_size (g_dirty s)) then Inr s
     else case n of 0 \<Rightarrow> Inl Undefined
       | Suc m \<Rightarrow> with_fd i (g_dirty s) (\<lambda>fd. bind_res (flush_one_sds cfg fd s) (flush_loop cfg m (Suc i))))"

declare flush_loop.simps [simp del]

definition flush_dirty_sds :: "sds_cfg \<Rightarrow> sworld \<Rightarrow> sworld res" where
  "flush_dirty_sds cfg s = bind_res (flush_loop cfg (g_slots cfg) 0 s) (\<lambda>s. Inr (s\<lparr>g_dirty := mv_clear (g_dirty s)\<rparr>))"

definition accept_one_sds :: "sds_cfg \<Rightarrow> nat \<Rightarrow> sworld \<Rightarrow> sworld res" where
  "accept_one_sds cfg fd s = (if g_max_conns cfg \<le> g_total_live s \<or> g_slots cfg \<le> fd then Inr s
     else if \<not> ctl_add_ok cfg fd then Inr s
     else LNX_CHECK (slab s fd = None)
       (Inr ((set_slot fd (sconn_init cfg) s)\<lparr>g_total_live := g_total_live s + 1\<rparr>)))"

fun accept_loop_sds :: "sds_cfg \<Rightarrow> accept_res list \<Rightarrow> sworld \<Rightarrow> (accept_res list \<times> sworld) res" where
  "accept_loop_sds cfg [] s = Inr ([], s)"
| "accept_loop_sds cfg (Accepted fd # script) s = bind_res (accept_one_sds cfg fd s) (accept_loop_sds cfg script)"
| "accept_loop_sds cfg (A_EINTR # script) s = accept_loop_sds cfg script s"
| "accept_loop_sds cfg (A_ECONNABORTED # script) s = accept_loop_sds cfg script s"
| "accept_loop_sds cfg (A_EAGAIN # script) s = Inr (script, s)"
| "accept_loop_sds cfg (A_EMFILE reopened # script) s =
     Inr (if s_reserve s then (tl script, s\<lparr>s_reserve := reopened\<rparr>) else (script, s))"
| "accept_loop_sds cfg (A_error # script) s = Inr (script, s)"

definition on_accept_sds :: "sds_cfg \<Rightarrow> sworld \<Rightarrow> sworld res" where
  "on_accept_sds cfg s = bind_res (accept_loop_sds cfg (s_accepts s) s) (\<lambda>(script, s). Inr (s\<lparr>s_accepts := script\<rparr>))"

definition say_bye_sds :: "sds_cfg \<Rightarrow> nat \<Rightarrow> sconn \<Rightarrow> sworld \<Rightarrow> sworld res" where
  "say_bye_sds cfg fd c s = (if s_room c \<noteq> None \<and> s_nick_len c \<noteq> 0
     then bind_res (put_line [nick_of c, ascii '' left'']) (\<lambda>line.
          bind_res (leave_room_sds fd s) (broadcast_sds cfg (s_room c) s_notice line (Some fd)))
     else leave_room_sds fd s)"

definition reap_one_sds :: "sds_cfg \<Rightarrow> nat \<Rightarrow> sworld \<Rightarrow> sworld res" where
  "reap_one_sds cfg fd s = (if \<not> live_sds cfg fd s then Inr s
     else with_slot fd s (\<lambda>c. bind_res (say_bye_sds cfg fd c s) (\<lambda>s.
       Inr (s\<lparr>slab := (slab s)(fd := None), g_total_live := g_total_live s - 1\<rparr>))))"

fun reap_loop_sds :: "sds_cfg \<Rightarrow> nat \<Rightarrow> nat \<Rightarrow> sworld \<Rightarrow> sworld res" where
  "reap_loop_sds cfg n i s = (if \<not> i < unat (mv_size (g_doomed s)) then Inr s
     else case n of 0 \<Rightarrow> Inl Undefined
       | Suc m \<Rightarrow> with_fd i (g_doomed s) (\<lambda>fd. bind_res (reap_one_sds cfg fd s) (reap_loop_sds cfg m (Suc i))))"

declare reap_loop_sds.simps [simp del]

definition reap_doomed_sds :: "sds_cfg \<Rightarrow> sworld \<Rightarrow> sworld res" where
  "reap_doomed_sds cfg s = bind_res (reap_loop_sds cfg (g_slots cfg) 0 s) (\<lambda>s. Inr (s\<lparr>g_doomed := mv_clear (g_doomed s)\<rparr>))"

section \<open>Boot and the event loop\<close>

text \<open>\<^verbatim>\<open>make_slab\<close> once the mappings are there: the free list threaded through the rooms,
  and the two lists, which start with room for 4 entries, reserved. The hash map starts with 1024 buckets.\<close>

definition room_blank :: "nat \<Rightarrow> nat \<Rightarrow> sroom" where
  "room_blank n i = \<lparr>rm_name = replicate (k_room_max + 1) 0, rm_head = None, rm_count = 0,
     rm_next_free = (if i + 1 < n then Some (i + 1) else None), rm_live = False\<rparr>"

definition make_slab :: "sds_cfg \<Rightarrow> (nat \<Rightarrow> send_res list) \<Rightarrow> (nat \<Rightarrow> recv_res list) \<Rightarrow> accept_res list \<Rightarrow> sworld res" where
  "make_slab cfg ss rs acs = (let n = g_slots cfg; empty = mv_init 4 (malloc_ok cfg) 4 in
     bind_res (mv_reserve 4 (malloc_ok cfg) (of_nat n) empty) (\<lambda>doomed.
     bind_res (mv_reserve 4 (malloc_ok cfg) (of_nat n) empty) (\<lambda>dirty.
     LNX_CHECK (of_nat n \<le> mv_capacity doomed \<and> of_nat n \<le> mv_capacity dirty)
       (Inr \<lparr>slab = Map.empty, g_rooms = map (room_blank n) [0..<n], g_room_free = Some 0,
          g_room_index = cmap_init 1024, g_doomed = doomed, g_dirty = dirty, g_total_live = 0, s_sends = ss, s_recvs = rs,
          s_accepts = acs, s_wire = (\<lambda>_. []), s_reserve = True\<rparr>))))"

definition client_event_sds :: "sds_cfg \<Rightarrow> nat \<Rightarrow> event \<Rightarrow> sworld \<Rightarrow> sworld res" where
  "client_event_sds cfg fd e s = (if \<not> live_sds cfg fd s then Inr s
     else with_slot fd s (\<lambda>c. if s_closing c then Inr s
       else if ev_err e then doom_sds cfg fd s
       else bind_res (if ev_out e then flush_send_sds cfg fd s else Inr s) (\<lambda>s.
         with_slot fd s (\<lambda>c. if \<not> s_closing c \<and> ev_in e then on_readable_sds cfg fd s else Inr s))))"

definition handle_event_sds :: "sds_cfg \<Rightarrow> event \<Rightarrow> bool \<times> sworld \<Rightarrow> (bool \<times> sworld) res" where
  "handle_event_sds cfg e b = (case src e of
     Listener \<Rightarrow> bind_res (on_accept_sds cfg (snd b)) (\<lambda>s. Inr (fst b, s))
   | Signal \<Rightarrow> Inr (False, snd b)
   | Client fd \<Rightarrow> bind_res (client_event_sds cfg fd e (snd b)) (\<lambda>s. Inr (fst b, s)))"

fun handle_events_sds :: "sds_cfg \<Rightarrow> event list \<Rightarrow> bool \<times> sworld \<Rightarrow> (bool \<times> sworld) res" where
  "handle_events_sds cfg [] b = Inr b"
| "handle_events_sds cfg (e # es) b = bind_res (handle_event_sds cfg e b) (handle_events_sds cfg es)"

definition flush_phase_sds :: "sds_cfg \<Rightarrow> sworld \<Rightarrow> sworld res" where
  "flush_phase_sds cfg s = (if g_batch_flush cfg
     then bind_res (flush_dirty_sds cfg s) (\<lambda>s. bind_res (reap_doomed_sds cfg s) (flush_dirty_sds cfg))
     else reap_doomed_sds cfg s)"

definition loop_turn_sds :: "sds_cfg \<Rightarrow> wait_res \<Rightarrow> sworld \<Rightarrow> (bool \<times> sworld) res" where
  "loop_turn_sds cfg r s = (case r of
     W_EINTR \<Rightarrow> Inr (True, s)
   | W_error \<Rightarrow> Inr (False, s)
   | Events es \<Rightarrow> bind_res (handle_events_sds cfg es (True, s))
       (\<lambda>(running, s). bind_res (flush_phase_sds cfg s) (\<lambda>s. Inr (running, s))))"

fun serve_sds :: "sds_cfg \<Rightarrow> wait_res list \<Rightarrow> sworld \<Rightarrow> sworld res" where
  "serve_sds cfg [] s = Inr s"
| "serve_sds cfg (r # turns) s = bind_res (loop_turn_sds cfg r s)
     (\<lambda>(running, s). if running then serve_sds cfg turns s else Inr s)"

end
