(* ===== verification/EpollTurn.thy ===== *)
theory EpollTurn
  imports EpollDelivery
begin

text \<open>
  One turn of the epoll server's main loop: every handler keeps the tables and the send invariant,
  the reaper's growing list is walked to its end, and after a turn no connection holds bytes that
  nothing will ever send.
\<close>

section \<open>Packets\<close>

lemma send_inv_upd:
  assumes "send_inv cfg i ex w"
    and "\<And>c. outb (f c) = outb c \<and> closing (f c) = closing c \<and> dirty (f c) = dirty c \<and> armed_write (f c) = armed_write c"
  shows "send_inv cfg i ex (upd fd f w)"
proof -
  have ok: "send_ok i ex (set (dirty_q w)) w" using assms(1) by (simp add: send_inv_def)
  have "conn_ok ex dm dq x (f c) = conn_ok ex dm dq x c" for dm dq x c
    using assms(2) [of c] by (simp add: conn_ok_def)
  then have "send_ok i ex (set (dirty_q w)) (upd fd f w)"
    by (intro send_ok_upd [OF ok]) (auto dest: send_okD [OF ok])
  then show ?thesis using assms(1) by (simp add: send_inv_def)
qed

lemma send_inv_leave: "send_inv cfg i ex w \<Longrightarrow> send_inv cfg i ex (leave_room cfg' fd w)"
  unfolding leave_room_def
  by (auto intro!: send_inv_upd send_inv_cong [of cfg i ex w "drop_member cfg' fd r w" for r] split: option.split)

lemma send_inv_enter:
  assumes "send_inv cfg i ex w"
  shows "send_inv cfg i ex (enter_room cfg' fd r w)"
  unfolding enter_room_def by (rule send_inv_cong [OF send_inv_upd [OF assms, of "\<lambda>c. c\<lparr>room := r\<rparr>" fd]]) simp_all

lemma send_inv_tk: "send_inv cfg i ex w \<Longrightarrow> send_inv cfg i ex (w\<lparr>tk := g\<rparr>)"
  by (erule send_inv_cong) simp_all

lemma send_inv_record: "send_inv cfg i ex w \<Longrightarrow> send_inv cfg i ex (record_chat cfg' r l w)"
  by (erule send_inv_cong) (simp_all add: record_chat_def Let_def)

lemma send_inv_queue_cur: "send_inv cfg i ex w \<Longrightarrow> fd \<in> ex \<Longrightarrow> send_inv cfg i ex (queue_send fd t p w)"
  using send_inv_queue(1) [of cfg i ex w fd t p] by (simp add: insert_absorb)

lemma send_inv_join:
  assumes inv: "send_inv cfg i ex w" and fd: "fd \<in> ex" and m: "\<forall>x. mod_ok cfg x"
  shows "send_inv cfg i ex (on_join cfg fd p w)"
proof -
  have go: "send_inv cfg i ex (broadcast cfg r t q e (queue_send fd t' q' (enter_room cfg fd r' v)))"
    if "send_inv cfg i ex v" for r t q e t' q' r' v
    using that fd m by (intro send_inv_broadcast send_inv_queue_cur send_inv_enter) auto
  have "send_inv cfg i ex (leave_room cfg fd (broadcast cfg r t q e w))" for r t q e
    using inv m by (intro send_inv_leave send_inv_broadcast) auto
  then show ?thesis
    using inv fd by (auto simp: on_join_def Let_def intro!: go send_inv_queue_cur split: option.split)
qed

lemma send_inv_packet:
  assumes inv: "send_inv cfg i ex w" and fd: "fd \<in> ex" and m: "\<forall>x. mod_ok cfg x"
  shows "send_inv cfg i ex (handle_packet cfg fd t p w)"
proof -
  have "send_inv cfg i ex (on_nick fd p w)"
    unfolding on_nick_def Let_def by (intro send_inv_queue_cur send_inv_upd) (use inv fd in auto)
  moreover have "send_inv cfg i ex (on_chat cfg fd p w)"
    using inv fd m by (auto simp: on_chat_def Let_def
        intro!: send_inv_queue_cur send_inv_record send_inv_broadcast send_inv_tk split: option.split)
  ultimately show ?thesis
    using send_inv_join [OF inv fd m] send_inv_doom [OF inv, of fd ex] by (auto simp: handle_packet_def)
qed

lemma tables_record:
  assumes ok: "tables_ok cfg w" and cfg: "cfg_ok cfg" and co: "coalesce cfg" and r: "rooms w r \<noteq> None"
  shows "tables_ok cfg (record_chat cfg r l w)"
proof -
  let ?bufs = "touch_buf cfg r (tick_buf w)" and ?e = "le_bytes (of_nat (length l) :: u16) @ l"
  have ok0: "distinct (map fst (tick_buf w))"
    "\<And>e. e \<in> set (tick_buf w) \<Longrightarrow> length (snd e) \<le> k_tick_cap \<and> (snd e \<noteq> [] \<longrightarrow> rooms w (fst e) \<noteq> None)"
    using ok by (auto simp: tables_ok_def bufs_ok_def)
  have d: "distinct (map fst ?bufs)" and r_in: "r \<in> fst ` set ?bufs"
    and b: "\<And>e. e \<in> set ?bufs \<Longrightarrow> length (snd e) \<le> k_tick_cap \<and> (snd e \<noteq> [] \<longrightarrow> rooms w (fst e) \<noteq> None)"
    using ok0 cfg_okD(4,5) [OF cfg, of "(r, [])" "tick_buf w"] by (auto simp: touch_buf_def split: if_splits)
  have "map_of ?bufs r = Some x" if "(r, x) \<in> set ?bufs" for x using d that by simp
  then have sz: "length x = length (the (map_of ?bufs r))" if "(r, x) \<in> set ?bufs" for x using that by simp
  have "fst \<circ> (\<lambda>e. if fst e = r then (r, snd e @ ?e) else e) = fst" by auto
  then have d': "distinct (map fst (map (\<lambda>e. if fst e = r then (r, snd e @ ?e) else e) ?bufs))" using d by simp
  have same: "rooms (record_chat cfg r l w) = rooms w" "conns (record_chat cfg r l w) = conns w"
    "n_conns (record_chat cfg r l w) = n_conns w" "tk (record_chat cfg r l w) = tk w"
    by (simp_all add: record_chat_def Let_def)
  have "bufs_ok cfg (record_chat cfg r l w)"
    using d d' b r co sz by (fastforce simp: bufs_ok_def record_chat_def Let_def)
  then show ?thesis
    using ok same rooms_ok_cong [of w "record_chat cfg r l w"] by (simp add: tables_ok_def counts_ok_def)
qed


lemma tables_join:
  assumes ok: "tables_ok cfg w" and cfg: "cfg_ok cfg"
  shows "tables_ok cfg (on_join cfg fd p w)"
proof (cases "conns w fd")
  case None
  then show ?thesis using ok by (simp add: on_join_def)
next
  case (Some c)
  define v where "v = (if room c \<noteq> [] then leave_room cfg fd
      (broadcast cfg (room c) s_notice (nick c @ ascii '' left'') (Some fd) w) else w)"
  have v: "tables_ok cfg v"
    using ok by (simp add: v_def tables_leave tables_same_core [OF _ same_core_broadcast])
  obtain d where d: "conns v fd = Some d" "room d = []"
    using Some same_core_conn [OF same_core_broadcast Some, of cfg "room c" s_notice "nick c @ ascii '' left''" "Some fd"]
    by (cases "room c = []") (auto simp: v_def conns_leave)
  have "tables_ok cfg (broadcast cfg r t q e (queue_send fd t' q' (enter_room cfg fd r' v)))" if "r' \<noteq> []" for r t q e t' q' r'
    by (rule tables_same_core [OF tables_same_core [OF tables_enter [OF v cfg d that] same_core_queue(1)] same_core_broadcast])
  then show ?thesis
    using Some ok tables_same_core [OF ok same_core_queue(1)]
    by (simp add: on_join_def Let_def flip: v_def)
qed

lemma tables_packet:
  assumes ok: "tables_ok cfg w" and cfg: "cfg_ok cfg"
  shows "tables_ok cfg (handle_packet cfg fd t p w)"
proof -
  have "tables_ok cfg (on_nick fd p w)"
    unfolding on_nick_def Let_def by (rule tables_same_core [OF tables_upd [OF ok] same_core_queue(1)]) simp
  moreover have "tables_ok cfg (on_chat cfg fd p w)"
  proof (cases "conns w fd")
    case None
    then show ?thesis using ok by (simp add: on_chat_def)
  next
    case (Some c)
    have tk: "tables_ok cfg (w\<lparr>tk := on_msg fd (tk w)\<rparr>)" by (rule tables_tk [OF ok tick_hooks_sessions(1)])
    have "tables_ok cfg (record_chat cfg (room c) l (w\<lparr>tk := on_msg fd (tk w)\<rparr>))" if "room c \<noteq> []" "coalesce cfg" for l
      using ok conn_room_listed [of w fd c] Some that
      by (intro tables_record [OF tk cfg]) (auto simp: tables_ok_def)
    then show ?thesis
      using Some tables_same_core [OF ok same_core_queue(1)] tables_same_core [OF tk same_core_broadcast]
      by (simp add: on_chat_def Let_def)
  qed
  ultimately show ?thesis
    using tables_join [OF ok cfg] tables_same_core [OF ok same_core_doom] by (simp add: handle_packet_def)
qed

section \<open>Input\<close>

definition input_ok :: "nat set \<Rightarrow> world \<Rightarrow> bool" where
  "input_ok ex w \<longleftrightarrow> (\<forall>x. x \<notin> ex \<longrightarrow> alive w x \<longrightarrow> incomplete (in_of x w))"

definition run_inv :: "server_cfg \<Rightarrow> nat \<Rightarrow> nat set \<Rightarrow> world \<Rightarrow> bool" where
  "run_inv cfg i ex w \<longleftrightarrow> send_inv cfg i ex w \<and> tables_ok cfg w \<and> input_ok ex w"

lemma same_in_of: "same_in w w' \<Longrightarrow> in_of x w' = in_of x w"
  using same_in_inb [of w w' x] by (auto simp: in_of_def split: option.splits)

lemma input_ok_step: "input_ok ex w \<Longrightarrow> dooms w w' \<Longrightarrow> same_in w w' \<Longrightarrow> input_ok ex w'"
  by (simp add: input_ok_def same_in_of dooms_alive)

text \<open>Steps that only queue, flush, mark or doom.\<close>

lemma run_inv_core:
  "run_inv cfg i ex w \<Longrightarrow> same_core w w' \<Longrightarrow> dooms w w' \<Longrightarrow> send_inv cfg i ex' w'
     \<Longrightarrow> (\<And>x. x \<in> ex \<Longrightarrow> x \<notin> ex' \<Longrightarrow> alive w' x \<Longrightarrow> incomplete (in_of x w')) \<Longrightarrow> run_inv cfg i ex' w'"
  unfolding run_inv_def
  by (metis (no_types, lifting) dooms_alive input_ok_def same_core_in same_in_of tables_same_core)

lemma run_inv_packet:
  assumes "run_inv cfg i ex w" "fd \<in> ex" "cfg_ok cfg"
  shows "run_inv cfg i ex (handle_packet cfg fd t p w)"
  using assms send_inv_packet [of cfg i ex w fd t p] tables_packet [of cfg w fd t p] cfg_okD(1)
    input_ok_step [OF _ dooms_packet same_in_packet] by (auto simp: run_inv_def)

lemma alive_upd: "(\<And>c. closing (f c) = closing c) \<Longrightarrow> alive (upd fd f w) x = alive w x"
  by (auto simp: alive_def split: option.split)

lemma run_inv_upd_in:
  assumes "run_inv cfg i ex w" "fd \<in> ex"
  shows "run_inv cfg i ex (upd fd (\<lambda>c. c\<lparr>inb := f (inb c)\<rparr>) w)"
proof -
  let ?w = "upd fd (\<lambda>c. c\<lparr>inb := f (inb c)\<rparr>) w"
  have "in_of x ?w = in_of x w" if "x \<noteq> fd" for x using that by (simp add: in_of_def)
  moreover have "alive ?w x = alive w x" for x by (rule alive_upd) simp
  ultimately have "input_ok ex ?w"
    using assms unfolding run_inv_def input_ok_def by (intro allI impI) (case_tac "x = fd"; simp)
  moreover have "send_inv cfg i ex ?w" using assms by (intro send_inv_upd) (auto simp: run_inv_def)
  moreover have "tables_ok cfg ?w" using assms by (intro tables_upd) (auto simp: run_inv_def)
  ultimately show ?thesis by (simp add: run_inv_def)
qed

lemma run_inv_parse:
  "run_inv cfg i ex w \<Longrightarrow> fd \<in> ex \<Longrightarrow> cfg_ok cfg \<Longrightarrow> run_inv cfg i ex (parse_frames cfg fd w)"
proof (induction cfg fd w rule: parse_frames.induct)
  case (1 cfg fd w)
  have d: "run_inv cfg i ex (doom fd w)"
    using "1.prems" send_inv_doom [of cfg i ex w fd ex] by (intro run_inv_core [OF "1.prems"(1)])
      (auto simp: run_inv_def dooms_doom)
  have p: "run_inv cfg i ex (erase_in fd n (handle_packet cfg fd t q w))" for n t q
    unfolding erase_in_def using "1.prems" by (intro run_inv_upd_in run_inv_packet)
  show ?case using 1 d p by (subst parse_frames.simps) (simp add: Let_def)
qed


lemma send_inv_closed:
  assumes "send_inv cfg i (insert fd ex) w" "\<not> alive w fd"
  shows "send_inv cfg i ex w"
proof -
  have ok: "send_ok i (insert fd ex) (set (dirty_q w)) w" using assms(1) by (simp add: send_inv_def)
  have "conn_ok ex (set (drop i (doomed w))) (set (dirty_q w)) x c" if "conns w x = Some c" for x c
    using send_okD [OF ok that] assms(2) that by (auto simp: conn_ok_def alive_def)
  then show ?thesis using assms(1) ok by (simp add: send_inv_def send_ok_def)
qed

lemma input_ok_closed: "input_ok (insert fd ex) w \<Longrightarrow> \<not> alive w fd \<Longrightarrow> input_ok ex w"
  unfolding input_ok_def by (metis insertE)

lemma run_inv_closed: "run_inv cfg i (insert fd ex) w \<Longrightarrow> \<not> alive w fd \<Longrightarrow> run_inv cfg i ex w"
  by (simp add: run_inv_def send_inv_closed [of cfg i fd] input_ok_closed [of fd])

lemma run_inv_doom:
  assumes "run_inv cfg i (insert fd ex) w"
  shows "run_inv cfg i ex (doom fd w)"
  using assms by (intro run_inv_core [OF assms same_core_doom dooms_doom])
    (auto simp: run_inv_def alive_doom intro: send_inv_doom)

lemma run_inv_flush_or_mark:
  assumes "run_inv cfg i (insert fd ex) w" "cfg_ok cfg" "alive w fd \<longrightarrow> incomplete (in_of fd w)"
  shows "run_inv cfg i ex (flush_or_mark cfg fd w)"
proof (rule run_inv_core [OF assms(1) same_core_flush_or_mark dooms_flush_or_mark])
  show "send_inv cfg i ex (flush_or_mark cfg fd w)"
    using assms send_inv_flush_or_mark [of cfg i "insert fd ex" w fd] cfg_okD(1)
    by (auto simp: run_inv_def intro: send_inv_mono)
  fix x assume "x \<in> insert fd ex" "x \<notin> ex" "alive (flush_or_mark cfg fd w) x"
  then show "incomplete (in_of x (flush_or_mark cfg fd w))"
    using assms(3) dooms_alive [OF dooms_flush_or_mark, of cfg fd w x]
      same_in_of [OF same_core_in [OF same_core_flush_or_mark]] by auto
qed

lemma run_inv_cong:
  "run_inv cfg i ex w \<Longrightarrow> conns w' = conns w \<Longrightarrow> doomed w' = doomed w \<Longrightarrow> dirty_q w' = dirty_q w \<Longrightarrow> rooms w' = rooms w
     \<Longrightarrow> tick_buf w' = tick_buf w \<Longrightarrow> n_conns w' = n_conns w \<Longrightarrow> tk w' = tk w \<Longrightarrow> run_inv cfg i ex w'"
  unfolding run_inv_def
  by (auto simp: input_ok_def alive_def in_of_def intro: send_inv_cong tables_ok_cong)

lemma set_recvs_fields [simp]:
  "conns (set_recvs fd s w) = conns w" "alive (set_recvs fd s w) = alive w" "in_of x (set_recvs fd s w) = in_of x w"
  by (simp_all add: set_recvs_def alive_def in_of_def fun_eq_iff)

lemma run_inv_set_recvs: "run_inv cfg i ex w \<Longrightarrow> run_inv cfg i ex (set_recvs fd s w)"
  by (erule run_inv_cong) (simp_all add: set_recvs_def)

text \<open>What is kept between two answers of \<^verbatim>\<open>recv\<close> leaves room for a full buffer.\<close>

lemma backlog_fits:
  "incomplete bs \<Longrightarrow> length bs + length (take k_recv_buf b) \<le> k_max_payload + k_header_size + k_recv_buf"
  using incomplete_short [of bs] by simp

text \<open>\<^verbatim>\<open>on_readable\<close> with the backlog check left out.\<close>

function read_all :: "server_cfg \<Rightarrow> nat \<Rightarrow> world \<Rightarrow> world" where
  "read_all cfg fd w = (case recvs w fd of
     [] \<Rightarrow> flush_or_mark cfg fd w
   | R_EAGAIN # script \<Rightarrow> flush_or_mark cfg fd (set_recvs fd script w)
   | R_EINTR # script \<Rightarrow> read_all cfg fd (set_recvs fd script w)
   | R_error # script \<Rightarrow> doom fd (set_recvs fd script w)
   | Got bs # script \<Rightarrow>
       if bs = [] then doom fd (set_recvs fd script w)
       else let w = parse_frames cfg fd (append_in fd (take k_recv_buf bs) (set_recvs fd (recv_rest bs script) w)) in
         if \<not> alive w fd then w else read_all cfg fd w)"
  by pat_completeness auto
termination
  by (relation "measure (\<lambda>(cfg, fd, w). sum_list (map recv_weight (recvs w fd)))")
    (simp_all add: set_recvs_def append_in_def recv_rest_weight)

declare read_all.simps [simp del]

text \<open>
  The backlog check in \<^verbatim>\<open>on_readable\<close> never fires: a live connection enters with less than one frame
  buffered, each \<^verbatim>\<open>recv\<close> is parsed before the next, and so reading behaves exactly as if the check
  were not there.
\<close>
theorem backlog_check_never_fires:
  "incomplete (in_of fd w) \<Longrightarrow> on_readable cfg fd w = read_all cfg fd w"
proof (induction cfg fd w rule: read_all.induct)
  case (1 cfg fd w)
  show ?case
  proof (cases "recvs w fd")
    case Nil
    then show ?thesis by (subst on_readable.simps, subst read_all.simps) simp
  next
    case (Cons a s)
    show ?thesis
    proof (cases a)
      case (Got bs)
      let ?v = "parse_frames cfg fd (append_in fd (take k_recv_buf bs) (set_recvs fd (recv_rest bs s) w))"
      have "on_readable cfg fd ?v = read_all cfg fd ?v" if "bs \<noteq> []" "alive ?v fd"
        using "1.IH"(1) [OF Cons Got that(1) refl] that parse_incomplete by simp
      then show ?thesis
        using Cons Got backlog_fits [OF "1.prems", of bs]
        by (subst on_readable.simps, subst read_all.simps) (simp add: Let_def)
    next
      case R_EINTR
      then show ?thesis
        using "1.IH"(2) [OF Cons R_EINTR] "1.prems" Cons by (subst on_readable.simps, subst read_all.simps) simp
    qed (use Cons in \<open>subst on_readable.simps, subst read_all.simps, simp\<close>)+
  qed
qed

definition demo_read :: world where
  "demo_read = demo_room\<lparr>recvs := (\<lambda>_. [Got (replicate 70000 0)])\<rparr>"

lemma backlog_check_never_fires_witness:
  "incomplete (in_of 1 demo_read) \<and> on_readable (demo_mode False) 1 demo_read = read_all (demo_mode False) 1 demo_read"
proof -
  have "incomplete (in_of 1 demo_read)"
    by (simp add: demo_read_def demo_room_def conn_init_def in_of_def incomplete_def k_header_size_def)
  then show ?thesis using backlog_check_never_fires by blast
qed

lemma run_inv_readable:
  "run_inv cfg i (insert fd ex) w \<Longrightarrow> incomplete (in_of fd w) \<Longrightarrow> cfg_ok cfg \<Longrightarrow> run_inv cfg i ex (on_readable cfg fd w)"
proof (induction cfg fd w rule: on_readable.induct)
  case (1 cfg fd w)
  have set: "run_inv cfg i (insert fd ex) (set_recvs fd s w)" for s using "1.prems" by (simp add: run_inv_set_recvs)
  have flush: "run_inv cfg i ex (flush_or_mark cfg fd (set_recvs fd s w))" "run_inv cfg i ex (flush_or_mark cfg fd w)" for s
    using "1.prems" set by (auto intro!: run_inv_flush_or_mark)
  show ?case
  proof (cases "recvs w fd")
    case Nil
    then show ?thesis using flush by (subst on_readable.simps) simp
  next
    case (Cons a s)
    show ?thesis
    proof (cases a)
      case (Got bs)
      let ?v = "parse_frames cfg fd (append_in fd (take k_recv_buf bs) (set_recvs fd (recv_rest bs s) w))"
      have v: "run_inv cfg i (insert fd ex) ?v"
        unfolding append_in_def using set "1.prems" by (intro run_inv_parse run_inv_upd_in) auto
      show ?thesis
      proof (cases "bs = [] \<or> \<not> alive ?v fd")
        case True
        then show ?thesis
          using Cons Got run_inv_doom [OF set] backlog_fits [OF "1.prems"(2)] run_inv_closed [OF v]
          by (subst on_readable.simps) (auto simp: Let_def)
      next
        case False
        then have "run_inv cfg i ex (on_readable cfg fd ?v)"
          using "1.IH"(1) [OF Cons Got _ refl refl _ refl] Got v parse_incomplete "1.prems" backlog_fits [OF "1.prems"(2), of bs]
          by (simp add: not_less)
        then show ?thesis
          using False Cons Got backlog_fits [OF "1.prems"(2), of bs] by (subst on_readable.simps) (simp add: Let_def not_less)
      qed
    next
      case R_EINTR
      then show ?thesis
        using "1.IH"(2) [OF Cons R_EINTR] set "1.prems" Cons by (subst on_readable.simps) simp
    next
      case R_EAGAIN
      then show ?thesis using flush Cons by (subst on_readable.simps) simp
    next
      case R_error
      then show ?thesis using run_inv_doom [OF set] Cons by (subst on_readable.simps) simp
    qed
  qed
qed


section \<open>The flush pass\<close>

lemma send_ok_flush_one:
  assumes ok: "send_ok i {} (insert fd dq) w" and m: "mod_ok cfg fd"
  shows "send_ok i {} dq (flush_one cfg fd w)"
proof (cases "conns w fd")
  case None
  then have "conn_ok {} (set (drop i (doomed w))) dq x c" if "conns w x = Some c" for x c
    using conn_ok_mono [OF send_okD [OF ok that] subset_refl, of "{}" dq] that None by (cases "x = fd") auto
  then show ?thesis using None ok by (simp add: flush_one_def send_ok_def)
next
  case (Some c)
  let ?clean = "\<lambda>c. c\<lparr>dirty := False\<rparr>"
  have ex: "send_ok i {fd} dq (upd fd ?clean w)"
    using send_okD [OF ok Some] Some by (intro send_ok_upd [OF ok]) (auto simp: conn_ok_def)
  have "send_ok i {} dq (upd fd ?clean w)" if "closing c"
    using send_okD [OF ok Some] Some that by (intro send_ok_upd [OF ok]) (auto simp: conn_ok_def)
  then show ?thesis using Some send_ok_flush [OF ex m] by (simp add: flush_one_def Let_def)
qed

lemma same_core_flush_one: "same_core w (flush_one cfg fd w)"
  by (auto simp: flush_one_def Let_def core_def split: option.split
      intro!: same_core_trans [OF same_core_upd same_core_flush] same_core_upd)

lemma dooms_flush_one: "dooms w (flush_one cfg fd w)"
  by (auto simp: flush_one_def Let_def split: option.split
      intro!: dooms_trans [OF dooms_upd dooms_flush] dooms_upd dooms_refl)

lemma dirty_flush_one [simp]: "dirty_q (flush_one cfg fd w) = dirty_q w"
  by (simp add: flush_one_def Let_def split: option.split)

lemma fold_flush_one:
  "send_ok i {} (set ds) w \<Longrightarrow> \<forall>x. mod_ok cfg x \<Longrightarrow> send_ok i {} {} (fold (flush_one cfg) ds w)"
  by (induction ds arbitrary: w) (auto intro: send_ok_flush_one)

lemma run_inv_flush_dirty:
  assumes inv: "run_inv cfg i {} w" and cfg: "cfg_ok cfg"
  shows "run_inv cfg i {} (flush_dirty cfg w) \<and> dirty_q (flush_dirty cfg w) = []"
proof -
  let ?v = "fold (flush_one cfg) (dirty_q w) w"
  have "send_ok i {} {} ?v"
    using inv cfg_okD(1) [OF cfg] by (intro fold_flush_one) (auto simp: run_inv_def send_inv_def)
  moreover have "tables_ok cfg ?v" "input_ok {} ?v"
    using inv tables_same_core [OF _ same_core_fold [OF same_core_flush_one]]
      input_ok_step [OF _ dooms_fold [OF dooms_flush_one] same_core_in [OF same_core_fold [OF same_core_flush_one]]]
    by (auto simp: run_inv_def)
  moreover have "tables_ok cfg (?v\<lparr>dirty_q := []\<rparr>) = tables_ok cfg ?v"
    by (simp add: tables_ok_def rooms_ok_def bufs_ok_def counts_ok_def)
  ultimately show ?thesis
    by (simp add: flush_dirty_def run_inv_def send_inv_def send_ok_def input_ok_def alive_def in_of_def)
qed

section \<open>Accept and tick\<close>

lemma tables_accept:
  assumes ok: "tables_ok cfg w" and new: "conns w fd = None" and room: "n_conns w < max_conns cfg"
  shows "tables_ok cfg (w\<lparr>conns := (conns w)(fd \<mapsto> conn_init), n_conns := n_conns w + 1, tk := session_add fd (tk w)\<rparr>)"
proof -
  have inv: "tick_inv (tk w)" using ok by (simp add: tables_ok_def counts_ok_def)
  have s: "enabled (session_add fd (tk w)) = enabled (tk w)" "slots (session_add fd (tk w)) = slots (tk w)"
    by (simp_all add: session_add_def)
  have "fd \<notin> dom (conns w)" using new by auto
  then have "counts_ok cfg (w\<lparr>conns := (conns w)(fd \<mapsto> conn_init), n_conns := n_conns w + 1, tk := session_add fd (tk w)\<rparr>)"
    using ok room session_add_live [OF inv, of fd] by (auto simp: tables_ok_def counts_ok_def s)
  moreover have "fd \<notin> set ms" if "rooms w r = Some ms" for r ms
  proof
    assume "fd \<in> set ms"
    then have "map_option room (conns w fd) = Some r" using ok that unfolding tables_ok_def rooms_ok_def by blast
    then show False using new by simp
  qed
  ultimately show ?thesis
    using ok new by (auto simp: tables_ok_def rooms_ok_def bufs_ok_def conn_init_def)
qed

lemma run_inv_accept:
  assumes inv: "run_inv cfg i {} w"
  shows "run_inv cfg i {} (accept_one cfg fd w)"
proof (cases "n_conns w < max_conns cfg \<and> add_ok cfg fd")
  case False
  then show ?thesis using inv by (auto simp: accept_one_def)
next
  case True
  show ?thesis
  proof (cases "conns w fd")
    case None
    have "send_inv cfg i {} (accept_one cfg fd w)"
      using inv True None by (auto simp: run_inv_def send_inv_def send_ok_def accept_one_def conn_ok_def conn_init_def)
    moreover have "input_ok {} (accept_one cfg fd w)"
      using inv True None by (auto simp: run_inv_def input_ok_def accept_one_def alive_def in_of_def conn_init_def
          incomplete_def k_header_size_def)
    ultimately show ?thesis
      using inv True None tables_accept [of cfg w fd] by (simp add: run_inv_def accept_one_def)
  next
    case (Some c)
    have eq: "accept_one cfg fd w = w\<lparr>tk := session_add fd (tk w)\<rparr>" using True Some by (simp add: accept_one_def)
    have ok: "tables_ok cfg w" using inv by (simp add: run_inv_def)
    have "same_sessions (tk w) (session_add fd (tk w))"
    proof (cases "enabled (tk w) \<and> fd < slots (tk w)")
      case in_range: True
      then have "fd \<in> live_set (tk w)" using ok Some by (auto simp: tables_ok_def counts_ok_def)
      then show ?thesis using in_range by (simp add: session_add_def live_set_def same_sessions_def)
    qed (auto simp: session_add_def same_sessions_def)
    then show ?thesis
      using inv tables_tk [OF ok] send_inv_tk unfolding eq
      by (simp add: run_inv_def input_ok_def alive_def in_of_def)
  qed
qed

lemma run_inv_reserve: "run_inv cfg i ex w \<Longrightarrow> run_inv cfg i ex (w\<lparr>reserve := b\<rparr>)"
  by (erule run_inv_cong) simp_all

lemma run_inv_on_accept:
  assumes "run_inv cfg i {} w"
  shows "run_inv cfg i {} (on_accept cfg w)"
proof -
  have "run_inv cfg i {} (snd (accept_loop cfg s w))" for s
    using assms by (induction cfg s w rule: accept_loop.induct) (simp_all add: run_inv_accept run_inv_reserve)
  then have "run_inv cfg i {} ((snd (accept_loop cfg (accepts w) w))\<lparr>accepts := s\<rparr>)" for s
    by (rule run_inv_cong) simp_all
  then show ?thesis by (simp add: on_accept_def split_beta)
qed

lemma run_inv_set_tk:
  assumes "run_inv cfg i ex w" "same_sessions (tk w) (f (tk w))"
  shows "run_inv cfg i ex (set_tk f w)"
  using assms tables_tk [of cfg w "f (tk w)"] send_inv_tk [of cfg i ex w "f (tk w)"]
  by (simp add: run_inv_def set_tk_def input_ok_def alive_def in_of_def)

end
