(* ===== verification/EpollMain.thy ===== *)
theory EpollMain
  imports EpollTurn
begin

text \<open>
  The main loop of \<^verbatim>\<open>src/server-epoll/server.cpp\<close> as a whole, and what holds of the server between two
  waits, whatever the kernel answers and the clients send.
\<close>

section \<open>Tick delivery\<close>

lemma same_core_member: "same_core w (tick_member cfg p fd w)"
proof -
  have "same_core w ((queue_tick_frame fd p w)\<lparr>tick_frames := n\<rparr>)" for n
    using same_core_queue(2) [of w fd p] by (simp add: same_core_def)
  from same_core_trans [OF this same_core_flush_or_mark] show ?thesis by (simp add: tick_member_def)
qed

lemma dooms_member: "dooms w (tick_member cfg p fd w)"
proof -
  have "dooms w ((queue_tick_frame fd p w)\<lparr>tick_frames := n\<rparr>)" for n
    using dooms_queue(2) [of w fd p] by (simp add: dooms_def alive_def)
  from dooms_trans [OF this dooms_flush_or_mark] show ?thesis by (simp add: tick_member_def dooms_refl)
qed

lemma tick_room_frame: "same_core w (tick_room cfg e w)" "dooms w (tick_room cfg e w)"
  by (simp_all add: tick_room_def same_core_fold [OF same_core_member] dooms_fold [OF dooms_member] dooms_refl
      split: option.split)

lemma run_inv_tick_rooms:
  assumes inv: "run_inv cfg i {} w" and cfg: "cfg_ok cfg"
  shows "run_inv cfg i {} (flush_tick_rooms cfg w)"
proof -
  let ?v = "fold (tick_room cfg) (tick_buf w) w"
  have core: "same_core w ?v" and dm: "dooms w ?v"
    by (rule same_core_fold [OF tick_room_frame(1)], rule dooms_fold [OF tick_room_frame(2)])
  have "tables_ok cfg ?v" "input_ok {} ?v"
    using inv tables_same_core [OF _ core] input_ok_step [OF _ dm same_core_in [OF core]] by (auto simp: run_inv_def)
  moreover have "map (fst \<circ> (\<lambda>e. (fst e, []))) bs = map fst bs" for bs :: "(bytes \<times> bytes) list" by simp
  moreover have "tick_buf ?v = tick_buf w" using core by (simp add: same_core_def)
  ultimately have "tables_ok cfg (flush_tick_rooms cfg w)"
    by (auto simp: flush_tick_rooms_def tables_ok_def rooms_ok_def bufs_ok_def counts_ok_def comp_def)
  moreover have "send_inv cfg i {} (flush_tick_rooms cfg w)"
    using inv cfg_okD(1) [OF cfg] by (intro send_inv_tick_rooms) (auto simp: run_inv_def)
  moreover have "input_ok {} (flush_tick_rooms cfg w)"
    using \<open>input_ok {} ?v\<close> by (simp add: flush_tick_rooms_def input_ok_def alive_def in_of_def)
  ultimately show ?thesis by (simp add: run_inv_def)
qed

lemma run_inv_server_tick:
  assumes "run_inv cfg i {} w" "cfg_ok cfg"
  shows "run_inv cfg i {} (server_tick cfg t w)"
  using assms by (auto simp: server_tick_def Let_def intro!: run_inv_set_tk run_inv_tick_rooms tick_hooks_sessions)

section \<open>Events\<close>

lemma run_inv_grow: "run_inv cfg i ex w \<Longrightarrow> run_inv cfg i (insert fd ex) w"
  unfolding run_inv_def input_ok_def by (auto intro: send_inv_mono)

lemma run_inv_flush_send:
  assumes "run_inv cfg i {} w" "cfg_ok cfg"
  shows "run_inv cfg i {} (flush_send cfg fd w)"
  using assms send_inv_flush [of cfg i "{}" w fd] cfg_okD(1) [OF assms(2)]
  by (intro run_inv_core [OF assms(1) same_core_flush dooms_flush]) (auto simp: run_inv_def)

lemma run_inv_client:
  assumes inv: "run_inv cfg i {} w" and cfg: "cfg_ok cfg"
  shows "run_inv cfg i {} (client_event cfg fd e w)"
proof -
  have read: "run_inv cfg i {} (on_readable cfg fd v)" if "run_inv cfg i {} v" "alive v fd" for v
  proof (rule run_inv_readable [OF run_inv_grow [OF that(1)] _ cfg])
    show "incomplete (in_of fd v)" using that by (simp add: run_inv_def input_ok_def)
  qed
  show ?thesis
    using inv run_inv_doom [OF run_inv_grow [OF inv]] run_inv_flush_send [OF inv cfg] read
    by (simp add: client_event_def Let_def)
qed

lemma run_inv_event:
  "run_inv cfg i {} (snd s) \<Longrightarrow> cfg_ok cfg \<Longrightarrow> run_inv cfg i {} (snd (handle_event cfg e s))"
  by (auto simp: handle_event_def run_inv_on_accept run_inv_client split: source.split)

lemma run_inv_events:
  "run_inv cfg i {} (snd s) \<Longrightarrow> cfg_ok cfg \<Longrightarrow> run_inv cfg i {} (snd (fold (handle_event cfg) es s))"
  by (induction es arbitrary: s) (simp_all add: run_inv_event)

section \<open>The reaper\<close>

lemma say_bye_conn:
  assumes "conns w fd = Some c"
  shows "\<exists>d. conns (say_bye cfg fd c w) fd = Some d \<and> room d = []"
proof -
  have l: "conns (leave_room cfg fd w) fd = Some (c\<lparr>room := []\<rparr>)" using assms by (simp add: conns_leave)
  show ?thesis
    using l same_core_conn [OF same_core_broadcast l] by (fastforce simp: say_bye_def core_def)
qed

lemma run_inv_say_bye:
  assumes inv: "run_inv cfg i {} w" and cfg: "cfg_ok cfg"
  shows "run_inv cfg i {} (say_bye cfg fd c w)"
proof -
  have l: "run_inv cfg i {} (leave_room cfg fd w)"
    using inv input_ok_step [OF _ dooms_leave same_in_leave] by (simp add: run_inv_def send_inv_leave tables_leave)
  have "run_inv cfg i {} (broadcast cfg r t p e (leave_room cfg fd w))" for r t p e
    using send_inv_broadcast [of cfg i "{}" "leave_room cfg fd w"] l cfg_okD(1) [OF cfg]
    by (intro run_inv_core [OF l same_core_broadcast dooms_broadcast]) (auto simp: run_inv_def)
  then show ?thesis using l by (simp add: say_bye_def)
qed

lemma tables_erase:
  assumes ok: "tables_ok cfg v" and d: "conns v fd = Some d" "room d = []"
  shows "tables_ok cfg (v\<lparr>conns := (conns v)(fd := None), n_conns := n_conns v - 1, tk := session_remove fd (tk v)\<rparr>)"
    (is "tables_ok cfg ?w")
proof -
  have inv: "tick_inv (tk v)" using ok by (simp add: tables_ok_def counts_ok_def)
  have s: "enabled (session_remove fd (tk v)) = enabled (tk v)" "slots (session_remove fd (tk v)) = slots (tk v)"
    by (simp_all add: session_remove_def)
  have "counts_ok cfg ?w"
    using ok d session_remove_live [OF inv, of fd] by (auto simp: tables_ok_def counts_ok_def s card_Diff_singleton domI)
  moreover have "x \<noteq> fd" if "rooms v r = Some ms" "x \<in> set ms" for r ms x
  proof
    assume "x = fd"
    then have "map_option room (conns v fd) = Some r" "r \<noteq> []"
      using ok that unfolding tables_ok_def rooms_ok_def by blast+
    then show False using d by simp
  qed
  then have "rooms_ok ?w" using ok unfolding tables_ok_def rooms_ok_def by (auto split: if_splits)
  ultimately show ?thesis using ok by (simp add: tables_ok_def bufs_ok_def)
qed

lemma run_inv_reap_one:
  assumes inv: "run_inv cfg i {} w" and cfg: "cfg_ok cfg" and i: "i < length (doomed w)"
  shows "run_inv cfg (Suc i) {} (reap_one cfg (doomed w ! i) w)"
proof -
  let ?fd = "doomed w ! i" and ?v = "\<lambda>c. say_bye cfg (doomed w ! i) c w"
  have skip: "send_inv cfg (Suc i) {} v'"
    if "send_inv cfg i {} v" "doomed v ! i = ?fd" "i < length (doomed v)" "doomed v' = doomed v" "dirty_q v' = dirty_q v"
      "\<And>x c. conns v' x = Some c \<Longrightarrow> conns v x = Some c \<and> x \<noteq> ?fd" for v v'
  proof -
    have "set (drop i (doomed v)) = insert ?fd (set (drop (Suc i) (doomed v)))"
      using that(2,3) by (simp add: Cons_nth_drop_Suc [symmetric])
    then show ?thesis using that by (fastforce simp: send_inv_def send_ok_def conn_ok_def)
  qed
  show ?thesis
  proof (cases "conns w ?fd")
    case None
    then have "send_inv cfg (Suc i) {} w" using inv i by (intro skip [of w w]) (auto simp: run_inv_def)
    then show ?thesis using None inv by (simp add: reap_one_eq run_inv_def)
  next
    case (Some c)
    note v = run_inv_say_bye [OF inv cfg, of ?fd c]
    obtain d where d: "conns (?v c) ?fd = Some d" "room d = []" using say_bye_conn [OF Some] by blast
    obtain ds where "doomed (?v c) = doomed w @ ds" using dooms_say_bye [of w cfg ?fd c] by (auto simp: dooms_def)
    then have "doomed (?v c) ! i = ?fd" "i < length (doomed (?v c))" using i by (simp_all add: nth_append)
    then have "send_inv cfg (Suc i) {} (reap_one cfg ?fd w)"
      using v Some by (intro skip [of "?v c"]) (auto simp: run_inv_def reap_one_eq Let_def split: if_splits)
    moreover have "tables_ok cfg (reap_one cfg ?fd w)"
      using tables_erase [OF _ d] v Some by (simp add: run_inv_def reap_one_eq Let_def)
    moreover have "input_ok {} (reap_one cfg ?fd w)"
      using v Some by (auto simp: run_inv_def reap_one_eq Let_def input_ok_def alive_def in_of_def)
    ultimately show ?thesis by (simp add: run_inv_def)
  qed
qed

lemma finite_live: "tables_ok cfg w \<Longrightarrow> finite (live_conns w)"
  by (rule finite_subset [of _ "dom (conns w)"])
    (auto simp: live_conns_def alive_def tables_ok_def counts_ok_def split: option.splits)

lemma run_inv_reap:
  assumes inv: "run_inv cfg 0 {} w" and cfg: "cfg_ok cfg"
  shows "\<exists>w'. reap_doomed cfg w = Some w' \<and> run_inv cfg 0 {} w' \<and> doomed w' = []"
proof -
  have "finite (live_conns w)" using inv finite_live by (auto simp: run_inv_def)
  then obtain v where v: "reap_loop cfg 0 w = Some v" "run_inv cfg (length (doomed v)) {} v"
    using reap_loop_induct [of w 0 "\<lambda>i w. run_inv cfg i {} w" cfg] inv run_inv_reap_one [OF _ cfg] by auto
  have "run_inv cfg 0 {} (v\<lparr>doomed := []\<rparr>)"
    using v(2) by (auto simp: run_inv_def send_inv_def send_ok_def conn_ok_def tables_ok_def rooms_ok_def bufs_ok_def
        counts_ok_def input_ok_def alive_def in_of_def)
  then show ?thesis using v(1) by (simp add: reap_doomed_def)
qed


section \<open>Between two waits\<close>

definition server_inv :: "server_cfg \<Rightarrow> world \<Rightarrow> bool" where
  "server_inv cfg w \<longleftrightarrow> run_inv cfg 0 {} w \<and> dirty_q w = [] \<and> (batch_flush cfg \<or> doomed w = [])"

lemma flush_phase_inv:
  assumes inv: "run_inv cfg 0 {} w" and cfg: "cfg_ok cfg"
  shows "\<exists>w'. flush_phase cfg w = Some w' \<and> server_inv cfg w'"
proof (cases "batch_flush cfg")
  case True
  obtain v where v: "reap_doomed cfg (flush_dirty cfg w) = Some v" "run_inv cfg 0 {} v"
    using run_inv_reap [OF _ cfg] run_inv_flush_dirty [OF inv cfg] by blast
  then show ?thesis
    using True run_inv_flush_dirty [OF v(2) cfg] by (simp add: flush_phase_def server_inv_def)
next
  case False
  obtain v where "reap_doomed cfg w = Some v" "run_inv cfg 0 {} v" "doomed v = []"
    using run_inv_reap [OF inv cfg] by blast
  then show ?thesis using False by (auto simp: flush_phase_def server_inv_def run_inv_def send_inv_def)
qed

lemma loop_turn_inv:
  assumes inv: "server_inv cfg w" and cfg: "cfg_ok cfg"
  shows "\<exists>running w'. loop_turn cfg t r w = Some (running, w') \<and> server_inv cfg w'"
proof (cases r)
  case (Events es)
  have tk: "server_inv cfg (set_tk f v)" if "server_inv cfg v" "same_sessions (tk v) (f (tk v))" for f v
    using that run_inv_set_tk [of cfg 0 "{}" v f] by (auto simp: server_inv_def set_tk_def)
  have "run_inv cfg 0 {} w" using inv by (simp add: server_inv_def)
  then have 1: "run_inv cfg 0 {} (set_tk (drain_begin (t_drain0 t)) w)" by (intro run_inv_set_tk tick_hooks_sessions)
  obtain running v where v: "fold (handle_event cfg) es (True, set_tk (drain_begin (t_drain0 t)) w) = (running, v)"
    by (rule prod.exhaust)
  then have "run_inv cfg 0 {} v"
    using run_inv_events [of cfg 0 "(True, set_tk (drain_begin (t_drain0 t)) w)" es] 1 cfg by simp
  then have "run_inv cfg 0 {} (set_tk (flush_begin (t_flush0 t)) (server_tick cfg t (set_tk (drain_end (t_drain1 t)) v)))"
    using cfg by (intro run_inv_set_tk run_inv_server_tick tick_hooks_sessions)
  from flush_phase_inv [OF this cfg] obtain w' where
    "flush_phase cfg (set_tk (flush_begin (t_flush0 t)) (server_tick cfg t (set_tk (drain_end (t_drain1 t)) v))) = Some w'"
    "server_inv cfg w'" by blast
  then show ?thesis using Events v tk [of w' "flush_end (t_flush1 t)"] tick_hooks_sessions(7)
    by (simp add: loop_turn_def Let_def)
qed (use inv in \<open>auto simp: loop_turn_def\<close>)

lemma serve_inv: "server_inv cfg w \<Longrightarrow> cfg_ok cfg \<Longrightarrow> \<exists>w'. serve cfg turns w = Some w' \<and> server_inv cfg w'"
proof (induction cfg turns w rule: serve.induct)
  case (2 cfg t r turns w)
  obtain running v where v: "loop_turn cfg t r w = Some (running, v)" "server_inv cfg v"
    using loop_turn_inv [OF "2.prems"] by blast
  then show ?case using 2 by auto
qed simp

lemma world_init_inv:
  "server_inv cfg (world_init (snd (tick_init hz width n now)) ss rs acs)"
proof -
  have "live_set (snd (tick_init hz width n now)) = {}"
    by (auto simp: tick_init_def Let_def live_set_def is_live_def)
  then show ?thesis
    using tick_init_inv [of hz width n now]
    by (simp add: server_inv_def run_inv_def send_inv_def send_ok_def tables_ok_def rooms_ok_def bufs_ok_def counts_ok_def
        input_ok_def alive_def world_init_def)
qed

text \<open>
  C9. Whatever the clients send and the kernel answers to reads, writes and accepts, and as long as \<^verbatim>\<open>EPOLL_CTL_MOD\<close> on an
  open descriptor succeeds (its failure leaves the mask as it was, \<open>cfg_ok\<close>), every turn of the epoll server's loop ends, the
  reaper's growing list included, and when the server goes back to waiting no connection has bytes
  that nothing will send: a connection with queued bytes is armed for writing, one without is not, no
  queue is over the cap, and only connections doomed by the last flush of batch mode are still to be
  reaped.
\<close>
theorem server_leaves_no_stuck_bytes:
  assumes "cfg_ok cfg"
  shows "\<exists>w. serve cfg turns (world_init (snd (tick_init hz width n now)) ss rs acs) = Some w
    \<and> (\<forall>fd c. conns w fd = Some c \<longrightarrow> length (outb c) \<le> k_send_cap \<and> \<not> dirty c
         \<and> (if closing c then batch_flush cfg \<and> fd \<in> set (doomed w) else armed_write c = (outb c \<noteq> [])))"
proof -
  obtain w where w: "serve cfg turns (world_init (snd (tick_init hz width n now)) ss rs acs) = Some w" "server_inv cfg w"
    using serve_inv [OF world_init_inv assms] by blast
  have "conn_ok {} (set (doomed w)) {} fd c" if "conns w fd = Some c" for fd c
    using w(2) that by (auto simp: server_inv_def run_inv_def send_inv_def send_ok_def)
  then show ?thesis using w by (auto simp: conn_ok_def server_inv_def)
qed

text \<open>
  C10. At every wait of the server the tables agree, under the same condition on \<^verbatim>\<open>EPOLL_CTL_MOD\<close> as C9: a room lists exactly the connections that are in
  it, no room is empty, the connection count is the size of the table and within the cap, the tick
  bitmap holds exactly the open descriptors it has slots for, and no tick buffer is longer than its
  cap or belongs to a room that is gone.
\<close>
theorem server_tables_agree:
  assumes "cfg_ok cfg" "serve cfg turns (world_init (snd (tick_init hz width n now)) ss rs acs) = Some w"
  shows "((\<exists>ms. rooms w r = Some ms \<and> fd \<in> set ms) \<longleftrightarrow> r \<noteq> [] \<and> (\<exists>c. conns w fd = Some c \<and> room c = r))
    \<and> rooms w r \<noteq> Some [] \<and> n_conns w = card (dom (conns w)) \<and> n_conns w \<le> max_conns cfg
    \<and> live_set (tk w) = {fd \<in> dom (conns w). enabled (tk w) \<and> fd < slots (tk w)}
    \<and> (\<forall>(r, b) \<in> set (tick_buf w). length b \<le> k_tick_cap \<and> (b \<noteq> [] \<longrightarrow> rooms w r \<noteq> None))"
proof -
  have "tables_ok cfg w"
    using serve_inv [OF world_init_inv assms(1), of turns hz width n now ss rs acs] assms(2)
    by (simp add: server_inv_def run_inv_def)
  then have rooms: "rooms_ok w" and "bufs_ok cfg w" "counts_ok cfg w" by (simp_all add: tables_ok_def)
  have "(\<exists>ms. rooms w r = Some ms \<and> fd \<in> set ms) \<longleftrightarrow> r \<noteq> [] \<and> (\<exists>c. conns w fd = Some c \<and> room c = r)"
  proof
    assume "\<exists>ms. rooms w r = Some ms \<and> fd \<in> set ms"
    then have "r \<noteq> []" "map_option room (conns w fd) = Some r" using rooms unfolding rooms_ok_def by blast+
    then show "r \<noteq> [] \<and> (\<exists>c. conns w fd = Some c \<and> room c = r)" by auto
  qed (use conn_room_listed [OF rooms] in blast)
  moreover have "rooms w r \<noteq> Some []" using rooms by (auto simp: rooms_ok_def)
  ultimately show ?thesis using \<open>bufs_ok cfg w\<close> \<open>counts_ok cfg w\<close> by (auto simp: bufs_ok_def counts_ok_def)
qed


section \<open>A run\<close>

definition demo_cfg :: "bool \<Rightarrow> server_cfg" where
  "demo_cfg batch = \<lparr>batch_flush = batch, coalesce = False, max_conns = 2, mod_ok = (\<lambda>_. True), add_ok = (\<lambda>_. True),
     place_fd = (#), place_buf = (#)\<rparr>"

lemma demo_cfg_ok: "cfg_ok (demo_cfg b)"
  by (simp add: cfg_ok_def demo_cfg_def)

definition demo_in :: "nat \<Rightarrow> recv_res list" where
  "demo_in fd = (if fd = 5 then [Got (frame 1 [97] @ frame 2 [114]), R_EAGAIN, Got (take 3 (frame 3 [1]))]
     else if fd = 6 then [Got (frame 1 [98] @ frame 2 [114]), R_EAGAIN, Got (frame 3 [72, 105])] else [])"

definition demo_turns :: "(clock \<times> wait_res) list" where
  "demo_turns = (let t = \<lparr>t_drain0 = 0, t_drain1 = 0, t_tick0 = 0, t_tick1 = 0, t_flush0 = 0, t_flush1 = 0\<rparr>;
     ev = \<lambda>s. \<lparr>src = s, ev_err = False, ev_out = False, ev_in = True\<rparr> in
     [(t, Events [ev Listener]), (t, W_EINTR), (t, Events [ev (Client 5), ev (Client 6)]), (t, Events [ev (Client 6), ev (Client 5)])])"

definition demo_end :: world where
  "demo_end = the (serve (demo_cfg True) demo_turns (world_init (snd (tick_init 0 0 0 0))
     (\<lambda>fd. if fd = 6 then [Sent 6] else [Sent 100, Sent 100]) demo_in [Accepted 5, Accepted 6, Accepted 7]))"

lemma demo_run:
  "serve (demo_cfg True) demo_turns (world_init (snd (tick_init 0 0 0 0))
     (\<lambda>fd. if fd = 6 then [Sent 6] else [Sent 100, Sent 100]) demo_in [Accepted 5, Accepted 6, Accepted 7]) = Some demo_end"
  using serve_inv [OF world_init_inv demo_cfg_ok] by (metis demo_end_def option.sel)

definition demo_start :: world where
  "demo_start = world_init (snd (tick_init 0 0 0 0)) (\<lambda>_. [Sent 6]) (\<lambda>_. []) [Accepted 5]"

lemma reap_loop_done: "doomed w = [] \<Longrightarrow> reap_loop cfg 0 w = Some w"
  by (subst reap_loop.simps) simp

lemma demo_accept:
  "serve (demo_cfg False) (take 1 demo_turns) demo_start
     = Some (demo_start\<lparr>conns := [5 \<mapsto> conn_init], n_conns := 1, accepts := []\<rparr>)"
  by (simp add: demo_start_def demo_cfg_def demo_turns_def reap_loop_done world_init_def loop_turn_def handle_event_def
      on_accept_def accept_one_def Let_def set_tk_def drain_begin_def drain_end_def flush_begin_def flush_end_def
      server_tick_def tick_due_def tick_init_def flush_phase_def reap_doomed_def session_add_def)

lemma server_leaves_no_stuck_bytes_witness:
  "\<exists>w c. serve (demo_cfg False) (take 1 demo_turns) demo_start = Some w \<and> conns w 5 = Some c
     \<and> length (outb c) \<le> k_send_cap \<and> \<not> dirty c
     \<and> (if closing c then batch_flush (demo_cfg False) \<and> 5 \<in> set (doomed w) else armed_write c = (outb c \<noteq> []))"
proof -
  have "conns (demo_start\<lparr>conns := [5 \<mapsto> conn_init], n_conns := 1, accepts := []\<rparr>) 5 = Some conn_init" by simp
  then show ?thesis
    using server_leaves_no_stuck_bytes [OF demo_cfg_ok, of False "take 1 demo_turns" 0 0 0 0 "\<lambda>_. [Sent 6]" "\<lambda>_. []" "[Accepted 5]"]
    unfolding demo_start_def [symmetric] demo_accept option.inject by blast
qed

lemma server_tables_agree_witness:
  "((\<exists>ms. rooms demo_end [114] = Some ms \<and> 6 \<in> set ms) \<longleftrightarrow> (\<exists>c. conns demo_end 6 = Some c \<and> room c = [114]))
    \<and> n_conns demo_end \<le> 2"
  using server_tables_agree [OF demo_cfg_ok demo_run, of "[114]" 6] by (simp add: demo_cfg_def)

end
