(* ===== verification/SdsQueue.thy ===== *)
theory SdsQueue
  imports SdsServer EpollMain
begin

text \<open>
  Data of \<^verbatim>\<open>server_sds.cpp\<close> taken one by one: the linear send queue, which is a string that grows at the
  end and is taken from the front, and the two lists of descriptors, which never have to grow.
\<close>

section \<open>The linear queue\<close>

definition queue_ok :: "sconn \<Rightarrow> bool" where
  "queue_ok c \<longleftrightarrow> length (tx_region c) = k_tx_region \<and> tx_head c \<le> tx_tail c \<and> tx_tail c \<le> k_tx_region
     \<and> tx_tail c - tx_head c \<le> k_send_cap"

definition queued :: "sconn \<Rightarrow> bytes" where
  "queued c = take (tx_tail c - tx_head c) (drop (tx_head c) (tx_region c))"

lemma length_queued: "queue_ok c \<Longrightarrow> length (queued c) = tx_tail c - tx_head c"
  by (auto simp: queue_ok_def queued_def)

lemma queued_empty: "queue_ok c \<Longrightarrow> queued c \<noteq> [] \<longleftrightarrow> tx_head c < tx_tail c"
  using length_queued [of c] by (auto simp: queue_ok_def queued_def)

lemma take_mem_copy: "off \<le> length dst \<Longrightarrow> take (off + length bs) (mem_copy dst off bs) = take off dst @ bs"
  by (simp add: mem_copy_def)

lemma tx_compact_ok:
  assumes ok: "queue_ok c" and fits: "tx_tail c - tx_head c + fsize \<le> k_tx_region"
  obtains c' where "tx_compact fsize c = Inr c'" "queue_ok c'" "queued c' = queued c" "tx_tail c' + fsize \<le> k_tx_region"
    "tx_tail c' - tx_head c' = tx_tail c - tx_head c" "\<exists>t h e. c' = c\<lparr>tx_region := t, tx_head := h, tx_tail := e\<rparr>"
proof (cases "k_tx_region < tx_tail c + fsize")
  case True
  let ?q = "take (tx_tail c - tx_head c) (drop (tx_head c) (tx_region c))"
  have len: "length ?q = tx_tail c - tx_head c" "length ?q \<le> length (tx_region c)" using ok by (auto simp: queue_ok_def)
  have "tx_compact fsize c = Inr (c\<lparr>tx_region := mem_copy (tx_region c) 0 ?q, tx_head := 0, tx_tail := tx_tail c - tx_head c\<rparr>)"
    using True len by (simp add: tx_compact_def Let_def put_def)
  moreover have "take (tx_tail c - tx_head c) (mem_copy (tx_region c) 0 ?q) = ?q" using take_mem_copy [of 0 "tx_region c" ?q] len by simp
  moreover have "length (mem_copy (tx_region c) 0 ?q) = length (tx_region c)" using len by simp
  ultimately show ?thesis
    using ok fits len
    by (intro that [of "c\<lparr>tx_region := mem_copy (tx_region c) 0 ?q, tx_head := 0, tx_tail := tx_tail c - tx_head c\<rparr>"])
      (auto simp: queue_ok_def queued_def)
next
  case False
  then have "tx_compact fsize c = Inr c" by (simp add: tx_compact_def)
  moreover have "\<exists>t h e. c = c\<lparr>tx_region := t, tx_head := h, tx_tail := e\<rparr>" by (cases c) simp
  ultimately show ?thesis using ok False by (intro that [of c]) simp_all
qed

lemma tx_append_ok:
  assumes ok: "queue_ok c" and cap: "tx_tail c - tx_head c + (k_header_size + length p) \<le> k_send_cap"
  obtains c' where "tx_append ty p c = Inr c'" "queue_ok c'" "queued c' = queued c @ wire_header (length p) ty @ p"
    "\<exists>t h e. c' = c\<lparr>tx_region := t, tx_head := h, tx_tail := e\<rparr>"
proof -
  let ?frame = "k_header_size + length p" and ?w = "wire_header (length p) ty"
  have fits: "tx_tail c - tx_head c + ?frame \<le> k_tx_region" using cap by (simp add: k_tx_region_def)
  obtain d where d: "tx_compact ?frame c = Inr d" "queue_ok d" "queued d = queued c" "tx_tail d + ?frame \<le> k_tx_region"
      "tx_tail d - tx_head d = tx_tail c - tx_head c" "\<exists>t h e. d = c\<lparr>tx_region := t, tx_head := h, tx_tail := e\<rparr>"
    by (rule tx_compact_ok [OF ok fits])
  have len: "length (tx_region d) = k_tx_region" "tx_head d \<le> tx_tail d" using d(2) by (simp_all add: queue_ok_def)
  let ?t1 = "mem_copy (tx_region d) (tx_tail d) ?w" and ?t2 = "mem_copy (mem_copy (tx_region d) (tx_tail d) ?w) (tx_tail d + k_header_size) p"
  have l1: "length ?t1 = k_tx_region" using d(4) len by simp
  have l2: "length ?t2 = k_tx_region" using d(4) l1 by simp
  have "take (tx_tail d + k_header_size) ?t1 = take (tx_tail d) (tx_region d) @ ?w"
    using take_mem_copy [of "tx_tail d" "tx_region d" ?w] d(4) len by simp
  then have t2: "take (tx_tail d + ?frame) ?t2 = take (tx_tail d) (tx_region d) @ ?w @ p"
    using take_mem_copy [of "tx_tail d + k_header_size" ?t1 p] l1 d(4) by (simp add: add.assoc)
  define c' where "c' = d\<lparr>tx_region := ?t2, tx_tail := tx_tail d + ?frame\<rparr>"
  have "tx_append ty p c = Inr c'"
    using d(1,4) len l1 by (simp add: tx_append_def Let_def put_def c'_def)
  moreover have "queue_ok c'" using d(4,5) l2 len cap by (simp add: queue_ok_def c'_def)
  moreover have "queued c' = queued d @ ?w @ p"
  proof -
    have "queued c' = drop (tx_head d) (take (tx_tail d + ?frame) ?t2)"
      using len(2) by (simp add: queued_def c'_def take_drop)
    also have "\<dots> = drop (tx_head d) (take (tx_tail d) (tx_region d)) @ ?w @ p" using len d(4) unfolding t2 by simp
    finally show ?thesis using len by (simp add: queued_def take_drop)
  qed
  moreover have "\<exists>t h e. c' = c\<lparr>tx_region := t, tx_head := h, tx_tail := e\<rparr>"
  proof -
    obtain t h e where "d = c\<lparr>tx_region := t, tx_head := h, tx_tail := e\<rparr>" using d(6) by blast
    then show ?thesis unfolding c'_def
      by (intro exI [of _ ?t2] exI [of _ h] exI [of _ "tx_tail d + ?frame"]) simp
  qed
  ultimately show ?thesis using d(3) by (intro that) simp_all
qed

text \<open>
  C12. A frame that passes the cap check always fits: whatever the position of the cursors, appending it
  writes no byte outside the region of the connection, compacting first when the tail is too far out,
  keeps the cursors in order and within the region, and the queue is the old queue followed by the frame.
\<close>
theorem send_queue_stays_in_region:
  assumes "queue_ok c" "tx_tail c - tx_head c + (k_header_size + length p) \<le> k_send_cap"
  shows "\<exists>c'. tx_append ty p c = Inr c' \<and> length (tx_region c') = k_tx_region \<and> tx_head c' \<le> tx_tail c' \<and> tx_tail c' \<le> k_tx_region
    \<and> tx_tail c' - tx_head c' = tx_tail c - tx_head c + (k_header_size + length p) \<and> queued c' = queued c @ wire_header (length p) ty @ p"
proof -
  obtain c' where c': "tx_append ty p c = Inr c'" "queue_ok c'" "queued c' = queued c @ wire_header (length p) ty @ p"
    by (rule tx_append_ok [OF assms])
  have "length (queued c') = length (queued c) + (k_header_size + length p)" using c'(3) by simp
  then have "tx_tail c' - tx_head c' = tx_tail c - tx_head c + (k_header_size + length p)"
    using length_queued [OF c'(2)] length_queued [OF assms(1)] by simp
  then show ?thesis using c' by (auto simp: queue_ok_def)
qed

text \<open>Ten bytes at the very end of the region: the next frame is written after a compaction.\<close>

definition late_queue :: sconn where
  "late_queue = \<lparr>s_armed = True, s_closing = False, s_dirty = False, s_nick_len = 0, s_room = None, s_prev = None, s_next = None,
     s_nick = replicate 32 0, s_in = ring_init k_rx_ring [], tx_head = k_tx_region - 10, tx_tail = k_tx_region,
     tx_region = replicate (k_tx_region - 10) 0 @ replicate 10 1\<rparr>"

lemma send_queue_stays_in_region_witness:
  "\<exists>c'. tx_append s_notice [7, 8] late_queue = Inr c' \<and> queued c' = replicate 10 1 @ wire_header 2 s_notice @ [7, 8]
    \<and> tx_tail c' - tx_head c' = 16"
proof -
  have ok: "queue_ok late_queue" "tx_tail late_queue - tx_head late_queue = 10" "queued late_queue = replicate 10 1"
    by (simp_all add: queue_ok_def queued_def late_queue_def k_tx_region_def k_send_cap_def k_max_frame_def)
  have "tx_tail late_queue - tx_head late_queue + (k_header_size + length [7 :: byte, 8]) \<le> k_send_cap"
    unfolding ok(2) by (simp add: k_header_size_def k_send_cap_def)
  from send_queue_stays_in_region [OF ok(1) this, of s_notice] show ?thesis unfolding ok(2,3)
    by (auto simp: k_header_size_def numeral_2_eq_2)
qed

text \<open>The loop over the cursors takes the bytes the loop over the string takes.\<close>

lemma send_loop_no_script [simp]: "send_loop [] out = ([], [], out, False)"
  by (cases out) simp_all

lemma tx_loop_sends:
  assumes "h \<le> e" "e \<le> length t"
  shows "case tx_loop script t h e of (script', took, h', e', failed) \<Rightarrow>
    h' \<le> e' \<and> e' \<le> length t \<and> e' - h' \<le> e - h
    \<and> send_loop script (take (e - h) (drop h t)) = (script', took, take (e' - h') (drop h' t), failed)"
  using assms
proof (induction script arbitrary: h e)
  case Nil
  then show ?case by simp
next
  case (Cons r script)
  let ?q = "take (e - h) (drop h t)"
  show ?case
  proof (cases "h < e")
    case False
    then show ?thesis using Cons.prems by simp
  next
    case True
    then obtain b out where q: "?q = b # out" using Cons.prems by (cases ?q) auto
    note ih = Cons.IH
    show ?thesis
    proof (cases r)
      case (Sent m)
      show ?thesis
      proof (cases "m = 0")
        case True
        then show ?thesis using \<open>h < e\<close> Cons.prems q Sent by simp
      next
        case False
        let ?m = "min m (e - h)"
        define h' e' where "h' = (if h + ?m = e then 0 else h + ?m)" and "e' = (if h + ?m = e then 0 else e)"
        have he: "h' \<le> e'" "e' \<le> length t" "e' - h' \<le> e - h" using True Cons.prems by (auto simp: h'_def e'_def)
        have pair: "(if h + ?m = e then (0, 0) else (h + ?m, e)) = (h', e')" by (simp add: h'_def e'_def)
        have rest: "take (e' - h') (drop h' t) = drop m ?q"
          using True Cons.prems by (auto simp: h'_def e'_def drop_take add.commute min_def)
        have took: "take ?m (drop h t) = take m ?q" by (simp add: min.commute)
        obtain script' took' h'' e'' failed where l: "tx_loop script t h' e' = (script', took', h'', e'', failed)"
          by (metis prod_cases5)
        have "tx_loop (r # script) t h e = (script', take m ?q @ took', h'', e'', failed)"
          using True Sent False l pair took by (simp add: Let_def)
        moreover have "send_loop (r # script) ?q = (script', take m ?q @ took', take (e'' - h'') (drop h'' t), failed)"
          using Sent False ih [OF he(1,2)] l unfolding rest q by simp
        ultimately show ?thesis using ih [OF he(1,2)] l he(3) by simp
      qed
    next
      case S_EINTR
      then show ?thesis using ih [OF Cons.prems] True q by simp
    next
      case S_EAGAIN
      then show ?thesis using True Cons.prems q by simp
    next
      case S_error
      then show ?thesis using True Cons.prems q by simp
    qed
  qed
qed

section \<open>The reserved lists\<close>

text \<open>\<open>v\<close> stands for the list \<open>xs\<close> of distinct descriptors below \<open>n\<close>, and has room for all of them.\<close>

definition listing :: "nat \<Rightarrow> nat mvec \<Rightarrow> nat list \<Rightarrow> bool" where
  "listing n v xs \<longleftrightarrow> mv_inv v \<and> mv_contents v = map Some xs \<and> n \<le> unat (mv_capacity v) \<and> distinct xs \<and> set xs \<subseteq> {..<n}"

lemma listing_size: "listing n v xs \<Longrightarrow> unat (mv_size v) = length xs"
  using length_mv_contents [of v] by (simp add: listing_def)

lemma distinct_below: "distinct xs \<Longrightarrow> set xs \<subseteq> {..<n} \<Longrightarrow> length xs \<le> n"
  using card_mono [of "{..<n}" "set xs"] by (simp add: distinct_card)

lemma listing_length: "listing n v xs \<Longrightarrow> length xs \<le> n"
  by (simp add: listing_def distinct_below)

lemma listing_at: "listing n v xs \<Longrightarrow> i < length xs \<Longrightarrow> with_fd i v k = k (xs ! i)"
proof -
  assume l: "listing n v xs" and i: "i < length xs"
  then obtain d where d: "mv_data v = Some d"
    by (cases "mv_data v") (auto simp: listing_def mv_contents_def)
  then have t: "take (unat (mv_size v)) d = map Some xs" using l by (simp add: listing_def mv_contents_def)
  then have "length (take (unat (mv_size v)) d) = length xs" by simp
  then have "length xs \<le> length d" by simp
  moreover have "take (unat (mv_size v)) d ! i = Some (xs ! i)" using i unfolding t by simp
  then have "d ! i = Some (xs ! i)" using i listing_size [OF l] by simp
  ultimately show "with_fd i v k = k (xs ! i)" using i d by (simp add: with_fd_def mv_at_def)
qed

lemma listing_clear: "listing n v xs \<Longrightarrow> listing n (mv_clear v) []"
  by (auto simp: listing_def mv_clear_def mv_inv_def mv_contents_def split: option.splits)

text \<open>A descriptor that is not on the list finds room there.\<close>

lemma push_checked_ok:
  assumes l: "listing n v xs" and fd: "fd \<notin> set xs" "fd < n"
  obtains v' where "push_checked cfg fd v = Inr v'" "listing n v' (xs @ [fd])"
proof -
  have "length (xs @ [fd]) \<le> n" using l fd by (intro distinct_below) (auto simp: listing_def)
  then have room: "mv_size v < mv_capacity v" and cap: "n \<le> unat (mv_capacity v)"
    using listing_size [OF l] l by (simp_all add: listing_def word_less_nat_alt)
  then obtain d where d: "mv_data v = Some d" "length d = unat (mv_capacity v)"
    using l by (cases "mv_data v") (auto simp: listing_def mv_inv_def)
  define v' where "v' = v\<lparr>mv_data := Some (d[length xs := Some fd]), mv_size := mv_size v + 1\<rparr>"
  have i: "length xs < length d" using room d listing_size [OF l] by (simp add: word_less_nat_alt)
  have "mv_push_back 4 (malloc_ok cfg) (Outside fd) v = Inr v'"
    using room d i listing_size [OF l]
    by (simp add: mv_push_back_def read_arg_def write_slot_def v'_def not_le [symmetric])
  then have "push_checked cfg fd v = Inr v'" by (simp add: push_checked_def v'_def)
  moreover have "listing n v' (xs @ [fd])"
  proof -
    have s: "unat (mv_size v') = Suc (length xs)" using unat_Suc_size [OF room] listing_size [OF l] by (simp add: v'_def)
    have "take (length xs) d = map Some xs" using l d listing_size [OF l] by (simp add: listing_def mv_contents_def)
    then have "mv_contents v' = map Some (xs @ [fd])"
      using s i by (simp add: v'_def mv_contents_def take_Suc_conv_app_nth)
    moreover have "mv_inv v'" using s i d room listing_size [OF l] by (simp add: v'_def mv_inv_def word_le_nat_alt)
    ultimately show ?thesis using l fd by (simp add: listing_def v'_def)
  qed
  ultimately show ?thesis by (rule that)
qed

end
