(* ===== verification/SdsRelation.thy ===== *)
theory SdsRelation
  imports SdsQueue EpollMain
begin

text \<open>
  The relation between the state of \<^verbatim>\<open>server_sds.cpp\<close> and that of \<^verbatim>\<open>server.cpp\<close>: slots stand for
  connections, the ring for the input string, the linear queue for the output string, the room records
  and the links through the slots for the room table. The sending functions keep it.
\<close>

section \<open>The configuration of server.cpp that serves the same\<close>

definition common :: "sds_cfg \<Rightarrow> server_cfg" where
  "common cfg = \<lparr>batch_flush = g_batch_flush cfg, coalesce = False, max_conns = g_max_conns cfg, mod_ok = ctl_mod_ok cfg,
     add_ok = ctl_add_ok cfg, place_fd = (#), place_buf = (#)\<rparr>"

lemma common_simps [simp]:
  "batch_flush (common cfg) = g_batch_flush cfg" "coalesce (common cfg) = False" "max_conns (common cfg) = g_max_conns cfg"
  "mod_ok (common cfg) = ctl_mod_ok cfg" "add_ok (common cfg) = ctl_add_ok cfg" "place_fd (common cfg) = (#)"
  by (simp_all add: common_def)

section \<open>Connections and lists\<close>

definition same_conn :: "sconn \<Rightarrow> conn \<Rightarrow> bool" where
  "same_conn c d \<longleftrightarrow> s_armed c = armed_write d \<and> s_closing c = closing d \<and> s_dirty c = dirty d
     \<and> nick_of c = nick d \<and> length (s_nick c) = k_nick_max + 1 \<and> unat (s_nick_len c) \<le> k_nick_max
     \<and> ring_N (s_in c) = k_rx_ring \<and> ring_inv (s_in c) \<and> contents (s_in c) = inb d
     \<and> queue_ok c \<and> queued c = outb d"

definition io_rel :: "nat \<Rightarrow> sworld \<Rightarrow> world \<Rightarrow> bool" where
  "io_rel n s w \<longleftrightarrow> (\<forall>fd. rel_option same_conn (slab s fd) (conns w fd)) \<and> (\<forall>fd. slab s fd \<noteq> None \<longrightarrow> fd < n)
     \<and> listing n (g_doomed s) (doomed w) \<and> listing n (g_dirty s) (dirty_q w) \<and> g_total_live s = n_conns w
     \<and> s_sends s = sends w \<and> s_recvs s = recvs w \<and> s_accepts s = accepts w \<and> s_wire s = wire w \<and> s_reserve s = reserve w"

text \<open>A turn has three phases. While events are handled every listed descriptor is open; the reaper
  closes some; the flush pass clears the marks of descriptors that are still on the dirty list.\<close>

datatype phase = Polling | Reaping | Flushing

definition lists_ok :: "phase \<Rightarrow> world \<Rightarrow> bool" where
  "lists_ok m w \<longleftrightarrow> (\<forall>fd. alive w fd \<longrightarrow> fd \<notin> set (doomed w))
     \<and> (m \<noteq> Flushing \<longrightarrow> (\<forall>fd d. conns w fd = Some d \<longrightarrow> \<not> dirty d \<longrightarrow> fd \<notin> set (dirty_q w)))
     \<and> (m \<noteq> Reaping \<longrightarrow> (\<forall>fd. fd \<in> set (doomed w) \<longrightarrow> conns w fd \<noteq> None))
     \<and> (m = Polling \<longrightarrow> (\<forall>fd. fd \<in> set (dirty_q w) \<longrightarrow> conns w fd \<noteq> None))"

section \<open>What the clients send\<close>

text \<open>The room names in a byte stream that starts at a frame boundary hold no NUL: a name with one is
  cut short by the map of \<^verbatim>\<open>server_sds.cpp\<close> and not by the one of \<^verbatim>\<open>server.cpp\<close>.\<close>

function frames_clean :: "bytes \<Rightarrow> bool" where
  "frames_clean bs = (if k_header_size \<le> length bs \<and> header_len bs \<le> k_max_payload \<and> k_header_size + header_len bs \<le> length bs
     then (header_type bs = c_join \<longrightarrow> 0 \<notin> set (take k_room_max (take (header_len bs) (drop k_header_size bs))))
       \<and> frames_clean (drop (k_header_size + header_len bs) bs)
     else True)"
  by pat_completeness auto
termination by (relation "measure length") (auto simp: k_header_size_def)

declare frames_clean.simps [simp del]

fun chunk :: "recv_res \<Rightarrow> bytes" where
  "chunk (Got bs) = bs"
| "chunk _ = []"

definition offered :: "recv_res list \<Rightarrow> bytes" where
  "offered script = concat (map chunk script)"

text \<open>One chunk fits in the ring beside an incomplete frame. A descriptor may be closed and given to
  another client between two chunks, so the stream may start at any of them.\<close>

definition k_chunk :: nat where "k_chunk = k_rx_ring - k_max_frame"

fun reads_ok :: "recv_res list \<Rightarrow> bool" where
  "reads_ok [] \<longleftrightarrow> True"
| "reads_ok (x # script) \<longleftrightarrow> length (chunk x) \<le> k_chunk \<and> frames_clean (offered (x # script)) \<and> reads_ok script"

definition stream_ok :: "world \<Rightarrow> bool" where
  "stream_ok w \<longleftrightarrow> (\<forall>fd. reads_ok (recvs w fd) \<and> (conns w fd \<noteq> None \<longrightarrow> frames_clean (in_of fd w @ offered (recvs w fd))))"

section \<open>Rooms\<close>

text \<open>The three fields that put a slot into a membership list.\<close>

definition lk :: "sworld \<Rightarrow> nat \<rightharpoonup> nat option \<times> nat option \<times> nat option" where
  "lk s fd = map_option (\<lambda>c. (s_room c, s_prev c, s_next c)) (slab s fd)"

text \<open>A stretch of a list: its members, what the first one points back to and the last one on to.\<close>

fun first :: "nat list \<Rightarrow> nat option \<Rightarrow> nat option" where
  "first [] q = q"
| "first (x # xs) q = Some x"

fun seg :: "(nat \<rightharpoonup> nat option \<times> nat option \<times> nat option) \<Rightarrow> nat \<Rightarrow> nat option \<Rightarrow> nat list \<Rightarrow> nat option \<Rightarrow> bool" where
  "seg l i p [] q \<longleftrightarrow> True"
| "seg l i p (x # xs) q \<longleftrightarrow> l x = Some (Some i, p, first xs q) \<and> seg l i (Some x) xs q"

text \<open>The free list, and the directory: the live records are the ones the map finds, under their names.\<close>

fun free_chain :: "sroom list \<Rightarrow> nat option \<Rightarrow> nat list \<Rightarrow> bool" where
  "free_chain rs p [] \<longleftrightarrow> p = None"
| "free_chain rs p (i # is) \<longleftrightarrow> p = Some i \<and> free_chain rs (rm_next_free (rs ! i)) is"

definition dir_ok :: "nat \<Rightarrow> sroom list \<Rightarrow> nat option \<Rightarrow> nat cmap \<Rightarrow> bool" where
  "dir_ok n rs free ix \<longleftrightarrow> length rs = n \<and> cmap_inv ix
     \<and> (\<forall>r i. cmap_map ix r = Some i \<longrightarrow> i < n \<and> rm_live (rs ! i) \<and> cstring (rm_name (rs ! i)) = r)
     \<and> (\<forall>i < n. length (rm_name (rs ! i)) = k_room_max + 1
          \<and> (rm_live (rs ! i) \<longrightarrow> cmap_map ix (cstring (rm_name (rs ! i))) = Some i))
     \<and> (\<exists>fl. free_chain rs free fl \<and> distinct fl \<and> set fl = {i. i < n \<and> \<not> rm_live (rs ! i)})"

definition rooms_rel :: "nat \<Rightarrow> sworld \<Rightarrow> world \<Rightarrow> bool" where
  "rooms_rel n s w \<longleftrightarrow> rooms_ok w \<and> dir_ok n (g_rooms s) (g_room_free s) (g_room_index s)
     \<and> dom (cmap_map (g_room_index s)) = dom (rooms w)
     \<and> (\<forall>r ms i. rooms w r = Some ms \<longrightarrow> cmap_map (g_room_index s) r = Some i \<longrightarrow>
          rm_head (g_rooms s ! i) = first ms None \<and> rm_count (g_rooms s ! i) = of_nat (length ms) \<and> seg (lk s) i None ms None)
     \<and> (\<forall>fd c d. slab s fd = Some c \<longrightarrow> conns w fd = Some d \<longrightarrow> room d = [] \<longrightarrow> s_room c = None)"

definition sds_rel :: "sds_cfg \<Rightarrow> phase \<Rightarrow> sworld \<Rightarrow> world \<Rightarrow> bool" where
  "sds_rel cfg m s w \<longleftrightarrow> io_rel (g_slots cfg) s w \<and> lists_ok m w \<and> stream_ok w \<and> rooms_rel (g_slots cfg) s w"

text \<open>An outcome that simulates \<open>w\<close>, and how such outcomes compose.\<close>

definition sim :: "sds_cfg \<Rightarrow> phase \<Rightarrow> world \<Rightarrow> sworld res \<Rightarrow> bool" where
  "sim cfg m w r \<longleftrightarrow> (\<exists>s. r = Inr s \<and> sds_rel cfg m s w)"

lemma sim_Inr [simp]: "sim cfg m w (Inr s) \<longleftrightarrow> sds_rel cfg m s w"
  by (simp add: sim_def)

lemma sim_bind: "sim cfg m w r \<Longrightarrow> (\<And>s. sds_rel cfg m s w \<Longrightarrow> sim cfg m' w' (k s)) \<Longrightarrow> sim cfg m' w' (bind_res r k)"
  by (auto simp: sim_def)

section \<open>Frames\<close>

definition same_links :: "sworld \<Rightarrow> sworld \<Rightarrow> bool" where
  "same_links s s' \<longleftrightarrow> lk s' = lk s \<and> g_rooms s' = g_rooms s \<and> g_room_free s' = g_room_free s \<and> g_room_index s' = g_room_index s"

lemma lk_room: "lk s' fd = lk s fd \<Longrightarrow> slab s' fd = Some c' \<Longrightarrow> \<exists>c. slab s fd = Some c \<and> s_room c = s_room c'"
  by (cases "slab s fd") (auto simp: lk_def)

lemma rooms_rel_frame:
  assumes r: "rooms_rel n s w" and l: "same_links s s'"
    and w: "rooms w' = rooms w" "\<And>fd. map_option room (conns w' fd) = map_option room (conns w fd)"
  shows "rooms_rel n s' w'"
proof -
  have "s_room c' = None" if "slab s' fd = Some c'" "conns w' fd = Some d'" "room d' = []" for fd c' d'
  proof -
    have "lk s' fd = lk s fd" using l by (simp add: same_links_def)
    from lk_room [OF this that(1)] obtain c where c: "slab s fd = Some c" "s_room c = s_room c'" by blast
    have "map_option room (conns w fd) = Some []" using w(2) [of fd] that(2,3) by simp
    then obtain d where "conns w fd = Some d" "room d = []" by auto
    then show ?thesis using r c unfolding rooms_rel_def by metis
  qed
  then show ?thesis
    using r l w(1) rooms_ok_cong [OF _ w] unfolding rooms_rel_def same_links_def by simp
qed

lemma stream_ok_frame: "stream_ok w \<Longrightarrow> same_in w w' \<Longrightarrow> stream_ok w'"
proof -
  assume ok: "stream_ok w" and s: "same_in w w'"
  have "conns w' fd \<noteq> None \<longleftrightarrow> conns w fd \<noteq> None" for fd using same_in_inb [OF s, of fd] by (cases "conns w fd") auto
  then show ?thesis using ok s by (simp add: stream_ok_def same_in_of [OF s] same_in_def)
qed

lemma sds_rel_frame:
  assumes "sds_rel cfg m s w" "io_rel (g_slots cfg) s' w'" "lists_ok m w'" "same_links s s'" "same_core w w'"
  shows "sds_rel cfg m s' w'"
proof -
  have "rooms w' = rooms w" using assms(5) by (simp add: same_core_def)
  then show ?thesis
    using assms rooms_rel_frame [OF _ assms(4) _ same_core_room [OF assms(5)]] stream_ok_frame [OF _ same_core_in [OF assms(5)]]
    by (simp add: sds_rel_def)
qed

lemma sds_relD:
  assumes "sds_rel cfg m s w"
  shows "rel_option same_conn (slab s fd) (conns w fd)" "slab s fd \<noteq> None \<longleftrightarrow> conns w fd \<noteq> None"
    "conns w fd \<noteq> None \<Longrightarrow> fd < g_slots cfg" "io_rel (g_slots cfg) s w" "lists_ok m w" "rooms_rel (g_slots cfg) s w"
proof -
  show r: "rel_option same_conn (slab s fd) (conns w fd)" using assms by (simp add: sds_rel_def io_rel_def)
  then show "slab s fd \<noteq> None \<longleftrightarrow> conns w fd \<noteq> None" by (cases "slab s fd"; cases "conns w fd") auto
  then show "conns w fd \<noteq> None \<Longrightarrow> fd < g_slots cfg" using assms by (auto simp: sds_rel_def io_rel_def)
qed (use assms in \<open>simp_all add: sds_rel_def\<close>)

lemma sds_slot:
  assumes "sds_rel cfg m s w" "conns w fd = Some d"
  obtains c where "slab s fd = Some c" "same_conn c d"
  using sds_relD(1) [OF assms(1), of fd] assms(2) by (cases "slab s fd") auto

lemma with_slot_Some [simp]: "slab s fd = Some c \<Longrightarrow> with_slot fd s k = k c"
  by (simp add: with_slot_def)

lemma set_slot_fields [simp]:
  "slab (set_slot fd c s) = (slab s)(fd \<mapsto> c)" "g_rooms (set_slot fd c s) = g_rooms s"
  "g_room_free (set_slot fd c s) = g_room_free s" "g_room_index (set_slot fd c s) = g_room_index s"
  "g_doomed (set_slot fd c s) = g_doomed s" "g_dirty (set_slot fd c s) = g_dirty s"
  "g_total_live (set_slot fd c s) = g_total_live s" "s_sends (set_slot fd c s) = s_sends s"
  "s_recvs (set_slot fd c s) = s_recvs s" "s_accepts (set_slot fd c s) = s_accepts s" "s_wire (set_slot fd c s) = s_wire s"
  "s_reserve (set_slot fd c s) = s_reserve s"
  by (simp_all add: set_slot_def)

lemma same_links_set:
  "slab s fd = Some c \<Longrightarrow> s_room c' = s_room c \<Longrightarrow> s_prev c' = s_prev c \<Longrightarrow> s_next c' = s_next c \<Longrightarrow> same_links s (set_slot fd c' s)"
  by (auto simp: same_links_def lk_def)

lemma same_links_refl [simp]: "same_links s s"
  by (simp add: same_links_def)

lemma same_links_cong:
  "same_links s s' \<Longrightarrow> slab t = slab s' \<Longrightarrow> g_rooms t = g_rooms s' \<Longrightarrow> g_room_free t = g_room_free s'
     \<Longrightarrow> g_room_index t = g_room_index s' \<Longrightarrow> same_links s t"
  by (simp add: same_links_def lk_def fun_eq_iff)

lemma io_rel_set:
  assumes "io_rel n s w" "slab s fd = Some c" "conns w fd = Some d" "same_conn c' (f d)"
  shows "io_rel n (set_slot fd c' s) (upd fd f w)"
  using assms by (auto simp: io_rel_def)

lemma lists_ok_cong:
  "lists_ok m w \<Longrightarrow> conns w' = conns w \<Longrightarrow> doomed w' = doomed w \<Longrightarrow> dirty_q w' = dirty_q w \<Longrightarrow> lists_ok m w'"
  by (simp add: lists_ok_def alive_def)

lemma lists_ok_upd:
  assumes "lists_ok m w" "\<And>d. closing (f d) = closing d \<and> (dirty d \<longrightarrow> dirty (f d) \<or> m = Flushing)"
  shows "lists_ok m (upd fd f w)"
  using assms by (auto simp: lists_ok_def alive_upd)

lemma sds_rel_set:
  assumes r: "sds_rel cfg m s w" and c: "slab s fd = Some c" "conns w fd = Some d" and c': "same_conn c' (f d)"
    and l: "s_room c' = s_room c" "s_prev c' = s_prev c" "s_next c' = s_next c"
    and f: "\<And>d. core (f d) = core d" "\<And>d. closing (f d) = closing d \<and> (dirty d \<longrightarrow> dirty (f d) \<or> m = Flushing)"
  shows "sds_rel cfg m (set_slot fd c' s) (upd fd f w)"
proof (rule sds_rel_frame [OF r])
  show "io_rel (g_slots cfg) (set_slot fd c' s) (upd fd f w)" using sds_relD(4) [OF r] c c' by (rule io_rel_set)
  show "lists_ok m (upd fd f w)" by (rule lists_ok_upd [OF sds_relD(5) [OF r] f(2)])
  show "same_links s (set_slot fd c' s)" by (rule same_links_set [OF c(1) l])
  show "same_core w (upd fd f w)" by (rule same_core_upd [OF f(1)])
qed

end
