(* ===== verification/SdsSend.thy ===== *)
theory SdsSend
  imports SdsRelation
begin

text \<open>
  The sending functions of \<^verbatim>\<open>server_sds.cpp\<close> do what those of \<^verbatim>\<open>server.cpp\<close> do: none of them fails on related
  states, and related states come out.
\<close>

section \<open>One connection\<close>

lemma sim_mask:
  assumes r: "sds_rel cfg m s w" and d: "conns w fd = Some d"
  shows "sim cfg m (update_epoll_mask (common cfg) fd w) (update_epoll_mask_sds cfg fd s)"
proof -
  obtain c where c: "slab s fd = Some c" "same_conn c d"
    using sds_slot [OF r d] by metis
  have want: "(tx_head c < tx_tail c) = (outb d \<noteq> [])" and armed: "s_armed c = armed_write d"
    using c(2) queued_empty [of c] by (auto simp: same_conn_def)
  have "sds_rel cfg m (set_slot fd (c\<lparr>s_armed := b\<rparr>) s) (upd fd (\<lambda>d. d\<lparr>armed_write := b\<rparr>) w)" for b
    by (rule sds_rel_set [OF r c(1) d]) (use c(2) in \<open>auto simp: same_conn_def nick_of_def queue_ok_def queued_def core_def\<close>)
  then show ?thesis
    using r d by (simp add: update_epoll_mask_sds_def update_epoll_mask_def c(1) want armed Let_def)
qed

lemma sim_doom:
  assumes r: "sds_rel cfg m s w" and d: "conns w fd = Some d"
  shows "sim cfg m (doom fd w) (doom_sds cfg fd s)"
proof -
  obtain c where c: "slab s fd = Some c" "same_conn c d"
    using sds_slot [OF r d] by metis
  have cl: "s_closing c = closing d" using c(2) by (simp add: same_conn_def)
  show ?thesis
  proof (cases "closing d")
    case True
    then show ?thesis using r d by (simp add: doom_sds_def doom_def c(1) cl)
  next
    case False
    let ?n = "g_slots cfg" and ?c = "c\<lparr>s_closing := True\<rparr>" and ?f = "\<lambda>d. d\<lparr>closing := True\<rparr>"
    have io: "io_rel ?n s w" and ls: "lists_ok m w" using sds_relD(4,5) [OF r] .
    have fd: "fd < ?n" "fd \<notin> set (doomed w)"
      using sds_relD(3) [OF r, of fd] d ls False by (auto simp: lists_ok_def alive_def)
    have "listing ?n (g_doomed s) (doomed w)" using io by (simp add: io_rel_def)
    then obtain v where v: "push_checked cfg fd (g_doomed s) = Inr v" "listing ?n v (doomed w @ [fd])"
      using push_checked_ok fd by metis
    have s': "doom_sds cfg fd s = Inr ((set_slot fd ?c s)\<lparr>g_doomed := v\<rparr>)" (is "_ = Inr ?s")
      and w': "doom fd w = (upd fd ?f w)\<lparr>doomed := doomed w @ [fd]\<rparr>" (is "_ = ?w")
      using d False v by (simp_all add: doom_sds_def doom_def c(1) cl)
    have "same_conn ?c (?f d)" using c(2) by (simp add: same_conn_def nick_of_def queue_ok_def queued_def)
    from io_rel_set [where f = ?f, OF io c(1) d this] v(2) have "io_rel ?n ?s ?w" by (simp add: io_rel_def)
    moreover have "lists_ok m ?w" using ls d by (auto simp: lists_ok_def alive_def split: option.splits if_splits)
    moreover have "same_links s ?s"
      by (rule same_links_cong [OF same_links_set [OF c(1), of ?c]]) simp_all
    moreover have "same_core w ?w" using same_core_doom [of w fd] w' by simp
    ultimately show ?thesis using sds_rel_frame [OF r] s' w' by simp
  qed
qed

lemma sim_queue:
  assumes r: "sds_rel cfg m s w" and d: "conns w fd = Some d"
  shows "sim cfg m (queue_send fd t p w) (queue_send_sds cfg fd t p s)"
proof -
  obtain c where c: "slab s fd = Some c" "same_conn c d"
    using sds_slot [OF r d] by metis
  have tx_region: "queue_ok c" and cl: "s_closing c = closing d" and q: "outb d = queued c" "tx_tail c - tx_head c = length (outb d)"
    using c(2) length_queued [of c] by (auto simp: same_conn_def)
  show ?thesis
  proof (cases "\<not> closing d \<and> length p \<le> k_max_payload \<and> length (outb d) + k_header_size + length p \<le> k_send_cap")
    case False
    then show ?thesis
      using r d sim_doom [OF r d] by (auto simp: queue_send_def queue_send_sds_def c(1) cl q(2))
  next
    case True
    then have cap: "tx_tail c - tx_head c + (k_header_size + length p) \<le> k_send_cap" by (simp add: q(2))
    obtain c' where c': "tx_append t p c = Inr c'" "queue_ok c'" "queued c' = queued c @ wire_header (length p) t @ p"
        "\<exists>t h e. c' = c\<lparr>tx_region := t, tx_head := h, tx_tail := e\<rparr>"
      by (rule tx_append_ok [OF tx_region cap])
    let ?f = "\<lambda>d. d\<lparr>outb := outb d @ wire_header (length p) t @ p\<rparr>"
    have same: "same_conn c' (?f d)"
      using c(2) c'(2-4) by (auto simp: same_conn_def nick_of_def)
    have "queue_send_sds cfg fd t p s = Inr (set_slot fd c' s)"
      using True c'(1) cap by (simp add: queue_send_sds_def c(1) cl)
    moreover have "queue_send fd t p w = upd fd ?f w" using True d by (simp add: queue_send_def)
    moreover have "sds_rel cfg m (set_slot fd c' s) (upd fd ?f w)"
      by (rule sds_rel_set [where f = ?f, OF r c(1) d same]) (use c'(4) in \<open>auto simp: core_def\<close>)
    ultimately show ?thesis by simp
  qed
qed

lemma sim_flush:
  assumes r: "sds_rel cfg m s w" and d: "conns w fd = Some d"
  shows "sim cfg m (flush_send (common cfg) fd w) (flush_send_sds cfg fd s)"
proof -
  obtain c where c: "slab s fd = Some c" "same_conn c d"
    using sds_slot [OF r d] by metis
  have io: "io_rel (g_slots cfg) s w" using sds_relD(4) [OF r] .
  have tx_region: "queue_ok c" and q: "outb d = queued c" and ss: "s_sends s = sends w" "s_wire s = wire w"
    using c(2) io by (auto simp: same_conn_def io_rel_def)
  obtain script took h e failed where l: "tx_loop (sends w fd) (tx_region c) (tx_head c) (tx_tail c) = (script, took, h, e, failed)"
    by (metis prod_cases5)
  have out: "h \<le> e" "e \<le> length (tx_region c)" "e - h \<le> tx_tail c - tx_head c"
      "send_loop (sends w fd) (outb d) = (script, took, take (e - h) (drop h (tx_region c)), failed)"
    using tx_loop_sends [of "tx_head c" "tx_tail c" "tx_region c" "sends w fd"] l tx_region q by (auto simp: queue_ok_def queued_def)
  let ?left = "take (e - h) (drop h (tx_region c))" and ?c = "c\<lparr>tx_head := h, tx_tail := e\<rparr>"
  let ?f = "\<lambda>c. c\<lparr>outb := ?left\<rparr>"
  let ?s = "(set_slot fd ?c s)\<lparr>s_sends := (sends w)(fd := script), s_wire := (wire w)(fd := wire w fd @ took)\<rparr>"
  let ?w = "(upd fd ?f w)\<lparr>sends := (sends w)(fd := script), wire := (wire w)(fd := wire w fd @ took)\<rparr>"
  have same: "same_conn ?c (?f d)"
    using c(2) out(1-3) tx_region by (auto simp: same_conn_def nick_of_def queue_ok_def queued_def)
  have rel: "sds_rel cfg m ?s ?w"
  proof (rule sds_rel_frame [OF r])
    show "io_rel (g_slots cfg) ?s ?w"
      using io_rel_set [where f = ?f, OF io c(1) d same] by (simp add: io_rel_def)
    show "lists_ok m ?w"
      by (rule lists_ok_cong [OF lists_ok_upd [OF sds_relD(5) [OF r], of ?f fd]]) simp_all
    show "same_links s ?s" by (rule same_links_cong [OF same_links_set [OF c(1), of ?c]]) simp_all
    show "same_core w ?w" using same_core_upd [of ?f w fd] by (simp add: same_core_def core_def)
  qed
  have d': "conns ?w fd = Some (?f d)" using d by simp
  have "flush_send_sds cfg fd s = (if failed then doom_sds cfg fd ?s else update_epoll_mask_sds cfg fd ?s)"
    using l ss by (simp add: flush_send_sds_def c(1) Let_def)
  moreover have "flush_send (common cfg) fd w = (if failed then doom fd ?w else update_epoll_mask (common cfg) fd ?w)"
    using d out(4) by (simp add: flush_send_def Let_def)
  ultimately show ?thesis
    using sim_doom [OF rel d'] sim_mask [OF rel d'] by (cases failed) (simp_all only: if_True if_False)
qed

lemma sim_mark:
  assumes r: "sds_rel cfg m s w" and d: "conns w fd = Some d" and m: "m \<noteq> Flushing"
  shows "sim cfg m (mark_dirty fd w) (mark_dirty_sds cfg fd s)"
proof -
  obtain c where c: "slab s fd = Some c" "same_conn c d"
    using sds_slot [OF r d] by metis
  have want: "(tx_head c < tx_tail c) = (outb d \<noteq> [])" and dd: "s_dirty c = dirty d"
    using c(2) queued_empty [of c] by (auto simp: same_conn_def)
  show ?thesis
  proof (cases "\<not> dirty d \<and> outb d \<noteq> []")
    case False
    then show ?thesis using r d by (auto simp: mark_dirty_sds_def mark_dirty_def c(1) want dd)
  next
    case True
    let ?n = "g_slots cfg" and ?c = "c\<lparr>s_dirty := True\<rparr>" and ?f = "\<lambda>d. d\<lparr>dirty := True\<rparr>"
    have io: "io_rel ?n s w" and ls: "lists_ok m w" using sds_relD(4,5) [OF r] .
    have fd: "fd < ?n" "fd \<notin> set (dirty_q w)"
      using sds_relD(3) [OF r, of fd] d ls m True by (auto simp: lists_ok_def)
    have "listing ?n (g_dirty s) (dirty_q w)" using io by (simp add: io_rel_def)
    then obtain v where v: "push_checked cfg fd (g_dirty s) = Inr v" "listing ?n v (dirty_q w @ [fd])"
      using push_checked_ok fd by metis
    have s': "mark_dirty_sds cfg fd s = Inr ((set_slot fd ?c s)\<lparr>g_dirty := v\<rparr>)" (is "_ = Inr ?s")
      and w': "mark_dirty fd w = (upd fd ?f w)\<lparr>dirty_q := dirty_q w @ [fd]\<rparr>" (is "_ = ?w")
      using d True v by (simp_all add: mark_dirty_sds_def mark_dirty_def c(1) dd want)
    have "same_conn ?c (?f d)" using c(2) by (simp add: same_conn_def nick_of_def queue_ok_def queued_def)
    from io_rel_set [where f = ?f, OF io c(1) d this] v(2) have "io_rel ?n ?s ?w" by (simp add: io_rel_def)
    moreover have "lists_ok m ?w" using ls d by (auto simp: lists_ok_def alive_def split: option.splits if_splits)
    moreover have "same_links s ?s" by (rule same_links_cong [OF same_links_set [OF c(1), of ?c]]) simp_all
    moreover have "same_core w ?w" using same_core_mark [of w fd] w' by simp
    ultimately show ?thesis using sds_rel_frame [OF r] s' w' by simp
  qed
qed

lemma sim_flush_or_mark:
  "sds_rel cfg m s w \<Longrightarrow> conns w fd = Some d \<Longrightarrow> m \<noteq> Flushing
    \<Longrightarrow> sim cfg m (flush_or_mark (common cfg) fd w) (flush_or_mark_sds cfg fd s)"
  by (simp add: flush_or_mark_def flush_or_mark_sds_def sim_flush sim_mark)

section \<open>A room\<close>

lemma sim_deliver:
  assumes r: "sds_rel cfg m s w" and d: "conns w fd = Some d" and m: "m \<noteq> Flushing"
  shows "sim cfg m (deliver (common cfg) t p e fd w) (deliver_sds cfg t p e fd s)"
proof -
  obtain c where c: "slab s fd = Some c" "same_conn c d" using sds_slot [OF r d] by metis
  have cl: "s_closing c = closing d" using c(2) by (simp add: same_conn_def)
  obtain d' where "conns (queue_send fd t p w) fd = Some d'"
    using same_core_conn [OF same_core_queue(1) d] by blast
  then have "sim cfg m (flush_or_mark (common cfg) fd (queue_send fd t p w))
      (bind_res (queue_send_sds cfg fd t p s) (flush_or_mark_sds cfg fd))"
    using sim_bind [OF sim_queue [OF r d]] sim_flush_or_mark m by metis
  then show ?thesis using r d by (simp add: deliver_def deliver_sds_def c(1) cl alive_def)
qed

lemma seg_last:
  "seg l i p (xs @ x # ys) q \<Longrightarrow> l x = Some (Some i, (if xs = [] then p else Some (last xs)), first ys q)"
  by (induction l i p xs q rule: seg.induct) auto

lemma same_core_dom: "same_core w w' \<Longrightarrow> conns w' x = None \<longleftrightarrow> conns w x = None"
  unfolding same_core_def by (metis option.map_disc_iff)

lemma sim_walk:
  assumes "sds_rel cfg m s w" "rooms w r = Some (pre @ xs)" "length xs \<le> n" and m: "m \<noteq> Flushing"
  shows "sim cfg m (fold (deliver (common cfg) t p e) xs w) (walk_members cfg t p e n (first xs None) s)"
  using assms(1-3)
proof (induction xs arbitrary: pre n s w)
  case Nil
  then show ?case by simp
next
  case (Cons x xs)
  then obtain k where n: "n = Suc k" by (cases n) auto
  let ?w = "deliver (common cfg) t p e x w"
  have "map_option room (conns w x) = Some r"
    using sds_relD(6) [OF Cons.prems(1)] Cons.prems(2) unfolding rooms_rel_def rooms_ok_def by simp
  then obtain d where d: "conns w x = Some d" by auto
  have step: "sim cfg m ?w (deliver_sds cfg t p e x s)" by (rule sim_deliver [OF Cons.prems(1) d m])
  have rest: "sim cfg m (fold (deliver (common cfg) t p e) xs ?w) (with_slot x s' (\<lambda>c. walk_members cfg t p e k (s_next c) s'))"
    if r': "sds_rel cfg m s' ?w" for s'
  proof -
    have rm: "rooms ?w = rooms w" using same_core_deliver by (simp add: same_core_def)
    obtain d' where d': "conns ?w x = Some d'" using same_core_conn [OF same_core_deliver d] by blast
    obtain c' where c': "slab s' x = Some c'" using sds_slot [OF r' d'] by metis
    have rr: "rooms_rel (g_slots cfg) s' ?w" by (rule sds_relD(6) [OF r'])
    have in_dom: "r \<in> dom (cmap_map (g_room_index s'))"
      using rr Cons.prems(2) rm unfolding rooms_rel_def by (metis domI)
    then obtain i where "cmap_map (g_room_index s') r = Some i" by blast
    then have "seg (lk s') i None (pre @ x # xs) None"
      using rr Cons.prems(2) rm unfolding rooms_rel_def by metis
    then have "s_next c' = first xs None" using seg_last c'(1) by (fastforce simp: lk_def)
    moreover have "sim cfg m (fold (deliver (common cfg) t p e) xs ?w) (walk_members cfg t p e k (first xs None) s')"
      using Cons.IH [OF r', of "pre @ [x]" k] Cons.prems(2,3) n rm by simp
    ultimately show ?thesis by (simp add: c'(1))
  qed
  show ?case using sim_bind [OF step rest] n by simp
qed

lemma rooms_rel_index:
  assumes "rooms_rel n s w" "rooms w r = Some ms"
  obtains i where "cmap_map (g_room_index s) r = Some i" "i < n" "i < length (g_rooms s)" "rm_live (g_rooms s ! i)"
    "rm_head (g_rooms s ! i) = first ms None" "rm_count (g_rooms s ! i) = of_nat (length ms)" "seg (lk s) i None ms None"
    "cstring (rm_name (g_rooms s ! i)) = r"
proof -
  have "r \<in> dom (cmap_map (g_room_index s))" using assms unfolding rooms_rel_def by (metis domI)
  then obtain i where i: "cmap_map (g_room_index s) r = Some i" by blast
  then have "i < n" "rm_live (g_rooms s ! i)" "length (g_rooms s) = n" "cstring (rm_name (g_rooms s ! i)) = r"
    using assms(1) unfolding rooms_rel_def dir_ok_def by metis+
  then show ?thesis using that [OF i] assms i unfolding rooms_rel_def by blast
qed

text \<open>Members are distinct slots, so the walk is over before the slab is.\<close>

lemma members_below:
  assumes "sds_rel cfg m s w" "rooms w r = Some ms"
  shows "length ms \<le> g_slots cfg"
proof (rule distinct_below)
  have ok: "rooms_ok w" using sds_relD(6) [OF assms(1)] by (simp add: rooms_rel_def)
  then show "distinct ms" using assms(2) by (simp add: rooms_ok_def)
  show "set ms \<subseteq> {..<g_slots cfg}"
  proof
    fix x assume "x \<in> set ms"
    then have "map_option room (conns w x) = Some r" using ok assms(2) unfolding rooms_ok_def by blast
    then show "x \<in> {..<g_slots cfg}" using sds_relD(3) [OF assms(1), of x] by auto
  qed
qed

lemma sim_broadcast:
  assumes r: "sds_rel cfg m s w" and i: "cmap_map (g_room_index s) r = Some i" and m: "m \<noteq> Flushing"
  shows "sim cfg m (broadcast (common cfg) r t p e w) (broadcast_sds cfg (Some i) t p e s)"
proof -
  have rr: "rooms_rel (g_slots cfg) s w" by (rule sds_relD(6) [OF r])
  then have "r \<in> dom (rooms w)" using i unfolding rooms_rel_def by (metis domI)
  then obtain ms where ms: "rooms w r = Some ms" by blast
  obtain i' where i': "cmap_map (g_room_index s) r = Some i'" "i' < length (g_rooms s)" "rm_live (g_rooms s ! i')"
      "rm_head (g_rooms s ! i') = first ms None"
    using rooms_rel_index [OF rr ms] by metis
  have "sim cfg m (fold (deliver (common cfg) t p e) ms w) (walk_members cfg t p e (g_slots cfg) (first ms None) s)"
    by (rule sim_walk [OF r, of _ "[]"]) (use ms members_below [OF r ms] m in auto)
  then show ?thesis using i i' ms by (simp add: broadcast_def broadcast_sds_def with_room_def)
qed

end
