(* ===== verification/SdsRooms.thy ===== *)
theory SdsRooms
  imports SdsSend
begin

text \<open>
  Rooms of \<^verbatim>\<open>server_sds.cpp\<close>: the directory (records, free list and hash map), the membership lists through
  the slots, and that leaving and entering a room on them is leaving and entering it in \<^verbatim>\<open>server.cpp\<close>.
\<close>

section \<open>The directory\<close>

lemma cstring_ok [simp]: "cstr_ok (cstring bs)"
  by (auto simp: cstr_ok_def cstring_def dest: set_takeWhileD)

lemma cstring_id: "cstr_ok bs \<Longrightarrow> cstring bs = bs"
  by (auto simp: cstring_def cstr_ok_def takeWhile_eq_all_conv)

lemma cstring_terminated: "cstr_ok bs \<Longrightarrow> cstring (bs @ 0 # xs) = bs"
  unfolding cstring_def by (subst takeWhile_append2) (auto simp: cstr_ok_def)

lemma dir_okD:
  assumes "dir_ok n rs free ix"
  shows "length rs = n" "cmap_inv ix" "cmap_map ix r = Some i \<Longrightarrow> i < n \<and> rm_live (rs ! i) \<and> cstring (rm_name (rs ! i)) = r"
    "i < n \<Longrightarrow> length (rm_name (rs ! i)) = k_room_max + 1"
    "i < n \<Longrightarrow> rm_live (rs ! i) \<Longrightarrow> cmap_map ix (cstring (rm_name (rs ! i))) = Some i"
  using assms unfolding dir_ok_def by blast+

lemma dir_inj: "dir_ok n rs free ix \<Longrightarrow> cmap_map ix r = Some i \<Longrightarrow> cmap_map ix r' = Some i \<Longrightarrow> r = r'"
  using dir_okD(3) by metis

lemma free_chain_frame: "i \<notin> set fl \<Longrightarrow> free_chain (rs[i := r]) p fl = free_chain rs p fl"
  by (induction rs p fl rule: free_chain.induct) auto

lemma dir_room:
  assumes ok: "dir_ok n rs free ix" and n: "n < 2 ^ 32"
  shows "cmap_room ix"
proof -
  have "inj_on (\<lambda>r. the (cmap_map ix r)) (dom (cmap_map ix))"
    by (rule inj_onI) (use dir_inj [OF ok] in auto)
  moreover have "(\<lambda>r. the (cmap_map ix r)) ` dom (cmap_map ix) \<subseteq> {..<n}" using dir_okD(3) [OF ok] by auto
  ultimately have "card (dom (cmap_map ix)) \<le> n" using card_inj_on_le [of _ _ "{..<n}"] by fastforce
  then show ?thesis using dom_cmap_map [OF dir_okD(2) [OF ok]] n by (simp add: cmap_room_def)
qed

text \<open>A new name takes the record at the head of the free list.\<close>

lemma dir_acquire:
  assumes ok: "dir_ok n rs free ix" and n: "n < 2 ^ 32" and name: "cstr_ok name" "length name \<le> k_room_max"
    and new: "cmap_map ix name = None" and spare: "j < n" "\<not> rm_live (rs ! j)"
  obtains i nm where "free = Some i" "i < n" "put (rm_name (rs ! i)) 0 (name @ [0]) = Inr nm" "cstring nm = name"
    "dir_ok n (rs[i := (rs ! i)\<lparr>rm_name := nm, rm_head := None, rm_count := 0, rm_live := True\<rparr>]) (rm_next_free (rs ! i))
       (cmap_insert name i ix)"
    "cmap_map (cmap_insert name i ix) = (cmap_map ix)(name \<mapsto> i)" "\<not> rm_live (rs ! i)"
proof -
  obtain fl where fl: "free_chain rs free fl" "distinct fl" "set fl = {i. i < n \<and> \<not> rm_live (rs ! i)}"
    using ok unfolding dir_ok_def by blast
  then have "j \<in> set fl" using spare by simp
  then obtain i fl' where i: "fl = i # fl'" by (cases fl) auto
  then have f: "free = Some i" "i < n" "\<not> rm_live (rs ! i)" "i \<notin> set fl'" "free_chain rs (rm_next_free (rs ! i)) fl'"
    using fl by auto
  have len: "length rs = n" "length (rm_name (rs ! i)) = k_room_max + 1" using dir_okD(1,4) [OF ok] f(2) by auto
  define nm where "nm = mem_copy (rm_name (rs ! i)) 0 (name @ [0])"
  have p: "put (rm_name (rs ! i)) 0 (name @ [0]) = Inr nm" and l: "length nm = k_room_max + 1"
    using name len by (simp_all add: put_def nm_def)
  have c: "cstring nm = name" using cstring_terminated [OF name(1)] by (simp add: nm_def mem_copy_def)
  let ?r = "(rs ! i)\<lparr>rm_name := nm, rm_head := None, rm_count := 0, rm_live := True\<rparr>" and ?ix = "cmap_insert name i ix"
  have ix: "cmap_inv ?ix" "cmap_map ?ix = (cmap_map ix)(name \<mapsto> i)"
    using subscript_inv [OF dir_okD(2) [OF ok] dir_room [OF ok n] name(1), of i "\<lambda>_. i"] by (simp_all add: insert_subscript)
  have nth: "rs[i := ?r] ! k = (if k = i then ?r else rs ! k)" for k using f(2) len(1) by simp
  have "dir_ok n (rs[i := ?r]) (rm_next_free (rs ! i)) ?ix"
    unfolding dir_ok_def
  proof (intro conjI allI impI)
    have "set fl' = set fl - {i}" using i f(4) by auto
    then have "set fl' = {k. k < n \<and> \<not> rm_live (rs[i := ?r] ! k)}" using fl(3) by (auto simp: nth)
    moreover have "distinct fl'" using fl(2) i by simp
    ultimately show "\<exists>fl. free_chain (rs[i := ?r]) (rm_next_free (rs ! i)) fl \<and> distinct fl
        \<and> set fl = {k. k < n \<and> \<not> rm_live (rs[i := ?r] ! k)}"
      using f(5) free_chain_frame [OF f(4)] by blast
    fix k
    show "length (rm_name (rs[i := ?r] ! k)) = k_room_max + 1" if "k < n"
      using dir_okD(4) [OF ok that] l by (simp add: nth)
    show "cmap_map ?ix (cstring (rm_name (rs[i := ?r] ! k))) = Some k" if k: "k < n" "rm_live (rs[i := ?r] ! k)"
    proof (cases "k = i")
      case True
      then show ?thesis using c ix by (simp add: nth)
    next
      case False
      then have "cmap_map ix (cstring (rm_name (rs ! k))) = Some k" using dir_okD(5) [OF ok k(1)] k(2) by (simp add: nth)
      then show ?thesis using False new by (auto simp: nth ix)
    qed
  next
    fix r k assume a: "cmap_map ?ix r = Some k"
    then have "r = name \<and> k = i \<or> cmap_map ix r = Some k" by (auto simp: ix split: if_splits)
    moreover have "k \<noteq> i" if "cmap_map ix r = Some k" using dir_okD(3) [OF ok that] f(3) by blast
    ultimately show "k < n" "rm_live (rs[i := ?r] ! k)" "cstring (rm_name (rs[i := ?r] ! k)) = r"
      using dir_okD(3) [OF ok, of r k] f(2) c by (auto simp: nth)
  qed (use len ix in simp_all)
  with f p c ix(2) show ?thesis by (intro that) simp_all
qed

lemma dir_release:
  assumes ok: "dir_ok n rs free ix" and i: "i < n" "rm_live (rs ! i)"
  shows "dir_ok n (rs[i := (rs ! i)\<lparr>rm_live := False, rm_head := None, rm_next_free := free\<rparr>]) (Some i)
       (cmap_erase (cstring (rm_name (rs ! i))) ix)" (is "dir_ok n (rs[i := ?r]) _ ?ix")
    and "cmap_map (cmap_erase (cstring (rm_name (rs ! i))) ix) = (cmap_map ix)(cstring (rm_name (rs ! i)) := None)"
proof -
  have ix: "cmap_inv ?ix" "cmap_map ?ix = (cmap_map ix)(cstring (rm_name (rs ! i)) := None)"
    using erase_inv [OF dir_okD(2) [OF ok] cstring_ok] by simp_all
  then show "cmap_map ?ix = (cmap_map ix)(cstring (rm_name (rs ! i)) := None)" by simp
  have len: "length rs = n" by (rule dir_okD(1) [OF ok])
  obtain fl where fl: "free_chain rs free fl" "distinct fl" "set fl = {i. i < n \<and> \<not> rm_live (rs ! i)}"
    using ok unfolding dir_ok_def by blast
  note mine = dir_okD(5) [OF ok i]
  show "dir_ok n (rs[i := ?r]) (Some i) ?ix"
    unfolding dir_ok_def
  proof (intro conjI allI impI)
    show "\<exists>fl. free_chain (rs[i := ?r]) (Some i) fl \<and> distinct fl \<and> set fl = {k. k < n \<and> \<not> rm_live (rs[i := ?r] ! k)}"
      using fl i len by (intro exI [of _ "i # fl"]) (auto simp: free_chain_frame nth_list_update)
    fix k
    show "length (rm_name (rs[i := ?r] ! k)) = k_room_max + 1" if "k < n"
      using dir_okD(4) [OF ok that] dir_okD(4) [OF ok i(1)] len i by (cases "k = i") simp_all
    show "cmap_map ?ix (cstring (rm_name (rs[i := ?r] ! k))) = Some k" if k: "k < n" "rm_live (rs[i := ?r] ! k)"
    proof -
      have "k \<noteq> i" using k len by auto
      then have "k \<noteq> i" "rm_live (rs ! k)" using k by auto
      moreover from this have "cmap_map ix (cstring (rm_name (rs ! k))) = Some k" using dir_okD(5) [OF ok k(1)] by simp
      ultimately show ?thesis using mine by (auto simp: ix)
    qed
  next
    fix r k assume a: "cmap_map ?ix r = Some k"
    then have "cmap_map ix r = Some k" "r \<noteq> cstring (rm_name (rs ! i))" by (auto simp: ix split: if_splits)
    moreover from this have "k \<noteq> i" using dir_okD(3) [OF ok] by blast
    ultimately show "k < n" "rm_live (rs[i := ?r] ! k)" "cstring (rm_name (rs[i := ?r] ! k)) = r"
      using dir_okD(3) [OF ok, of r k] by simp_all
  qed (use len ix in simp_all)
qed

text \<open>Head and count of a live record are free to change.\<close>

lemma dir_upd:
  assumes ok: "dir_ok n rs free ix" and i: "i < n" "rm_live (rs ! i)" and r: "rm_name r = rm_name (rs ! i)" "rm_live r"
  shows "dir_ok n (rs[i := r]) free ix"
proof -
  have len: "length rs = n" by (rule dir_okD(1) [OF ok])
  have same: "rm_name (rs[i := r] ! k) = rm_name (rs ! k)" "rm_live (rs[i := r] ! k) = rm_live (rs ! k)" for k
    using i r len by (cases "k = i"; simp)+
  have "free_chain (rs[i := r]) p fl = free_chain rs p fl" if "set fl = {k. k < n \<and> \<not> rm_live (rs ! k)}" for p fl
    using i that by (intro free_chain_frame) auto
  then have "\<exists>fl. free_chain (rs[i := r]) free fl \<and> distinct fl \<and> set fl = {k. k < n \<and> \<not> rm_live (rs ! k)}"
    using ok unfolding dir_ok_def by metis
  then show ?thesis using ok unfolding dir_ok_def same length_list_update by blast
qed

section \<open>Lists through the slots\<close>

type_synonym link = "nat option \<times> nat option \<times> nat option"

definition final :: "nat list \<Rightarrow> nat option" where
  "final xs = (if xs = [] then None else Some (last xs))"

definition setn :: "(nat \<rightharpoonup> link) \<Rightarrow> nat option \<Rightarrow> nat option \<Rightarrow> nat \<rightharpoonup> link" where
  "setn l p q = (case p of None \<Rightarrow> l | Some x \<Rightarrow> l(x := map_option (\<lambda>(i, a, b). (i, a, q)) (l x)))"

definition setp :: "(nat \<rightharpoonup> link) \<Rightarrow> nat option \<Rightarrow> nat option \<Rightarrow> nat \<rightharpoonup> link" where
  "setp l q p = (case q of None \<Rightarrow> l | Some x \<Rightarrow> l(x := map_option (\<lambda>(i, a, b). (i, p, b)) (l x)))"

lemma setn_other: "p \<noteq> Some x \<Longrightarrow> setn l p q x = l x"
  by (auto simp: setn_def split: option.split)

lemma setp_other: "q \<noteq> Some x \<Longrightarrow> setp l q p x = l x"
  by (auto simp: setp_def split: option.split)

lemma seg_cong: "(\<And>x. x \<in> set xs \<Longrightarrow> l' x = l x) \<Longrightarrow> seg l' i p xs q = seg l i p xs q"
  by (induction l i p xs q rule: seg.induct) auto

lemma seg_append:
  "seg l i p (xs @ ys) q \<longleftrightarrow> seg l i p xs (first ys q) \<and> seg l i (if xs = [] then p else Some (last xs)) ys q"
proof (induction xs arbitrary: p)
  case (Cons x xs)
  have "first (xs @ ys) q = first xs (first ys q)" by (cases xs) simp_all
  then show ?case using Cons by auto
qed simp

lemma seg_setn:
  "seg l i p xs q \<Longrightarrow> distinct xs \<Longrightarrow> seg (setn l (final xs) q') i p xs q'"
proof (induction xs arbitrary: p)
  case (Cons x xs)
  show ?case
  proof (cases "xs = []")
    case True
    then show ?thesis using Cons.prems by (simp add: final_def setn_def)
  next
    case False
    then have "x \<noteq> last xs" using Cons.prems(2) last_in_set [of xs] by auto
    then have f: "final (x # xs) = final xs" "final xs \<noteq> Some x" using False by (simp_all add: final_def)
    have "first xs q' = first xs q" using False by (cases xs) simp_all
    note f = f this
    then show ?thesis using Cons setn_other [OF f(2)] by simp
  qed
qed simp

lemma seg_setp:
  assumes "seg l i p xs q" "distinct xs"
  shows "seg (setp l (first xs None) p') i p' xs q"
proof (cases xs)
  case (Cons x ys)
  then have "seg (setp l (Some x) p') i (Some x) ys q = seg l i (Some x) ys q"
    using assms(2) by (intro seg_cong setp_other) auto
  then show ?thesis using assms Cons by (simp add: setp_def)
qed simp

lemma first_in: "first xs None = Some x \<Longrightarrow> x \<in> set xs"
  by (cases xs) auto

lemma final_in: "final xs = Some x \<Longrightarrow> x \<in> set xs"
  by (auto simp: final_def split: if_splits)

text \<open>Taking one element out.\<close>

lemma seg_remove:
  assumes s: "seg l i None (a @ x # b) None" and d: "distinct (a @ x # b)"
  shows "seg ((setp (setn l (final a) (first b None)) (first b None) (final a))(x \<mapsto> v)) i None (a @ b) None"
proof -
  let ?l1 = "setn l (final a) (first b None)" and ?l2 = "setp (setn l (final a) (first b None)) (first b None) (final a)"
  have a: "seg l i None a (Some x)" and b: "seg l i (Some x) b None" using s by (simp_all add: seg_append)
  have "seg ?l1 i None a (first b None)" using seg_setn [OF a] d by simp
  moreover have "seg ?l2 i None a (first b None) = seg ?l1 i None a (first b None)"
    using d by (intro seg_cong setp_other) (auto dest!: first_in)
  moreover have "seg ?l1 i (Some x) b None = seg l i (Some x) b None"
    using d by (intro seg_cong setn_other) (auto dest!: final_in)
  then have "seg ?l2 i (final a) b None" using seg_setp b d by simp
  ultimately have "seg ?l2 i None (a @ b) None" by (simp add: seg_append final_def split: if_splits)
  moreover have "seg (?l2(x \<mapsto> v)) i None (a @ b) None = seg ?l2 i None (a @ b) None"
    using d by (intro seg_cong) auto
  ultimately show ?thesis by simp
qed

lemma remove_other:
  assumes "x \<notin> set a" "x \<notin> set b"
  shows "setp (setn l (final a) (first b None)) (first b None) (final a) x = l x"
proof -
  have "first b None \<noteq> Some x" "final a \<noteq> Some x" using assms by (auto dest: first_in final_in)
  then show ?thesis by (simp add: setp_other setn_other)
qed

text \<open>Putting one in front.\<close>

lemma seg_push:
  assumes s: "seg l i None ms None" and d: "distinct ms" "x \<notin> set ms"
  shows "seg (setp (l(x \<mapsto> (Some i, None, first ms None))) (first ms None) (Some x)) i None (x # ms) None"
proof -
  have "seg (l(x \<mapsto> v)) i None ms None = seg l i None ms None" for v using d by (intro seg_cong) auto
  then have "seg (setp (l(x \<mapsto> v)) (first ms None) (Some x)) i (Some x) ms None" for v
    using s by (intro seg_setp [OF _ d(1)]) blast
  moreover have "first ms None \<noteq> Some x" using d(2) by (auto dest: first_in)
  ultimately show ?thesis by (simp add: setp_other)
qed

end
