(* ===== verification/SdsLeave.thy ===== *)
theory SdsLeave
  imports SdsRooms
begin

text \<open>
  Leaving a room of \<^verbatim>\<open>server_sds.cpp\<close>: what the pointer updates do to the links and records,
  and that the result stands for the room table of \<^verbatim>\<open>server.cpp\<close>.
\<close>

section \<open>States that differ in links and records\<close>

definition unlinked :: "sconn \<Rightarrow> sconn" where
  "unlinked c = c\<lparr>s_room := None, s_prev := None, s_next := None\<rparr>"

definition moved :: "sworld \<Rightarrow> sworld \<Rightarrow> bool" where
  "moved s s' \<longleftrightarrow> (\<forall>fd. map_option unlinked (slab s' fd) = map_option unlinked (slab s fd))
     \<and> g_doomed s' = g_doomed s \<and> g_dirty s' = g_dirty s \<and> g_total_live s' = g_total_live s \<and> s_sends s' = s_sends s
     \<and> s_recvs s' = s_recvs s \<and> s_accepts s' = s_accepts s \<and> s_wire s' = s_wire s \<and> s_reserve s' = s_reserve s"

text \<open>\<open>relink s L rs free ix s'\<close>: from \<open>s\<close> to \<open>s'\<close> the links became \<open>L\<close> and the directory the other three.\<close>

definition relink :: "sworld \<Rightarrow> (nat \<rightharpoonup> link) \<Rightarrow> sroom list \<Rightarrow> nat option \<Rightarrow> nat cmap \<Rightarrow> sworld \<Rightarrow> bool" where
  "relink s L rs free ix s' \<longleftrightarrow> moved s s' \<and> lk s' = L \<and> g_rooms s' = rs \<and> g_room_free s' = free \<and> g_room_index s' = ix"

lemma moved_refl [simp]: "moved s s"
  by (simp add: moved_def)

lemma moved_trans: "moved a b \<Longrightarrow> moved b c \<Longrightarrow> moved a c"
  by (simp add: moved_def)

lemma same_conn_unlinked: "same_conn (unlinked c) d = same_conn c d"
  by (simp add: same_conn_def nick_of_def queue_ok_def queued_def unlinked_def)

lemma moved_slot: "moved s s' \<Longrightarrow> slab s' fd = None \<longleftrightarrow> slab s fd = None"
  unfolding moved_def by (metis option.map_disc_iff)

lemma moved_io:
  assumes m: "moved s s'" and io: "io_rel n s w"
  shows "io_rel n s' w"
proof -
  have "rel_option same_conn (slab s' fd) (conns w fd)" for fd
  proof -
    have b: "rel_option same_conn (slab s fd) (conns w fd)" using io by (simp add: io_rel_def)
    have "map_option unlinked (slab s' fd) = map_option unlinked (slab s fd)" using m by (simp add: moved_def)
    then show ?thesis
      using b same_conn_unlinked by (cases "slab s fd"; cases "slab s' fd"; cases "conns w fd") (simp_all, metis)
  qed
  moreover have "\<forall>fd. slab s' fd \<noteq> None \<longrightarrow> fd < n" using io moved_slot [OF m] by (simp add: io_rel_def)
  ultimately show ?thesis using m io by (simp add: moved_def io_rel_def)
qed

lemma unlinked_links [simp]:
  "unlinked (c\<lparr>s_room := i, s_prev := p, s_next := q\<rparr>) = unlinked c" "unlinked (c\<lparr>s_prev := p, s_next := q\<rparr>) = unlinked c"
  "unlinked (c\<lparr>s_prev := p, s_next := q, s_room := i\<rparr>) = unlinked c"
  "unlinked (c\<lparr>s_prev := p\<rparr>) = unlinked c" "unlinked (c\<lparr>s_next := q\<rparr>) = unlinked c" "unlinked (c\<lparr>s_room := i\<rparr>) = unlinked c"
  by (simp_all add: unlinked_def)

lemma moved_set: "slab s fd = Some c \<Longrightarrow> unlinked c' = unlinked c \<Longrightarrow> moved s (set_slot fd c' s)"
  by (simp add: moved_def)

lemma set_room_fields [simp]:
  "slab (set_room i r s) = slab s" "g_rooms (set_room i r s) = (g_rooms s)[i := r]"
  "g_room_free (set_room i r s) = g_room_free s" "g_room_index (set_room i r s) = g_room_index s"
  "lk (set_room i r s) = lk s" "moved s (set_room i r s)"
  by (simp_all add: set_room_def lk_def fun_eq_iff moved_def)

lemma lk_set: "lk (set_slot fd c s) = (lk s)(fd \<mapsto> (s_room c, s_prev c, s_next c))"
  by (auto simp: lk_def)

lemma set_next_ok:
  assumes "slab s fd \<noteq> None"
  obtains s' where "set_next fd q s = Inr s'" "relink s (setn (lk s) (Some fd) q) (g_rooms s) (g_room_free s) (g_room_index s) s'"
proof -
  obtain c where c: "slab s fd = Some c" using assms by auto
  let ?s = "set_slot fd (c\<lparr>s_next := q\<rparr>) s"
  have "relink s (setn (lk s) (Some fd) q) (g_rooms s) (g_room_free s) (g_room_index s) ?s"
    using moved_set [OF c, of "c\<lparr>s_next := q\<rparr>"] c by (simp add: relink_def setn_def lk_set) (simp add: lk_def)
  moreover have "set_next fd q s = Inr ?s" using c by (simp add: set_next_def)
  ultimately show ?thesis using that by blast
qed

lemma set_prev_ok:
  assumes "slab s fd \<noteq> None"
  obtains s' where "set_prev fd p s = Inr s'" "relink s (setp (lk s) (Some fd) p) (g_rooms s) (g_room_free s) (g_room_index s) s'"
proof -
  obtain c where c: "slab s fd = Some c" using assms by auto
  let ?s = "set_slot fd (c\<lparr>s_prev := p\<rparr>) s"
  have "relink s (setp (lk s) (Some fd) p) (g_rooms s) (g_room_free s) (g_room_index s) ?s"
    using moved_set [OF c, of "c\<lparr>s_prev := p\<rparr>"] c by (simp add: relink_def setp_def lk_set) (simp add: lk_def)
  moreover have "set_prev fd p s = Inr ?s" using c by (simp add: set_prev_def)
  ultimately show ?thesis using that by blast
qed

section \<open>What leaving does\<close>

lemma unlink_ok:
  assumes i: "i < length (g_rooms s)" and p: "\<And>x. s_prev c = Some x \<Longrightarrow> slab s x \<noteq> None"
    and q: "\<And>x. s_next c = Some x \<Longrightarrow> slab s x \<noteq> None"
  obtains s' where "unlink i c s = Inr s'"
    "relink s (setp (setn (lk s) (s_prev c) (s_next c)) (s_next c) (s_prev c))
       (if s_prev c = None then (g_rooms s)[i := (g_rooms s ! i)\<lparr>rm_head := s_next c\<rparr>] else g_rooms s)
       (g_room_free s) (g_room_index s) s'"
proof -
  define m where "m = (case s_prev c of Some p \<Rightarrow> set_next p (s_next c) s
       | None \<Rightarrow> with_room i s (\<lambda>r. Inr (set_room i (r\<lparr>rm_head := s_next c\<rparr>) s)))"
  let ?rs = "if s_prev c = None then (g_rooms s)[i := (g_rooms s ! i)\<lparr>rm_head := s_next c\<rparr>] else g_rooms s"
  have "\<exists>s1. m = Inr s1 \<and> relink s (setn (lk s) (s_prev c) (s_next c)) ?rs (g_room_free s) (g_room_index s) s1"
  proof (cases "s_prev c")
    case None
    then show ?thesis using i by (simp add: m_def with_room_def relink_def setn_def)
  next
    case (Some x)
    then show ?thesis using set_next_ok [OF p [OF Some], of "s_next c"] unfolding m_def by auto
  qed
  then obtain s1 where s1: "m = Inr s1" "relink s (setn (lk s) (s_prev c) (s_next c)) ?rs (g_room_free s) (g_room_index s) s1"
    by blast
  have "\<exists>s2. (case s_next c of Some q \<Rightarrow> set_prev q (s_prev c) s1 | None \<Rightarrow> Inr s1) = Inr s2
    \<and> relink s (setp (setn (lk s) (s_prev c) (s_next c)) (s_next c) (s_prev c)) ?rs (g_room_free s) (g_room_index s) s2"
  proof (cases "s_next c")
    case None
    then show ?thesis using s1(2) by (simp add: setp_def)
  next
    case (Some x)
    then have "slab s1 x \<noteq> None" using q moved_slot s1(2) unfolding relink_def by blast
    from set_prev_ok [OF this, of "s_prev c"] obtain s2 where "set_prev x (s_prev c) s1 = Inr s2"
        "relink s1 (setp (lk s1) (Some x) (s_prev c)) (g_rooms s1) (g_room_free s1) (g_room_index s1) s2" by blast
    then show ?thesis using s1(2) Some moved_trans by (auto simp: relink_def)
  qed
  then show ?thesis using s1(1) that by (auto simp: unlink_def m_def)
qed

lemma leave_links:
  assumes c: "slab s fd = Some c" "s_room c = Some i" and i: "i < length (g_rooms s)"
    and p: "\<And>x. s_prev c = Some x \<Longrightarrow> slab s x \<noteq> None \<and> x \<noteq> fd" and q: "\<And>x. s_next c = Some x \<Longrightarrow> slab s x \<noteq> None \<and> x \<noteq> fd"
  defines "r \<equiv> (g_rooms s ! i)\<lparr>rm_head := (if s_prev c = None then s_next c else rm_head (g_rooms s ! i)),
      rm_count := rm_count (g_rooms s ! i) - 1\<rparr>"
  defines "L \<equiv> (setp (setn (lk s) (s_prev c) (s_next c)) (s_next c) (s_prev c))(fd \<mapsto> (None, None, None))"
  obtains s' where "leave_room_sds fd s = Inr s'"
    "if rm_count r = 0
     then relink s L ((g_rooms s)[i := r\<lparr>rm_live := False, rm_head := None, rm_next_free := g_room_free s\<rparr>]) (Some i)
       (cmap_erase (cstring (rm_name r)) (g_room_index s)) s'
     else relink s L ((g_rooms s)[i := r]) (g_room_free s) (g_room_index s) s'"
proof -
  let ?L1 = "setp (setn (lk s) (s_prev c) (s_next c)) (s_next c) (s_prev c)"
  let ?rs = "if s_prev c = None then (g_rooms s)[i := (g_rooms s ! i)\<lparr>rm_head := s_next c\<rparr>] else g_rooms s"
  obtain s1 where s1: "unlink i c s = Inr s1" "relink s ?L1 ?rs (g_room_free s) (g_room_index s) s1"
    using unlink_ok [OF i, of c] p q by metis
  then obtain c1 where c1: "slab s1 fd = Some c1" using moved_slot [of s s1 fd] c(1) by (auto simp: relink_def)
  have r1: "g_rooms s1 = ?rs" "i < length (g_rooms s1)" "g_room_free s1 = g_room_free s" "g_room_index s1 = g_room_index s"
    using s1(2) i by (auto simp: relink_def)
  have up: "(g_rooms s1 ! i)\<lparr>rm_count := rm_count (g_rooms s1 ! i) - 1\<rparr> = r" "rm_count (g_rooms s1 ! i) - 1 = rm_count r"
  proof -
    have nth: "g_rooms s1 ! i = (if s_prev c = None then (g_rooms s ! i)\<lparr>rm_head := s_next c\<rparr> else g_rooms s ! i)"
      using i by (simp add: r1(1))
    show "(g_rooms s1 ! i)\<lparr>rm_count := rm_count (g_rooms s1 ! i) - 1\<rparr> = r" "rm_count (g_rooms s1 ! i) - 1 = rm_count r"
      unfolding nth r_def by (cases "s_prev c"; rule sroom.equality; simp) (cases "s_prev c"; simp)
  qed
  define s2 where "s2 = set_room i r (set_slot fd (c1\<lparr>s_prev := None, s_next := None\<rparr>) s1)"
  have rs2: "g_rooms s2 = (g_rooms s)[i := r]" using r1(1) by (simp add: s2_def)
  have s2: "moved s s2" "slab s2 fd = Some (c1\<lparr>s_prev := None, s_next := None\<rparr>)"
      "lk s2 = ?L1(fd \<mapsto> (s_room c1, None, None))" "g_room_free s2 = g_room_free s" "g_room_index s2 = g_room_index s"
    using s1(2) moved_trans [OF _ moved_trans [OF moved_set [OF c1] set_room_fields(6)]] r1
    by (simp_all add: s2_def relink_def lk_set)
  define s3 where "s3 = (if rm_count r = 0 then (set_room i (r\<lparr>rm_live := False, rm_head := None, rm_next_free := g_room_free s\<rparr>) s2)
       \<lparr>g_room_free := Some i, g_room_index := cmap_erase (cstring (rm_name r)) (g_room_index s)\<rparr> else s2)"
  have s3: "(if rm_count r = 0 then room_release i s2 else Inr s2) = Inr s3"
    using i rs2 s2 by (simp add: s3_def room_release_def with_room_def)
  have sl: "slab s3 = slab s2" and lk3: "lk s3 = lk s2" and m3: "moved s2 s3"
    by (auto simp: s3_def lk_def fun_eq_iff moved_def set_room_def)
  have f3: "g_rooms s3 = (if rm_count r = 0
        then (g_rooms s)[i := r\<lparr>rm_live := False, rm_head := None, rm_next_free := g_room_free s\<rparr>] else (g_rooms s)[i := r])"
      "g_room_free s3 = (if rm_count r = 0 then Some i else g_room_free s)"
      "g_room_index s3 = (if rm_count r = 0 then cmap_erase (cstring (rm_name r)) (g_room_index s) else g_room_index s)"
    using rs2 s2(4,5) by (simp_all add: s3_def)
  let ?s = "set_slot fd (c1\<lparr>s_prev := None, s_next := None, s_room := None\<rparr>) s3"
  have "leave_room_sds fd s = bind_res (if rm_count (g_rooms s1 ! i) - 1 = 0
         then room_release i (set_room i ((g_rooms s1 ! i)\<lparr>rm_count := rm_count (g_rooms s1 ! i) - 1\<rparr>)
                (set_slot fd (c1\<lparr>s_prev := None, s_next := None\<rparr>) s1))
         else Inr (set_room i ((g_rooms s1 ! i)\<lparr>rm_count := rm_count (g_rooms s1 ! i) - 1\<rparr>)
                (set_slot fd (c1\<lparr>s_prev := None, s_next := None\<rparr>) s1)))
       (\<lambda>s. with_slot fd s (\<lambda>c. Inr (set_slot fd (c\<lparr>s_room := None\<rparr>) s)))"
    using c s1(1) c1 r1(2) by (simp add: leave_room_sds_def with_room_def Let_def)
  then have "leave_room_sds fd s = Inr ?s"
    unfolding up(1) unfolding up(2) s2_def [symmetric] s3 using sl s2(2) by simp
  moreover have "moved s ?s"
    using moved_trans [OF moved_trans [OF s2(1) m3] moved_set] sl s2(2) by simp
  moreover have "lk ?s = L" using lk3 s2(3) by (simp add: lk_set L_def)
  ultimately show ?thesis
    using f3 by (intro that [of ?s]) (simp_all add: relink_def)
qed

section \<open>Leaving a room\<close>

lemma unat_of_nat_u32: "n < 2 ^ 32 \<Longrightarrow> unat (of_nat n :: u32) = n"
  by (simp add: unat_of_nat take_bit_nat_eq_self)

lemma lists_ok_same:
  assumes ok: "lists_ok m w" and l: "doomed w' = doomed w" "dirty_q w' = dirty_q w"
    and c: "\<And>fd. map_option (\<lambda>d. (closing d, dirty d)) (conns w' fd) = map_option (\<lambda>d. (closing d, dirty d)) (conns w fd)"
  shows "lists_ok m w'"
proof -
  have old: "\<exists>d. conns w fd = Some d \<and> closing d = closing d' \<and> dirty d = dirty d'" if "conns w' fd = Some d'" for fd d'
    using c [of fd] that by (cases "conns w fd") simp_all
  have none: "conns w' fd = None \<longleftrightarrow> conns w fd = None" for fd using c [of fd] by (cases "conns w fd"; cases "conns w' fd") simp_all
  have "fd \<notin> set (doomed w)" if a: "alive w' fd" for fd
  proof -
    obtain d' where d': "conns w' fd = Some d'" "\<not> closing d'" using a by (cases "conns w' fd") (simp_all add: alive_def)
    then obtain d where "conns w fd = Some d" "\<not> closing d" using old by blast
    then have "alive w fd" by (simp add: alive_def)
    then show ?thesis using ok by (simp add: lists_ok_def)
  qed
  moreover have "fd \<notin> set (dirty_q w)" if h: "m \<noteq> Flushing" "conns w' fd = Some d'" "\<not> dirty d'" for fd d'
  proof -
    obtain d where "conns w fd = Some d" "\<not> dirty d" using old h by blast
    then show ?thesis using ok h(1) by (simp add: lists_ok_def)
  qed
  ultimately show ?thesis using ok none by (simp add: lists_ok_def l)
qed

lemma leave_io: "io_rel n s w \<Longrightarrow> io_rel n s (leave_room cfg fd w)"
proof -
  assume io: "io_rel n s w"
  have "rel_option same_conn (slab s x) (conns (leave_room cfg fd w) x)" for x
  proof -
    have "rel_option same_conn (slab s x) (conns w x)" using io by (simp add: io_rel_def)
    moreover have "same_conn c (d\<lparr>room := []\<rparr>) = same_conn c d" for c d by (simp add: same_conn_def)
    ultimately show ?thesis by (cases "slab s x"; cases "conns w x") (auto simp: conns_leave)
  qed
  moreover have "sends (leave_room cfg fd w) = sends w" "recvs (leave_room cfg fd w) = recvs w"
      "accepts (leave_room cfg fd w) = accepts w" "reserve (leave_room cfg fd w) = reserve w"
    by (auto simp: leave_room_def drop_member_def Let_def split: option.split)
  ultimately show ?thesis using io by (simp add: io_rel_def)
qed

lemma lists_ok_leave: "lists_ok m w \<Longrightarrow> lists_ok m (leave_room cfg fd w)"
  by (erule lists_ok_same) (auto simp: conns_leave option.map_comp comp_def)

text \<open>A connection in a room: its place in the list and its links.\<close>

lemma member_links:
  assumes r: "rooms_rel n s w" and d: "conns w fd = Some d" "room d \<noteq> []" and c: "slab s fd = Some c"
  obtains i a b where "rooms w (room d) = Some (a @ fd # b)" "distinct (a @ fd # b)" "cmap_map (g_room_index s) (room d) = Some i"
    "s_room c = Some i" "s_prev c = final a" "s_next c = first b None" "seg (lk s) i None (a @ fd # b) None"
proof -
  have ok: "rooms_ok w" using r by (simp add: rooms_rel_def)
  obtain ms where ms: "rooms w (room d) = Some ms" "fd \<in> set ms" using conn_room_listed [OF ok d] by blast
  then obtain a b where ab: "ms = a @ fd # b" by (meson split_list)
  obtain i where i: "cmap_map (g_room_index s) (room d) = Some i" "seg (lk s) i None ms None"
    using rooms_rel_index [OF r ms(1)] by metis
  from seg_last [of "lk s" i None a fd b None] i(2)
  have "lk s fd = Some (Some i, final a, first b None)" by (simp add: ab final_def)
  then have "s_room c = Some i" "s_prev c = final a" "s_next c = first b None" using c by (simp_all add: lk_def)
  moreover have "distinct ms" using ok ms(1) by (simp add: rooms_ok_def)
  ultimately show ?thesis using that ms(1) ab i by blast
qed

lemma small_count: "length xs < 2 ^ 32 \<Longrightarrow> ((of_nat (length xs) :: u32) = 0) = (xs = [])"
proof (intro iffI)
  assume a: "length xs < 2 ^ 32" "(of_nat (length xs) :: u32) = 0"
  from unat_of_nat_u32 [OF a(1)] show "xs = []" unfolding a(2) by simp
qed simp

lemma room_of_member: "rooms_ok w \<Longrightarrow> rooms w r = Some ms \<Longrightarrow> x \<in> set ms \<Longrightarrow> map_option room (conns w x) = Some r"
  unfolding rooms_ok_def by blast

lemma sds_rel_leave:
  assumes rel: "sds_rel cfg m s w" and d: "conns w fd = Some d" "room d \<noteq> []" and n: "g_slots cfg < 2 ^ 32"
    and c: "slab s fd = Some c" "s_room c = Some i"
  obtains s' where "leave_room_sds fd s = Inr s'" "sds_rel cfg m s' (leave_room (common cfg) fd w)" "i < length (g_rooms s')"
    "if rooms (leave_room (common cfg) fd w) (room d) = None then \<not> rm_live (g_rooms s' ! i)
     else cmap_map (g_room_index s') (room d) = Some i"
proof -
  let ?n = "g_slots cfg" and ?w = "leave_room (common cfg) fd w" and ?r = "room d"
  have rr: "rooms_rel ?n s w" by (rule sds_relD(6) [OF rel])
  have ok: "rooms_ok w" and dir: "dir_ok ?n (g_rooms s) (g_room_free s) (g_room_index s)"
      and dom: "dom (cmap_map (g_room_index s)) = dom (rooms w)" using rr by (simp_all add: rooms_rel_def)
  obtain i' a b where ms: "rooms w ?r = Some (a @ fd # b)" "distinct (a @ fd # b)" and ix': "cmap_map (g_room_index s) ?r = Some i'"
      and c': "s_room c = Some i'" and l': "s_prev c = final a" "s_next c = first b None" "seg (lk s) i' None (a @ fd # b) None"
    by (rule member_links [OF rr d c(1)])
  have "i' = i" using c(2) c' by simp
  note ix = ix' [unfolded this] and l = l' [unfolded this]
  have len: "length (g_rooms s) = ?n" by (rule dir_okD(1) [OF dir])
  have i: "i < ?n" "rm_live (g_rooms s ! i)" "cstring (rm_name (g_rooms s ! i)) = ?r" using dir_okD(3) [OF dir ix] by auto
  have hc: "rm_head (g_rooms s ! i) = first (a @ fd # b) None" "rm_count (g_rooms s ! i) = of_nat (length (a @ fd # b))"
    using rr ms(1) ix by (simp_all add: rooms_rel_def)
  have open': "slab s x \<noteq> None \<and> x \<noteq> fd" if "x \<in> set a \<or> x \<in> set b" for x
  proof -
    have "map_option room (conns w x) = Some ?r" using room_of_member [OF ok ms(1)] that by auto
    then show ?thesis using sds_relD(2) [OF rel, of x] ms(2) that by auto
  qed
  define r where "r = (g_rooms s ! i)\<lparr>rm_head := (if s_prev c = None then s_next c else rm_head (g_rooms s ! i)),
      rm_count := rm_count (g_rooms s ! i) - 1\<rparr>"
  define L where "L = (setp (setn (lk s) (s_prev c) (s_next c)) (s_next c) (s_prev c))(fd \<mapsto> (None, None, None))"
  obtain s' where s': "leave_room_sds fd s = Inr s'"
    "if rm_count r = 0
     then relink s L ((g_rooms s)[i := r\<lparr>rm_live := False, rm_head := None, rm_next_free := g_room_free s\<rparr>]) (Some i)
       (cmap_erase (cstring (rm_name r)) (g_room_index s)) s'
     else relink s L ((g_rooms s)[i := r]) (g_room_free s) (g_room_index s) s'"
    using leave_links [OF c, folded r_def L_def] i(1) len open' l(1,2) first_in final_in by metis
  have hd: "rm_head r = first (a @ b) None" using hc(1) l(1,2) by (cases a) (simp_all add: r_def final_def)
  have ct: "rm_count r = of_nat (length (a @ b))" using hc(2) by (simp add: r_def)
  have "length (a @ fd # b) \<le> ?n" by (rule members_below [OF rel ms(1)])
  then have "length (a @ b) < 2 ^ 32" using n by simp
  then have zero: "rm_count r = 0 \<longleftrightarrow> a @ b = []" unfolding ct by (rule small_count)
  have rem: "removeAll fd (a @ fd # b) = a @ b" using ms(2) by (simp add: removeAll_id)
  have rm: "rooms ?w = (rooms w)(?r := (if a @ b = [] then None else Some (a @ b)))"
    using leave_tables(1) [OF d ms(1), of "common cfg"] unfolding rem .
  have nm: "rm_name r = rm_name (g_rooms s ! i)" "rm_live r" using i(2) by (simp_all add: r_def)
  have seg1: "seg L i None (a @ b) None" using seg_remove [OF l(3) ms(2)] by (simp add: L_def l)
  have seg2: "seg L k None ms' None = seg (lk s) k None ms' None" if "rooms w r' = Some ms'" "r' \<noteq> ?r" for k ms' r'
  proof (rule seg_cong)
    fix x assume "x \<in> set ms'"
    then have "x \<notin> set (a @ fd # b)" using room_of_member [OF ok that(1)] room_of_member [OF ok ms(1)] that(2) by fastforce
    then show "L x = lk s x" by (simp add: L_def l(1,2) remove_other)
  qed
  have ixk: "k \<noteq> i" if "cmap_map (g_room_index s) r' = Some k" "r' \<noteq> ?r" for k r' using dir_inj [OF dir ix] that by blast
  have lk': "lk s' = L" and mv: "moved s s'" using s'(2) by (auto simp: relink_def split: if_splits)
  have none: "s_room c' = None" if s: "slab s' x = Some c'" "conns ?w x = Some e" "room e = []" for x c' e
  proof (cases "x = fd")
    case True
    then show ?thesis using s(1) fun_cong [OF lk', of fd] by (simp add: lk_def L_def)
  next
    case False
    then have e: "conns w x = Some e" using s(2) by (simp add: conns_leave)
    have "x \<notin> set (a @ fd # b)" using room_of_member [OF ok ms(1)] e s(3) d(2) by fastforce
    then have "lk s' x = lk s x" unfolding lk' by (simp add: L_def l(1,2) remove_other)
    from lk_room [OF this s(1)] obtain c0 where c0: "slab s x = Some c0" "s_room c0 = s_room c'" by blast
    have "s_room c0 = None" using rr c0(1) e s(3) unfolding rooms_rel_def by blast
    then show ?thesis using c0(2) by simp
  qed
  have rok: "rooms_ok ?w" by (rule rooms_ok_leave [OF ok d])
  have rooms: "rooms_rel ?n s' ?w \<and> (if rooms ?w ?r = None then \<not> rm_live (g_rooms s' ! i)
      else cmap_map (g_room_index s') ?r = Some i)"
  proof (cases "a @ b = []")
    case True
    then have f: "g_rooms s' = (g_rooms s)[i := r\<lparr>rm_live := False, rm_head := None, rm_next_free := g_room_free s\<rparr>]"
        "g_room_free s' = Some i" "g_room_index s' = cmap_erase ?r (g_room_index s)"
      using s'(2) zero nm i(3) by (simp_all add: relink_def)
    have up: "dir_ok ?n ((g_rooms s)[i := r]) (g_room_free s) (g_room_index s)" by (rule dir_upd [OF dir i(1,2) nm])
    have at: "(g_rooms s)[i := r] ! i = r" using i(1) len by simp
    have dir': "dir_ok ?n (g_rooms s') (g_room_free s') (g_room_index s')"
        "cmap_map (g_room_index s') = (cmap_map (g_room_index s))(?r := None)"
      using dir_release [OF up i(1)] nm i(3) unfolding at f by simp_all
    have others: "rm_head (g_rooms s' ! k) = first ms' None \<and> rm_count (g_rooms s' ! k) = of_nat (length ms') \<and> seg (lk s') k None ms' None"
      if "rooms ?w r' = Some ms'" "cmap_map (g_room_index s') r' = Some k" for r' ms' k
    proof -
      have r': "rooms w r' = Some ms'" "cmap_map (g_room_index s) r' = Some k" "r' \<noteq> ?r"
        using that True by (auto simp: rm dir'(2) split: if_splits)
      then have "k \<noteq> i" using ixk by blast
      then show ?thesis using rr r'(1,2) seg2 [OF r'(1,3)] unfolding lk' f rooms_rel_def by simp
    qed
    show ?thesis
      unfolding rooms_rel_def using rok dir' others none dom i(1) len f(1) True by (auto simp: rm)
  next
    case False
    then have "relink s L ((g_rooms s)[i := r]) (g_room_free s) (g_room_index s) s'" using s'(2) unfolding zero by (simp only: if_False)
    then have f: "g_rooms s' = (g_rooms s)[i := r]" "g_room_free s' = g_room_free s" "g_room_index s' = g_room_index s"
      by (simp_all add: relink_def)
    have dir': "dir_ok ?n (g_rooms s') (g_room_free s') (g_room_index s')" unfolding f by (rule dir_upd [OF dir i(1,2) nm])
    have others: "rm_head (g_rooms s' ! k) = first ms' None \<and> rm_count (g_rooms s' ! k) = of_nat (length ms') \<and> seg (lk s') k None ms' None"
      if "rooms ?w r' = Some ms'" "cmap_map (g_room_index s') r' = Some k" for r' ms' k
    proof (cases "r' = ?r")
      case True
      then have "k = i" "ms' = a @ b" using that ix False by (auto simp: rm f)
      then show ?thesis using seg1 hd ct i(1) len by (simp add: f lk')
    next
      case False
      then have r': "rooms w r' = Some ms'" "cmap_map (g_room_index s) r' = Some k" "k \<noteq> i"
        using that ixk by (auto simp: rm f)
      then show ?thesis using rr seg2 [OF r'(1) False] unfolding lk' f rooms_rel_def by simp
    qed
    have "dom (cmap_map (g_room_index s')) = dom (rooms ?w)" using dom ms(1) False by (auto simp: rm f)
    then show ?thesis
      unfolding rooms_rel_def using rok dir' others none ix False by (simp add: rm f) blast
  qed
  have len': "length (g_rooms s') = ?n" using rooms dir_okD(1) unfolding rooms_rel_def by blast
  have "stream_ok w" using rel by (simp add: sds_rel_def)
  then have "sds_rel cfg m s' ?w"
    using rooms moved_io [OF mv leave_io [OF sds_relD(4) [OF rel]]] lists_ok_leave [OF sds_relD(5) [OF rel]]
      stream_ok_frame [OF _ same_in_leave] unfolding sds_rel_def by blast
  then show ?thesis using that s'(1) rooms len' i(1) by simp
qed

end
