(* ===== verification/SdsEnter.thy ===== *)
theory SdsEnter
  imports SdsLeave
begin

text \<open>
  Entering a room of \<^verbatim>\<open>server_sds.cpp\<close>: a record is found or taken from the free list, which is never
  empty then, the connection is put at the head of the list, and the result stands for the room table of
  \<^verbatim>\<open>server.cpp\<close>.
\<close>

section \<open>There is always a spare record\<close>

lemma spare_record:
  assumes rel: "sds_rel cfg m s w" and d: "conns w fd = Some d" "room d = []"
  obtains j where "j < g_slots cfg" "\<not> rm_live (g_rooms s ! j)"
proof -
  let ?n = "g_slots cfg" and ?rs = "g_rooms s"
  have rr: "rooms_rel ?n s w" by (rule sds_relD(6) [OF rel])
  have ok: "rooms_ok w" and dir: "dir_ok ?n ?rs (g_room_free s) (g_room_index s)"
      and dom: "dom (cmap_map (g_room_index s)) = dom (rooms w)" using rr by (simp_all add: rooms_rel_def)
  have "\<exists>j < ?n. \<not> rm_live (?rs ! j)"
  proof (rule ccontr)
    assume "\<not> (\<exists>j < ?n. \<not> rm_live (?rs ! j))"
    then have all: "rm_live (?rs ! j)" if "j < ?n" for j using that by blast
    define name where "name j = cstring (rm_name (?rs ! j))" for j
    define member where "member j = hd (the (rooms w (name j)))" for j
    have named: "cmap_map (g_room_index s) (name j) = Some j" if "j < ?n" for j
      using dir_okD(5) [OF dir that all [OF that]] by (simp add: name_def)
    have mem: "map_option room (conns w (member j)) = Some (name j) \<and> name j \<noteq> []" if j: "j < ?n" for j
    proof -
      have "name j \<in> dom (rooms w)" using named [OF j] dom by blast
      then obtain ms where ms: "rooms w (name j) = Some ms" by blast
      then have "ms \<noteq> []" "name j \<noteq> []" using ok by (auto simp: rooms_ok_def)
      then show ?thesis using room_of_member [OF ok ms, of "hd ms"] ms by (simp add: member_def)
    qed
    have "inj_on member {..<?n}"
    proof (rule inj_onI)
      fix j k assume a: "j \<in> {..<?n}" "k \<in> {..<?n}" "member j = member k"
      then have jk: "j < ?n" "k < ?n" by simp_all
      have "map_option room (conns w (member k)) = Some (name j)" using mem [OF jk(1)] unfolding a(3) by blast
      then have "name j = name k" using conjunct1 [OF mem [OF jk(2)]] by (rule option.inject [THEN iffD1, OF trans [OF sym]])
      then have "cmap_map (g_room_index s) (name k) = Some j" using named [OF jk(1)] by simp
      then show "j = k" using named [OF jk(2)] by simp
    qed
    moreover have "member ` {..<?n} \<subseteq> {..<?n} - {fd}"
    proof
      fix x assume "x \<in> member ` {..<?n}"
      then obtain j where j: "j < ?n" "x = member j" by auto
      have "conns w x \<noteq> None" using mem [OF j(1)] j(2) by (cases "conns w x") simp_all
      moreover have "x \<noteq> fd" using mem [OF j(1)] j(2) d by auto
      ultimately show "x \<in> {..<?n} - {fd}" using sds_relD(3) [OF rel, of x] by simp
    qed
    ultimately have "card {..<?n} \<le> card ({..<?n} - {fd})" by (intro card_inj_on_le) auto
    moreover have "fd < ?n" using sds_relD(3) [OF rel, of fd] d by simp
    ultimately show False by simp
  qed
  then show ?thesis using that by blast
qed

section \<open>The record\<close>

definition members :: "bytes \<Rightarrow> world \<Rightarrow> nat list" where
  "members r w = (case rooms w r of None \<Rightarrow> [] | Some ms \<Rightarrow> ms)"

lemma room_of_members: "rooms_ok w \<Longrightarrow> x \<in> set (members r w) \<Longrightarrow> map_option room (conns w x) = Some r"
  using room_of_member [of w r] by (cases "rooms w r") (simp_all add: members_def)

lemma acquire_ok:
  assumes rel: "sds_rel cfg m s w" and d: "conns w fd = Some d" "room d = []" and n: "g_slots cfg < 2 ^ 32"
    and r: "cstr_ok r" "length r \<le> k_room_max"
  obtains i rs free ix s' where "room_acquire r s = Inr (i, s')" "relink s (lk s) rs free ix s'" "i < g_slots cfg"
    "dir_ok (g_slots cfg) rs free ix" "rm_live (rs ! i)" "cmap_map ix = (cmap_map (g_room_index s))(r \<mapsto> i)"
    "rm_head (rs ! i) = first (members r w) None" "rm_count (rs ! i) = of_nat (length (members r w))"
    "seg (lk s) i None (members r w) None" "\<forall>k. k \<noteq> i \<longrightarrow> rs ! k = g_rooms s ! k"
proof -
  let ?n = "g_slots cfg" and ?rs = "g_rooms s"
  have rr: "rooms_rel ?n s w" by (rule sds_relD(6) [OF rel])
  have dir: "dir_ok ?n ?rs (g_room_free s) (g_room_index s)" and dom: "dom (cmap_map (g_room_index s)) = dom (rooms w)"
    using rr by (simp_all add: rooms_rel_def)
  have find: "cmap_find (cstring r) (g_room_index s) = cmap_map (g_room_index s) r"
    using find_map [OF dir_okD(2) [OF dir] r(1)] cstring_id [OF r(1)] by simp
  show ?thesis
  proof (cases "rooms w r")
    case (Some ms)
    obtain i where i: "cmap_map (g_room_index s) r = Some i" "i < ?n" "rm_live (?rs ! i)" "rm_head (?rs ! i) = first ms None"
        "rm_count (?rs ! i) = of_nat (length ms)" "seg (lk s) i None ms None"
      using rooms_rel_index [OF rr Some] by metis
    have "(cmap_map (g_room_index s))(r \<mapsto> i) = cmap_map (g_room_index s)" using i(1) by (simp add: fun_upd_idem)
    moreover have "room_acquire r s = Inr (i, s)" using find i(1) by (simp add: room_acquire_def)
    ultimately show ?thesis using i dir Some by (intro that [of i s ?rs "g_room_free s" "g_room_index s"]) (simp_all add: relink_def members_def)
  next
    case None
    then have new: "cmap_map (g_room_index s) r = None" using dom by (metis domIff)
    obtain j where j: "j < ?n" "\<not> rm_live (?rs ! j)" by (rule spare_record [OF rel d])
    obtain i nm where a: "g_room_free s = Some i" "i < ?n" "put (rm_name (?rs ! i)) 0 (r @ [0]) = Inr nm" "cstring nm = r"
        "dir_ok ?n (?rs[i := (?rs ! i)\<lparr>rm_name := nm, rm_head := None, rm_count := 0, rm_live := True\<rparr>]) (rm_next_free (?rs ! i))
           (cmap_insert r i (g_room_index s))"
        "cmap_map (cmap_insert r i (g_room_index s)) = (cmap_map (g_room_index s))(r \<mapsto> i)"
      using dir_acquire [OF dir n r new j] by metis
    have len: "length ?rs = ?n" by (rule dir_okD(1) [OF dir])
    let ?r = "(?rs ! i)\<lparr>rm_name := nm, rm_head := None, rm_count := 0, rm_live := True\<rparr>"
    let ?s = "(set_room i ?r s)\<lparr>g_room_free := rm_next_free (?rs ! i), g_room_index := cmap_insert r i (g_room_index s)\<rparr>"
    have "room_acquire r s = Inr (i, ?s)"
      using find new a(1-4) len by (simp add: room_acquire_def with_room_def)
    moreover have "lk ?s = lk s" "moved s ?s" by (simp_all add: lk_def fun_eq_iff moved_def set_room_def)
    ultimately show ?thesis
      using a len None
      by (intro that [of i ?s "?rs[i := ?r]" "rm_next_free (?rs ! i)" "cmap_insert r i (g_room_index s)"])
        (simp_all add: relink_def members_def)
  qed
qed

section \<open>The list\<close>

lemma join_links:
  assumes c: "slab s fd = Some c" and i: "i < length (g_rooms s)"
    and h: "\<And>x. rm_head (g_rooms s ! i) = Some x \<Longrightarrow> slab s x \<noteq> None"
  defines "r \<equiv> g_rooms s ! i"
  obtains s' where "join_room fd i s = Inr s'"
    "relink s (setp ((lk s)(fd \<mapsto> (Some i, None, rm_head r))) (rm_head r) (Some fd))
       ((g_rooms s)[i := r\<lparr>rm_head := Some fd, rm_count := rm_count r + 1\<rparr>]) (g_room_free s) (g_room_index s) s'"
proof -
  define s1 where "s1 = set_slot fd (c\<lparr>s_room := Some i, s_prev := None, s_next := rm_head r\<rparr>) s"
  have s1: "moved s s1" "lk s1 = (lk s)(fd \<mapsto> (Some i, None, rm_head r))" "g_rooms s1 = g_rooms s"
      "g_room_free s1 = g_room_free s" "g_room_index s1 = g_room_index s"
    using moved_set [OF c, of "c\<lparr>s_room := Some i, s_prev := None, s_next := rm_head r\<rparr>"] by (simp_all add: s1_def lk_set)
  have "\<exists>s2. (case rm_head r of None \<Rightarrow> Inr s1 | Some h \<Rightarrow> set_prev h (Some fd) s1) = Inr s2
    \<and> relink s1 (setp (lk s1) (rm_head r) (Some fd)) (g_rooms s1) (g_room_free s1) (g_room_index s1) s2"
  proof (cases "rm_head r")
    case None
    then show ?thesis by (simp add: relink_def setp_def)
  next
    case (Some x)
    then have "slab s1 x \<noteq> None" using h moved_slot [OF s1(1)] by (simp add: r_def)
    then obtain s2 where "set_prev x (Some fd) s1 = Inr s2"
        "relink s1 (setp (lk s1) (Some x) (Some fd)) (g_rooms s1) (g_room_free s1) (g_room_index s1) s2"
      using set_prev_ok by metis
    then show ?thesis using Some by simp
  qed
  then obtain s2 where s2: "(case rm_head r of None \<Rightarrow> Inr s1 | Some h \<Rightarrow> set_prev h (Some fd) s1) = Inr s2"
      "relink s1 (setp (lk s1) (rm_head r) (Some fd)) (g_rooms s1) (g_room_free s1) (g_room_index s1) s2" by blast
  let ?s = "set_room i (r\<lparr>rm_head := Some fd, rm_count := rm_count r + 1\<rparr>) s2"
  have "join_room fd i s = Inr ?s"
    using c i s2(1) unfolding s1_def r_def by (simp add: join_room_def with_room_def Let_def)
  moreover have "moved s ?s" using s1(1) s2(2) moved_trans set_room_fields(6) unfolding relink_def by blast
  ultimately show ?thesis using that [of ?s] s1 s2(2) by (simp add: relink_def)
qed

section \<open>Entering\<close>

lemma rooms_ok_enter:
  assumes ok: "rooms_ok w" and d: "conns w fd = Some d" "room d = []" and r: "r \<noteq> []"
  shows "rooms_ok (enter_room (common cfg) fd r w)" "rooms (enter_room (common cfg) fd r w) = (rooms w)(r \<mapsto> fd # members r w)"
    "fd \<notin> set (members r w)" "distinct (members r w)"
proof -
  have out: "fd \<notin> set ms" if "rooms w r' = Some ms" for r' ms
  proof
    assume "fd \<in> set ms"
    from room_of_member [OF ok that this] have "r' = []" using d by simp
    then show False using ok that by (auto simp: rooms_ok_def)
  qed
  show fd: "fd \<notin> set (members r w)" and "distinct (members r w)"
    using out ok by (auto simp: members_def rooms_ok_def split: option.split)
  let ?w = "enter_room (common cfg) fd r w"
  show rm: "rooms ?w = (rooms w)(r \<mapsto> fd # members r w)" using out by (auto simp: enter_room_def members_def split: option.split)
  note mem = room_of_members [OF ok, of _ r]
  show "rooms_ok ?w"
    unfolding rooms_ok_def
  proof (intro conjI allI impI)
    fix r' ms assume a: "rooms ?w r' = Some ms"
    show "r' \<noteq> []" "ms \<noteq> []" "distinct ms"
      using a ok fd \<open>distinct (members r w)\<close> r by (auto simp: rm rooms_ok_def split: if_splits)
    show "map_option room (conns ?w x) = Some r'" if x: "x \<in> set ms" for x
    proof (cases "r' = r")
      case True
      then show ?thesis using a x d mem by (auto simp: rm conns_enter)
    next
      case False
      then have "map_option room (conns w x) = Some r'" using a x room_of_member [OF ok] by (simp add: rm)
      then show ?thesis using d r False out a x by (auto simp: rm conns_enter)
    qed
  next
    fix x e assume a: "conns ?w x = Some e" "room e \<noteq> []"
    show "\<exists>ms. rooms ?w (room e) = Some ms \<and> x \<in> set ms"
    proof (cases "x = fd")
      case True
      then show ?thesis using a d by (auto simp: rm conns_enter)
    next
      case False
      then have e: "conns w x = Some e" using a by (simp add: conns_enter)
      obtain ms where "rooms w (room e) = Some ms" "x \<in> set ms" using conn_room_listed [OF ok e a(2)] by blast
      then show ?thesis by (cases "room e = r") (auto simp: rm members_def)
    qed
  qed
qed

lemma sds_rel_enter:
  assumes rel: "sds_rel cfg m s w" and d: "conns w fd = Some d" "room d = []" and n: "g_slots cfg < 2 ^ 32"
    and r: "cstr_ok r" "length r \<le> k_room_max" "r \<noteq> []"
  obtains s' c i where "enter_new fd r s = Inr s'" "sds_rel cfg m s' (enter_room (common cfg) fd r w)" "slab s' fd = Some c"
    "s_room c = Some i" "cmap_map (g_room_index s') r = Some i"
proof -
  let ?n = "g_slots cfg" and ?w = "enter_room (common cfg) fd r w" and ?ms = "members r w"
  have rr: "rooms_rel ?n s w" by (rule sds_relD(6) [OF rel])
  have ok: "rooms_ok w" and dom: "dom (cmap_map (g_room_index s)) = dom (rooms w)" using rr by (simp_all add: rooms_rel_def)
  note en = rooms_ok_enter [OF ok d r(3)]
  obtain i rs free ix s1 where a: "room_acquire r s = Inr (i, s1)" "relink s (lk s) rs free ix s1" "i < ?n"
    "dir_ok ?n rs free ix" "rm_live (rs ! i)" "cmap_map ix = (cmap_map (g_room_index s))(r \<mapsto> i)"
    "rm_head (rs ! i) = first ?ms None" "rm_count (rs ! i) = of_nat (length ?ms)"
    "seg (lk s) i None ?ms None" "\<forall>k. k \<noteq> i \<longrightarrow> rs ! k = g_rooms s ! k"
    by (rule acquire_ok [OF rel d n r(1,2)]) (rule that)
  have f: "g_rooms s1 = rs" "g_room_free s1 = free" "g_room_index s1 = ix" "lk s1 = lk s" "moved s s1"
    using a(2) by (simp_all add: relink_def)
  have len: "length rs = ?n" by (rule dir_okD(1) [OF a(4)])
  obtain c where "slab s fd = Some c" using sds_slot [OF rel d(1)] by metis
  then obtain c1 where c1: "slab s1 fd = Some c1" using moved_slot [OF f(5), of fd] by auto
  note mem = room_of_members [OF ok, of _ r]
  have heads: "slab s1 x \<noteq> None" if "rm_head (g_rooms s1 ! i) = Some x" for x
  proof -
    have "x \<in> set ?ms" using that a(7) first_in by (simp add: f(1))
    then show ?thesis using mem [of x] sds_relD(2) [OF rel, of x] moved_slot [OF f(5), of x] by auto
  qed
  define L where "L = setp ((lk s)(fd \<mapsto> (Some i, None, first ?ms None))) (first ?ms None) (Some fd)"
  define q where "q = (rs ! i)\<lparr>rm_head := Some fd, rm_count := rm_count (rs ! i) + 1\<rparr>"
  obtain s' where j: "join_room fd i s1 = Inr s'" "relink s1 L (rs[i := q]) free ix s'"
    using join_links [OF c1 _ heads, of i] a(3,7) len f by (auto simp: L_def q_def)
  have f': "g_rooms s' = rs[i := q]" "g_room_free s' = free" "g_room_index s' = ix" "lk s' = L" "moved s s'"
    using j(2) moved_trans [OF f(5)] by (simp_all add: relink_def)
  have dir': "dir_ok ?n (g_rooms s') (g_room_free s') (g_room_index s')"
    unfolding f' by (rule dir_upd [OF a(4,3,5)]) (simp_all add: q_def a(5))
  have seg1: "seg L i None (fd # ?ms) None" unfolding L_def by (rule seg_push [OF a(9) en(4,3)])
  have other: "L x = lk s x" if "x \<noteq> fd" "x \<notin> set ?ms" for x
  proof -
    have "first ?ms None \<noteq> Some x" using that(2) first_in by blast
    then show ?thesis using that(1) by (simp add: L_def setp_other)
  qed
  have ixk: "k \<noteq> i" if "cmap_map ix r' = Some k" "r' \<noteq> r" for k r' using dir_inj [OF a(4), of r' i r] a(6) that by auto
  have others: "rm_head (g_rooms s' ! k) = first ms' None \<and> rm_count (g_rooms s' ! k) = of_nat (length ms') \<and> seg (lk s') k None ms' None"
    if h: "rooms ?w r' = Some ms'" "cmap_map (g_room_index s') r' = Some k" for r' ms' k
  proof (cases "r' = r")
    case True
    then have "k = i" "ms' = fd # ?ms" using h a(6) by (auto simp: en(2) f')
    then show ?thesis using seg1 a(3,8) len by (simp add: f' q_def)
  next
    case False
    then have r': "rooms w r' = Some ms'" "cmap_map (g_room_index s) r' = Some k" "k \<noteq> i"
      using h ixk a(6) by (auto simp: en(2) f')
    have "seg L k None ms' None = seg (lk s) k None ms' None"
    proof (intro seg_cong other)
      fix x assume x: "x \<in> set ms'"
      have "map_option room (conns w x) = Some r'" by (rule room_of_member [OF ok r'(1) x])
      moreover have "r' \<noteq> []" using ok r'(1) by (simp add: rooms_ok_def)
      ultimately show "x \<noteq> fd" "x \<notin> set ?ms" using d mem [of x] False by auto
    qed
    then show ?thesis using rr r' a(10) by (simp add: f' rooms_rel_def)
  qed
  have none: "s_room c' = None" if h: "slab s' x = Some c'" "conns ?w x = Some e" "room e = []" for x c' e
  proof -
    have x: "x \<noteq> fd" using h r(3) by (auto simp: conns_enter)
    then have e: "conns w x = Some e" using h by (simp add: conns_enter)
    then have "x \<notin> set ?ms" using mem [of x] h(3) r(3) by auto
    then have "lk s' x = lk s x" using other x by (simp add: f')
    from lk_room [OF this h(1)] obtain c0 where c0: "slab s x = Some c0" "s_room c0 = s_room c'" by blast
    have "s_room c0 = None" using rr c0(1) e h(3) unfolding rooms_rel_def by blast
    then show ?thesis using c0(2) by simp
  qed
  have "rooms_rel ?n s' ?w"
    unfolding rooms_rel_def using en(1) dir' others none dom a(6) by (simp add: en(2) f' insert_absorb)
  moreover have "io_rel ?n s' ?w"
  proof -
    have io: "io_rel ?n s' w" by (rule moved_io [OF f'(5) sds_relD(4) [OF rel]])
    have "rel_option same_conn (slab s' x) (conns ?w x)" for x
    proof -
      have "rel_option same_conn (slab s' x) (conns w x)" using io by (simp add: io_rel_def)
      moreover have "same_conn c (d\<lparr>room := r\<rparr>) = same_conn c d" for c d by (simp add: same_conn_def)
      ultimately show ?thesis by (cases "slab s' x"; cases "conns w x") (auto simp: conns_enter)
    qed
    then show ?thesis using io by (simp add: io_rel_def) (simp add: enter_room_def)
  qed
  moreover have "lists_ok m ?w"
    by (rule lists_ok_same [OF sds_relD(5) [OF rel]]) (simp_all add: conns_enter option.map_comp comp_def)
  moreover have "stream_ok ?w"
    using rel stream_ok_frame [OF _ same_in_enter] by (simp add: sds_rel_def)
  ultimately have rel': "sds_rel cfg m s' ?w" by (simp add: sds_rel_def)
  obtain c' where c': "slab s' fd = Some c'" using moved_slot [OF f'(5), of fd] \<open>slab s fd = Some c\<close> by auto
  then have "s_room c' = Some i" using seg1 fun_cong [OF f'(4), of fd] by (simp add: lk_def)
  moreover have "enter_new fd r s = Inr s'" using a(1) j(1) by (simp add: enter_new_def)
  ultimately show ?thesis using that rel' c' a(6) by (simp add: f')
qed

end
