(* ===== verification/SdsPacket.thy ===== *)
theory SdsPacket
  imports SdsEnter
begin

text \<open>
  The packet handlers of \<^verbatim>\<open>server_sds.cpp\<close> do what those of \<^verbatim>\<open>server.cpp\<close> do, and none of them writes past the
  end of an array.
\<close>

section \<open>Rooms of a connection\<close>

lemma room_index_of:
  assumes rel: "sds_rel cfg m s w" and d: "conns w fd = Some d" and c: "slab s fd = Some c"
  shows "if room d = [] then s_room c = None else \<exists>i. s_room c = Some i \<and> cmap_map (g_room_index s) (room d) = Some i"
proof (cases "room d = []")
  case True
  then show ?thesis using sds_relD(6) [OF rel] d c unfolding rooms_rel_def by simp
next
  case False
  from member_links [OF sds_relD(6) [OF rel] d False c] show ?thesis using False by (metis (full_types))
qed

lemma sim_leave:
  assumes rel: "sds_rel cfg m s w" and d: "conns w fd = Some d" and n: "g_slots cfg < 2 ^ 32"
  shows "sim cfg m (leave_room (common cfg) fd w) (leave_room_sds fd s)"
proof -
  obtain c where c: "slab s fd = Some c" using sds_slot [OF rel d] by metis
  show ?thesis
  proof (cases "room d = []")
    case True
    then have "s_room c = None" using room_index_of [OF rel d c] by simp
    then show ?thesis using True rel d c by (simp add: leave_room_def leave_room_sds_def)
  next
    case False
    then obtain i where "s_room c = Some i" using room_index_of [OF rel d c] by auto
    from sds_rel_leave [OF rel d False n c this] show ?thesis by (metis sim_Inr)
  qed
qed

lemma sim_broadcast_room:
  assumes rel: "sds_rel cfg m s w" and d: "conns w fd = Some d" "room d \<noteq> []" and c: "slab s fd = Some c" and m: "m \<noteq> Flushing"
  shows "sim cfg m (broadcast (common cfg) (room d) t p e w) (broadcast_sds cfg (s_room c) t p e s)"
proof -
  obtain i where "s_room c = Some i" "cmap_map (g_room_index s) (room d) = Some i" using room_index_of [OF rel d(1) c] d(2) by auto
  then show ?thesis using sim_broadcast [OF rel _ m] by simp
qed

section \<open>Assembled messages\<close>

lemma length_ascii [simp]: "length (ascii s) = length s"
  by (simp add: ascii_def)

lemma put_line_ok: "length (concat parts) \<le> k_line \<Longrightarrow> put_line parts = Inr (concat parts)"
  by (simp add: put_line_def)

lemma nick_facts:
  assumes "same_conn c d"
  shows "nick_of c = nick d" "length (nick d) \<le> k_nick_max" "s_nick_len c = 0 \<longleftrightarrow> nick d = []"
proof -
  show n: "nick_of c = nick d" using assms by (simp add: same_conn_def)
  have len: "length (s_nick c) = k_nick_max + 1" "unat (s_nick_len c) \<le> k_nick_max" using assms by (simp_all add: same_conn_def)
  have l: "length (nick d) = unat (s_nick_len c)" using len unfolding n [symmetric] nick_of_def by simp
  then show "length (nick d) \<le> k_nick_max" using len by simp
  show "s_nick_len c = 0 \<longleftrightarrow> nick d = []" using l by (metis length_0_conv unsigned_0 unsigned_eq_0_iff)
qed

section \<open>The handlers\<close>

lemma sim_nick:
  assumes rel: "sds_rel cfg m s w" and d: "conns w fd = Some d"
  shows "sim cfg m (on_nick fd p w) (on_nick_sds cfg fd p s)"
proof -
  obtain c where c: "slab s fd = Some c" "same_conn c d" using sds_slot [OF rel d] by metis
  define n where "n = min (length p) k_nick_max"
  have t: "take n p = take 31 p" "length (take n p) = n" "n \<le> k_nick_max" by (auto simp: n_def k_nick_max_def min_def)
  have len: "length (s_nick c) = k_nick_max + 1" using c(2) by (simp add: same_conn_def)
  let ?a = "mem_copy (s_nick c) 0 (take n p)" and ?nk = "mem_copy (mem_copy (s_nick c) 0 (take n p)) n [0]"
  have la: "length ?a = k_nick_max + 1" and lk: "length ?nk = k_nick_max + 1" using len t by simp_all
  have "take n ?nk = take n ?a" using la t by (simp add: mem_copy_def)
  also have "\<dots> = take n p" using t(2) by (simp add: mem_copy_def)
  finally have tk: "take n ?nk = take 31 p" using t(1) by simp
  have un: "unat (of_nat n :: u08) = n" using t(3) by (simp add: k_nick_max_def unat_of_nat take_bit_nat_eq_self)
  let ?c = "c\<lparr>s_nick := ?nk, s_nick_len := of_nat n\<rparr>" and ?f = "\<lambda>d. d\<lparr>nick := take 31 p\<rparr>"
  have same: "same_conn ?c (?f d)"
    using c(2) tk un lk t(3) by (simp add: same_conn_def nick_of_def queue_ok_def queued_def)
  have links: "same_links s (set_slot fd ?c s)" by (rule same_links_set [OF c(1)]) simp_all
  have "rooms_rel (g_slots cfg) (set_slot fd ?c s) (upd fd ?f w)"
    by (rule rooms_rel_frame [OF sds_relD(6) [OF rel] links]) (simp_all add: option.map_comp comp_def)
  moreover have "stream_ok (upd fd ?f w)" using stream_ok_frame [OF _ same_in_upd [of ?f w fd]] rel by (simp add: sds_rel_def)
  ultimately have rel': "sds_rel cfg m (set_slot fd ?c s) (upd fd ?f w)"
    using io_rel_set [where f = ?f, OF sds_relD(4) [OF rel] c(1) d same] lists_ok_upd [of m w ?f fd] sds_relD(5) [OF rel]
    by (simp add: sds_rel_def)
  have "put (s_nick c) 0 (take n p) = Inr ?a" "put ?a n [0] = Inr ?nk" using len la t by (simp_all add: put_def)
  moreover have "put_line [ascii ''nick set to '', take n ?nk] = Inr (ascii ''nick set to '' @ take 31 p)"
    using put_line_ok [of "[ascii ''nick set to '', take n ?nk]"] t(3) unfolding tk
    by (simp add: k_line_def k_max_payload_def k_nick_max_def)
  ultimately have "on_nick_sds cfg fd p s = queue_send_sds cfg fd s_notice (ascii ''nick set to '' @ take 31 p) (set_slot fd ?c s)"
    using c(1) by (simp add: on_nick_sds_def Let_def n_def [symmetric])
  moreover have "conns (upd fd ?f w) fd = Some (?f d)" using d by simp
  ultimately show ?thesis using sim_queue [OF rel'] by (simp add: on_nick_def Let_def)
qed

lemma sim_queue_then:
  assumes rel: "sds_rel cfg m s w" and d: "conns w fd = Some d"
    and k: "\<And>s d'. sds_rel cfg m s (queue_send fd t p w) \<Longrightarrow> conns (queue_send fd t p w) fd = Some d' \<Longrightarrow> core d' = core d
      \<Longrightarrow> sim cfg m' w' (k s)"
  shows "sim cfg m' w' (bind_res (queue_send_sds cfg fd t p s) k)"
  using sim_bind [OF sim_queue [OF rel d]] same_core_conn [OF same_core_queue(1) d] k by metis

lemma sim_greet:
  assumes rel: "sds_rel cfg m s w" and d: "conns w fd = Some d" "room d = r" "r \<noteq> []" and m: "m \<noteq> Flushing"
  shows "sim cfg m (broadcast (common cfg) r s_notice (nick d @ ascii '' joined'') (Some fd)
      (queue_send fd s_notice (ascii ''joined '' @ r) w)) (greet cfg fd r s)"
proof -
  obtain c where c: "slab s fd = Some c" "same_conn c d" using sds_slot [OF rel d(1)] by metis
  have rr: "rooms_rel (g_slots cfg) s w" by (rule sds_relD(6) [OF rel])
  then have dir: "dir_ok (g_slots cfg) (g_rooms s) (g_room_free s) (g_room_index s)" by (simp add: rooms_rel_def)
  obtain i where i: "s_room c = Some i" "cmap_map (g_room_index s) r = Some i" using room_index_of [OF rel d(1) c(1)] d by auto
  then have ir: "i < length (g_rooms s)" "cstring (rm_name (g_rooms s ! i)) = r" "length (rm_name (g_rooms s ! i)) = k_room_max + 1"
    using dir_okD [OF dir] by auto
  have r: "take (length r) (rm_name (g_rooms s ! i)) = r" "length r \<le> k_room_max + 1"
    using ir(2,3) takeWhile_eq_take [of "\<lambda>b. b \<noteq> 0" "rm_name (g_rooms s ! i)"]
      length_takeWhile_le [of "\<lambda>b. b \<noteq> 0" "rm_name (g_rooms s ! i)"] by (auto simp: cstring_def)
  have a1: "put_line [ascii ''joined '', take (length r) (rm_name (g_rooms s ! i))] = Inr (ascii ''joined '' @ r)"
    using r put_line_ok [of "[ascii ''joined '', r]"] by (simp add: k_line_def k_max_payload_def k_room_max_def)
  have "sim cfg m (broadcast (common cfg) r s_notice (nick d @ ascii '' joined'') (Some fd) (queue_send fd s_notice (ascii ''joined '' @ r) w))
     (bind_res (queue_send_sds cfg fd s_notice (ascii ''joined '' @ r) s) (\<lambda>s. with_slot fd s (\<lambda>c.
         bind_res (put_line [nick_of c, ascii '' joined'']) (\<lambda>line. broadcast_sds cfg (s_room c) s_notice line (Some fd) s))))"
  proof (rule sim_queue_then [OF rel d(1)])
    fix s' d' assume rel': "sds_rel cfg m s' (queue_send fd s_notice (ascii ''joined '' @ r) w)"
      and d': "conns (queue_send fd s_notice (ascii ''joined '' @ r) w) fd = Some d'" "core d' = core d"
    obtain c' where c': "slab s' fd = Some c'" "same_conn c' d'" using sds_slot [OF rel' d'(1)] by metis
    have e: "room d' = r" "nick d' = nick d" using d' d(2) by (simp_all add: core_def)
    have "put_line [nick_of c', ascii '' joined''] = Inr (nick d @ ascii '' joined'')"
      using put_line_ok [of "[nick_of c', ascii '' joined'']"] nick_facts [OF c'(2)] e(2)
      by (simp add: k_line_def k_max_payload_def k_nick_max_def)
    then show "sim cfg m (broadcast (common cfg) r s_notice (nick d @ ascii '' joined'') (Some fd)
        (queue_send fd s_notice (ascii ''joined '' @ r) w)) (with_slot fd s' (\<lambda>c.
         bind_res (put_line [nick_of c, ascii '' joined'']) (\<lambda>line. broadcast_sds cfg (s_room c) s_notice line (Some fd) s')))"
      using sim_broadcast_room [OF rel' d'(1) _ c'(1) m] e d(3) c'(1) by simp
  qed
  then show ?thesis using c(1) i(1) ir(1) a1 by (simp add: greet_def with_room_def)
qed

definition left_room :: "sds_cfg \<Rightarrow> nat \<Rightarrow> conn \<Rightarrow> world \<Rightarrow> world" where
  "left_room cfg fd d w = (if room d \<noteq> []
     then leave_room (common cfg) fd (broadcast (common cfg) (room d) s_notice (nick d @ ascii '' left'') (Some fd) w) else w)"

lemma sim_leave_old:
  assumes rel: "sds_rel cfg m s w" and d: "conns w fd = Some d" and m: "m \<noteq> Flushing" and n: "g_slots cfg < 2 ^ 32"
  shows "sim cfg m (left_room cfg fd d w) (leave_old cfg fd s)"
proof -
  obtain c where c: "slab s fd = Some c" "same_conn c d" using sds_slot [OF rel d] by metis
  show ?thesis
  proof (cases "room d = []")
    case True
    then have "s_room c = None" using room_index_of [OF rel d c(1)] by simp
    then show ?thesis using True rel c(1) by (simp add: left_room_def leave_old_def)
  next
    case False
    let ?w = "broadcast (common cfg) (room d) s_notice (nick d @ ascii '' left'') (Some fd) w"
    have "put_line [nick_of c, ascii '' left''] = Inr (nick d @ ascii '' left'')"
      using put_line_ok [of "[nick_of c, ascii '' left'']"] nick_facts [OF c(2)]
      by (simp add: k_line_def k_max_payload_def k_nick_max_def)
    moreover have "s_room c \<noteq> None" using room_index_of [OF rel d c(1)] False by auto
    moreover obtain d' where "conns ?w fd = Some d'" using same_core_conn [OF same_core_broadcast d] by blast
    then have "sim cfg m (leave_room (common cfg) fd ?w)
        (bind_res (broadcast_sds cfg (s_room c) s_notice (nick d @ ascii '' left'') (Some fd) s) (leave_room_sds fd))"
      using sim_bind [OF sim_broadcast_room [OF rel d False c(1) m]] sim_leave [OF _ _ n] by metis
    ultimately show ?thesis using False c(1) by (auto simp: left_room_def leave_old_def)
  qed
qed

lemma left_room_conn:
  assumes "conns w fd = Some d"
  obtains d' where "conns (left_room cfg fd d w) fd = Some d'" "room d' = []" "nick d' = nick d"
proof (cases "room d = []")
  case True
  then show ?thesis using that assms by (simp add: left_room_def)
next
  case False
  obtain d' where "conns (broadcast (common cfg) (room d) s_notice (nick d @ ascii '' left'') (Some fd) w) fd = Some d'" "core d' = core d"
    using same_core_conn [OF same_core_broadcast assms] by blast
  then show ?thesis using that [of "d'\<lparr>room := []\<rparr>"] False by (simp add: left_room_def conns_leave core_def)
qed

lemma sim_join:
  assumes rel: "sds_rel cfg m s w" and d: "conns w fd = Some d" and m: "m \<noteq> Flushing" and n: "g_slots cfg < 2 ^ 32"
    and clean: "0 \<notin> set (take k_room_max p)"
  shows "sim cfg m (on_join (common cfg) fd p w) (on_join_sds cfg fd p s)"
proof -
  obtain c where c: "slab s fd = Some c" "same_conn c d" using sds_slot [OF rel d] by metis
  let ?r = "take 63 p"
  have r: "room_name_scratch p = ?r" by (auto simp: room_name_scratch_def k_room_max_def min_def)
  show ?thesis
  proof (cases "nick d = [] \<or> ?r = []")
    case True
    then show ?thesis
      using sim_queue [OF rel d] d c(1) nick_facts(3) [OF c(2)] by (auto simp: on_join_def on_join_sds_def r)
  next
    case False
    let ?w1 = "left_room cfg fd d w" and ?w2 = "enter_room (common cfg) fd ?r (left_room cfg fd d w)"
    have ok: "cstr_ok ?r" "length ?r \<le> k_room_max" "?r \<noteq> []" using clean False by (simp_all add: cstr_ok_def k_room_max_def)
    obtain d1 where d1: "conns ?w1 fd = Some d1" "room d1 = []" "nick d1 = nick d" by (rule left_room_conn [OF d])
    have d2: "conns ?w2 fd = Some (d1\<lparr>room := ?r\<rparr>)" using d1(1) by (simp add: conns_enter)
    have "sim cfg m ?w2 (enter_new fd ?r s1)" if "sds_rel cfg m s1 ?w1" for s1
      using sds_rel_enter [OF that d1(1,2) n ok] by (metis sim_Inr)
    then have "sim cfg m (broadcast (common cfg) ?r s_notice (nick d @ ascii '' joined'') (Some fd)
        (queue_send fd s_notice (ascii ''joined '' @ ?r) ?w2))
        (bind_res (leave_old cfg fd s) (\<lambda>s. bind_res (enter_new fd ?r s) (greet cfg fd ?r)))"
      using sim_greet [OF _ d2 _ ok(3) m] d1(3) by (intro sim_bind [OF sim_leave_old [OF rel d m n]] sim_bind) auto
    moreover have "on_join_sds cfg fd p s = bind_res (leave_old cfg fd s) (\<lambda>s. bind_res (enter_new fd ?r s) (greet cfg fd ?r))"
      using False c(1) nick_facts(3) [OF c(2)] by (simp add: on_join_sds_def r Let_def)
    moreover have "on_join (common cfg) fd p w = broadcast (common cfg) ?r s_notice (nick d @ ascii '' joined'') (Some fd)
        (queue_send fd s_notice (ascii ''joined '' @ ?r) ?w2)"
      using False d by (simp add: on_join_def Let_def left_room_def)
    ultimately show ?thesis by simp
  qed
qed

lemma sds_rel_tk [simp]: "sds_rel cfg m s (w\<lparr>tk := g\<rparr>) = sds_rel cfg m s w"
proof -
  have "alive (w\<lparr>tk := g\<rparr>) = alive w" "in_of fd (w\<lparr>tk := g\<rparr>) = in_of fd w" for fd by (simp_all add: alive_def in_of_def fun_eq_iff)
  then show ?thesis by (simp add: sds_rel_def io_rel_def lists_ok_def stream_ok_def rooms_rel_def rooms_ok_def)
qed

lemma sim_chat:
  assumes rel: "sds_rel cfg m s w" and d: "conns w fd = Some d" and m: "m \<noteq> Flushing" and p: "length p \<le> k_max_payload"
  shows "sim cfg m (on_chat (common cfg) fd p w) (on_chat_sds cfg fd p s)"
proof -
  obtain c where c: "slab s fd = Some c" "same_conn c d" using sds_slot [OF rel d] by metis
  note idx = room_index_of [OF rel d c(1)]
  show ?thesis
  proof (cases "room d = []")
    case True
    then show ?thesis using sim_queue [OF rel d] idx d c(1) by (simp add: on_chat_def on_chat_sds_def)
  next
    case False
    have "put_line [nick_of c, ascii '': '', p] = Inr (nick d @ ascii '': '' @ p)"
      using put_line_ok [of "[nick_of c, ascii '': '', p]"] nick_facts [OF c(2)] p by (simp add: k_line_def)
    then have "on_chat_sds cfg fd p s = broadcast_sds cfg (s_room c) s_chat (nick d @ ascii '': '' @ p) None s"
      using idx False c(1) by (auto simp: on_chat_sds_def)
    moreover have "sds_rel cfg m s (w\<lparr>tk := on_msg fd (tk w)\<rparr>)" "conns (w\<lparr>tk := on_msg fd (tk w)\<rparr>) fd = Some d" using rel d by simp_all
    ultimately show ?thesis
      using sim_broadcast_room [OF _ _ False c(1) m] False d by (simp add: on_chat_def Let_def)
  qed
qed

lemma sim_packet:
  assumes "sds_rel cfg m s w" "conns w fd = Some d" "m \<noteq> Flushing" "g_slots cfg < 2 ^ 32" "length p \<le> k_max_payload"
    and "t = c_join \<longrightarrow> 0 \<notin> set (take k_room_max p)"
  shows "sim cfg m (handle_packet (common cfg) fd t p w) (handle_packet_sds cfg fd t p s)"
  using assms sim_nick sim_join sim_chat sim_doom unfolding handle_packet_def handle_packet_sds_def by auto

end
