(* ===== verification/SdsRead.thy ===== *)
theory SdsRead
  imports SdsPacket
begin

text \<open>
  Framing and reading of \<^verbatim>\<open>server_sds.cpp\<close>: the ring is read and retired frame by frame, in place or through
  the scratch, and the frames that come out are those \<^verbatim>\<open>server.cpp\<close> cuts from its string.
\<close>

section \<open>Handlers do not look at the input buffers\<close>

definition on_in :: "(nat \<Rightarrow> bytes \<Rightarrow> bytes) \<Rightarrow> world \<Rightarrow> world" where
  "on_in g w = w\<lparr>conns := \<lambda>x. map_option (\<lambda>d. d\<lparr>inb := g x (inb d)\<rparr>) (conns w x)\<rparr>"

lemma on_in_fields [simp]:
  "conns (on_in g w) x = map_option (\<lambda>d. d\<lparr>inb := g x (inb d)\<rparr>) (conns w x)" "rooms (on_in g w) = rooms w"
  "doomed (on_in g w) = doomed w" "dirty_q (on_in g w) = dirty_q w" "sends (on_in g w) = sends w" "wire (on_in g w) = wire w"
  "tick_buf (on_in g w) = tick_buf w" "tk (on_in g w) = tk w" "alive (on_in g w) x = alive w x"
  by (simp_all add: on_in_def alive_def split: option.split)

lemma erase_on_in: "erase_in fd n w = on_in (\<lambda>x b. if x = fd then drop n b else b) w"
proof -
  have "(conns w)(fd := map_option (\<lambda>c. c\<lparr>inb := drop n (inb c)\<rparr>) (conns w fd))
      = (\<lambda>x. map_option (\<lambda>d. d\<lparr>inb := if x = fd then drop n (inb d) else inb d\<rparr>) (conns w x))"
    by (auto simp: fun_eq_iff option.map_ident_strong)
  then show ?thesis by (simp add: erase_in_def upd_def on_in_def)
qed

lemma on_in_upd: "(\<And>d b. f (d\<lparr>inb := b\<rparr>) = (f d)\<lparr>inb := b\<rparr> \<and> inb (f d) = inb d) \<Longrightarrow> upd x f (on_in g w) = on_in g (upd x f w)"
proof -
  assume f: "\<And>d b. f (d\<lparr>inb := b\<rparr>) = (f d)\<lparr>inb := b\<rparr> \<and> inb (f d) = inb d"
  have "(conns (on_in g w))(x := map_option f (conns (on_in g w) x))
      = (\<lambda>y. map_option (\<lambda>d. d\<lparr>inb := g y (inb d)\<rparr>) (((conns w)(x := map_option f (conns w x))) y))"
    using f by (auto simp: fun_eq_iff option.map_comp comp_def)
  then show ?thesis by (simp add: upd_def on_in_def)
qed

lemma on_in_cong:
  "doomed (on_in g w) = doomed w" "(on_in g w)\<lparr>doomed := a\<rparr> = on_in g (w\<lparr>doomed := a\<rparr>)"
  "(on_in g w)\<lparr>dirty_q := a\<rparr> = on_in g (w\<lparr>dirty_q := a\<rparr>)"
  "(on_in g w)\<lparr>sends := b, wire := c\<rparr> = on_in g (w\<lparr>sends := b, wire := c\<rparr>)"
  "(on_in g w)\<lparr>rooms := e\<rparr> = on_in g (w\<lparr>rooms := e\<rparr>)" "(on_in g w)\<lparr>tk := t\<rparr> = on_in g (w\<lparr>tk := t\<rparr>)"
  by (simp_all add: on_in_def)

lemma on_in_doom: "doom x (on_in g w) = on_in g (doom x w)"
  by (simp add: doom_def on_in_upd on_in_cong split: option.split)

lemma on_in_mask: "update_epoll_mask cfg x (on_in g w) = on_in g (update_epoll_mask cfg x w)"
  by (simp add: update_epoll_mask_def on_in_upd Let_def split: option.split)

lemma on_in_queue: "queue_send x t p (on_in g w) = on_in g (queue_send x t p w)"
  by (simp add: queue_send_def on_in_upd on_in_doom split: option.split)

lemma on_in_flush: "flush_send cfg x (on_in g w) = on_in g (flush_send cfg x w)"
  by (simp add: flush_send_def Let_def split_beta on_in_upd on_in_doom on_in_mask on_in_cong split: option.split)

lemma on_in_mark: "mark_dirty x (on_in g w) = on_in g (mark_dirty x w)"
  by (simp add: mark_dirty_def on_in_upd on_in_cong split: option.split)

lemma on_in_deliver: "deliver cfg t p e x (on_in g w) = on_in g (deliver cfg t p e x w)"
  by (simp add: deliver_def flush_or_mark_def on_in_queue on_in_flush on_in_mark)

lemma on_in_broadcast: "broadcast cfg r t p e (on_in g w) = on_in g (broadcast cfg r t p e w)"
proof -
  have "fold (deliver cfg t p e) ms (on_in g w) = on_in g (fold (deliver cfg t p e) ms w)" for ms
    by (induction ms arbitrary: w) (simp_all add: on_in_deliver)
  then show ?thesis by (simp add: broadcast_def split: option.split)
qed

lemma on_in_leave: "leave_room (common cfg) x (on_in g w) = on_in g (leave_room (common cfg) x w)"
  by (simp add: leave_room_def drop_member_def Let_def on_in_upd on_in_cong split: option.split)

lemma on_in_enter: "enter_room cfg x r (on_in g w) = on_in g (enter_room cfg x r w)"
  by (simp add: enter_room_def on_in_upd on_in_cong)

lemma on_in_packet: "handle_packet (common cfg) x t p (on_in g w) = on_in g (handle_packet (common cfg) x t p w)"
proof -
  have "on_nick x p (on_in g w) = on_in g (on_nick x p w)" by (simp add: on_nick_def Let_def on_in_upd on_in_queue)
  moreover have "on_join (common cfg) x p (on_in g w) = on_in g (on_join (common cfg) x p w)"
    by (simp add: on_join_def Let_def on_in_queue on_in_broadcast on_in_leave on_in_enter split: option.split)
  moreover have "on_chat (common cfg) x p (on_in g w) = on_in g (on_chat (common cfg) x p w)"
    by (simp add: on_chat_def Let_def on_in_queue on_in_broadcast on_in_cong split: option.split)
  ultimately show ?thesis by (simp add: handle_packet_def on_in_doom)
qed

section \<open>Frames in the stream\<close>

lemma header_prefix:
  assumes "k_header_size \<le> length bs"
  shows "header_len (bs @ r) = header_len bs" "header_type (bs @ r) = header_type bs"
    "header_len (take k_header_size bs) = header_len bs" "header_type (take k_header_size bs) = header_type bs"
  using assms by (simp_all add: header_len_def header_type_def k_header_size_def drop_take)

lemma frames_clean_step:
  assumes "k_header_size + header_len bs \<le> length bs" "header_len bs \<le> k_max_payload" "frames_clean (bs @ r)"
  shows "frames_clean (drop (k_header_size + header_len bs) bs @ r)"
    "header_type bs = c_join \<Longrightarrow> 0 \<notin> set (take k_room_max (take (header_len bs) (drop k_header_size bs)))"
proof -
  have h: "k_header_size \<le> length bs" using assms(1) by simp
  have c: "k_header_size \<le> length (bs @ r) \<and> header_len (bs @ r) \<le> k_max_payload \<and> k_header_size + header_len (bs @ r) \<le> length (bs @ r)"
    using assms(1,2) by (simp add: header_prefix(1) [OF h])
  have t: "take (header_len bs) (drop k_header_size (bs @ r)) = take (header_len bs) (drop k_header_size bs)" using assms(1) by simp
  have "(header_type (bs @ r) = c_join \<longrightarrow> 0 \<notin> set (take k_room_max (take (header_len (bs @ r)) (drop k_header_size (bs @ r)))))
      \<and> frames_clean (drop (k_header_size + header_len (bs @ r)) (bs @ r))"
    using assms(3) unfolding frames_clean.simps [of "bs @ r"] if_P [OF c] .
  then show "frames_clean (drop (k_header_size + header_len bs) bs @ r)"
    "header_type bs = c_join \<Longrightarrow> 0 \<notin> set (take k_room_max (take (header_len bs) (drop k_header_size bs)))"
    using assms(1) unfolding header_prefix(1,2) [OF h] t by simp_all
qed

lemma sds_stream: "sds_rel cfg m s w \<Longrightarrow> conns w fd = Some d \<Longrightarrow> frames_clean (inb d @ offered (recvs w fd))"
proof -
  assume "sds_rel cfg m s w" "conns w fd = Some d"
  then have "frames_clean (in_of fd w @ offered (recvs w fd))" by (simp add: sds_rel_def stream_ok_def)
  then show ?thesis using \<open>conns w fd = Some d\<close> by (simp add: in_of_def)
qed

lemma set_script_fields [simp]:
  "slab (set_script fd x s) = slab s" "g_rooms (set_script fd x s) = g_rooms s" "g_room_free (set_script fd x s) = g_room_free s"
  "g_room_index (set_script fd x s) = g_room_index s" "s_recvs (set_script fd x s) = (s_recvs s)(fd := x)"
  by (simp_all add: set_script_def)

text \<open>New contents for the ring and a new script, as long as the two together still start at a frame.\<close>

lemma sds_rel_take:
  assumes rel: "sds_rel cfg m s w" and c: "slab s fd = Some c" and d: "conns w fd = Some d"
    and r: "ring_N r = k_rx_ring" "ring_inv r" "contents r = f (inb d)"
    and clean: "frames_clean (f (inb d) @ offered script)" "reads_ok script"
  shows "sds_rel cfg m (set_slot fd (c\<lparr>s_in := r\<rparr>) (set_script fd script s)) (upd fd (\<lambda>d. d\<lparr>inb := f (inb d)\<rparr>) (set_recvs fd script w))"
proof -
  let ?c = "c\<lparr>s_in := r\<rparr>" and ?f = "\<lambda>d. d\<lparr>inb := f (inb d)\<rparr>" and ?s = "set_script fd script s" and ?w = "set_recvs fd script w"
  have cd: "same_conn c d" using sds_relD(1) [OF rel, of fd] c d by simp
  then have same: "same_conn ?c (?f d)" using r by (simp add: same_conn_def nick_of_def queue_ok_def queued_def)
  have "io_rel (g_slots cfg) ?s ?w" using sds_relD(4) [OF rel] by (simp add: io_rel_def set_script_def set_recvs_def)
  then have "io_rel (g_slots cfg) (set_slot fd ?c ?s) (upd fd ?f ?w)"
    using io_rel_set [where f = ?f and s = ?s and w = ?w] c d same by simp
  moreover have "lists_ok m ?w" using sds_relD(5) [OF rel] by (rule lists_ok_cong) (simp_all add: set_recvs_def)
  then have "lists_ok m (upd fd ?f ?w)" by (rule lists_ok_upd) simp
  moreover have "rooms_rel (g_slots cfg) (set_slot fd ?c ?s) (upd fd ?f ?w)"
  proof (rule rooms_rel_frame [OF sds_relD(6) [OF rel]])
    have "same_links ?s (set_slot fd ?c ?s)" by (rule same_links_set) (simp_all add: c)
    then show "same_links s (set_slot fd ?c ?s)" by (simp add: same_links_def lk_def fun_eq_iff)
  qed (simp_all add: option.map_comp comp_def set_recvs_def)
  moreover have "stream_ok (upd fd ?f ?w)"
  proof -
    have "in_of x (upd fd ?f ?w) = (if x = fd then f (inb d) else in_of x w)" for x using d by (simp add: in_of_def set_recvs_def)
    then show ?thesis using rel clean by (simp add: sds_rel_def stream_ok_def set_recvs_def)
  qed
  ultimately show ?thesis by (simp add: sds_rel_def)
qed

lemma sds_rel_in:
  assumes rel: "sds_rel cfg m s w" and c: "slab s fd = Some c" and d: "conns w fd = Some d"
    and r: "ring_N r = k_rx_ring" "ring_inv r" "contents r = f (inb d)"
    and clean: "frames_clean (f (inb d) @ offered (recvs w fd))"
  shows "sds_rel cfg m (set_slot fd (c\<lparr>s_in := r\<rparr>) s) (upd fd (\<lambda>d. d\<lparr>inb := f (inb d)\<rparr>) w)"
proof -
  have "s_recvs s = recvs w" using sds_relD(4) [OF rel] by (simp add: io_rel_def)
  then have "set_script fd (recvs w fd) s = s" "set_recvs fd (recvs w fd) w = w" by (simp_all add: set_script_def set_recvs_def)
  moreover have "reads_ok (recvs w fd)" using rel by (simp add: sds_rel_def stream_ok_def)
  ultimately show ?thesis using sds_rel_take [where f = f, OF rel c d r clean] by simp
qed

lemma k_rx_ring_word: "unat (of_nat k_rx_ring :: usize) = k_rx_ring"
  by (simp add: k_rx_ring_def)

lemma ring_bytes:
  assumes "same_conn c d"
  shows "unat (used_size (s_in c)) = length (inb d)" "peek (of_nat k_header_size) (s_in c) = take k_header_size (inb d)"
    "length (inb d) \<le> k_rx_ring" "unat (free_size (s_in c)) = k_rx_ring - length (inb d)"
proof -
  have r: "ring_inv (s_in c)" "ring_N (s_in c) = k_rx_ring" "contents (s_in c) = inb d" using assms by (simp_all add: same_conn_def)
  show u: "unat (used_size (s_in c)) = length (inb d)" using used_size_correct [of "s_in c"] r(3) by simp
  have uc: "used (s_in c) = length (inb d)" using length_contents [of "s_in c"] r(3) by simp
  show "peek (of_nat k_header_size) (s_in c) = take k_header_size (inb d)"
    using peek_correct [OF r(1), of "of_nat k_header_size"] r(3) uc take_clamp(1) [of k_header_size "inb d"]
    by (simp add: k_header_size_def)
  show l: "length (inb d) \<le> k_rx_ring" using ring_invD(4) [OF r(1)] uc r(2) by simp
  have e: "p_own (s_in c) - p_peer (s_in c) = used_size (s_in c)" by (simp add: ring_sync_defs used_size_def)
  have "used_size (s_in c) \<le> of_nat k_rx_ring" using l u by (simp add: word_le_nat_alt k_rx_ring_word)
  then show "unat (free_size (s_in c)) = k_rx_ring - length (inb d)"
    unfolding free_size_def e r(2) by (simp add: unat_sub k_rx_ring_word u)
qed

text \<open>One frame.\<close>

lemma sim_take_frame:
  assumes rel: "sds_rel cfg m s w" and d: "conns w fd = Some d" and c: "slab s fd = Some c" and m: "m \<noteq> Flushing"
    and n: "g_slots cfg < 2 ^ 32" and h: "header_len (inb d) \<le> k_max_payload" "k_header_size + header_len (inb d) \<le> length (inb d)"
  defines "fsz \<equiv> k_header_size + header_len (inb d)"
  shows "sim cfg m (erase_in fd fsz (handle_packet (common cfg) fd (header_type (inb d))
      (take (header_len (inb d)) (drop k_header_size (inb d))) w)) (take_frame cfg fd (header_type (inb d)) fsz c s)"
proof -
  let ?t = "header_type (inb d)" and ?p = "take (header_len (inb d)) (drop k_header_size (inb d))"
  have cd: "same_conn c d" using sds_relD(1) [OF rel, of fd] c d by simp
  then have r: "ring_inv (s_in c)" "ring_N (s_in c) = k_rx_ring" "contents (s_in c) = inb d" by (simp_all add: same_conn_def)
  have clean: "frames_clean (drop fsz (inb d) @ offered (recvs w fd))" "?t = c_join \<longrightarrow> 0 \<notin> set (take k_room_max ?p)"
    using frames_clean_step [OF h(2,1) sds_stream [OF rel d]] by (simp_all add: fsz_def)
  have "fsz < 2 ^ 64" using h(1) by (simp add: fsz_def k_header_size_def k_max_payload_def)
  then have sz: "unat (of_nat fsz :: usize) = fsz" "fsz \<le> length (inb d)" using h(2) by (simp_all only: unat_of_nat_usize fsz_def)
  have pl: "drop k_header_size (take fsz (inb d)) = ?p" by (simp add: fsz_def drop_take)
  have lp: "length ?p \<le> k_max_payload" using h(1) by simp
  have uc: "used (s_in c) = length (inb d)" using length_contents [of "s_in c"] r(3) by simp
  show ?thesis
  proof (cases "fsz \<le> unat (direct_dequeue_size (s_in c))")
    case True
    then have "of_nat fsz \<le> direct_dequeue_size (s_in c)" by (simp add: word_le_nat_alt sz(1))
    from direct_dequeue_correct(1) [OF r(1) this]
    have "take fsz (drop (unat (direct_dequeue_ptr (s_in c))) (ring_buf (s_in c))) = take fsz (inb d)" by (simp add: sz(1) r(3))
    then have tf: "take_frame cfg fd ?t fsz c s = bind_res (handle_packet_sds cfg fd ?t ?p s) (set_in fd (commit_dequeue (of_nat fsz)))"
      using True by (simp add: take_frame_def pl)
    have "sim cfg m (erase_in fd fsz (handle_packet (common cfg) fd ?t ?p w)) (set_in fd (commit_dequeue (of_nat fsz)) s')"
      if rel': "sds_rel cfg m s' (handle_packet (common cfg) fd ?t ?p w)" for s'
    proof -
      let ?w = "handle_packet (common cfg) fd ?t ?p w"
      have si: "same_in w ?w" by simp
      have "map_option inb (conns ?w fd) = Some (inb d)" using same_in_inb [OF si, of fd] d by simp
      then obtain d' where d': "conns ?w fd = Some d'" "inb d' = inb d" by auto
      obtain c' where c': "slab s' fd = Some c'" "same_conn c' d'" using sds_slot [OF rel' d'(1)] by metis
      have r': "ring_inv (s_in c')" "ring_N (s_in c') = k_rx_ring" "contents (s_in c') = inb d" using c'(2) d'(2) by (simp_all add: same_conn_def)
      have "used (s_in c') = length (inb d)" using length_contents [of "s_in c'"] r'(3) by simp
      then have k: "unat (of_nat fsz :: usize) \<le> used (s_in c')" using sz by simp
      have cq: "commit_dequeue (of_nat fsz) (s_in c') = (s_in c')\<lparr>dequeue_cur := dequeue_cur (s_in c') + of_nat fsz\<rparr>"
        by (simp add: commit_dequeue_def ring_sync_defs)
      have "sds_rel cfg m (set_slot fd (c'\<lparr>s_in := commit_dequeue (of_nat fsz) (s_in c')\<rparr>) s') (upd fd (\<lambda>d. d\<lparr>inb := drop fsz (inb d)\<rparr>) ?w)"
        by (rule sds_rel_in [where f = "drop fsz", OF rel' c'(1) d'(1)])
          (use contents_retire [OF r'(1) k] r'(2,3) d'(2) sz(1) clean(1) in \<open>simp_all add: cq\<close>)
      then show ?thesis using c'(1) by (simp add: set_in_def erase_in_def)
    qed
    then show ?thesis unfolding tf using sim_bind [OF sim_packet [OF rel d m n lp clean(2)]] by blast
  next
    case False
    have k: "min (unat (of_nat fsz :: usize)) (used (s_in c)) = fsz" using sz uc by simp
    obtain r' where dq: "dequeue (of_nat fsz) (s_in c) = (take fsz (inb d), r')" "contents r' = drop fsz (inb d)" "ring_inv r'" "ring_N r' = k_rx_ring"
    proof -
      have "umin (of_nat fsz) (c_peer (s_in c) - c_own (s_in c)) = of_nat fsz"
        using unat_clamp [OF r(1), of "of_nat fsz"] k sz(1) by (metis word_unat_eq_iff)
      then have e: "dequeue (of_nat fsz) (s_in c)
          = (ring_read (s_in c) (of_nat fsz), (s_in c)\<lparr>dequeue_cur := dequeue_cur (s_in c) + of_nat fsz\<rparr>)"
        by (simp add: dequeue_def ring_sync_defs Let_def)
      have ku: "unat (of_nat fsz :: usize) \<le> used (s_in c)" using sz uc by simp
      show ?thesis
        using ring_read_contents [OF r(1) ku] contents_retire [OF r(1) ku] r(2,3) sz(1) e
        by (intro that [of "(s_in c)\<lparr>dequeue_cur := dequeue_cur (s_in c) + of_nat fsz\<rparr>"]) simp_all
    qed
    then have tf: "take_frame cfg fd ?t fsz c s = handle_packet_sds cfg fd ?t ?p (set_slot fd (c\<lparr>s_in := r'\<rparr>) s)"
      using False by (simp add: take_frame_def pl)
    have "sds_rel cfg m (set_slot fd (c\<lparr>s_in := r'\<rparr>) s) (upd fd (\<lambda>d. d\<lparr>inb := drop fsz (inb d)\<rparr>) w)"
      by (rule sds_rel_in [where f = "drop fsz", OF rel c d dq(4,3,2) clean(1)])
    then have rel': "sds_rel cfg m (set_slot fd (c\<lparr>s_in := r'\<rparr>) s) (erase_in fd fsz w)" by (simp add: erase_in_def)
    have "conns (erase_in fd fsz w) fd = Some (d\<lparr>inb := drop fsz (inb d)\<rparr>)" using d by (simp add: erase_in_def)
    from sim_packet [OF rel' this m n lp clean(2)] show ?thesis unfolding tf erase_on_in on_in_packet .
  qed
qed

lemma sim_parse:
  assumes "sds_rel cfg m s w" "conns w fd = Some d" "length (inb d) \<le> 4 * k" "m \<noteq> Flushing" "g_slots cfg < 2 ^ 32"
  shows "sim cfg m (parse_frames (common cfg) fd w) (parse_frames_sds cfg k fd s)"
  using assms(1-3)
proof (induction k arbitrary: s w d rule: less_induct)
  case (less k)
  note rel = less.prems(1) and d = less.prems(2)
  obtain c where c: "slab s fd = Some c" "same_conn c d" using sds_slot [OF rel d] by metis
  have in_d: "in_of fd w = inb d" and al: "alive w fd = (\<not> closing d)" and cl: "s_closing c = closing d"
    using d c(2) by (simp_all add: in_of_def alive_def same_conn_def)
  note rb = ring_bytes [OF c(2)]
  show ?case
  proof (cases "closing d \<or> length (inb d) < k_header_size")
    case True
    then have "parse_frames (common cfg) fd w = w" using al in_d by (subst parse_frames.simps) auto
    moreover have "parse_frames_sds cfg k fd s = Inr s" using True c(1) cl rb by (subst parse_frames_sds.simps) auto
    ultimately show ?thesis using rel by simp
  next
    case False
    then have hd: "k_header_size \<le> length (inb d)" and go: "alive w fd \<and> k_header_size \<le> length (in_of fd w)" using al in_d by auto
    note hp = header_prefix(3,4) [OF hd]
    have k: "k \<noteq> 0" using hd less.prems(3) by (auto simp: k_header_size_def)
    then obtain j where j: "k = Suc j" by (cases k) auto
    show ?thesis
    proof (cases "header_len (inb d) \<le> k_max_payload \<and> k_header_size + header_len (inb d) \<le> length (inb d)")
      case True
      let ?t = "header_type (inb d)" and ?p = "take (header_len (inb d)) (drop k_header_size (inb d))" and ?sz = "k_header_size + header_len (inb d)"
      let ?w = "erase_in fd ?sz (handle_packet (common cfg) fd ?t ?p w)"
      have step: "sim cfg m ?w (take_frame cfg fd ?t ?sz c s)" by (rule sim_take_frame [OF rel d c(1) assms(4,5)]) (use True in auto)
      have "in_of fd ?w = drop ?sz (inb d)" using in_d by simp
      moreover have "conns ?w fd \<noteq> None"
        using same_in_inb [OF same_in_packet [of w "common cfg" fd ?t ?p], of fd] d by (auto simp: erase_in_def)
      ultimately obtain d' where d': "conns ?w fd = Some d'" "inb d' = drop ?sz (inb d)" by (auto simp: in_of_def)
      have len: "length (inb d') \<le> 4 * j" using less.prems(3) d'(2) by (simp add: j k_header_size_def)
      have "sim cfg m (parse_frames (common cfg) fd ?w) (bind_res (take_frame cfg fd ?t ?sz c s) (parse_frames_sds cfg j fd))"
        by (rule sim_bind [OF step]) (rule less.IH [OF _ _ d'(1) len], simp_all add: j)
      moreover have "parse_frames (common cfg) fd w = parse_frames (common cfg) fd ?w"
        using go True in_d by (subst parse_frames.simps) (simp add: Let_def)
      moreover have "parse_frames_sds cfg k fd s = bind_res (take_frame cfg fd ?t ?sz c s) (parse_frames_sds cfg j fd)"
        using False True c(1) cl rb hp j by (subst parse_frames_sds.simps) (simp add: Let_def)
      ultimately show ?thesis by simp
    next
      case part: False
      show ?thesis
      proof (cases "k_max_payload < header_len (inb d)")
        case True
        then have "parse_frames (common cfg) fd w = doom fd w" using go in_d by (subst parse_frames.simps) (simp add: Let_def)
        moreover have "parse_frames_sds cfg k fd s = doom_sds cfg fd s"
          using False True c(1) cl rb hp by (subst parse_frames_sds.simps) (simp add: Let_def)
        ultimately show ?thesis using sim_doom [OF rel d] by simp
      next
        case le: False
        then have "parse_frames (common cfg) fd w = w" using go in_d part by (subst parse_frames.simps) (simp add: Let_def)
        moreover have "parse_frames_sds cfg k fd s = Inr s"
          using False le part c(1) cl rb hp by (subst parse_frames_sds.simps) (simp add: Let_def)
        ultimately show ?thesis using rel by simp
      qed
    qed
  qed
qed

section \<open>Reading\<close>

lemma sds_rel_script:
  assumes rel: "sds_rel cfg m s w" and d: "conns w fd = Some d" and x: "recvs w fd = x # script" "chunk x = []"
  shows "sds_rel cfg m (set_script fd script s) (set_recvs fd script w)"
proof -
  obtain c where c: "slab s fd = Some c" "same_conn c d" using sds_slot [OF rel d] by metis
  have ok: "reads_ok script" using rel x(1) unfolding sds_rel_def stream_ok_def by (metis reads_ok.simps(2))
  have "sds_rel cfg m (set_slot fd (c\<lparr>s_in := s_in c\<rparr>) (set_script fd script s)) (upd fd (\<lambda>d. d\<lparr>inb := id (inb d)\<rparr>) (set_recvs fd script w))"
    by (rule sds_rel_take [where f = id, OF rel c(1) d])
      (use c(2) sds_stream [OF rel d] x ok in \<open>simp_all add: same_conn_def offered_def\<close>)
  moreover have "set_slot fd (c\<lparr>s_in := s_in c\<rparr>) (set_script fd script s) = set_script fd script s"
    using c(1) by (simp add: set_slot_def fun_upd_idem set_script_def)
  moreover have "upd fd (\<lambda>d. d\<lparr>inb := id (inb d)\<rparr>) w' = w'" for w'
    by (simp add: upd_def option.map_ident fun_upd_idem)
  ultimately show ?thesis by simp
qed

lemma sim_ingest:
  assumes rel: "sds_rel cfg m s w" and d: "conns w fd = Some d" and x: "recvs w fd = Got bs # script"
    and fits: "length (inb d) + length bs \<le> k_rx_ring" and m: "m \<noteq> Flushing" and n: "g_slots cfg < 2 ^ 32"
  shows "sim cfg m (parse_frames (common cfg) fd (append_in fd bs (set_recvs fd script w))) (ingest cfg fd bs (set_script fd script s))"
proof -
  obtain c where c: "slab s fd = Some c" "same_conn c d" using sds_slot [OF rel d] by metis
  have r: "ring_inv (s_in c)" "ring_N (s_in c) = k_rx_ring" "contents (s_in c) = inb d" using c(2) by (simp_all add: same_conn_def)
  have "used (s_in c) = length (inb d)" using length_contents [of "s_in c"] r(3) by simp
  then have f: "used (s_in c) + length bs \<le> ring_N (s_in c)" using fits r(2) by simp
  note e = enqueue_accept [OF r(1) f] enqueue_accept_eq [OF r(1) f]
  obtain r' where r': "enqueue bs (s_in c) = (of_nat (length bs), r')" "contents r' = inb d @ bs" "ring_inv r'" "ring_N r' = k_rx_ring"
    using e r(2,3) by simp
  have ok: "reads_ok script" using rel x unfolding sds_rel_def stream_ok_def by (metis reads_ok.simps(2))
  have "sds_rel cfg m (set_slot fd (c\<lparr>s_in := r'\<rparr>) (set_script fd script s)) (upd fd (\<lambda>d. d\<lparr>inb := (\<lambda>i. i @ bs) (inb d)\<rparr>) (set_recvs fd script w))"
    by (rule sds_rel_take [where f = "\<lambda>i. i @ bs", OF rel c(1) d r'(4,3)])
      (use r'(2) sds_stream [OF rel d] x ok in \<open>simp_all add: offered_def\<close>)
  then have rel': "sds_rel cfg m (set_slot fd (c\<lparr>s_in := r'\<rparr>) (set_script fd script s)) (append_in fd bs (set_recvs fd script w))"
    by (simp add: append_in_def)
  have d': "conns (append_in fd bs (set_recvs fd script w)) fd = Some (d\<lparr>inb := inb d @ bs\<rparr>)"
    using d by (simp add: append_in_def set_recvs_def)
  have "ingest cfg fd bs (set_script fd script s) = parse_frames_sds cfg k_rx_ring fd (set_slot fd (c\<lparr>s_in := r'\<rparr>) (set_script fd script s))"
    using c(1) r'(1) by (simp add: ingest_def)
  then show ?thesis using sim_parse [OF rel' d' _ m n, of k_rx_ring] fits by simp
qed

lemma parse_conn: "conns w fd \<noteq> None \<Longrightarrow> conns (parse_frames cfg x w) fd \<noteq> None"
proof (induction cfg x w rule: parse_frames.induct)
  case (1 cfg x w)
  have "conns (doom x w) fd \<noteq> None" using "1.prems" by (auto simp: conns_doom)
  moreover have "conns (erase_in x n (handle_packet cfg x t p w)) fd \<noteq> None" for n t p
    using same_in_inb [OF same_in_packet [of w cfg x t p], of fd] "1.prems" by (cases "conns w fd") (auto simp: erase_in_def)
  ultimately show ?case using "1.IH" "1.prems" by (subst parse_frames.simps) (simp add: Let_def)
qed

lemma sim_read:
  assumes "sds_rel cfg m s w" "conns w fd = Some d" "incomplete (inb d)" "script_weight (recvs w fd) \<le> k"
    and m: "m \<noteq> Flushing" and n: "g_slots cfg < 2 ^ 32" and sr: "\<not> g_short_read cfg"
  shows "sim cfg m (on_readable (common cfg) fd w) (read_loop cfg k fd s)"
  using assms(1-4)
proof (induction k arbitrary: s w d rule: less_induct)
  case (less k)
  note rel = less.prems(1) and d = less.prems(2)
  obtain c where c: "slab s fd = Some c" "same_conn c d" using sds_slot [OF rel d] by metis
  have short: "length (inb d) < k_max_frame" using incomplete_short [OF less.prems(3)] by (simp add: k_max_frame_def)
  have free: "k_chunk < unat (free_size (s_in c))" "unat (free_size (s_in c)) = k_rx_ring - length (inb d)"
    using short ring_bytes(4) [OF c(2)] by (simp_all add: k_chunk_def k_rx_ring_def k_max_frame_def k_header_size_def k_max_payload_def)
  define want where "want = recv_want (s_in c)"
  have want: "want = k_rx_ring - length (inb d)" "k_chunk < want" "want \<noteq> 0"
    using free by (auto simp: want_def recv_want_def k_recv_buf_def k_rx_ring_def)
  have recvs: "s_recvs s = recvs w" using sds_relD(4) [OF rel] by (simp add: io_rel_def)
  note unfold = read_loop.simps [of cfg k fd s] on_readable.simps [of "common cfg" fd w]
  show ?case
  proof (cases "recvs w fd")
    case Nil
    then show ?thesis unfolding unfold using sim_flush_or_mark [OF rel d m] c(1) recvs want(3) by (simp add: Let_def want_def)
  next
    case (Cons x script)
    have ok: "reads_ok (x # script)" using rel Cons unfolding sds_rel_def stream_ok_def by metis
    have wt: "script_weight (recvs w fd) = recv_weight x + script_weight script" by (simp add: Cons script_weight_def)
    then have "k \<noteq> 0" using less.prems(4) by (cases x) auto
    then obtain j where j: "k = Suc j" by (cases k) auto
    let ?s = "set_script fd script s" and ?w = "set_recvs fd script w"
    have d': "conns ?w fd = Some d" using d by simp
    have none: "sds_rel cfg m ?s ?w" if "chunk x = []" by (rule sds_rel_script [OF rel d Cons that])
    show ?thesis
    proof (cases x)
      case (Got bs)
      show ?thesis
      proof (cases "bs = []")
        case True
        then show ?thesis unfolding unfold using sim_doom [OF none d'] Got Cons c(1) recvs want(3) by (simp add: Let_def want_def)
      next
        case False
        have lb: "length bs \<le> k_chunk" using ok Got by simp
        then have "length bs \<le> want" "length bs \<le> k_recv_buf" using want(2) by (simp_all add: k_chunk_def k_recv_buf_def k_rx_ring_def)
        then have got: "take want bs = bs" "take k_recv_buf bs = bs" "script_rest want bs script = script" "recv_rest bs script = script"
          by (simp_all add: script_rest_def recv_rest_def)
        have fits: "length (inb d) + length bs \<le> k_rx_ring" using lb want(1,2) by simp
        have cap: "\<not> k_max_payload + k_header_size + k_recv_buf < length (in_of fd ?w) + length bs"
          using fits d by (simp add: in_of_def k_rx_ring_def k_recv_buf_def)
        let ?p = "parse_frames (common cfg) fd (append_in fd bs ?w)"
        have step: "sim cfg m ?p (ingest cfg fd bs ?s)" by (rule sim_ingest [OF rel d _ fits m n]) (use Cons Got in simp)
        have rest: "sim cfg m (if \<not> alive ?p fd then ?p else on_readable (common cfg) fd ?p)
            (with_slot fd s' (\<lambda>c. if s_closing c then Inr s' else if g_short_read cfg \<and> length bs < want then flush_or_mark_sds cfg fd s'
              else read_loop cfg j fd s'))" if rel': "sds_rel cfg m s' ?p" for s'
        proof -
          have "conns ?p fd \<noteq> None" by (rule parse_conn) (simp add: append_in_def d)
          then obtain e where e: "conns ?p fd = Some e" by blast
          obtain c' where c': "slab s' fd = Some c'" "same_conn c' e" using sds_slot [OF rel' e] by metis
          have al: "alive ?p fd = (\<not> s_closing c')" using c'(2) e by (simp add: alive_def same_conn_def)
          show ?thesis
          proof (cases "alive ?p fd")
            case False
            then show ?thesis using al rel' c'(1) by simp
          next
            case True
            have "incomplete (inb e)" using parse_incomplete [OF True] e by (simp add: in_of_def)
            moreover have "script_weight (recvs ?p fd) \<le> j"
              using less.prems(4) wt Got j by (simp add: append_in_def set_recvs_def)
            ultimately have "sim cfg m (on_readable (common cfg) fd ?p) (read_loop cfg j fd s')"
              using less.IH [OF _ rel' e] j by simp
            then show ?thesis using True al c'(1) sr by simp
          qed
        qed
        have "on_readable (common cfg) fd w = (if \<not> alive ?p fd then ?p else on_readable (common cfg) fd ?p)"
          unfolding unfold(2) using Cons Got False got cap by (simp add: Let_def)
        moreover have "read_loop cfg k fd s = bind_res (ingest cfg fd bs ?s) (\<lambda>s. with_slot fd s (\<lambda>c. if s_closing c then Inr s
              else if g_short_read cfg \<and> length bs < want then flush_or_mark_sds cfg fd s else read_loop cfg j fd s))"
          using Cons Got False got c(1) recvs want(3) j unfolding unfold(1) want_def by (simp add: Let_def)
        ultimately show ?thesis using sim_bind [OF step rest] by simp
      qed
    next
      case R_EINTR
      have "script_weight (recvs ?w fd) \<le> j" using less.prems(4) wt R_EINTR j by (simp add: set_recvs_def)
      then have "sim cfg m (on_readable (common cfg) fd ?w) (read_loop cfg j fd ?s)"
        using less.IH [OF _ none d' less.prems(3)] R_EINTR j by simp
      then show ?thesis unfolding unfold using R_EINTR Cons c(1) recvs want(3) j by (simp add: Let_def want_def)
    next
      case R_EAGAIN
      then show ?thesis unfolding unfold using sim_flush_or_mark [OF none d' m] Cons c(1) recvs want(3) by (simp add: Let_def want_def)
    next
      case R_error
      then show ?thesis unfolding unfold using sim_doom [OF none d'] Cons c(1) recvs want(3) by (simp add: Let_def want_def)
    qed
  qed
qed

lemma sim_readable:
  assumes "sds_rel cfg m s w" "conns w fd = Some d" "incomplete (inb d)" "m \<noteq> Flushing" "g_slots cfg < 2 ^ 32" "\<not> g_short_read cfg"
  shows "sim cfg m (on_readable (common cfg) fd w) (on_readable_sds cfg fd s)"
proof -
  have "s_recvs s = recvs w" using sds_relD(4) [OF assms(1)] by (simp add: io_rel_def)
  then show ?thesis using sim_read [OF assms(1-3) _ assms(4-6)] by (simp add: on_readable_sds_def)
qed

end
