(* ===== verification/SdsTurn.thy ===== *)
theory SdsTurn
  imports SdsRead
begin

text \<open>
  The passes of a turn of \<^verbatim>\<open>server_sds.cpp\<close>: the flush pass and the reaper with their index loops, and
  accepting into the slab.
\<close>

section \<open>Phases\<close>

lemma sds_rel_phase:
  assumes "sds_rel cfg m s w" "lists_ok m' w"
  shows "sds_rel cfg m' s w"
  using assms by (simp add: sds_rel_def)

lemma sds_rel_lists:
  assumes rel: "sds_rel cfg m s w" and l: "listing (g_slots cfg) d xs" "listing (g_slots cfg) q ys"
    and ok: "lists_ok m' (w\<lparr>doomed := xs, dirty_q := ys\<rparr>)"
  shows "sds_rel cfg m' (s\<lparr>g_doomed := d, g_dirty := q\<rparr>) (w\<lparr>doomed := xs, dirty_q := ys\<rparr>)"
proof -
  let ?s = "s\<lparr>g_doomed := d, g_dirty := q\<rparr>" and ?w = "w\<lparr>doomed := xs, dirty_q := ys\<rparr>"
  have "rooms_rel (g_slots cfg) ?s ?w"
    by (rule rooms_rel_frame [OF sds_relD(6) [OF rel]]) (simp_all add: same_links_def lk_def fun_eq_iff)
  moreover have "in_of x ?w = in_of x w" for x by (simp add: in_of_def)
  ultimately show ?thesis using rel l ok by (simp add: sds_rel_def io_rel_def stream_ok_def)
qed

section \<open>The flush pass\<close>

lemma sim_flush_one:
  assumes rel: "sds_rel cfg Flushing s w"
  shows "sim cfg Flushing (flush_one (common cfg) fd w) (flush_one_sds cfg fd s)"
proof (cases "conns w fd")
  case None
  then have "slab s fd = None" using sds_relD(2) [OF rel, of fd] by simp
  then show ?thesis using None rel by (simp add: flush_one_def flush_one_sds_def live_sds_def)
next
  case (Some d)
  obtain c where c: "slab s fd = Some c" "same_conn c d" using sds_slot [OF rel Some] by metis
  let ?c = "c\<lparr>s_dirty := False\<rparr>" and ?f = "\<lambda>d. d\<lparr>dirty := False\<rparr>"
  have "same_conn ?c (?f d)" and cl: "s_closing c = closing d" using c(2) by (simp_all add: same_conn_def nick_of_def queue_ok_def queued_def)
  then have rel': "sds_rel cfg Flushing (set_slot fd ?c s) (upd fd ?f w)"
    using sds_rel_set [where f = ?f, OF rel c(1) Some] by (simp add: core_def)
  have "live_sds cfg fd s" using c(1) sds_relD(3) [OF rel, of fd] Some by (simp add: live_sds_def)
  moreover have "conns (upd fd ?f w) fd = Some (?f d)" using Some by simp
  ultimately show ?thesis
    using sim_flush [OF rel'] rel' Some c(1) cl by (simp add: flush_one_def flush_one_sds_def Let_def)
qed

lemma sim_flush_loop:
  assumes "sds_rel cfg Flushing s w" "length (dirty_q w) - i \<le> k"
  shows "sim cfg Flushing (fold (flush_one (common cfg)) (drop i (dirty_q w)) w) (flush_loop cfg k i s)"
  using assms
proof (induction k arbitrary: i s w rule: less_induct)
  case (less k)
  have l: "listing (g_slots cfg) (g_dirty s) (dirty_q w)" using sds_relD(4) [OF less.prems(1)] by (simp add: io_rel_def)
  show ?case
  proof (cases "i < length (dirty_q w)")
    case False
    then show ?thesis using less.prems(1) listing_size [OF l] by (subst flush_loop.simps) simp
  next
    case True
    then obtain j where j: "k = Suc j" using less.prems(2) by (cases k) auto
    let ?fd = "dirty_q w ! i"
    have "sim cfg Flushing (fold (flush_one (common cfg)) (drop (Suc i) (dirty_q w)) (flush_one (common cfg) ?fd w))
        (bind_res (flush_one_sds cfg ?fd s) (flush_loop cfg j (Suc i)))"
    proof (rule sim_bind [OF sim_flush_one [OF less.prems(1)]])
      fix s' assume "sds_rel cfg Flushing s' (flush_one (common cfg) ?fd w)"
      from less.IH [OF _ this, of j "Suc i"] show "sim cfg Flushing
          (fold (flush_one (common cfg)) (drop (Suc i) (dirty_q w)) (flush_one (common cfg) ?fd w)) (flush_loop cfg j (Suc i) s')"
        using less.prems(2) j by simp
    qed
    moreover have "drop i (dirty_q w) = ?fd # drop (Suc i) (dirty_q w)" using True by (simp add: Cons_nth_drop_Suc)
    ultimately show ?thesis using True j listing_size [OF l] by (subst flush_loop.simps) (simp add: listing_at [OF l True])
  qed
qed

lemma fold_flush_dirty_q: "dirty_q (fold (flush_one cfg) ds w) = dirty_q w"
  by (induction ds arbitrary: w) simp_all

lemma sim_flush_dirty:
  assumes rel: "sds_rel cfg m s w" and m: "m \<noteq> Reaping" and m': "m' = Polling \<or> m' = Reaping"
  shows "sim cfg m' (flush_dirty (common cfg) w) (flush_dirty_sds cfg s)"
proof -
  have "lists_ok Flushing w" using sds_relD(5) [OF rel] m by (simp add: lists_ok_def)
  then have r1: "sds_rel cfg Flushing s w" by (rule sds_rel_phase [OF rel])
  have "listing (g_slots cfg) (g_dirty s) (dirty_q w)" using sds_relD(4) [OF rel] by (simp add: io_rel_def)
  then have "length (dirty_q w) \<le> g_slots cfg" by (rule listing_length)
  then have "sim cfg Flushing (fold (flush_one (common cfg)) (dirty_q w) w) (flush_loop cfg (g_slots cfg) 0 s)"
    using sim_flush_loop [OF r1, of 0 "g_slots cfg"] by simp
  then show ?thesis unfolding flush_dirty_def flush_dirty_sds_def
  proof (rule sim_bind)
    let ?v = "fold (flush_one (common cfg)) (dirty_q w) w"
    fix s' assume r: "sds_rel cfg Flushing s' ?v"
    have io: "listing (g_slots cfg) (g_doomed s') (doomed ?v)" "listing (g_slots cfg) (g_dirty s') (dirty_q ?v)"
      using sds_relD(4) [OF r] by (simp_all add: io_rel_def)
    have al: "alive (?v\<lparr>dirty_q := []\<rparr>) = alive ?v" by (simp add: alive_def fun_eq_iff)
    have "lists_ok m' (?v\<lparr>doomed := doomed ?v, dirty_q := []\<rparr>)"
      using sds_relD(5) [OF r] m' by (auto simp: lists_ok_def al)
    from sds_rel_lists [OF r io(1) listing_clear [OF io(2)] this]
    show "sim cfg m' (?v\<lparr>dirty_q := []\<rparr>) (Inr (s'\<lparr>g_dirty := mv_clear (g_dirty s')\<rparr>))" by simp
  qed
qed

section \<open>Accepting\<close>

text \<open>What \<^verbatim>\<open>accept4\<close> guarantees: the descriptor it returns is not open, and, the lowest free one, below the
  slots that leave room for the connections and 64 others.\<close>

fun fresh_accepts :: "nat \<Rightarrow> server_cfg \<Rightarrow> accept_res list \<Rightarrow> world \<Rightarrow> bool" where
  "fresh_accepts n cfg [] w \<longleftrightarrow> True"
| "fresh_accepts n cfg (Accepted fd # script) w \<longleftrightarrow> fd < n \<and> conns w fd = None \<and> fresh_accepts n cfg script (accept_one cfg fd w)"
| "fresh_accepts n cfg (A_EINTR # script) w \<longleftrightarrow> fresh_accepts n cfg script w"
| "fresh_accepts n cfg (A_ECONNABORTED # script) w \<longleftrightarrow> fresh_accepts n cfg script w"
| "fresh_accepts n cfg (_ # script) w \<longleftrightarrow> True"

definition raw_ok :: "sds_cfg \<Rightarrow> bool" where
  "raw_ok cfg \<longleftrightarrow> (\<forall>n. length (raw cfg n) = n)"

lemma ring_init_ok:
  assumes "raw_ok cfg"
  shows "ring_inv (ring_init k_rx_ring (raw cfg k_rx_ring))" "ring_N (ring_init k_rx_ring (raw cfg k_rx_ring)) = k_rx_ring"
    "contents (ring_init k_rx_ring (raw cfg k_rx_ring)) = []"
proof -
  have "ring_static_ok k_rx_ring" by (simp add: ring_static_ok_def k_rx_ring_def)
  then show "ring_inv (ring_init k_rx_ring (raw cfg k_rx_ring))" using assms by (simp add: ring_inv_def ring_init_def raw_ok_def)
qed (simp_all add: ring_init_def contents_def used_def)

lemma sconn_init_ok: "raw_ok cfg \<Longrightarrow> same_conn (sconn_init cfg) conn_init"
  using ring_init_ok [of cfg]
  by (simp add: same_conn_def sconn_init_def conn_init_def nick_of_def queue_ok_def queued_def raw_ok_def k_nick_max_def)

lemma reads_ok_clean: "reads_ok script \<Longrightarrow> frames_clean (offered script)"
proof (cases script)
  case Nil
  then show ?thesis by (simp add: offered_def frames_clean.simps k_header_size_def)
qed simp

lemma sim_accept_one:
  assumes rel: "sds_rel cfg Polling s w" and fd: "fd < g_slots cfg" "conns w fd = None" and raw: "raw_ok cfg"
  shows "sim cfg Polling (accept_one (common cfg) fd w) (accept_one_sds cfg fd s)"
proof -
  have io: "io_rel (g_slots cfg) s w" by (rule sds_relD(4) [OF rel])
  have nl: "g_total_live s = n_conns w" using io by (simp add: io_rel_def)
  have free: "slab s fd = None" using sds_relD(2) [OF rel, of fd] fd(2) by simp
  show ?thesis
  proof (cases "g_max_conns cfg \<le> n_conns w \<or> \<not> ctl_add_ok cfg fd")
    case True
    then show ?thesis using rel nl fd(1) by (auto simp: accept_one_def accept_one_sds_def)
  next
    case False
    let ?s = "(set_slot fd (sconn_init cfg) s)\<lparr>g_total_live := n_conns w + 1\<rparr>"
    let ?w = "w\<lparr>conns := (conns w)(fd \<mapsto> conn_init), n_conns := n_conns w + 1\<rparr>"
    have "io_rel (g_slots cfg) ?s ?w"
      using io fd(1) sconn_init_ok [OF raw] by (auto simp: io_rel_def)
    moreover have "lists_ok Polling ?w"
      using sds_relD(5) [OF rel] fd(2) by (auto simp: lists_ok_def alive_def)
    moreover have "stream_ok ?w"
    proof -
      have "in_of x ?w = (if x = fd then [] else in_of x w)" for x by (simp add: in_of_def conn_init_def)
      moreover have "reads_ok (recvs w fd)" using rel by (simp add: sds_rel_def stream_ok_def)
      ultimately show ?thesis using rel reads_ok_clean by (simp add: sds_rel_def stream_ok_def)
    qed
    moreover have "rooms_rel (g_slots cfg) ?s ?w"
    proof -
      have rr: "rooms_rel (g_slots cfg) s w" by (rule sds_relD(6) [OF rel])
      then have ok: "rooms_ok w" by (simp add: rooms_rel_def)
      have notin: "fd \<notin> set ms" if "rooms w r = Some ms" for r ms
        using room_of_member [OF ok that, of fd] fd(2) by auto
      have ok': "rooms_ok ?w"
        unfolding rooms_ok_def
      proof (intro conjI allI impI)
        fix r ms x assume a: "rooms ?w r = Some ms" "x \<in> set ms"
        then have "x \<noteq> fd" using notin by auto
        then show "map_option room (conns ?w x) = Some r" using room_of_member [OF ok] a by simp
      next
        fix x e assume a: "conns ?w x = Some e" "room e \<noteq> []"
        then have "conns w x = Some e" by (auto simp: conn_init_def split: if_splits)
        then show "\<exists>ms. rooms ?w (room e) = Some ms \<and> x \<in> set ms" using conn_room_listed [OF ok] a(2) by simp
      qed (use ok in \<open>simp_all add: rooms_ok_def\<close>)
      have l: "lk ?s x = lk s x" if "x \<noteq> fd" for x using that by (simp add: lk_def)
      have sg: "seg (lk ?s) i None ms None = seg (lk s) i None ms None" if "rooms w r = Some ms" for r ms i
      proof (rule seg_cong)
        fix x assume "x \<in> set ms"
        then have "x \<noteq> fd" using notin [OF that] by blast
        then show "lk ?s x = lk s x" by (rule l)
      qed
      have none: "s_room c = None" if "slab ?s x = Some c" "conns ?w x = Some e" "room e = []" for x c e
      proof (cases "x = fd")
        case True
        then show ?thesis using that by (auto simp: sconn_init_def)
      next
        case False
        then show ?thesis using that rr unfolding rooms_rel_def by (simp add: fun_upd_def)
      qed
      show ?thesis using rr ok' sg none unfolding rooms_rel_def by simp
    qed
    ultimately have "sds_rel cfg Polling ?s ?w" by (simp add: sds_rel_def)
    then have "sds_rel cfg Polling ?s (?w\<lparr>tk := session_add fd (tk w)\<rparr>)" by simp
    then show ?thesis using False fd nl free by (simp add: accept_one_def accept_one_sds_def)
  qed
qed

lemma sds_rel_accepts:
  assumes "sds_rel cfg m s w"
  shows "sds_rel cfg m (s\<lparr>s_accepts := a\<rparr>) (w\<lparr>accepts := a\<rparr>)" "sds_rel cfg m (s\<lparr>s_reserve := b\<rparr>) (w\<lparr>reserve := b\<rparr>)"
proof -
  have r: "rooms_rel (g_slots cfg) (s\<lparr>s_accepts := a\<rparr>) (w\<lparr>accepts := a\<rparr>)" "rooms_rel (g_slots cfg) (s\<lparr>s_reserve := b\<rparr>) (w\<lparr>reserve := b\<rparr>)"
    by (rule rooms_rel_frame [OF sds_relD(6) [OF assms]]; simp add: same_links_def lk_def fun_eq_iff)+
  have l: "lists_ok m (w\<lparr>accepts := a\<rparr>)" "lists_ok m (w\<lparr>reserve := b\<rparr>)"
    by (rule lists_ok_cong [OF sds_relD(5) [OF assms]]; simp)+
  have "in_of x (w\<lparr>accepts := a\<rparr>) = in_of x w" "in_of x (w\<lparr>reserve := b\<rparr>) = in_of x w" for x by (simp_all add: in_of_def)
  then show "sds_rel cfg m (s\<lparr>s_accepts := a\<rparr>) (w\<lparr>accepts := a\<rparr>)" "sds_rel cfg m (s\<lparr>s_reserve := b\<rparr>) (w\<lparr>reserve := b\<rparr>)"
    using assms r l by (simp_all add: sds_rel_def io_rel_def stream_ok_def)
qed

lemma sim_accept_loop:
  assumes "sds_rel cfg Polling s w" "fresh_accepts (g_slots cfg) (common cfg) script w" and raw: "raw_ok cfg"
  shows "\<exists>s'. accept_loop_sds cfg script s = Inr (fst (accept_loop (common cfg) script w), s')
    \<and> sds_rel cfg Polling s' (snd (accept_loop (common cfg) script w))"
  using assms(1,2)
proof (induction "common cfg" script w arbitrary: s rule: accept_loop.induct)
  case (2 fd script w)
  have "sim cfg Polling (accept_one (common cfg) fd w) (accept_one_sds cfg fd s)"
    using "2.prems" by (intro sim_accept_one raw) auto
  then obtain s1 where "accept_one_sds cfg fd s = Inr s1" "sds_rel cfg Polling s1 (accept_one (common cfg) fd w)"
    by (auto simp: sim_def)
  then show ?case using "2.hyps" [of s1] "2.prems" by simp
next
  case (6 reopened script w)
  have "s_reserve s = reserve w" using sds_relD(4) [OF "6.prems"(1)] by (simp add: io_rel_def)
  then show ?case using "6.prems"(1) sds_rel_accepts(2) [OF "6.prems"(1)] by simp
qed simp_all

lemma sim_on_accept:
  assumes rel: "sds_rel cfg Polling s w" and f: "fresh_accepts (g_slots cfg) (common cfg) (accepts w) w" and raw: "raw_ok cfg"
  shows "sim cfg Polling (on_accept (common cfg) w) (on_accept_sds cfg s)"
proof -
  have "s_accepts s = accepts w" using sds_relD(4) [OF rel] by (simp add: io_rel_def)
  moreover obtain s' where "accept_loop_sds cfg (accepts w) s = Inr (fst (accept_loop (common cfg) (accepts w) w), s')"
    "sds_rel cfg Polling s' (snd (accept_loop (common cfg) (accepts w) w))" using sim_accept_loop [OF rel f raw] by blast
  ultimately show ?thesis
    using sds_rel_accepts(1) by (simp add: on_accept_sds_def on_accept_def split_beta)
qed

section \<open>The reaper\<close>

lemma sim_say_bye:
  assumes rel: "sds_rel cfg m s w" and d: "conns w fd = Some d" and c: "slab s fd = Some c" and m: "m \<noteq> Flushing"
    and n: "g_slots cfg < 2 ^ 32"
  shows "sim cfg m (say_bye (common cfg) fd d w) (say_bye_sds cfg fd c s)"
proof -
  have cd: "same_conn c d" using sds_relD(1) [OF rel, of fd] c d by simp
  note nf = nick_facts [OF cd] and idx = room_index_of [OF rel d c]
  show ?thesis
  proof (cases "room d \<noteq> [] \<and> nick d \<noteq> []")
    case False
    then have "\<not> (s_room c \<noteq> None \<and> s_nick_len c \<noteq> 0)" using idx nf(3) by (auto split: if_splits)
    then show ?thesis using False sim_leave [OF rel d n] by (auto simp: say_bye_def say_bye_sds_def)
  next
    case True
    then obtain i where i: "s_room c = Some i" using idx by auto
    have a: "put_line [nick_of c, ascii '' left''] = Inr (nick d @ ascii '' left'')"
      using put_line_ok [of "[nick_of c, ascii '' left'']"] nf by (simp add: k_line_def k_max_payload_def k_nick_max_def)
    let ?w = "leave_room (common cfg) fd w"
    obtain s' where s': "leave_room_sds fd s = Inr s'" "sds_rel cfg m s' ?w" "i < length (g_rooms s')"
      "if rooms ?w (room d) = None then \<not> rm_live (g_rooms s' ! i) else cmap_map (g_room_index s') (room d) = Some i"
      by (rule sds_rel_leave [OF rel d _ n c i]) (use True in auto)
    have "sim cfg m (broadcast (common cfg) (room d) s_notice (nick d @ ascii '' left'') (Some fd) ?w)
        (broadcast_sds cfg (Some i) s_notice (nick d @ ascii '' left'') (Some fd) s')"
    proof (cases "rooms ?w (room d) = None")
      case none: True
      then show ?thesis using s' by (simp add: broadcast_def broadcast_sds_def with_room_def)
    next
      case some: False
      then show ?thesis using sim_broadcast [OF s'(2) _ m] s'(4) by simp
    qed
    then show ?thesis using True i a s'(1) nf(3) by (simp add: say_bye_def say_bye_sds_def)
  qed
qed

lemma sim_reap_one:
  assumes rel: "sds_rel cfg Reaping s w" and n: "g_slots cfg < 2 ^ 32"
  shows "sim cfg Reaping (reap_one (common cfg) fd w) (reap_one_sds cfg fd s)"
proof (cases "conns w fd")
  case None
  then have "slab s fd = None" using sds_relD(2) [OF rel, of fd] by simp
  then show ?thesis using None rel by (simp add: reap_one_def reap_one_sds_def live_sds_def)
next
  case (Some d)
  obtain c where c: "slab s fd = Some c" using sds_slot [OF rel Some] by metis
  let ?v = "say_bye (common cfg) fd d w"
  have live: "live_sds cfg fd s" using c sds_relD(3) [OF rel, of fd] Some by (simp add: live_sds_def)
  have w': "reap_one (common cfg) fd w = (?v\<lparr>conns := (conns ?v)(fd := None), n_conns := n_conns ?v - 1\<rparr>)\<lparr>tk := session_remove fd (tk ?v)\<rparr>"
    using Some by (simp add: reap_one_eq Let_def)
  have "sim cfg Reaping (reap_one (common cfg) fd w)
      (bind_res (say_bye_sds cfg fd c s) (\<lambda>s. Inr (s\<lparr>slab := (slab s)(fd := None), g_total_live := g_total_live s - 1\<rparr>)))"
  proof (rule sim_bind [OF sim_say_bye [OF rel Some c _ n]])
    fix s' assume r: "sds_rel cfg Reaping s' ?v"
    obtain e where e: "conns ?v fd = Some e" "room e = []" using say_bye_conn [OF Some] by blast
    let ?s = "s'\<lparr>slab := (slab s')(fd := None), g_total_live := g_total_live s' - 1\<rparr>"
    let ?w = "?v\<lparr>conns := (conns ?v)(fd := None), n_conns := n_conns ?v - 1\<rparr>"
    have rr: "rooms_rel (g_slots cfg) s' ?v" by (rule sds_relD(6) [OF r])
    then have ok: "rooms_ok ?v" by (simp add: rooms_rel_def)
    have notin: "fd \<notin> set ms" if "rooms ?v r = Some ms" for r ms
      using room_of_member [OF ok that, of fd] e ok that by (auto simp: rooms_ok_def)
    have ok': "rooms_ok ?w"
      unfolding rooms_ok_def
    proof (intro conjI allI impI)
      fix r ms x assume a: "rooms ?w r = Some ms" "x \<in> set ms"
      then have "x \<noteq> fd" using notin by auto
      then show "map_option room (conns ?w x) = Some r" using room_of_member [OF ok] a by simp
    next
      fix x e assume a: "conns ?w x = Some e" "room e \<noteq> []"
      then have "conns ?v x = Some e" by (auto split: if_splits)
      then show "\<exists>ms. rooms ?w (room e) = Some ms \<and> x \<in> set ms" using conn_room_listed [OF ok] a(2) by simp
    qed (use ok in \<open>simp_all add: rooms_ok_def\<close>)
    have l: "lk ?s x = lk s' x" if "x \<noteq> fd" for x using that by (simp add: lk_def)
    have sg: "seg (lk ?s) i None ms None = seg (lk s') i None ms None" if "rooms ?v r = Some ms" for r ms i
    proof (rule seg_cong)
      fix x assume "x \<in> set ms"
      then have "x \<noteq> fd" using notin [OF that] by blast
      then show "lk ?s x = lk s' x" by (rule l)
    qed
    have none: "s_room c = None" if "slab ?s x = Some c" "conns ?w x = Some e" "room e = []" for x c e
    proof -
      have "slab s' x = Some c" "conns ?v x = Some e" using that(1,2) by (auto split: if_splits)
      then show ?thesis using rr that(3) unfolding rooms_rel_def by blast
    qed
    have "rooms_rel (g_slots cfg) ?s ?w" using rr ok' sg none unfolding rooms_rel_def by simp
    moreover have "io_rel (g_slots cfg) ?s ?w" using sds_relD(4) [OF r] by (simp add: io_rel_def)
    moreover have "lists_ok Reaping ?w"
      using sds_relD(5) [OF r] by (auto simp: lists_ok_def alive_def split: if_splits)
    moreover have "stream_ok ?w" using r by (simp add: sds_rel_def stream_ok_def in_of_def)
    ultimately have "sds_rel cfg Reaping ?s ?w" by (simp add: sds_rel_def)
    then show "sim cfg Reaping (reap_one (common cfg) fd w) (Inr ?s)" unfolding w' by simp
  qed simp
  then show ?thesis using live c by (simp add: reap_one_sds_def)
qed

lemma sim_reap_loop:
  assumes "sds_rel cfg Reaping s w" "g_slots cfg - i \<le> k" and n: "g_slots cfg < 2 ^ 32"
  shows "\<exists>w'. reap_loop (common cfg) i w = Some w' \<and> sim cfg Reaping w' (reap_loop_sds cfg k i s)"
  using assms(1,2)
proof (induction k arbitrary: i s w rule: less_induct)
  case (less k)
  have l: "listing (g_slots cfg) (g_doomed s) (doomed w)" using sds_relD(4) [OF less.prems(1)] by (simp add: io_rel_def)
  show ?case
  proof (cases "i < length (doomed w)")
    case False
    have "reap_loop (common cfg) i w = Some w" using False by (subst reap_loop.simps) simp
    then show ?thesis using False less.prems(1) listing_size [OF l] by (subst reap_loop_sds.simps) simp
  next
    case True
    then have "i < g_slots cfg" using listing_length [OF l] by simp
    then obtain j where j: "k = Suc j" using less.prems(2) by (cases k) auto
    let ?fd = "doomed w ! i"
    obtain s1 where s1: "reap_one_sds cfg ?fd s = Inr s1" "sds_rel cfg Reaping s1 (reap_one (common cfg) ?fd w)"
      using sim_reap_one [OF less.prems(1) n] by (auto simp: sim_def)
    obtain w' where "reap_loop (common cfg) (Suc i) (reap_one (common cfg) ?fd w) = Some w'"
      "sim cfg Reaping w' (reap_loop_sds cfg j (Suc i) s1)"
    proof -
      have "g_slots cfg - Suc i \<le> j" using less.prems(2) j by linarith
      then show ?thesis using less.IH [OF _ s1(2), of j "Suc i"] j that by auto
    qed
    then show ?thesis
      using True j s1(1) listing_size [OF l]
      by (subst reap_loop_sds.simps, subst reap_loop.simps) (simp add: listing_at [OF l True])
  qed
qed

lemma sim_reap_doomed:
  assumes rel: "sds_rel cfg m s w" and m: "m \<noteq> Flushing" and n: "g_slots cfg < 2 ^ 32"
  shows "\<exists>w'. reap_doomed (common cfg) w = Some w' \<and> sim cfg Reaping w' (reap_doomed_sds cfg s) \<and> doomed w' = []"
proof -
  have "lists_ok Reaping w" using sds_relD(5) [OF rel] m by (simp add: lists_ok_def)
  then have r1: "sds_rel cfg Reaping s w" by (rule sds_rel_phase [OF rel])
  obtain v where v: "reap_loop (common cfg) 0 w = Some v" "sim cfg Reaping v (reap_loop_sds cfg (g_slots cfg) 0 s)"
    using sim_reap_loop [OF r1 _ n, of 0 "g_slots cfg"] by auto
  have "sim cfg Reaping (v\<lparr>doomed := []\<rparr>) (reap_doomed_sds cfg s)"
    unfolding reap_doomed_sds_def
  proof (rule sim_bind [OF v(2)])
    fix s' assume r: "sds_rel cfg Reaping s' v"
    have io: "listing (g_slots cfg) (g_doomed s') (doomed v)" "listing (g_slots cfg) (g_dirty s') (dirty_q v)"
      using sds_relD(4) [OF r] by (simp_all add: io_rel_def)
    have "lists_ok Reaping (v\<lparr>doomed := [], dirty_q := dirty_q v\<rparr>)"
      using sds_relD(5) [OF r] by (simp add: lists_ok_def)
    from sds_rel_lists [OF r listing_clear [OF io(1)] io(2) this]
    show "sim cfg Reaping (v\<lparr>doomed := []\<rparr>) (Inr (s'\<lparr>g_doomed := mv_clear (g_doomed s')\<rparr>))" by simp
  qed
  then show ?thesis using v(1) by (simp add: reap_doomed_def)
qed

end
