(* ===== verification/SdsMain.thy ===== *)
theory SdsMain
  imports SdsTurn
begin

text \<open>
  \<^verbatim>\<open>server_sds.cpp\<close> as a whole: its boot sets up a state that stands for the empty tables, every turn of its
  loop stands for a turn of \<^verbatim>\<open>server.cpp\<close>, and so the two servers put the same bytes on the wire.
\<close>

section \<open>Boot\<close>

lemma free_chain_threaded:
  "k \<le> n \<Longrightarrow> free_chain (map (room_blank n) [0..<n]) (if k < n then Some k else None) [k..<n]"
proof (induction "n - k" arbitrary: k)
  case 0
  then show ?case by simp
next
  case (Suc x)
  then have k: "k < n" "x = n - Suc k" "Suc k \<le> n" by auto
  have "[k..<n] = k # [Suc k..<n]" using k(1) by (rule upt_conv_Cons)
  then show ?case using Suc.hyps(1) [OF k(2,3)] k(1) by (simp add: room_blank_def split: if_splits)
qed

lemma dir_ok_boot: "0 < n \<Longrightarrow> dir_ok n (map (room_blank n) [0..<n]) (Some 0) (cmap_init 1024)"
proof -
  assume n: "0 < n"
  have ix: "cmap_inv (cmap_init 1024 :: nat cmap)" "cmap_map (cmap_init 1024 :: nat cmap) = Map.empty"
    using init_inv [of 1024, where ?'a = nat and ?'b = nat] by simp_all
  have "free_chain (map (room_blank n) [0..<n]) (Some 0) [0..<n]" using free_chain_threaded [of 0 n] n by simp
  then have "\<exists>fl. free_chain (map (room_blank n) [0..<n]) (Some 0) fl \<and> distinct fl
      \<and> set fl = {i. i < n \<and> \<not> rm_live (map (room_blank n) [0..<n] ! i)}"
    by (intro exI [of _ "[0..<n]"]) (auto simp: room_blank_def)
  then show ?thesis using ix by (simp add: dir_ok_def room_blank_def)
qed

lemma listing_boot:
  assumes n: "n < 2 ^ 32" and m: "malloc_ok cfg (4 * of_nat n)"
  obtains v where "mv_reserve 4 (malloc_ok cfg) (of_nat n) (mv_init 4 (malloc_ok cfg) 4) = Inr v" "listing n v []"
    "of_nat n \<le> mv_capacity v"
proof -
  have u: "unat (of_nat n :: usize) = n" using n by simp
  have f: "fits 4 (of_nat n)" "fits 4 4" using n u by (simp_all add: fits_def)
  obtain v :: "nat mvec" where v: "mv_reserve 4 (malloc_ok cfg) (of_nat n) (mv_init 4 (malloc_ok cfg) 4) = Inr v" "mv_inv v"
      "mv_contents v = mv_contents (mv_init 4 (malloc_ok cfg) 4 :: nat mvec)"
      "mv_capacity v = (if mv_capacity (mv_init 4 (malloc_ok cfg) 4 :: nat mvec) < of_nat n \<and> malloc_ok cfg (4 * of_nat n) then of_nat n
         else mv_capacity (mv_init 4 (malloc_ok cfg) 4 :: nat mvec))"
    using mv_reserve_ok [OF conjunct1 [OF mv_init_inv [OF f(2)]] f(1), of "malloc_ok cfg" "malloc_ok cfg"] by metis
  have "of_nat n \<le> mv_capacity v" using v(4) m by (auto simp: not_less)
  moreover have "listing n v []"
    using v(2,3) mv_init_inv [OF f(2), of "malloc_ok cfg", where ?'a = nat] \<open>of_nat n \<le> mv_capacity v\<close> u
    by (simp add: listing_def word_le_nat_alt)
  ultimately show ?thesis using v(1) that by blast
qed

lemma make_slab_ok:
  assumes n: "g_slots cfg < 2 ^ 32" and m: "malloc_ok cfg (4 * of_nat (g_slots cfg))" and rs: "\<forall>fd. reads_ok (rs fd)"
  shows "sim cfg Polling (world_init g ss rs acs) (make_slab cfg ss rs acs)"
proof -
  let ?n = "g_slots cfg" and ?w = "world_init g ss rs acs"
  obtain v where v: "mv_reserve 4 (malloc_ok cfg) (of_nat ?n) (mv_init 4 (malloc_ok cfg) 4) = Inr v" "listing ?n v []"
    "of_nat ?n \<le> mv_capacity v" by (rule listing_boot [OF n m])
  define s where "s = \<lparr>slab = Map.empty, g_rooms = map (room_blank ?n) [0..<?n], g_room_free = Some 0,
          g_room_index = cmap_init 1024, g_doomed = v, g_dirty = v, g_total_live = 0, s_sends = ss, s_recvs = rs,
          s_accepts = acs, s_wire = (\<lambda>_. []), s_reserve = True\<rparr>"
  have "make_slab cfg ss rs acs = Inr s" using v by (simp add: make_slab_def Let_def s_def)
  moreover have "io_rel ?n s ?w" using v(2) by (simp add: io_rel_def s_def world_init_def)
  moreover have "lists_ok Polling ?w" by (simp add: lists_ok_def world_init_def)
  moreover have "stream_ok ?w" using rs by (simp add: stream_ok_def world_init_def)
  moreover have "rooms_rel ?n s ?w"
  proof -
    have "cmap_map (cmap_init 1024 :: nat cmap) = Map.empty" using init_inv [of 1024, where ?'a = nat and ?'b = nat] by simp
    moreover have "dir_ok ?n (map (room_blank ?n) [0..<?n]) (Some 0) (cmap_init 1024)" by (rule dir_ok_boot) (simp add: g_slots_def)
    ultimately show ?thesis by (simp add: rooms_rel_def s_def world_init_def rooms_ok_def)
  qed
  ultimately show ?thesis by (simp add: sds_rel_def)
qed

section \<open>Events\<close>

definition boots :: "sds_cfg \<Rightarrow> bool" where
  "boots cfg \<longleftrightarrow> raw_ok cfg \<and> g_slots cfg < 2 ^ 32 \<and> malloc_ok cfg (4 * of_nat (g_slots cfg))
     \<and> (\<forall>fd. ctl_mod_ok cfg fd) \<and> \<not> g_short_read cfg"

lemma common_ok: "boots cfg \<Longrightarrow> cfg_ok (common cfg)"
  by (simp add: boots_def cfg_ok_def common_def)

lemma flush_send_conn: "conns w fd \<noteq> None \<Longrightarrow> conns (flush_send cfg fd w) fd \<noteq> None"
  using same_core_dom [OF same_core_flush] by metis

lemma sim_client:
  assumes rel: "sds_rel cfg Polling s w" and inv: "run_inv (common cfg) 0 {} w" and b: "boots cfg"
  shows "sim cfg Polling (client_event (common cfg) fd e w) (client_event_sds cfg fd e s)"
proof (cases "conns w fd")
  case None
  then have "slab s fd = None" using sds_relD(2) [OF rel, of fd] by simp
  then show ?thesis using None rel by (simp add: client_event_def client_event_sds_def live_sds_def alive_def)
next
  case (Some d)
  obtain c where c: "slab s fd = Some c" "same_conn c d" using sds_slot [OF rel Some] by metis
  have live: "live_sds cfg fd s" using c sds_relD(3) [OF rel, of fd] Some by (simp add: live_sds_def)
  have cl: "s_closing c = closing d" using c(2) by (simp add: same_conn_def)
  let ?v = "if ev_out e then flush_send (common cfg) fd w else w"
  have step: "sim cfg Polling ?v (if ev_out e then flush_send_sds cfg fd s else Inr s)"
    using sim_flush [OF rel Some] rel by simp
  have inv': "run_inv (common cfg) 0 {} ?v" using run_inv_flush_send [OF inv common_ok [OF b]] inv by simp
  have rest: "sim cfg Polling (if alive ?v fd \<and> ev_in e then on_readable (common cfg) fd ?v else ?v)
      (with_slot fd s' (\<lambda>c. if \<not> s_closing c \<and> ev_in e then on_readable_sds cfg fd s' else Inr s'))"
    if rel': "sds_rel cfg Polling s' ?v" for s'
  proof -
    have "conns ?v fd \<noteq> None" using flush_send_conn [of w fd "common cfg"] Some by simp
    then obtain d' where d': "conns ?v fd = Some d'" by blast
    obtain c' where c': "slab s' fd = Some c'" "same_conn c' d'" using sds_slot [OF rel' d'] by metis
    have al: "alive ?v fd = (\<not> s_closing c')" using c'(2) d' by (simp add: alive_def same_conn_def)
    have "sim cfg Polling (on_readable (common cfg) fd ?v) (on_readable_sds cfg fd s')" if "alive ?v fd"
    proof (rule sim_readable [OF rel' d'])
      have "incomplete (in_of fd ?v)" using inv' that by (simp add: run_inv_def input_ok_def)
      then show "incomplete (inb d')" using d' by (simp add: in_of_def)
    qed (use b in \<open>simp_all add: boots_def\<close>)
    then show ?thesis using al c'(1) rel' by (simp only: with_slot_Some) (simp split: if_splits)
  qed
  show ?thesis
  proof (cases "closing d \<or> ev_err e")
    case True
    then show ?thesis using rel sim_doom [OF rel Some] Some c(1) live cl
      by (auto simp: client_event_def client_event_sds_def alive_def)
  next
    case False
    then have "client_event (common cfg) fd e w = (if alive ?v fd \<and> ev_in e then on_readable (common cfg) fd ?v else ?v)"
      using Some by (simp add: client_event_def alive_def Let_def)
    moreover have "client_event_sds cfg fd e s = bind_res (if ev_out e then flush_send_sds cfg fd s else Inr s)
        (\<lambda>s. with_slot fd s (\<lambda>c. if \<not> s_closing c \<and> ev_in e then on_readable_sds cfg fd s else Inr s))"
      using False live c(1) cl by (simp add: client_event_sds_def)
    ultimately show ?thesis using sim_bind [OF step rest] by simp
  qed
qed

text \<open>What the kernel guarantees of \<^verbatim>\<open>accept4\<close>, along a run of the server.\<close>

fun fresh_events :: "nat \<Rightarrow> server_cfg \<Rightarrow> event list \<Rightarrow> bool \<times> world \<Rightarrow> bool" where
  "fresh_events n cfg [] b \<longleftrightarrow> True"
| "fresh_events n cfg (e # es) b \<longleftrightarrow> (src e = Listener \<longrightarrow> fresh_accepts n cfg (accepts (snd b)) (snd b))
     \<and> fresh_events n cfg es (handle_event cfg e b)"

fun fresh_serve :: "nat \<Rightarrow> server_cfg \<Rightarrow> (clock \<times> wait_res) list \<Rightarrow> world \<Rightarrow> bool" where
  "fresh_serve n cfg [] w \<longleftrightarrow> True"
| "fresh_serve n cfg ((t, r) # turns) w \<longleftrightarrow>
     (case r of Events es \<Rightarrow> fresh_events n cfg es (True, set_tk (drain_begin (t_drain0 t)) w) | _ \<Rightarrow> True)
     \<and> (case loop_turn cfg t r w of None \<Rightarrow> True | Some (running, w') \<Rightarrow> running \<longrightarrow> fresh_serve n cfg turns w')"

lemma sim_events:
  assumes "sds_rel cfg Polling s (snd b)" "run_inv (common cfg) 0 {} (snd b)" "fresh_events (g_slots cfg) (common cfg) es b"
    and b: "boots cfg"
  shows "\<exists>s'. handle_events_sds cfg es (fst b, s) = Inr (fst (fold (handle_event (common cfg)) es b), s')
    \<and> sds_rel cfg Polling s' (snd (fold (handle_event (common cfg)) es b))"
  using assms(1-3)
proof (induction es arbitrary: b s)
  case Nil
  then show ?case by simp
next
  case (Cons e es)
  let ?b = "handle_event (common cfg) e b"
  have raw: "raw_ok cfg" using b by (simp add: boots_def)
  have "\<exists>s1. handle_event_sds cfg e (fst b, s) = Inr (fst ?b, s1) \<and> sds_rel cfg Polling s1 (snd ?b)"
  proof (cases "src e")
    case Listener
    then show ?thesis using sim_on_accept [OF Cons.prems(1) _ raw] Cons.prems(3)
      by (auto simp: handle_event_def handle_event_sds_def sim_def)
  next
    case Signal
    then show ?thesis using Cons.prems(1) by (simp add: handle_event_def handle_event_sds_def)
  next
    case (Client fd)
    then show ?thesis using sim_client [OF Cons.prems(1,2) b, of fd e]
      by (auto simp: handle_event_def handle_event_sds_def sim_def)
  qed
  then obtain s1 where s1: "handle_event_sds cfg e (fst b, s) = Inr (fst ?b, s1)" "sds_rel cfg Polling s1 (snd ?b)" by blast
  have "run_inv (common cfg) 0 {} (snd ?b)" by (rule run_inv_event [OF Cons.prems(2) common_ok [OF b]])
  from Cons.IH [OF s1(2) this] Cons.prems(3) show ?case using s1(1) by simp
qed

section \<open>Turns\<close>

lemma sds_rel_set_tk [simp]: "sds_rel cfg m s (set_tk f w) = sds_rel cfg m s w"
  by (simp add: set_tk_def)

lemma sds_rel_tick [simp]: "sds_rel cfg m s (server_tick (common cfg) t w) = sds_rel cfg m s w"
  by (simp add: server_tick_def Let_def)

lemma sds_rel_polling:
  assumes "sds_rel cfg m s w" "dirty_q w = []" "doomed w = [] \<or> m \<noteq> Reaping"
  shows "sds_rel cfg Polling s w"
  using assms by (auto simp: sds_rel_def lists_ok_def)

lemma sim_flush_phase:
  assumes rel: "sds_rel cfg Polling s w" and inv: "run_inv (common cfg) 0 {} w" and b: "boots cfg"
  shows "\<exists>w'. flush_phase (common cfg) w = Some w' \<and> sim cfg Polling w' (flush_phase_sds cfg s)"
proof -
  have n: "g_slots cfg < 2 ^ 32" using b by (simp add: boots_def)
  show ?thesis
  proof (cases "g_batch_flush cfg")
    case True
    obtain s1 where s1: "flush_dirty_sds cfg s = Inr s1" "sds_rel cfg Reaping s1 (flush_dirty (common cfg) w)"
      using sim_flush_dirty [OF rel] by (auto simp: sim_def)
    obtain w2 s2 where s2: "reap_doomed (common cfg) (flush_dirty (common cfg) w) = Some w2" "reap_doomed_sds cfg s1 = Inr s2"
        "sds_rel cfg Reaping s2 w2" "doomed w2 = []"
      using sim_reap_doomed [OF s1(2) _ n] by (auto simp: sim_def)
    have "sds_rel cfg Flushing s2 w2"
      using s2(3,4) by (auto simp: sds_rel_def lists_ok_def)
    then have "sim cfg Polling (flush_dirty (common cfg) w2) (flush_dirty_sds cfg s2)" by (rule sim_flush_dirty) simp_all
    then show ?thesis using True s1(1) s2(1,2) by (simp add: flush_phase_def flush_phase_sds_def)
  next
    case False
    obtain w2 s2 where s2: "reap_doomed (common cfg) w = Some w2" "reap_doomed_sds cfg s = Inr s2"
        "sds_rel cfg Reaping s2 w2" "doomed w2 = []"
      using sim_reap_doomed [OF rel _ n] by (auto simp: sim_def)
    have "dirty_q w2 = []"
      using flush_phase_inv [OF inv common_ok [OF b]] s2(1) False by (auto simp: flush_phase_def server_inv_def)
    then have "sds_rel cfg Polling s2 w2" using s2(3,4) by (intro sds_rel_polling [OF s2(3)]) simp_all
    then show ?thesis using False s2(1,2) by (simp add: flush_phase_def flush_phase_sds_def)
  qed
qed

lemma sim_turn:
  assumes rel: "sds_rel cfg Polling s w" and inv: "server_inv (common cfg) w" and b: "boots cfg"
    and f: "case r of Events es \<Rightarrow> fresh_events (g_slots cfg) (common cfg) es (True, set_tk (drain_begin (t_drain0 t)) w) | _ \<Rightarrow> True"
  shows "\<exists>running w' s'. loop_turn (common cfg) t r w = Some (running, w') \<and> loop_turn_sds cfg r s = Inr (running, s')
    \<and> sds_rel cfg Polling s' w'"
proof (cases r)
  case (Events es)
  let ?w0 = "set_tk (drain_begin (t_drain0 t)) w"
  have "run_inv (common cfg) 0 {} w" using inv by (simp add: server_inv_def)
  then have i0: "run_inv (common cfg) 0 {} ?w0" by (intro run_inv_set_tk tick_hooks_sessions)
  obtain running v where v: "fold (handle_event (common cfg)) es (True, ?w0) = (running, v)" by (rule prod.exhaust)
  obtain s1 where s1: "handle_events_sds cfg es (True, s) = Inr (running, s1)" "sds_rel cfg Polling s1 v"
    using sim_events [of cfg s "(True, ?w0)" es] rel i0 f b Events v by auto
  have "run_inv (common cfg) 0 {} v" using run_inv_events [of "common cfg" 0 "(True, ?w0)" es] i0 common_ok [OF b] v by simp
  then have i1: "run_inv (common cfg) 0 {} (set_tk (flush_begin (t_flush0 t)) (server_tick (common cfg) t (set_tk (drain_end (t_drain1 t)) v)))"
    using common_ok [OF b] by (intro run_inv_set_tk run_inv_server_tick tick_hooks_sessions)
  have "sds_rel cfg Polling s1 (set_tk (flush_begin (t_flush0 t)) (server_tick (common cfg) t (set_tk (drain_end (t_drain1 t)) v)))"
    using s1(2) by simp
  from sim_flush_phase [OF this i1 b] obtain w' s' where
    "flush_phase (common cfg) (set_tk (flush_begin (t_flush0 t)) (server_tick (common cfg) t (set_tk (drain_end (t_drain1 t)) v))) = Some w'"
    "flush_phase_sds cfg s1 = Inr s'" "sds_rel cfg Polling s' w'" by (auto simp: sim_def)
  then show ?thesis using Events v s1(1) by (simp add: loop_turn_def loop_turn_sds_def Let_def)
qed (use rel in \<open>auto simp: loop_turn_def loop_turn_sds_def\<close>)

lemma sim_serve:
  assumes "sds_rel cfg Polling s w" "server_inv (common cfg) w" "fresh_serve (g_slots cfg) (common cfg) turns w" and b: "boots cfg"
  shows "\<exists>w'. serve (common cfg) turns w = Some w' \<and> sim cfg Polling w' (serve_sds cfg (map snd turns) s)"
  using assms(1-3)
proof (induction turns arbitrary: s w)
  case Nil
  then show ?case by simp
next
  case (Cons x turns)
  obtain t r where x: "x = (t, r)" by (rule prod.exhaust)
  obtain running v s1 where t: "loop_turn (common cfg) t r w = Some (running, v)" "loop_turn_sds cfg r s = Inr (running, s1)"
      "sds_rel cfg Polling s1 v"
    using sim_turn [OF Cons.prems(1,2) b, of t r] Cons.prems(3) x by auto
  have "server_inv (common cfg) v" using loop_turn_inv [OF Cons.prems(2) common_ok [OF b], of t r] t(1) by auto
  then show ?case using Cons.IH [OF t(3)] Cons.prems(3) t x by (cases running) simp_all
qed

section \<open>The whole server\<close>

definition run_sds :: "sds_cfg \<Rightarrow> (nat \<Rightarrow> send_res list) \<Rightarrow> (nat \<Rightarrow> recv_res list) \<Rightarrow> accept_res list \<Rightarrow> wait_res list \<Rightarrow> sworld res" where
  "run_sds cfg ss rs acs turns = bind_res (make_slab cfg ss rs acs) (serve_sds cfg turns)"

lemma sim_run:
  assumes b: "boots cfg" and rs: "\<forall>fd. reads_ok (rs fd)"
    and f: "fresh_serve (g_slots cfg) (common cfg) turns (world_init (snd (tick_init hz width n now)) ss rs acs)"
  shows "\<exists>w. serve (common cfg) turns (world_init (snd (tick_init hz width n now)) ss rs acs) = Some w
    \<and> sim cfg Polling w (run_sds cfg ss rs acs (map snd turns))"
proof -
  have "sim cfg Polling (world_init (snd (tick_init hz width n now)) ss rs acs) (make_slab cfg ss rs acs)"
    by (rule make_slab_ok) (use b rs in \<open>simp_all add: boots_def\<close>)
  then obtain s0 where s0: "make_slab cfg ss rs acs = Inr s0" "sds_rel cfg Polling s0 (world_init (snd (tick_init hz width n now)) ss rs acs)"
    by (auto simp: sim_def)
  from sim_serve [OF s0(2) world_init_inv f b] show ?thesis using s0(1) by (simp add: run_sds_def)
qed

section \<open>Lists of a room\<close>

lemma seg_nth:
  assumes "seg l i None xs None" "j < length xs"
  shows "l (xs ! j) = Some (Some i, (if j = 0 then None else Some (xs ! (j - 1))), (if Suc j = length xs then None else Some (xs ! Suc j)))"
proof -
  have "xs = take j xs @ xs ! j # drop (Suc j) xs" by (rule id_take_nth_drop [OF assms(2)])
  with assms(1) have "seg l i None (take j xs @ xs ! j # drop (Suc j) xs) None" by simp
  from seg_last [OF this]
  have "l (xs ! j) = Some (Some i, (if take j xs = [] then None else Some (last (take j xs))), first (drop (Suc j) xs) None)" .
  moreover have "last (take j xs) = xs ! (j - 1)" if "0 < j" using that assms(2) by (cases xs) (simp_all add: last_conv_nth min_def)
  moreover have "first (drop (Suc j) xs) None = (if Suc j = length xs then None else Some (xs ! Suc j))"
    using assms(2) by (cases "drop (Suc j) xs") (auto simp: Cons_nth_drop_Suc [symmetric] drop_eq_Nil)
  ultimately show ?thesis using assms(2) by auto
qed

lemma live_room_list:
  assumes rel: "sds_rel cfg m s w" and n: "g_slots cfg < 2 ^ 32" and i: "i < length (g_rooms s)" "rm_live (g_rooms s ! i)"
  shows "\<exists>ms. ms \<noteq> [] \<and> distinct ms \<and> rm_head (g_rooms s ! i) = Some (hd ms) \<and> unat (rm_count (g_rooms s ! i)) = length ms
    \<and> (\<forall>j < length ms. \<exists>c. slab s (ms ! j) = Some c \<and> s_room c = Some i
         \<and> s_prev c = (if j = 0 then None else Some (ms ! (j - 1)))
         \<and> s_next c = (if Suc j = length ms then None else Some (ms ! Suc j)))
    \<and> (\<forall>fd c. slab s fd = Some c \<longrightarrow> s_room c = Some i \<longrightarrow> fd \<in> set ms)"
proof -
  have rr: "rooms_rel (g_slots cfg) s w" by (rule sds_relD(6) [OF rel])
  then have ok: "rooms_ok w" and dir: "dir_ok (g_slots cfg) (g_rooms s) (g_room_free s) (g_room_index s)"
      and dom: "dom (cmap_map (g_room_index s)) = dom (rooms w)" by (simp_all add: rooms_rel_def)
  define r where "r = cstring (rm_name (g_rooms s ! i))"
  have ix: "cmap_map (g_room_index s) r = Some i" using dir_okD(1,5) [OF dir] i by (simp add: r_def)
  then have "r \<in> dom (rooms w)" using dom by blast
  then obtain ms where ms: "rooms w r = Some ms" by blast
  then have d: "ms \<noteq> []" "distinct ms" using ok by (auto simp: rooms_ok_def)
  have l: "rm_head (g_rooms s ! i) = first ms None" "rm_count (g_rooms s ! i) = of_nat (length ms)" "seg (lk s) i None ms None"
    using rr ms ix unfolding rooms_rel_def by blast+
  have "first ms None = Some (hd ms)" using d(1) by (cases ms) simp_all
  moreover have "unat (rm_count (g_rooms s ! i)) = length ms"
    using l(2) members_below [OF rel ms] n by (simp add: unat_of_nat_u32)
  moreover have "\<exists>c. slab s (ms ! j) = Some c \<and> s_room c = Some i \<and> s_prev c = (if j = 0 then None else Some (ms ! (j - 1)))
      \<and> s_next c = (if Suc j = length ms then None else Some (ms ! Suc j))" if "j < length ms" for j
    using seg_nth [OF l(3) that] by (cases "slab s (ms ! j)") (auto simp: lk_def)
  moreover have "fd \<in> set ms" if c: "slab s fd = Some c" "s_room c = Some i" for fd c
  proof -
    have "conns w fd \<noteq> None" using sds_relD(2) [OF rel, of fd] c(1) by simp
    then obtain e where e: "conns w fd = Some e" by blast
    have "room e \<noteq> []" "cmap_map (g_room_index s) (room e) = Some i"
      using room_index_of [OF rel e c(1)] c(2) by (auto split: if_splits)
    moreover from this have "room e = r" using dir_inj [OF dir _ ix] by blast
    ultimately show ?thesis using conn_room_listed [OF ok e] ms by auto
  qed
  ultimately show ?thesis using d l(1) by (intro exI [of _ ms]) auto
qed

text \<open>The map sees a room name only up to its first NUL: a name with one lands in the room it is cut to.\<close>

lemma nul_name_shares_room:
  "cmap_inv (g_room_index s) \<Longrightarrow> cstr_ok r \<Longrightarrow> cmap_map (g_room_index s) r = Some i \<Longrightarrow> room_acquire (r @ 0 # xs) s = Inr (i, s)"
  using find_map [of "g_room_index s" r] by (simp add: room_acquire_def cstring_terminated)

section \<open>What the two servers share\<close>

lemma same_connD:
  "same_conn c d \<Longrightarrow> nick_of c = nick d \<and> contents (s_in c) = inb d \<and> queued c = outb d \<and> s_closing c = closing d"
  by (simp add: same_conn_def)

text \<open>
  C4. \<^verbatim>\<open>server_sds.cpp\<close> is \<^verbatim>\<open>server.cpp\<close> with its containers swapped: started with the same scripts of what
  the clients send and the kernel answers, it runs through every turn without a failed check, an
  access outside an array or a walk that does not end, and afterwards the bytes on every wire, the open
  connections, their nicknames and what is buffered for and from them are those of \<^verbatim>\<open>server.cpp\<close>. This
  needs chunks that fit beside an incomplete frame, no NUL in the first 63 bytes of a room name, an
  \<^verbatim>\<open>accept4\<close> that returns descriptors that are not open and within the slab, an \<^verbatim>\<open>EPOLL_CTL_MOD\<close> that succeeds on open
  descriptors, memory for the two lists of descriptors, and the default drain mode.
\<close>
theorem sds_serves_the_same:
  assumes "boots cfg" "\<forall>fd. reads_ok (rs fd)"
    and "fresh_serve (g_slots cfg) (common cfg) turns (world_init (snd (tick_init hz width n now)) ss rs acs)"
  shows "\<exists>s w. run_sds cfg ss rs acs (map snd turns) = Inr s
    \<and> serve (common cfg) turns (world_init (snd (tick_init hz width n now)) ss rs acs) = Some w
    \<and> s_wire s = wire w \<and> g_total_live s = n_conns w
    \<and> (\<forall>fd. map_option (\<lambda>c. (nick_of c, contents (s_in c), queued c, s_closing c)) (slab s fd)
           = map_option (\<lambda>d. (nick d, inb d, outb d, closing d)) (conns w fd))"
proof -
  obtain s w where sw: "run_sds cfg ss rs acs (map snd turns) = Inr s"
      "serve (common cfg) turns (world_init (snd (tick_init hz width n now)) ss rs acs) = Some w" "sds_rel cfg Polling s w"
    using sim_run [OF assms] by (auto simp: sim_def)
  have io: "io_rel (g_slots cfg) s w" by (rule sds_relD(4) [OF sw(3)])
  have "map_option (\<lambda>c. (nick_of c, contents (s_in c), queued c, s_closing c)) (slab s fd)
      = map_option (\<lambda>d. (nick d, inb d, outb d, closing d)) (conns w fd)" for fd
    using sds_relD(1) [OF sw(3), of fd] same_connD by (cases "slab s fd"; cases "conns w fd") auto
  then show ?thesis using sw(1,2) io by (auto simp: io_rel_def)
qed

text \<open>A run: two clients connect, take names, join one room and one of them speaks.\<close>

definition demo_sds :: "bool \<Rightarrow> sds_cfg" where
  "demo_sds batch = \<lparr>g_batch_flush = batch, g_short_read = False, g_max_conns = 2, ctl_mod_ok = (\<lambda>_. True),
     ctl_add_ok = (\<lambda>_. True), raw = (\<lambda>n. replicate n 0), malloc_ok = (\<lambda>_. True)\<rparr>"

definition demo_reads :: "nat \<Rightarrow> recv_res list" where
  "demo_reads fd = (if fd = 5 then [Got (frame 1 [97] @ frame 2 [114]), R_EAGAIN, Got (frame 3 [72, 105])]
     else if fd = 6 then [Got (frame 1 [98] @ frame 2 [114])] else [])"

definition demo_waits :: "(clock \<times> wait_res) list" where
  "demo_waits = (let t = \<lparr>t_drain0 = 0, t_drain1 = 0, t_tick0 = 0, t_tick1 = 0, t_flush0 = 0, t_flush1 = 0\<rparr>;
     ev = \<lambda>x. \<lparr>src = x, ev_err = False, ev_out = False, ev_in = True\<rparr> in
     [(t, Events [ev Listener, ev (Client 5)]), (t, Events [ev (Client 6)]), (t, Events [ev (Client 5)])])"

lemma demo_boots: "boots (demo_sds b)"
  by (simp add: boots_def raw_ok_def demo_sds_def g_slots_def)

lemma frame_header:
  assumes "length p \<le> k_max_payload"
  shows "header_len (frame t p @ rest) = length p" "header_type (frame t p @ rest) = t"
proof -
  have l: "unat (of_nat (length p) :: u16) = length p" using assms by (simp add: k_max_payload_def unat_of_nat_u16)
  show "header_len (frame t p @ rest) = length p" "header_type (frame t p @ rest) = t"
    unfolding header_len_def header_type_def frame_def wire_header_def by (simp_all add: l)
qed

lemma frame_parts:
  "take (length p) (drop k_header_size (frame t p @ rest)) = p" "drop (k_header_size + length p) (frame t p @ rest) = rest"
  "length (frame t p) = k_header_size + length p" "drop k_header_size (frame t p) = p"
  by (simp_all add: frame_def)

lemma frames_clean_Nil: "frames_clean []"
  by (simp add: frames_clean.simps [of "[]"] k_header_size_def)

lemma frames_clean_frame:
  assumes "length p \<le> k_max_payload"
  shows "frames_clean (frame t p @ rest) \<longleftrightarrow> (t = c_join \<longrightarrow> 0 \<notin> set (take k_room_max p)) \<and> frames_clean rest"
proof -
  have c: "k_header_size \<le> length (frame t p @ rest) \<and> header_len (frame t p @ rest) \<le> k_max_payload
      \<and> k_header_size + header_len (frame t p @ rest) \<le> length (frame t p @ rest)"
    unfolding frame_header [OF assms] using assms by (simp add: frame_parts)
  show ?thesis unfolding frames_clean.simps [of "frame t p @ rest"] if_P [OF c] unfolding frame_header [OF assms] frame_parts ..
qed

lemma demo_reads_ok: "\<forall>fd. reads_ok (demo_reads fd)"
proof -
  have "length (frame t p) = k_header_size + length p" for t p by (simp add: frame_def)
  then show ?thesis
    using frames_clean_frame [where rest = "[]"] frames_clean_Nil frames_clean_frame [of "[97]"] frames_clean_frame [of "[98]"]
    by (simp add: demo_reads_def offered_def k_chunk_def k_rx_ring_def k_max_frame_def k_max_payload_def k_header_size_def
        k_room_max_def frames_clean_frame c_join_def)
qed

text \<open>Turns without the listener ask nothing of \<^verbatim>\<open>accept4\<close>.\<close>

definition no_accept :: "clock \<times> wait_res \<Rightarrow> bool" where
  "no_accept x = (case snd x of Events es \<Rightarrow> list_all (\<lambda>e. src e \<noteq> Listener) es | _ \<Rightarrow> True)"

lemma fresh_events_clients: "list_all (\<lambda>e. src e \<noteq> Listener) es \<Longrightarrow> fresh_events n cfg es b"
  by (induction es arbitrary: b) simp_all

lemma fresh_serve_clients: "list_all no_accept turns \<Longrightarrow> fresh_serve n cfg turns w"
proof (induction turns arbitrary: w)
  case (Cons y ys)
  obtain t r where y: "y = (t, r)" by (rule prod.exhaust)
  have "fresh_serve n cfg ys v" for v using Cons by simp
  moreover have "fresh_events n cfg es b" if "r = Events es" for es b
    using that Cons.prems y fresh_events_clients by (simp add: no_accept_def)
  ultimately show ?case unfolding y by (auto split: wait_res.split option.split)
qed simp

lemma demo_fresh:
  "fresh_serve (g_slots (demo_sds b)) (common (demo_sds b)) demo_waits (world_init g ss demo_reads [Accepted 5, Accepted 6])"
proof -
  have "list_all no_accept (tl demo_waits)" by (simp add: demo_waits_def no_accept_def Let_def)
  from fresh_serve_clients [OF this] show ?thesis
    by (simp add: demo_waits_def Let_def g_slots_def demo_sds_def common_def world_init_def accept_one_def set_tk_def
        split: option.split)
qed

lemma sds_serves_the_same_witness:
  "boots (demo_sds True) \<and> (\<exists>s w. run_sds (demo_sds True) (\<lambda>_. [Sent 100]) demo_reads [Accepted 5, Accepted 6] (map snd demo_waits) = Inr s
    \<and> serve (common (demo_sds True)) demo_waits (world_init (snd (tick_init 0 0 0 0)) (\<lambda>_. [Sent 100]) demo_reads [Accepted 5, Accepted 6]) = Some w
    \<and> s_wire s 6 = wire w 6)"
  using sds_serves_the_same [OF demo_boots [of True] demo_reads_ok demo_fresh, where ss = "\<lambda>_. [Sent 100]" and hz = 0 and width = 0 and n = 0 and now = 0]
    demo_boots [of True] by auto

text \<open>
  C11. Between two waits of \<^verbatim>\<open>server_sds.cpp\<close> the membership links are well formed: the members of a live
  room are distinct open slots, reached from its head by the next links and back by the previous ones,
  as many as its count says, and they are all the connections that say they are in it.
\<close>
theorem sds_room_lists_well_formed:
  assumes "boots cfg" "\<forall>fd. reads_ok (rs fd)"
    and "fresh_serve (g_slots cfg) (common cfg) turns (world_init (snd (tick_init hz width n now)) ss rs acs)"
    and "run_sds cfg ss rs acs (map snd turns) = Inr s" "i < length (g_rooms s)" "rm_live (g_rooms s ! i)"
  shows "\<exists>ms. ms \<noteq> [] \<and> distinct ms \<and> rm_head (g_rooms s ! i) = Some (hd ms) \<and> unat (rm_count (g_rooms s ! i)) = length ms
    \<and> (\<forall>j < length ms. \<exists>c. slab s (ms ! j) = Some c \<and> s_room c = Some i
         \<and> s_prev c = (if j = 0 then None else Some (ms ! (j - 1)))
         \<and> s_next c = (if Suc j = length ms then None else Some (ms ! Suc j)))
    \<and> (\<forall>fd c. slab s fd = Some c \<longrightarrow> s_room c = Some i \<longrightarrow> fd \<in> set ms)"
proof -
  obtain w where rel: "sds_rel cfg Polling s w" using sim_run [OF assms(1-3)] assms(4) by (auto simp: sim_def)
  have n: "g_slots cfg < 2 ^ 32" using assms(1) by (simp add: boots_def)
  show ?thesis by (rule live_room_list [OF rel n assms(5,6)])
qed

text \<open>A run that leaves a room open: one client connects, takes a name and joins.\<close>

lemma parse_frame:
  assumes "alive w fd" "in_of fd w = frame t p @ rest" "length p \<le> k_max_payload"
  shows "parse_frames cfg fd w = parse_frames cfg fd (erase_in fd (k_header_size + length p) (handle_packet cfg fd t p w))"
  using assms by (subst parse_frames.simps) (simp add: frame_header frame_parts Let_def)

lemma parse_done: "in_of fd w = [] \<Longrightarrow> parse_frames cfg fd w = w"
  by (subst parse_frames.simps) (simp add: k_header_size_def)


definition one_conn :: "tick_state \<Rightarrow> (bytes \<rightharpoonup> nat list) \<Rightarrow> conn \<Rightarrow> world" where
  "one_conn g r c = (world_init g (\<lambda>_. []) (\<lambda>_. []) [])\<lparr>conns := [5 \<mapsto> c], n_conns := 1, rooms := r\<rparr>"

definition says :: bytes where "says = frame 1 [97] @ frame 2 [114]"

lemma demo_nick:
  "\<exists>ob. erase_in 5 5 (handle_packet cfg 5 1 [97] (one_conn g r (conn_init\<lparr>inb := says\<rparr>)))
     = one_conn g r (conn_init\<lparr>nick := [97], inb := frame 2 [114], outb := ob\<rparr>) \<and> length ob < 100"
  by (simp add: handle_packet_def c_set_nick_def on_nick_def queue_send_def upd_def erase_in_def k_max_payload_def
      k_send_cap_def k_header_size_def s_notice_def frame_def one_conn_def world_init_def conn_init_def says_def ascii_def Let_def)
    (rule exI, rule conjI, rule refl, simp add: k_header_size_def)

lemma demo_join:
  assumes "length ob < 100"
  shows "\<exists>ob'. erase_in 5 5 (handle_packet cfg 5 2 [114] (one_conn g Map.empty (conn_init\<lparr>nick := [97], inb := frame 2 [114], outb := ob\<rparr>)))
     = one_conn g [[114] \<mapsto> [5]] (conn_init\<lparr>nick := [97], room := [114], outb := ob'\<rparr>)"
  using assms by (simp add: handle_packet_def c_set_nick_def c_join_def on_join_def enter_room_def broadcast_def deliver_def Let_def queue_send_def
      upd_def erase_in_def k_max_payload_def k_send_cap_def k_header_size_def ascii_def s_notice_def frame_def one_conn_def world_init_def conn_init_def)
    (rule exI, rule refl)

lemma one_conn_simps [simp]: "alive (one_conn g r c) 5 = (\<not> closing c)" "in_of 5 (one_conn g r c) = inb c"
   "append_in 5 bs (one_conn g r c) = one_conn g r (c\<lparr>inb := inb c @ bs\<rparr>)"
   "doomed (one_conn g r c) = []" "sends (one_conn g r c) = (\<lambda>_. [])" "recvs (one_conn g r c) = (\<lambda>_. [])"
   "rooms (one_conn g r c) = r" "tk (one_conn g r c) = g"
  by (simp_all add: one_conn_def alive_def in_of_def append_in_def upd_def world_init_def)

lemma demo_parse: "\<exists>c. parse_frames cfg 5 (one_conn g Map.empty (conn_init\<lparr>inb := says\<rparr>)) = one_conn g [[114] \<mapsto> [5]] c \<and> \<not> closing c"
proof -
  obtain ob where 1: "erase_in 5 5 (handle_packet cfg 5 1 [97] (one_conn g Map.empty (conn_init\<lparr>inb := says\<rparr>)))
     = one_conn g Map.empty (conn_init\<lparr>nick := [97], inb := frame 2 [114], outb := ob\<rparr>)" "length ob < 100" using demo_nick by blast
  obtain ob' where 2: "erase_in 5 5 (handle_packet cfg 5 2 [114] (one_conn g Map.empty (conn_init\<lparr>nick := [97], inb := frame 2 [114], outb := ob\<rparr>)))
     = one_conn g [[114] \<mapsto> [5]] (conn_init\<lparr>nick := [97], room := [114], outb := ob'\<rparr>)" using demo_join [OF 1(2)] by blast
  have "parse_frames cfg 5 (one_conn g Map.empty (conn_init\<lparr>inb := says\<rparr>))
     = parse_frames cfg 5 (one_conn g Map.empty (conn_init\<lparr>nick := [97], inb := frame 2 [114], outb := ob\<rparr>))"
    using parse_frame [of "one_conn g Map.empty (conn_init\<lparr>inb := says\<rparr>)" 5 1 "[97]" "frame 2 [114]" cfg] 1
    by (simp add: says_def k_max_payload_def k_header_size_def conn_init_def)
  also have "\<dots> = one_conn g [[114] \<mapsto> [5]] (conn_init\<lparr>nick := [97], room := [114], outb := ob'\<rparr>)"
    using parse_frame [of "one_conn g Map.empty (conn_init\<lparr>nick := [97], inb := frame 2 [114], outb := ob\<rparr>)" 5 2 "[114]" "[]" cfg] 2
      parse_done [of 5 "one_conn g [[114] \<mapsto> [5]] (conn_init\<lparr>nick := [97], room := [114], outb := ob'\<rparr>)"]
    by (simp add: says_def k_max_payload_def k_header_size_def conn_init_def)
  finally show ?thesis by (intro exI conjI) (assumption, simp add: conn_init_def)
qed

lemma demo_read:
  assumes "\<not> g_batch_flush cfg"
  shows "\<exists>v. on_readable (common cfg) 5 (set_recvs 5 [Got says] (one_conn g Map.empty conn_init)) = v \<and> rooms v = [[114] \<mapsto> [5]] \<and> doomed v = []"
proof -
  let ?w = "one_conn g Map.empty conn_init"
  obtain c where c: "parse_frames (common cfg) 5 (one_conn g Map.empty (conn_init\<lparr>inb := says\<rparr>)) = one_conn g [[114] \<mapsto> [5]] c" "\<not> closing c"
    using demo_parse by blast
  have "says \<noteq> []" "length says = 10" by (simp_all add: says_def frame_def k_header_size_def)
  moreover have "set_recvs 5 [] (set_recvs 5 [Got says] ?w) = ?w" "recvs (set_recvs 5 [Got says] ?w) 5 = [Got says]"
    by (auto simp: set_recvs_def one_conn_def world_init_def)
  moreover have "conn_init\<lparr>inb := inb conn_init @ says\<rparr> = conn_init\<lparr>inb := says\<rparr>" "inb conn_init = []" by (simp_all add: conn_init_def)
  ultimately have "on_readable (common cfg) 5 (set_recvs 5 [Got says] ?w) = on_readable (common cfg) 5 (one_conn g [[114] \<mapsto> [5]] c)"
    using c by (subst on_readable.simps) (simp add: recv_rest_def k_recv_buf_def k_max_payload_def k_header_size_def Let_def)
  also have "\<dots> = flush_send (common cfg) 5 (one_conn g [[114] \<mapsto> [5]] c)"
    using assms by (subst on_readable.simps) (simp add: flush_or_mark_def)
  finally show ?thesis by (simp add: flush_send_def) (simp add: one_conn_def world_init_def update_epoll_mask_def Let_def)
qed


definition room_waits :: "(clock \<times> wait_res) list" where
  "room_waits = (let t = \<lparr>t_drain0 = 0, t_drain1 = 0, t_tick0 = 0, t_tick1 = 0, t_flush0 = 0, t_flush1 = 0\<rparr>;
     ev = \<lambda>x. \<lparr>src = x, ev_err = False, ev_out = False, ev_in = True\<rparr> in
     [(t, Events [ev Listener, ev (Client 5)])])"

lemma demo_serve: "\<exists>v. serve (common (demo_sds False)) room_waits
    (world_init g (\<lambda>_. []) ((\<lambda>_. [])(5 := [Got says])) [Accepted 5]) = Some v \<and> rooms v = [[114] \<mapsto> [5]]"
proof -
  have acc: "on_accept (common (demo_sds False)) (set_tk f (world_init g (\<lambda>_. []) ((\<lambda>_. [])(5 := [Got says])) [Accepted 5]))
     = set_recvs 5 [Got says] (one_conn (session_add 5 (f g)) Map.empty conn_init)" for f
   by (simp add: on_accept_def accept_one_def set_tk_def world_init_def set_recvs_def one_conn_def demo_sds_def)
  obtain v where v: "on_readable (common (demo_sds False)) 5 (set_recvs 5 [Got says] (one_conn (session_add 5 (drain_begin 0 g)) Map.empty conn_init)) = v"
     "rooms v = [[114] \<mapsto> [5]]" "doomed v = []" using demo_read [of "demo_sds False"] by (auto simp: demo_sds_def)
  have al: "alive (set_recvs 5 [Got says] (one_conn h Map.empty conn_init)) 5" for h
    by (simp add: set_recvs_def one_conn_def alive_def conn_init_def)
  have "doomed (set_tk f (server_tick (common (demo_sds False)) t (set_tk f' v))) = []"
    "rooms (set_tk f (server_tick (common (demo_sds False)) t (set_tk f' v))) = [[114] \<mapsto> [5]]" for t f f' using v(2,3)
    by (simp_all add: server_tick_def set_tk_def Let_def)
  moreover have "reap_doomed cfg w = Some w" if "doomed w = []" for cfg w
    using that by (simp add: reap_doomed_def reap_loop.simps)
  ultimately show ?thesis using v al
    by (simp add: room_waits_def Let_def loop_turn_def handle_event_def acc client_event_def flush_phase_def) (simp add: demo_sds_def set_tk_def)
qed

lemma room_reads_ok: "\<forall>fd. reads_ok (((\<lambda>_. [])(5 := [Got says])) fd)"
  using frames_clean_frame [where rest = "[]"] frames_clean_Nil
  by (simp add: says_def offered_def k_chunk_def k_rx_ring_def k_max_frame_def k_max_payload_def k_header_size_def
      k_room_max_def frames_clean_frame c_join_def frame_parts)

lemma room_fresh:
  "fresh_serve (g_slots (demo_sds b)) (common (demo_sds b)) room_waits (world_init g ss rs [Accepted 5])"
  by (simp add: room_waits_def Let_def g_slots_def demo_sds_def common_def world_init_def accept_one_def set_tk_def
      split: option.split)

lemma live_room_of_name:
  assumes "sds_rel cfg m s w" "rooms w r \<noteq> None"
  shows "\<exists>i < length (g_rooms s). rm_live (g_rooms s ! i)"
proof -
  have "dom (cmap_map (g_room_index s)) = dom (rooms w)" "dir_ok (g_slots cfg) (g_rooms s) (g_room_free s) (g_room_index s)"
    using sds_relD(6) [OF assms(1)] by (simp_all add: rooms_rel_def)
  moreover from this obtain i where "cmap_map (g_room_index s) r = Some i" using assms(2) by blast
  ultimately show ?thesis using dir_okD(1,3) by metis
qed

lemma sds_room_lists_well_formed_witness:
  "\<exists>s i. run_sds (demo_sds False) (\<lambda>_. []) ((\<lambda>_. [])(5 := [Got says])) [Accepted 5] (map snd room_waits) = Inr s
    \<and> rm_live (g_rooms s ! i) \<and> rm_head (g_rooms s ! i) \<noteq> None"
proof -
  note fresh = room_fresh [of False "snd (tick_init 0 0 0 0)" "\<lambda>_. []" "(\<lambda>_. [])(5 := [Got says])"]
  obtain s w where s: "run_sds (demo_sds False) (\<lambda>_. []) ((\<lambda>_. [])(5 := [Got says])) [Accepted 5] (map snd room_waits) = Inr s"
      "sds_rel (demo_sds False) Polling s w" "rooms w = [[114] \<mapsto> [5]]"
    using sim_run [OF demo_boots room_reads_ok fresh] demo_serve [of "snd (tick_init 0 0 0 0)"] by (auto simp: sim_def)
  obtain i where i: "i < length (g_rooms s)" "rm_live (g_rooms s ! i)" using live_room_of_name [OF s(2), of "[114]"] s(3) by auto
  show ?thesis using sds_room_lists_well_formed [OF demo_boots room_reads_ok fresh s(1) i] s(1) i by blast
qed

end
