(* ===== verification/EpollBoot.thy ===== *)
theory EpollBoot
  imports TickSetup SdsMain
begin

text \<open>
  \<^verbatim>\<open>main\<close> of \<^verbatim>\<open>src/server-epoll/server.cpp\<close> and of \<^verbatim>\<open>server_sds.cpp\<close>: settings from the environment, the limit on
  descriptors, the sockets, the event loop and the exit status. Shown: a server that starts runs to its end,
  the limit is never lowered, and in one environment the two programs end alike with the same bytes sent.
\<close>

section \<open>The surroundings of a process\<close>

text \<open>\<open>bo_var\<close> is \<^verbatim>\<open>getenv\<close>, \<open>bo_arg\<close> the first argument; the rest is what the kernel and the allocators answer. A walk
  order and the contents of fresh memory complete the two configurations.\<close>

record boot_env =
  bo_arg :: "string option"
  bo_var :: "string \<Rightarrow> string option"
  bo_map_ok :: "u64 \<Rightarrow> bool"
  bo_alloc_ok :: bool
  bo_now :: int
  bo_limit :: "(nat \<times> nat) option"
  bo_set_ok :: bool
  bo_slab_ok :: bool
  bo_epoll :: bool
  bo_socket :: bool
  bo_bind :: bool
  bo_listen :: bool
  bo_mask :: bool
  bo_signalfd :: bool
  bo_null :: bool
  bo_mod :: "nat \<Rightarrow> bool"
  bo_add :: "nat \<Rightarrow> bool"
  bo_place_fd :: "nat \<Rightarrow> nat list \<Rightarrow> nat list"
  bo_place_buf :: "bytes \<times> bytes \<Rightarrow> (bytes \<times> bytes) list \<Rightarrow> (bytes \<times> bytes) list"
  bo_raw :: "nat \<Rightarrow> bytes"
  bo_malloc :: "usize \<Rightarrow> bool"
  bo_sends :: "nat \<Rightarrow> send_res list"
  bo_recvs :: "nat \<Rightarrow> recv_res list"
  bo_accepts :: "accept_res list"

definition listen_port :: "boot_env \<Rightarrow> u16" where
  "listen_port E = (case bo_arg E of None \<Rightarrow> 9000 | Some s \<Rightarrow> word_of_int (atoi s))"

definition env_sndbuf :: "boot_env \<Rightarrow> int" where
  "env_sndbuf E = (case bo_var E ''CHAT_SNDBUF'' of None \<Rightarrow> 0 | Some s \<Rightarrow> atoi s)"

definition env_max_conns :: "boot_env \<Rightarrow> nat" where
  "env_max_conns E = (case bo_var E ''CHAT_MAX_CONNS'' of None \<Rightarrow> 4096 | Some s \<Rightarrow> nat (atoll s mod 2 ^ 64))"

definition env_quiet :: "boot_env \<Rightarrow> bool" where
  "env_quiet E = (case bo_var E ''CHAT_QUIET'' of None \<Rightarrow> False | Some s \<Rightarrow> atoi s \<noteq> 0)"

definition env_batch :: "boot_env \<Rightarrow> bool" where
  "env_batch E = (case bo_var E ''CHAT_FLUSH'' of None \<Rightarrow> False | Some s \<Rightarrow> s = ''batch'')"

text \<open>\<^verbatim>\<open>CHAT_TICK_MODE\<close>: whether ticks coalesce, or \<open>None\<close> if the server refuses.\<close>

definition env_coalesce :: "boot_env \<Rightarrow> bool \<Rightarrow> bool option" where
  "env_coalesce E tick_on = (case bo_var E ''CHAT_TICK_MODE'' of None \<Rightarrow> Some False
     | Some m \<Rightarrow> if m = ''coalesce'' then (if tick_on then Some True else None)
                 else if m = ''immediate'' then Some False else None)"

text \<open>The soft limit in force after the block that raises it, with \<^verbatim>\<open>rlim_t\<close> wrapping; \<open>None\<close> if it cannot be read.\<close>

definition boot_limit :: "boot_env \<Rightarrow> nat option" where
  "boot_limit E = map_option (\<lambda>(cur, hard).
     let want = (env_max_conns E + 64) mod 2 ^ 64; target = (if hard < want then hard else want) in
     if cur < target \<and> bo_set_ok E then target else cur) (bo_limit E)"

definition make_listener :: "boot_env \<Rightarrow> bool" where
  "make_listener E \<longleftrightarrow> bo_socket E \<and> bo_bind E \<and> bo_listen E"

definition make_signalfd :: "boot_env \<Rightarrow> bool" where
  "make_signalfd E \<longleftrightarrow> bo_mask E \<and> bo_signalfd E"

section \<open>\<^verbatim>\<open>server.cpp\<close>\<close>

definition boot_tick :: "boot_env \<Rightarrow> bool \<times> tick_state" where
  "boot_tick E = tick_start (bo_map_ok E) (bo_alloc_ok E) (read_settings (bo_var E)) (env_max_conns E) (bo_now E)"

definition boot_cfg :: "boot_env \<Rightarrow> bool \<Rightarrow> server_cfg" where
  "boot_cfg E co = \<lparr>batch_flush = env_batch E, coalesce = co, max_conns = env_max_conns E, mod_ok = bo_mod E,
     add_ok = bo_add E, place_fd = bo_place_fd E, place_buf = bo_place_buf E\<rparr>"

text \<open>\<open>None\<close> is \<^verbatim>\<open>return 1\<close>. The reserve descriptor may fail to open.\<close>

definition server_boot :: "boot_env \<Rightarrow> (server_cfg \<times> world) option" where
  "server_boot E = (let (ok, g) = boot_tick E in
     if \<not> ok then None
     else case env_coalesce E (enabled g) of None \<Rightarrow> None
       | Some co \<Rightarrow> if \<not> bo_epoll E \<or> \<not> make_listener E \<or> \<not> make_signalfd E then None
         else Some (boot_cfg E co, (world_init g (bo_sends E) (bo_recvs E) (bo_accepts E))\<lparr>reserve := bo_null E\<rparr>))"

text \<open>What is closed at the end, and the tables cleared.\<close>

definition shutdown :: "world \<Rightarrow> world" where
  "shutdown w = w\<lparr>conns := Map.empty, n_conns := 0, rooms := Map.empty, reserve := False\<rparr>"

definition server_main :: "boot_env \<Rightarrow> (clock \<times> wait_res) list \<Rightarrow> (nat \<times> world option) option" where
  "server_main E turns = (case server_boot E of None \<Rightarrow> Some (1, None)
     | Some (cfg, w) \<Rightarrow> map_option (\<lambda>w. (0, Some (shutdown w))) (serve cfg turns w))"

section \<open>\<^verbatim>\<open>server_sds.cpp\<close>\<close>

definition env_short_read :: "boot_env \<Rightarrow> bool" where
  "env_short_read E = (case bo_var E ''CHAT_SHORT_READ'' of None \<Rightarrow> False | Some s \<Rightarrow> atoi s \<noteq> 0)"

definition boot_sds_cfg :: "boot_env \<Rightarrow> sds_cfg" where
  "boot_sds_cfg E = \<lparr>g_batch_flush = env_batch E, g_short_read = env_short_read E, g_max_conns = env_max_conns E,
     ctl_mod_ok = bo_mod E, ctl_add_ok = bo_add E, raw = bo_raw E, malloc_ok = bo_malloc E\<rparr>"

text \<open>The slab is made before the sockets; a failed \<^verbatim>\<open>LNX_CHECK\<close> in it ends the process.\<close>

definition sds_boot :: "boot_env \<Rightarrow> sworld option res" where
  "sds_boot E = (if \<not> bo_slab_ok E then Inr None
     else bind_res (make_slab (boot_sds_cfg E) (bo_sends E) (bo_recvs E) (bo_accepts E)) (\<lambda>s.
       Inr (if \<not> bo_epoll E \<or> \<not> make_listener E \<or> \<not> make_signalfd E then None else Some (s\<lparr>s_reserve := bo_null E\<rparr>))))"

definition sds_shutdown :: "sworld \<Rightarrow> sworld" where
  "sds_shutdown s = s\<lparr>slab := Map.empty, g_rooms := [], s_reserve := False\<rparr>"

definition sds_main :: "boot_env \<Rightarrow> wait_res list \<Rightarrow> (nat \<times> sworld option) res" where
  "sds_main E waits = bind_res (sds_boot E) (\<lambda>r. case r of None \<Rightarrow> Inr (1, None)
     | Some s \<Rightarrow> bind_res (serve_sds (boot_sds_cfg E) waits s) (\<lambda>s. Inr (0, Some (sds_shutdown s))))"

section \<open>Starting\<close>

text \<open>The limit is not lowered, and is enough for the cap whenever the kernel allows that.\<close>

lemma boot_limit_raises:
  assumes "bo_limit E = Some (cur, hard)" "boot_limit E = Some soft"
  shows "cur \<le> soft" "bo_set_ok E \<Longrightarrow> env_max_conns E + 64 \<le> hard \<Longrightarrow> hard < 2 ^ 64 \<Longrightarrow> env_max_conns E + 64 \<le> soft"
  using assms by (auto simp: boot_limit_def Let_def split: if_splits)

lemma boot_cfg_ok:
  assumes "\<forall>fd. bo_mod E fd" "\<forall>x xs. mset (bo_place_fd E x xs) = mset (x # xs)" "\<forall>x xs. mset (bo_place_buf E x xs) = mset (x # xs)"
  shows "cfg_ok (boot_cfg E co)"
  using assms by (simp add: cfg_ok_def boot_cfg_def)

lemma server_inv_reserve [simp]: "server_inv cfg (v\<lparr>reserve := b\<rparr>) = server_inv cfg v"
  by (simp add: server_inv_def run_inv_def send_inv_def send_ok_def tables_ok_def rooms_ok_def bufs_ok_def counts_ok_def
      input_ok_def alive_def in_of_def)

lemma server_boot_inv:
  assumes "server_boot E = Some (cfg, w)"
  shows "server_inv cfg w" "\<exists>co. cfg = boot_cfg E co"
proof -
  show "server_inv cfg w"
    using assms world_init_inv tick_start_state [of "bo_map_ok E" "bo_alloc_ok E" "read_settings (bo_var E)" "env_max_conns E" "bo_now E"]
    by (auto simp: server_boot_def boot_tick_def split: prod.splits if_splits option.splits)
  show "\<exists>co. cfg = boot_cfg E co"
    using assms by (auto simp: server_boot_def split: prod.splits if_splits option.splits)
qed

text \<open>A server that starts runs to its end, and nothing it accepted stays open.\<close>

lemma server_main_ends:
  assumes "\<forall>fd. bo_mod E fd" "\<forall>x xs. mset (bo_place_fd E x xs) = mset (x # xs)" "\<forall>x xs. mset (bo_place_buf E x xs) = mset (x # xs)"
  shows "\<exists>code r. server_main E turns = Some (code, r) \<and> (code = 0 \<longleftrightarrow> server_boot E \<noteq> None)
    \<and> (\<forall>w. r = Some w \<longrightarrow> conns w = Map.empty)"
proof (cases "server_boot E")
  case (Some x)
  then obtain cfg w where x: "server_boot E = Some (cfg, w)" by (cases x) simp
  then have "cfg_ok cfg" using server_boot_inv(2) [OF x] boot_cfg_ok [OF assms] by blast
  then show ?thesis using serve_inv [OF server_boot_inv(1) [OF x], of turns] x by (auto simp: server_main_def shutdown_def)
qed (simp add: server_main_def)

text \<open>
  C5. The two programs are one: in one environment, given the same clients and the same answers of the kernel,
  \<^verbatim>\<open>server_sds.cpp\<close> and \<^verbatim>\<open>server.cpp\<close> end with the same exit status, both refused or both run to the end, and have
  put the same bytes on every wire. This needs settings the tick of \<^verbatim>\<open>server.cpp\<close> accepts, no coalescing, the
  default drain, memory for the slab, and the conditions under which the two serve the same.
\<close>
theorem one_program:
  assumes "boots (boot_sds_cfg E)" "bo_slab_ok E" "bo_null E" "fst (boot_tick E)"
    and "bo_var E ''CHAT_TICK_MODE'' \<in> {None, Some ''immediate''}" "bo_place_fd E = (#)" "bo_place_buf E = (#)"
    and "\<forall>fd. reads_ok (bo_recvs E fd)"
    and "fresh_serve (env_max_conns E + 64) (boot_cfg E False) turns
      (world_init (snd (boot_tick E)) (bo_sends E) (bo_recvs E) (bo_accepts E))"
  shows "\<exists>code s w. sds_main E (map snd turns) = Inr (code, s) \<and> server_main E turns = Some (code, w)
    \<and> map_option s_wire s = map_option wire w"
proof -
  let ?cfg = "boot_sds_cfg E" and ?w = "world_init (snd (boot_tick E)) (bo_sends E) (bo_recvs E) (bo_accepts E)"
  have c: "common ?cfg = boot_cfg E False" "g_slots ?cfg = env_max_conns E + 64"
    using assms(6,7) by (simp_all add: common_def boot_sds_cfg_def boot_cfg_def g_slots_def)
  obtain hz width n now where g: "snd (boot_tick E) = snd (tick_init hz width n now)"
    using tick_start_state by (metis boot_tick_def)
  have "sim ?cfg Polling ?w (make_slab ?cfg (bo_sends E) (bo_recvs E) (bo_accepts E))"
    unfolding g by (rule make_slab_ok) (use assms(1,8) in \<open>simp_all add: boots_def\<close>)
  then obtain s0 where s0: "make_slab ?cfg (bo_sends E) (bo_recvs E) (bo_accepts E) = Inr s0" "sds_rel ?cfg Polling s0 ?w"
    by (auto simp: sim_def)
  have inv: "server_inv (common ?cfg) ?w" unfolding g by (rule world_init_inv)
  have f: "fresh_serve (g_slots ?cfg) (common ?cfg) turns ?w" using assms(9) by (simp add: c)
  obtain w where w: "serve (boot_cfg E False) turns ?w = Some w" and sim: "sim ?cfg Polling w (serve_sds ?cfg (map snd turns) s0)"
    using sim_serve [OF s0(2) inv f assms(1)] by (auto simp: c)
  obtain s where s: "serve_sds ?cfg (map snd turns) s0 = Inr s" "s_wire s = wire w"
    using sim by (auto simp: sim_def io_rel_def dest: sds_relD(4))
  have r: "?w\<lparr>reserve := True\<rparr> = ?w" "s0\<lparr>s_reserve := True\<rparr> = s0"
    using s0(1) by (auto simp: world_init_def make_slab_def Let_def bind_res_def LNX_CHECK_def split: sum.splits if_splits)
  obtain g where bt: "boot_tick E = (True, g)" using assms(4) by (cases "boot_tick E") simp
  have "env_coalesce E (enabled g) = Some False" using assms(5) by (auto simp: env_coalesce_def)
  then show ?thesis
    using s0(1) s w assms(2,3) r bt
    by (auto simp: sds_main_def server_main_def sds_boot_def server_boot_def bind_res_def sds_shutdown_def shutdown_def)
qed

definition demo_boot :: boot_env where
  "demo_boot = \<lparr>bo_arg = None, bo_var = [''CHAT_MAX_CONNS'' \<mapsto> ''2'', ''CHAT_FLUSH'' \<mapsto> ''batch''], bo_map_ok = (\<lambda>_. False),
     bo_alloc_ok = False, bo_now = 0, bo_limit = Some (1024, 4096), bo_set_ok = True, bo_slab_ok = True, bo_epoll = True,
     bo_socket = True, bo_bind = True, bo_listen = True, bo_mask = True, bo_signalfd = True, bo_null = True,
     bo_mod = (\<lambda>_. True), bo_add = (\<lambda>_. True), bo_place_fd = (#), bo_place_buf = (#), bo_raw = (\<lambda>n. replicate n 0),
     bo_malloc = (\<lambda>_. True), bo_sends = (\<lambda>_. [Sent 100]), bo_recvs = demo_reads, bo_accepts = [Accepted 5, Accepted 6]\<rparr>"

lemma demo_boot_env: "env_max_conns demo_boot = 2" "env_batch demo_boot" "read_settings (bo_var demo_boot) = tick_defaults"
  by (simp_all add: demo_boot_def env_max_conns_def env_batch_def read_settings_def atoll_def signed_value_def is_space_def Let_def)

lemma demo_boot_answers:
  "bo_slab_ok demo_boot" "bo_null demo_boot" "bo_epoll demo_boot" "make_listener demo_boot" "make_signalfd demo_boot"
  "bo_var demo_boot ''CHAT_TICK_MODE'' = None" "bo_place_fd demo_boot = (#)" "bo_place_buf demo_boot = (#)"
  "bo_recvs demo_boot = demo_reads" "bo_accepts demo_boot = [Accepted 5, Accepted 6]"
  by (simp_all add: demo_boot_def make_listener_def make_signalfd_def)

lemma demo_boot_cfg: "boot_sds_cfg demo_boot = demo_sds True"
  using demo_boot_env by (simp add: boot_sds_cfg_def demo_sds_def env_short_read_def demo_boot_def)

lemma demo_boot_tick: "fst (boot_tick demo_boot)"
  unfolding boot_tick_def demo_boot_env by (rule tick_start_off) (simp add: tick_defaults_def)

lemma one_program_witness:
  "\<exists>s w. sds_main demo_boot (map snd demo_waits) = Inr (0, Some s) \<and> server_main demo_boot demo_waits = Some (0, Some w)
    \<and> s_wire s = wire w"
proof -
  have c: "boot_cfg demo_boot False = common (demo_sds True)" "env_max_conns demo_boot + 64 = g_slots (demo_sds True)"
    using demo_boot_env by (simp_all add: boot_cfg_def common_def demo_sds_def demo_boot_def g_slots_def)
  have "fresh_serve (env_max_conns demo_boot + 64) (boot_cfg demo_boot False) demo_waits
      (world_init (snd (boot_tick demo_boot)) (bo_sends demo_boot) (bo_recvs demo_boot) (bo_accepts demo_boot))"
    unfolding c by (simp add: demo_boot_answers demo_fresh)
  from one_program [OF _ _ _ demo_boot_tick _ _ _ _ this] obtain code s w where
      r: "sds_main demo_boot (map snd demo_waits) = Inr (code, s)" "server_main demo_boot demo_waits = Some (code, w)"
        "map_option s_wire s = map_option wire w"
    using demo_boots [of True] demo_reads_ok by (auto simp: demo_boot_cfg demo_boot_answers)
  obtain g where g: "boot_tick demo_boot = (True, g)" using demo_boot_tick by (cases "boot_tick demo_boot") simp
  have "server_boot demo_boot \<noteq> None"
    by (simp add: server_boot_def g env_coalesce_def demo_boot_answers)
  then obtain v where "code = 0" "w = Some v" using r(2) by (auto simp: server_main_def)
  then show ?thesis using r by (cases s) auto
qed

end
