(* ===== verification/LoadFleet.thy ===== *)
theory LoadFleet
  imports LoadMerge
begin

text \<open>
  The merged histogram of a fleet of load generators: what \<^verbatim>\<open>merge.py\<close> counts is what all processes counted
  together, and its percentiles are ranks among the samples of all of them.
\<close>

section \<open>Counters\<close>

definition cval :: "counter \<Rightarrow> int \<Rightarrow> int" where
  "cval c b = (case map_of c b of None \<Rightarrow> 0 | Some v \<Rightarrow> v)"

lemma map_of_counter_add: "map_of (counter_add (b, n) c) = (map_of c)(b \<mapsto> cval c b + n)"
  by (induction "(b, n)" c rule: counter_add.induct) (auto simp: cval_def)

lemma keys_counter_add: "set (map fst (counter_add (b, n) c)) = insert b (set (map fst c))"
  by (induction "(b, n)" c rule: counter_add.induct) auto

lemma distinct_counter_add: "distinct (map fst c) \<Longrightarrow> distinct (map fst (counter_add (b, n) c))"
  by (induction "(b, n)" c rule: counter_add.induct) (use keys_counter_add in auto)

lemma distinct_fold_counter: "distinct (map fst c) \<Longrightarrow> distinct (map fst (fold counter_add es c))"
  by (induction es arbitrary: c) (auto simp: distinct_counter_add)

lemma map_of_fold_counter:
  "distinct (map fst es) \<Longrightarrow> map_of (fold counter_add es c) b = (case map_of es b of None \<Rightarrow> map_of c b | Some n \<Rightarrow> Some (cval c b + n))"
proof (induction es arbitrary: c)
  case (Cons e es)
  obtain k n where e: "e = (k, n)" by (rule prod.exhaust)
  then have "map_of es k = None" using Cons.prems by (simp add: map_of_eq_None_iff)
  then show ?case using Cons e by (auto simp: map_of_counter_add cval_def split: option.split)
qed simp

text \<open>A counter of samples: one positive entry for every bucket below the range that has any.\<close>

definition counts_ok :: "counter \<Rightarrow> int list \<Rightarrow> bool" where
  "counts_ok c xs \<longleftrightarrow> distinct (map fst c)
     \<and> (\<forall>b. map_of c b = (if 0 \<le> b \<and> nat b < buckets \<and> 0 < samples_in (nat b) xs then Some (int (samples_in (nat b) xs)) else None))"

lemma samples_in_append: "samples_in b (xs @ ys) = samples_in b xs + samples_in b ys"
  by (simp add: samples_in_def)

lemma hist_counts:
  assumes "length ys < 2 ^ 32"
  shows "unat (counts (fold hist_add ys hist_init) b) = (if b < buckets then samples_in b ys else 0)"
proof -
  have "samples_in b ys < 2 ^ 32" using assms length_filter_le [of "\<lambda>x. bucket_of x = b" ys] unfolding samples_in_def by linarith
  then show ?thesis using hist_fold [of ys] by (simp add: unat_of_nat take_bit_nat_eq_self)
qed

lemma map_of_entries:
  "map_of (entries h bs) b = (if 0 \<le> b \<and> nat b \<in> set bs then Some (int (unat (counts h (nat b)))) else None)"
proof (induction bs)
  case (Cons a bs)
  have "b = int a \<longleftrightarrow> 0 \<le> b \<and> nat b = a" by auto
  then show ?case using Cons by (auto simp: entries_def)
qed (simp add: entries_def)

lemma distinct_entries: "distinct bs \<Longrightarrow> distinct (map fst (entries h bs))"
  by (simp add: entries_def comp_def distinct_map inj_on_def)

lemma counts_ok_merge:
  assumes c: "counts_ok c xs" and n: "length ys < 2 ^ 32"
  defines "h \<equiv> fold hist_add ys hist_init"
  shows "counts_ok (fold counter_add (fold counter_add (entries h (used h)) []) c) (xs @ ys)"
proof -
  let ?es = "entries h (used h)" and ?e = "fold counter_add (entries h (used h)) []"
  have dc: "distinct (map fst c)" using c by (simp add: counts_ok_def)
  have de: "distinct (map fst ?es)" by (rule distinct_entries) (simp add: used_def)
  have dd: "distinct (map fst ?e)" by (rule distinct_fold_counter) simp
  have z: "counts h b \<noteq> 0 \<longleftrightarrow> unat (counts h b) \<noteq> 0" for b by (simp add: unat_eq_0)
  have m: "map_of ?e b = (if 0 \<le> b \<and> nat b < buckets \<and> 0 < samples_in (nat b) ys then Some (int (samples_in (nat b) ys)) else None)" for b
  proof -
    have "map_of ?e b = map_of ?es b" unfolding map_of_fold_counter [OF de] by (auto simp: cval_def split: option.split)
    also have "\<dots> = (if 0 \<le> b \<and> nat b < buckets \<and> 0 < samples_in (nat b) ys then Some (int (samples_in (nat b) ys)) else None)"
      unfolding map_of_entries used_def using hist_counts [OF n, folded h_def] z by auto
    finally show ?thesis .
  qed
  show ?thesis unfolding counts_ok_def map_of_fold_counter [OF dd] m cval_def
    using c distinct_fold_counter [OF dc] by (auto simp: counts_ok_def samples_in_append)
qed

text \<open>A merged histogram that stands for a list of samples.\<close>

definition holds :: "py_hist \<Rightarrow> int list \<Rightarrow> bool" where
  "holds h xs \<longleftrightarrow> counts_ok (ph_counts h) xs \<and> ph_total h = int (length xs)
     \<and> ph_overflow h = int (length (filter (\<lambda>x. buckets \<le> bucket_of x) xs)) \<and> ph_bucket_ns h = bucket_ns"

lemma holds_init: "holds py_hist_init []"
  by (simp add: holds_def py_hist_init_def counts_ok_def samples_in_def bucket_ns_def)

lemma unat_length_u64: "n < 2 ^ 32 \<Longrightarrow> unat (of_nat n :: u64) = n"
  by (simp add: unat_of_nat take_bit_nat_eq_self)

lemma add_hist_holds:
  assumes "holds h xs" "length ys < 2 ^ 32"
  shows "\<exists>h'. add_hist (fold hist_add ys hist_init) h = Some h' \<and> holds h' (xs @ ys)"
proof -
  let ?g = "fold hist_add ys hist_init"
  have t: "unat (total ?g) = length ys" using hist_fold [of ys] assms(2) by (simp add: unat_length_u64)
  have "length (filter (\<lambda>x. buckets \<le> bucket_of x) ys) < 2 ^ 32" using assms(2) length_filter_le le_less_trans by blast
  then have o: "unat (overflow ?g) = length (filter (\<lambda>x. buckets \<le> bucket_of x) ys)"
    using hist_fold [of ys] by (simp add: unat_length_u64)
  show ?thesis
    using assms(1) counts_ok_merge [OF _ assms(2), of "ph_counts h" xs] unfolding add_hist_def py_merge_def t o
    by (simp add: holds_def)
qed

section \<open>Percentiles\<close>

lemma py_scan_hit:
  assumes "\<forall>e\<in>set pre. 0 \<le> snd e" "of_int (s + sum_list (map snd pre)) < want" "want \<le> of_int (s + sum_list (map snd pre) + n)"
  shows "py_scan want (pre @ (b, n) # post) s = Some b"
  using assms
proof (induction pre arbitrary: s)
  case (Cons e pre)
  obtain k v where e: "e = (k, v)" by (rule prod.exhaust)
  have "0 \<le> sum_list (map snd pre)" using Cons.prems(1) by (intro sum_list_nonneg) auto
  then have "(of_int (s + v) :: rat) \<le> of_int (s + sum_list (map snd (e # pre)))" unfolding of_int_le_iff using e by simp
  then have "\<not> want \<le> of_int (s + v)" using Cons.prems(2) by linarith
  then show ?case using Cons e by (simp add: add.assoc)
qed simp

lemma py_scan_miss:
  assumes "\<forall>e\<in>set c. 0 \<le> snd e" "of_int (s + sum_list (map snd c)) < want"
  shows "py_scan want c s = None"
  using assms
proof (induction c arbitrary: s)
  case (Cons e c)
  obtain k v where e: "e = (k, v)" by (rule prod.exhaust)
  have "0 \<le> sum_list (map snd c)" using Cons.prems(1) by (intro sum_list_nonneg) auto
  then have "(of_int (s + v) :: rat) \<le> of_int (s + sum_list (map snd (e # c)))" unfolding of_int_le_iff using e by simp
  then have "\<not> want \<le> of_int (s + v)" using Cons.prems(2) by linarith
  then show ?case using Cons e by (simp add: add.assoc)
qed simp

lemma counts_ok_set:
  assumes "counts_ok c xs"
  shows "set c = (\<lambda>b. (int b, int (samples_in b xs))) ` {b. b < buckets \<and> 0 < samples_in b xs}"
proof -
  have "(k, v) \<in> set c \<longleftrightarrow> 0 \<le> k \<and> nat k < buckets \<and> 0 < samples_in (nat k) xs \<and> v = int (samples_in (nat k) xs)" for k v
  proof -
    have "map_of c k = (if 0 \<le> k \<and> nat k < buckets \<and> 0 < samples_in (nat k) xs then Some (int (samples_in (nat k) xs)) else None)"
      using assms unfolding counts_ok_def by blast
    moreover have "map_of c k = Some v \<longleftrightarrow> (k, v) \<in> set c"
      by (rule map_of_eq_Some_iff) (use assms in \<open>simp add: counts_ok_def\<close>)
    ultimately show ?thesis by (auto split: if_splits)
  qed
  then show ?thesis by (auto simp: image_iff) (metis nat_0_le)
qed

text \<open>The samples counted below a key.\<close>

lemma counted_below:
  assumes "counts_ok c xs" "k \<le> buckets"
  shows "sum_list (map snd (filter (\<lambda>e. fst e < int k) c)) = int (length (filter (\<lambda>x. bucket_of x < k) xs))"
proof -
  have "distinct c" using assms(1) by (auto simp: counts_ok_def distinct_map)
  then have "sum_list (map snd (filter (\<lambda>e. fst e < int k) c)) = sum snd {e \<in> set c. fst e < int k}"
    by (subst sum_list_distinct_conv_sum_set) simp_all
  also have "{e \<in> set c. fst e < int k} = (\<lambda>b. (int b, int (samples_in b xs))) ` {b. b < k \<and> 0 < samples_in b xs}"
    unfolding counts_ok_set [OF assms(1)] using assms(2) by auto
  also have "sum snd \<dots> = (\<Sum>b \<in> {b. b < k \<and> 0 < samples_in b xs}. int (samples_in b xs))"
    by (subst sum.reindex) (auto simp: inj_on_def)
  also have "\<dots> = (\<Sum>b<k. int (samples_in b xs))" by (rule sum.mono_neutral_left) auto
  also have "\<dots> = int (length (filter (\<lambda>x. bucket_of x < k) xs))"
    unfolding samples_below [symmetric] by simp
  finally show ?thesis .
qed

lemma counts_ok_sort:
  assumes "counts_ok c xs"
  shows "counts_ok (sort_key fst c) xs" "sorted (map fst (sort_key fst c))"
proof -
  have d: "distinct (map fst c)" using assms by (simp add: counts_ok_def)
  have "mset (map fst (sort_key fst c)) = mset (map fst c)" by simp
  then have "distinct (map fst (sort_key fst c))" using d mset_eq_imp_distinct_iff by blast
  moreover from this have "map_of (sort_key fst c) = map_of c" using d by (intro map_of_eqI) auto
  ultimately show "counts_ok (sort_key fst c) xs" using assms by (simp add: counts_ok_def)
qed simp

lemma counts_ok_pos: "counts_ok c xs \<Longrightarrow> e \<in> set c \<Longrightarrow> 0 \<le> snd e"
  using counts_ok_set by fastforce

text \<open>In a list sorted by key, what stands before an entry is what is below its key.\<close>

lemma sorted_before:
  assumes "sorted (map fst (pre @ (b, n) # post))" "distinct (map fst (pre @ (b, n) # post))"
  shows "filter (\<lambda>e. fst e < b) (pre @ (b, n) # post) = pre"
proof -
  have "fst e < b" if "e \<in> set pre" for e
    using that assms by (fastforce simp: sorted_append order_less_le)
  moreover have "\<not> fst e < b" if "e \<in> set post" for e
    using that assms by (fastforce simp: sorted_append not_less)
  ultimately show ?thesis by simp
qed

lemma holds_pct:
  assumes h: "holds h xs" and w: "0 < rnd (p * of_nat (length xs))" "rnd (p * of_nat (length xs)) \<le> of_nat (length xs)"
  defines "q \<equiv> bucket_of (sort xs ! (nat \<lceil>rnd (p * of_nat (length xs))\<rceil> - 1))"
  shows "if q < buckets then py_pct rnd p h = (int q * bucket_ns, False) else snd (py_pct rnd p h)"
proof -
  define want where "want = rnd (p * of_nat (length xs))"
  define k where "k = nat \<lceil>want\<rceil>"
  let ?c = "sort_key fst (ph_counts h)"
  note c = counts_ok_sort [of "ph_counts h" xs]
  have ok: "counts_ok ?c xs" "sorted (map fst ?c)" using c h by (auto simp: holds_def)
  have k: "0 < k" "k \<le> length xs" using w by (simp_all add: k_def want_def ceiling_le_iff nat_le_iff)
  have le: "want \<le> of_nat m \<longleftrightarrow> k \<le> m" for m
    by (simp add: k_def nat_le_iff ceiling_le_iff)
  then have lt: "of_nat m < want \<longleftrightarrow> m < k" for m by (meson not_le)
  have i: "k - 1 < length xs" using k by simp
  note rank = rank_split [OF i mono_bucket_of, folded q_def [folded want_def k_def]]
  have t: "ph_total h = int (length xs)" "ph_total h \<noteq> 0" using h k by (auto simp: holds_def)
  show ?thesis
  proof (cases "q < buckets")
    case True
    have "q < Suc q" by simp
    have "0 < samples_in q xs"
    proof -
      have "length (filter (\<lambda>x. bucket_of x < q) xs) < length (filter (\<lambda>x. bucket_of x < Suc q) xs)"
        using rank(1) rank(2) [of q] by simp
      then show ?thesis unfolding samples_below [symmetric] by simp
    qed
    then have "(int q, int (samples_in q xs)) \<in> set ?c" using counts_ok_set [OF ok(1)] True by auto
    then obtain pre post where s: "?c = pre @ (int q, int (samples_in q xs)) # post" by (meson split_list)
    have "filter (\<lambda>e. fst e < int q) ?c = pre"
      unfolding s by (rule sorted_before) (use ok s in \<open>auto simp: counts_ok_def\<close>)
    then have pre: "sum_list (map snd pre) = int (length (filter (\<lambda>x. bucket_of x < q) xs))"
      using counted_below [OF ok(1), of q] True by simp
    have suc: "length (filter (\<lambda>x. bucket_of x < Suc q) xs) = length (filter (\<lambda>x. bucket_of x < q) xs) + samples_in q xs"
      unfolding samples_below [symmetric] by simp
    have "py_scan want ?c 0 = Some (int q)" unfolding s
    proof (rule py_scan_hit)
      show "\<forall>e\<in>set pre. 0 \<le> snd e" using counts_ok_pos [OF ok(1)] s by auto
      have "length (filter (\<lambda>x. bucket_of x < q) xs) < k" using rank(2) [of q] k by simp
      then show "of_int (0 + sum_list (map snd pre)) < want" unfolding pre using lt by simp
      have "k \<le> length (filter (\<lambda>x. bucket_of x < Suc q) xs)" using rank(1) by simp
      then have "want \<le> of_nat (length (filter (\<lambda>x. bucket_of x < q) xs) + samples_in q xs)" unfolding suc by (simp only: le)
      then show "want \<le> of_int (0 + sum_list (map snd pre) + int (samples_in q xs))" unfolding pre by simp
    qed
    then show ?thesis using True t h by (simp add: py_pct_def want_def holds_def)
  next
    case False
    have "filter (\<lambda>e. fst e < int buckets) ?c = ?c" using counts_ok_set [OF ok(1)] by (intro filter_True) auto
    then have "sum_list (map snd ?c) = int (length (filter (\<lambda>x. bucket_of x < buckets) xs))"
      using counted_below [OF ok(1), of buckets] by simp
    moreover have "length (filter (\<lambda>x. bucket_of x < buckets) xs) < k" using rank(2) [of buckets] False k by simp
    ultimately have "py_scan want ?c 0 = None"
      using counts_ok_pos [OF ok(1)] lt by (intro py_scan_miss) simp_all
    then show ?thesis using False t by (simp add: py_pct_def want_def)
  qed
qed

section \<open>The fleet\<close>

text \<open>One process: its settings, the CPU share it measured, its counters, and the latencies and lags it put into
  its two histograms.\<close>

type_synonym proc = "config \<times> (rat \<times> rat) \<times> traffic_stats \<times> int list \<times> int list"

definition proc_ok :: "proc \<Rightarrow> bool" where
  "proc_ok x = (case x of (cfg, cpu, st, xs, ys) \<Rightarrow> latency st = fold hist_add xs hist_init \<and> self_lag st = fold hist_add ys hist_init
     \<and> length xs < 2 ^ 32 \<and> length ys < 2 ^ 32)"

definition dump_of :: "(nat \<Rightarrow> double \<Rightarrow> bytes) \<Rightarrow> proc \<Rightarrow> bytes" where
  "dump_of fmt x = (case x of (cfg, cpu, st, xs, ys) \<Rightarrow> dump_stats fmt cfg cpu st)"

definition lat_of :: "proc \<Rightarrow> int list" where
  "lat_of x = fst (snd (snd (snd x)))"

definition lag_of :: "proc \<Rightarrow> int list" where
  "lag_of x = snd (snd (snd (snd x)))"

definition proc_sums :: "proc \<Rightarrow> (bytes \<times> int) list" where
  "proc_sums x = sums_of (fst x) (fst (snd (snd x)))"

lemma merge_dumps_ok:
  assumes t: "text_ok fmt flt"
  shows "list_all proc_ok ps \<Longrightarrow> meta_ok (m_meta s) \<Longrightarrow> holds (m_lat s) xs \<Longrightarrow> holds (m_lag s) ys \<Longrightarrow>
    \<exists>s'. merge_dumps flt (map (dump_of fmt) ps) s = Some s' \<and> holds (m_lat s') (xs @ concat (map lat_of ps))
      \<and> holds (m_lag s') (ys @ concat (map lag_of ps)) \<and> m_sums s' = fold bump (concat (map proc_sums ps)) (m_sums s)"
proof (induction ps arbitrary: s xs ys)
  case (Cons x ps)
  obtain cfg cpu st us vs where x: "x = (cfg, cpu, st, us, vs)" by (metis prod_cases5)
  have ok: "latency st = fold hist_add us hist_init" "self_lag st = fold hist_add vs hist_init" "length us < 2 ^ 32" "length vs < 2 ^ 32"
    using Cons.prems(1) by (simp_all add: x proc_ok_def)
  obtain h1 where h1: "add_hist (latency st) (m_lat s) = Some h1" "holds h1 (xs @ us)"
    using add_hist_holds [OF Cons.prems(3) ok(3)] ok(1) by auto
  obtain h2 where h2: "add_hist (self_lag st) (m_lag s) = Some h2" "holds h2 (ys @ vs)"
    using add_hist_holds [OF Cons.prems(4) ok(4)] ok(2) by auto
  from parse_dump_ok [OF t Cons.prems(2) h1(1) h2(1), of cfg cpu] obtain s1 where
    s1: "parse_dump flt (dump_stats fmt cfg cpu st) s = Some s1" "m_lat s1 = h1" "m_lag s1 = h2" "meta_ok (m_meta s1)"
      "m_sums s1 = fold bump (sums_of cfg st) (m_sums s)" by blast
  have "list_all proc_ok ps" "holds (m_lat s1) (xs @ us)" "holds (m_lag s1) (ys @ vs)" using Cons.prems(1) h1(2) h2(2) s1 by simp_all
  from Cons.IH [OF this(1) s1(4) this(2,3)] show ?case
    using s1 by (simp add: x dump_of_def lat_of_def lag_of_def proc_sums_def)
qed simp

lemma bump_fold: "(case fold bump es m k of None \<Rightarrow> 0 | Some a \<Rightarrow> a)
  = (case m k of None \<Rightarrow> 0 | Some a \<Rightarrow> a) + sum_list (map snd (filter (\<lambda>e. fst e = k) es))"
proof (induction es arbitrary: m)
  case (Cons e es)
  show ?case unfolding fold_simps o_apply Cons by (auto simp: bump_def)
qed simp

lemma sent_of_proc: "sum_list (map snd (filter (\<lambda>e. fst e = ascii ''sent'') (proc_sums x))) = int (unat (sent (fst (snd (snd x)))))"
  by (simp add: proc_sums_def sums_of_def ascii_def)

lemma sent_of_procs:
  "sum_list (map snd (filter (\<lambda>e. fst e = ascii ''sent'') (concat (map proc_sums ps)))) = (\<Sum>x\<leftarrow>ps. int (unat (sent (fst (snd (snd x))))))"
  by (induction ps) (simp_all add: sent_of_proc)

lemma merged_init_ok: "meta_ok (m_meta merged_init)" "holds (m_lat merged_init) []" "holds (m_lag merged_init) []"
  by (simp_all add: merged_init_def meta_ok_def holds_init)

text \<open>
  C15. The merged percentile is the percentile of the fleet: whatever number of load generators dumped their runs,
  \<^verbatim>\<open>merge.py\<close> accepts the dumps, its counts of messages sent add up, and the percentile it computes from the
  merged latency histogram is the lower edge of the bucket of the sample with that rank among the samples
  of all processes put together, flagged as beyond the range exactly when that sample is. This needs a
  printed \<^verbatim>\<open>double\<close> to be one readable word, and fewer than 2^32 samples in each process.
\<close>
theorem fleet_percentile_is_rank:
  assumes "text_ok fmt flt" "list_all proc_ok ps"
  defines "xs \<equiv> concat (map lat_of ps)"
  assumes "0 < rnd (p * of_nat (length xs))" "rnd (p * of_nat (length xs)) \<le> of_nat (length xs)"
  defines "q \<equiv> bucket_of (sort xs ! (nat \<lceil>rnd (p * of_nat (length xs))\<rceil> - 1))"
  shows "\<exists>s. merge_dumps flt (map (dump_of fmt) ps) merged_init = Some s
    \<and> (case m_sums s (ascii ''sent'') of None \<Rightarrow> 0 | Some n \<Rightarrow> n) = (\<Sum>x\<leftarrow>ps. int (unat (sent (fst (snd (snd x))))))
    \<and> (if q < buckets then py_pct rnd p (m_lat s) = (int q * bucket_ns, False) else snd (py_pct rnd p (m_lat s)))"
proof -
  obtain s where s: "merge_dumps flt (map (dump_of fmt) ps) merged_init = Some s" "holds (m_lat s) xs"
      "m_sums s = fold bump (concat (map proc_sums ps)) Map.empty"
    using merge_dumps_ok [OF assms(1,2) merged_init_ok] by (auto simp: xs_def merged_init_def)
  have "(case m_sums s (ascii ''sent'') of None \<Rightarrow> 0 | Some n \<Rightarrow> n) = (\<Sum>x\<leftarrow>ps. int (unat (sent (fst (snd (snd x))))))"
    unfolding s(3) bump_fold sent_of_procs by simp
  then show ?thesis using s(1) holds_pct [where rnd = rnd and p = p, OF s(2) assms(4,5), folded q_def] by blast
qed

definition demo_proc :: "nat \<Rightarrow> int list \<Rightarrow> proc" where
  "demo_proc n xs = (config_init\<lparr>cfg_node := of_nat n\<rparr>, (- 1, 0),
     stats_init\<lparr>latency := fold hist_add xs hist_init, sent := of_nat (length xs)\<rparr>, xs, [])"

text \<open>Of the three samples of two processes the second in order is the median, though it is the first of its own process.\<close>

lemma fleet_percentile_is_rank_witness:
  "\<exists>s. merge_dumps (\<lambda>_. Some (Finite 1)) (map (dump_of (\<lambda>_ _. ascii ''1.00'')) [demo_proc 0 [5000, 3100], demo_proc 1 [900]]) merged_init = Some s
    \<and> py_pct id (1 / 2) (m_lat s) = (3000, False) \<and> m_sums s (ascii ''sent'') = Some 3"
proof -
  define ps where "ps = [demo_proc 0 [5000, 3100], demo_proc 1 [900]]"
  have t: "text_ok (\<lambda>_ _. ascii ''1.00'') (\<lambda>_. Some (Finite 1))" by (simp add: text_ok_def word_ok_def ascii_def white_def)
  have p: "list_all proc_ok ps" by (simp add: ps_def proc_ok_def demo_proc_def stats_init_def)
  have xs: "concat (map lat_of ps) = [5000, 3100, 900]" by (simp add: ps_def lat_of_def demo_proc_def)
  have sum: "(\<Sum>x\<leftarrow>ps. int (unat (sent (fst (snd (snd x)))))) = 3" by (simp add: ps_def demo_proc_def stats_init_def)
  have "\<lceil>3 / 2 :: rat\<rceil> = 2" by (simp add: ceiling_eq_iff)
  then have "nat \<lceil>3 / 2 :: rat\<rceil> - 1 = 1" by simp
  moreover have "sort [5000, 3100, 900 :: int] = [900, 3100, 5000]" by simp
  moreover have "bucket_of 3100 = 3" by (simp add: bucket_of_def bucket_ns_def)
  ultimately show ?thesis
    using fleet_percentile_is_rank [OF t p, of id "1 / 2"] unfolding xs sum ps_def [symmetric]
    by (auto simp: buckets_def bucket_ns_def split: option.splits)
qed

end
