(* ===== verification/LoadMain.thy ===== *)
theory LoadMain
  imports LoadFleet
begin

text \<open>
  The load generator as a whole (\<^verbatim>\<open>main.cpp\<close>): command line, descriptor table, establish phase, traffic phase,
  dump and exit status. Shown: the descriptor table is large enough for every descriptor, the histograms of
  any run are the samples it took, added one by one, so that its dump is one the fleet percentile speaks about,
  and the exit status is 3 exactly when those samples and the counters make the run useless. A rate that is
  not a number, or so small that the time between two messages does not fit an \<^verbatim>\<open>int64_t\<close>, is undefined behaviour.
\<close>

section \<open>The run\<close>

text \<open>What the run asks of its surroundings. \<open>le_stat0\<close> and \<open>le_stat1\<close> are the server's line in \<^verbatim>\<open>/proc\<close> before and
  after the load, \<open>le_hz\<close> the clock ticks per second.\<close>

record load_env =
  le_atof :: "string \<Rightarrow> double"
  le_rnd :: "rat \<Rightarrow> rat"
  le_fmt :: "nat \<Rightarrow> double \<Rightarrow> bytes"
  le_host_ok :: "string \<Rightarrow> bool"
  le_epoll_ok :: bool
  le_limit :: "(nat \<times> nat) option"
  le_set_ok :: bool
  le_slab_ok :: "nat \<Rightarrow> bool"
  le_start :: "connect_run \<Rightarrow> start_res"
  le_connect :: "(bool \<times> connect_wait) list"
  le_sends :: "nat \<Rightarrow> send_res list"
  le_recvs :: "nat \<Rightarrow> recv_res list"
  le_pools :: pools
  le_now :: int
  le_turns :: "(bool \<times> int \<times> traffic_wait) list"
  le_drains :: "(bool \<times> traffic_wait) list"
  le_stat0 :: "bytes option"
  le_stat1 :: "bytes option"
  le_cpu_end :: int
  le_hz :: int

text \<open>\<^verbatim>\<open>want\<close> of \<^verbatim>\<open>main\<close>, and the length of \<^verbatim>\<open>conns\<close>.\<close>

definition fd_want :: "config \<Rightarrow> nat" where
  "fd_want cfg = (let want = nat (cfg_conns cfg) + 256 in if want < 65536 then 65536 else want)"

definition conn_slots :: "load_env \<Rightarrow> config \<Rightarrow> nat" where
  "conn_slots E cfg = snd (raise_fd_limit (le_limit E) (le_set_ok E) (fd_want cfg) 0) + 16"

text \<open>\<^verbatim>\<open>static_cast<int64_t>(1e9 / (n * rate))\<close> for a positive number \<open>n\<close> of connections. The conversion truncates, and is
  undefined on a NaN and on a value outside the range. A product too large for a \<^verbatim>\<open>double\<close> is an infinity and a quotient
  too large is one as well: both give what the exact value gives, 0 and undefined.\<close>

fun slot_ns :: "(rat \<Rightarrow> rat) \<Rightarrow> nat \<Rightarrow> double \<Rightarrow> int option" where
  "slot_ns rnd n (Finite r) = (let load = rnd (rnd (of_nat n) * r); q = rnd (1000000000 / load) in
     if load = 0 then None
     else let t = (if 0 \<le> q then \<lfloor>q\<rfloor> else \<lceil>q\<rceil>) in if - (2 ^ 63) \<le> t \<and> t < 2 ^ 63 then Some t else None)"
| "slot_ns rnd n Pos_Inf = Some 0"
| "slot_ns rnd n Neg_Inf = Some 0"
| "slot_ns rnd n Not_A_Num = None"

definition traffic_start :: "connect_run \<Rightarrow> traffic_run" where
  "traffic_start s = \<lparr>tr_clients = clients s, tr_stats = stats_init, tr_m = 0, tr_class = 0,
     tr_body = \<lparr>lines = [], cursor = 0, total_bytes = 0, min_bytes = 0, max_bytes = 0\<rparr>,
     tr_sends = cr_sends s, tr_recvs = cr_recvs s, tr_wire = cr_wire s\<rparr>"

definition schedule_of :: "load_env \<Rightarrow> config \<Rightarrow> proto \<Rightarrow> int \<Rightarrow> connect_run \<Rightarrow> schedule" where
  "schedule_of E cfg p slot s = \<lparr>sc_cfg = cfg, sc_proto = p, sc_live = live_fds s, sc_start = le_now E, sc_slot = slot\<rparr>"

definition connected :: "load_env \<Rightarrow> config \<Rightarrow> proto \<Rightarrow> connect_run" where
  "connected E cfg p = snd (run_connect cfg p (le_start E) (le_connect E) (run_init (le_sends E) (le_recvs E)))"

text \<open>The traffic phase with the slot it computes: the early return comes first.\<close>

definition traffic_phase :: "load_env \<Rightarrow> config \<Rightarrow> proto \<Rightarrow> connect_run \<Rightarrow> traffic_run res" where
  "traffic_phase E cfg p s = (if not_above_zero (cfg_rate cfg) \<or> cfg_duration cfg \<le> 0 \<or> live_fds s = [] then Inr (traffic_start s)
     else case slot_ns (le_rnd E) (length (live_fds s)) (cfg_rate cfg) of None \<Rightarrow> Inl Undefined
       | Some slot \<Rightarrow> Inr (run_traffic (le_pools E) (schedule_of E cfg p slot s) (le_turns E) (le_drains E) (traffic_start s)))"

definition run_stats :: "load_env \<Rightarrow> config \<Rightarrow> proto \<Rightarrow> traffic_stats res" where
  "run_stats E cfg p = map_sum id tr_stats (traffic_phase E cfg p (connected E cfg p))"

text \<open>The server's share of one core and the kernel's share of that, in percent; -1 stands for not sampled.
  A run that sends nothing does not sample.\<close>

definition server_cpu :: "(rat \<Rightarrow> rat) \<Rightarrow> int \<Rightarrow> int \<Rightarrow> u64 \<times> u64 \<Rightarrow> u64 \<times> u64 \<Rightarrow> rat \<times> rat" where
  "server_cpu rnd hz elapsed a b = (let ticks = rnd (of_nat (unat ((fst b - fst a) + (snd b - snd a))));
       wall = rnd (rnd (of_int elapsed) / 1000000000) in
     if 0 < wall \<and> 0 < hz
     then (rnd (rnd (100 * rnd (ticks / of_int hz)) / wall),
           if 0 < ticks then rnd (rnd (100 * rnd (of_nat (unat (snd b - snd a)))) / ticks) else 0)
     else (- 1, - 1))"

definition run_cpu :: "load_env \<Rightarrow> config \<Rightarrow> proto \<Rightarrow> rat \<times> rat" where
  "run_cpu E cfg p = (if live_fds (connected E cfg p) = [] \<or> cfg_server_pid cfg \<le> 0 then (- 1, - 1)
     else case (read_proc_cpu (le_stat0 E), read_proc_cpu (le_stat1 E)) of
       (Some a, Some b) \<Rightarrow> server_cpu (le_rnd E) (le_hz E) (le_cpu_end E - le_now E) a b
     | _ \<Rightarrow> (- 1, - 1))"

text \<open>The exit status, and the dump if one is written.\<close>

definition loadgen_main :: "load_env \<Rightarrow> string list \<Rightarrow> (nat \<times> bytes option) res" where
  "loadgen_main E argv = (case parse_args (le_atof E) argv of
     Inl e \<Rightarrow> Inl e
   | Inr None \<Rightarrow> Inr (2, None)
   | Inr (Some (cfg, p)) \<Rightarrow>
       if \<not> le_host_ok E (cfg_host cfg) then Inr (2, None)
       else if \<not> le_epoll_ok E then Inr (1, None)
       else if \<not> le_slab_ok E (conn_slots E cfg) then Inr (1, None)
       else case run_stats E cfg p of Inl e \<Rightarrow> Inl e | Inr st \<Rightarrow>
         Inr (if report (le_rnd E) cfg st then 0 else 3,
           if \<not> not_above_zero (cfg_rate cfg) \<and> 0 < cfg_duration cfg \<and> cfg_dump cfg \<noteq> []
           then Some (dump_stats (le_fmt E) cfg (run_cpu E cfg p) st) else None))"

section \<open>A socket\<close>

text \<open>The calls \<^verbatim>\<open>start_connect\<close> and \<^verbatim>\<open>bind_source\<close> make on a new socket, in their order; \<open>bound\<close> and \<open>conn\<close> are the
  errors of the bind and of \<^verbatim>\<open>connect\<close>, as for \<open>start_connect\<close>.\<close>

datatype sock_call = Set_rcvbuf int | Set_sndbuf int | Set_nodelay | Set_linger_reset | Set_no_port | Bind bytes
  | Connect | Close

definition bind_calls :: "config \<Rightarrow> int \<Rightarrow> sock_call list" where
  "bind_calls cfg i = (if cfg_src_ips cfg \<le> 1 then []
     else [Set_no_port, Bind (ascii ''127.0.0.'' @ dec_int (cfg_src_ip_base cfg + i mod cfg_src_ips cfg))])"

definition socket_calls :: "config \<Rightarrow> int \<Rightarrow> int option \<Rightarrow> int option \<Rightarrow> sock_call list" where
  "socket_calls cfg i bound conn =
     (if 0 < cfg_rcvbuf cfg then [Set_rcvbuf (cfg_rcvbuf cfg)] else [])
     @ (if 0 < cfg_sndbuf cfg then [Set_sndbuf (cfg_sndbuf cfg)] else [])
     @ [Set_nodelay, Set_linger_reset] @ bind_calls cfg i
     @ (if bound \<noteq> None then [Close] else Connect # (if conn \<noteq> None then [Close] else []))"

text \<open>Every option and the bind come before the handshake, which the receive window depends on; the socket is closed
  exactly when \<open>start_connect\<close> reports an error, and then last.\<close>

lemma socket_call_order:
  "\<exists>before. Connect \<notin> set before \<and> Close \<notin> set before
    \<and> (socket_calls cfg i bound conn = before @ [Connect] \<and> start_connect (Inr fd) bound conn = Inr fd
       \<or> socket_calls cfg i bound conn \<in> {before @ [Close], before @ [Connect, Close]} \<and> start_connect (Inr fd) bound conn \<noteq> Inr fd)"
proof -
  let ?before = "(if 0 < cfg_rcvbuf cfg then [Set_rcvbuf (cfg_rcvbuf cfg)] else [])
     @ (if 0 < cfg_sndbuf cfg then [Set_sndbuf (cfg_sndbuf cfg)] else []) @ [Set_nodelay, Set_linger_reset] @ bind_calls cfg i"
  have "Connect \<notin> set ?before" "Close \<notin> set ?before" by (auto simp: bind_calls_def)
  moreover have "socket_calls cfg i bound conn = ?before @ (if bound \<noteq> None then [Close] else Connect # (if conn \<noteq> None then [Close] else []))"
    by (simp add: socket_calls_def)
  ultimately show ?thesis
    by (intro exI [of _ ?before]) (cases bound; cases conn; simp add: start_connect_def)
qed

text \<open>The address bound is the one of \<open>bind_octet\<close>.\<close>

lemma bind_calls_octet:
  "bind_calls cfg i = (case bind_octet (cfg_src_ips cfg) (cfg_src_ip_base cfg) i of None \<Rightarrow> []
     | Some x \<Rightarrow> [Set_no_port, Bind (ascii ''127.0.0.'' @ dec_int x)])"
  by (simp add: bind_calls_def bind_octet_def)

section \<open>The descriptor table\<close>

text \<open>\<open>soft\<close> is the limit in force after the call. The kernel hands out the lowest free descriptor, so a process
  that has at most \<open>n\<close> others open gets one that is at most \<open>n\<close>.\<close>

lemma conn_table_fits:
  assumes "le_limit E = Some (cur, hard)" "cur \<le> hard"
    and "soft = (if cur < min hard (fd_want cfg) \<and> le_set_ok E then min hard (fd_want cfg) else cur)"
    and "fd < soft" "fd \<le> nat (cfg_conns cfg) + 256"
  shows "fd < conn_slots E cfg"
  using assms by (auto simp: conn_slots_def raise_fd_limit_def fd_want_def Let_def min_def split: if_splits)

section \<open>The histograms of a run\<close>

text \<open>Counters whose histograms come from adding samples one by one.\<close>

definition built :: "traffic_stats \<Rightarrow> bool" where
  "built st \<longleftrightarrow> (\<exists>xs. latency st = fold hist_add xs hist_init) \<and> (\<exists>ys. self_lag st = fold hist_add ys hist_init)"

lemma fold_snoc: "f x (fold f xs a) = fold f (xs @ [x]) a"
  by simp

lemma built_add [intro]:
  "built st \<Longrightarrow> built (st\<lparr>latency := hist_add x (latency st)\<rparr>)" "built st \<Longrightarrow> built (st\<lparr>self_lag := hist_add x (self_lag st)\<rparr>)"
  unfolding built_def using fold_snoc [of hist_add x _ hist_init] by (auto, metis+)

lemma built_keep [simp]:
  "built (st\<lparr>frames_in := n\<rparr>) = built st" "built (st\<lparr>foreign := n\<rparr>) = built st" "built (st\<lparr>bytes_in := n\<rparr>) = built st"
  "built (st\<lparr>sent := n\<rparr>) = built st" "built (st\<lparr>backpressed := n\<rparr>) = built st" "built (st\<lparr>lost_conns := k\<rparr>) = built st"
  "built (bad st) = built st"
  by (simp_all add: built_def bad_def)

lemma built_init [simp]: "built stats_init"
  unfolding built_def stats_init_def by (auto intro: exI [of _ "[]"])

lemma built_sample: "built st \<Longrightarrow> built (sample node ts p st)"
  by (auto simp: sample_def Let_def split: option.split)

lemma built_tick: "built st \<Longrightarrow> built (tick_entries node ts bs st)"
proof (induction node ts bs st rule: tick_entries.induct)
  case (1 node ts bs st)
  then show ?case by (subst tick_entries.simps) (simp add: Let_def built_sample)
qed

lemma built_count: "built st \<Longrightarrow> built (count_frame p node ts t d st)"
  by (simp add: count_frame_def Let_def built_tick built_sample)

lemma built_consume: "built st \<Longrightarrow> built (snd (consume_frames p node ts bs st))"
proof (induction p node ts bs st rule: consume_frames.induct)
  case (1 p node ts bs st)
  show ?case
    using 1 by (subst consume_frames.simps) (auto simp: built_count split: option.split)
qed

lemma built_send: "built (tr_stats s) \<Longrightarrow> built (tr_stats (send_due sc t s))"
  by (auto simp: send_due_def Let_def body_text_fields split: prod.split)

lemma built_burst: "built (tr_stats s) \<Longrightarrow> built (tr_stats (burst sc t n s))"
  by (induction n arbitrary: s) (simp_all add: built_send)

lemma built_flush: "built (tr_stats s) \<Longrightarrow> built (tr_stats (snd (tr_flush fd s)))"
  by (auto simp: tr_flush_def Let_def split: prod.split)

lemma built_read: "built (tr_stats s) \<Longrightarrow> built (tr_stats (snd (tr_read fd s)))"
  by (auto simp: tr_read_def Let_def split: prod.split)

lemma built_tr_consume: "built (tr_stats s) \<Longrightarrow> built (tr_stats (tr_consume sc fd now s))"
  using built_consume by (auto simp: tr_consume_def Let_def split: prod.split) (metis snd_conv)

lemma built_lose: "built (tr_stats s) \<Longrightarrow> built (tr_stats (lose fd s))"
  by (simp add: lose_def)

lemma built_event: "built (tr_stats s) \<Longrightarrow> built (tr_stats (traffic_event sc e s))"
proof -
  assume b: "built (tr_stats s)"
  obtain ok v where v: "(if te_out e then tr_flush (te_fd e) s else (True, s)) = (ok, v)" by (rule prod.exhaust)
  have bv: "built (tr_stats v)" using v b built_flush [OF b, of "te_fd e"] by (auto split: if_splits)
  have "built (tr_stats (snd (serve_io sc e s)))"
    using bv built_read [OF bv, of "te_fd e"] built_tr_consume
    by (auto simp: serve_io_def Let_def v split: prod.split)
  then show ?thesis using b built_lose by (auto simp: traffic_event_def split: prod.split)
qed

lemma built_drain_event: "built (tr_stats s) \<Longrightarrow> built (tr_stats (drain_event sc e s))"
proof -
  assume b: "built (tr_stats s)"
  obtain ok v where v: "tr_read (te_fd e) s = (ok, v)" by (rule prod.exhaust)
  have "built (tr_stats v)" using built_read [OF b, of "te_fd e"] by (simp add: v)
  then show ?thesis using b by (simp add: drain_event_def Let_def v built_lose built_tr_consume)
qed

lemma built_events:
  "built (tr_stats s) \<Longrightarrow> built (tr_stats (fold (traffic_event sc) es s))"
  "built (tr_stats s) \<Longrightarrow> built (tr_stats (fold (drain_event sc) es s))"
  by (induction es arbitrary: s) (simp_all add: built_event built_drain_event)

lemma built_traffic_loop: "built (tr_stats s) \<Longrightarrow> built (tr_stats (traffic_loop sc end_ts turns s))"
proof (induction sc end_ts turns s rule: traffic_loop.induct)
  case (2 sc end_ts stopped loop_ts w turns s)
  then show ?case by (auto simp: Let_def built_burst built_events split: traffic_wait.split)
qed simp

lemma built_drain_loop: "built (tr_stats s) \<Longrightarrow> built (tr_stats (drain_loop sc turns s))"
proof (induction sc turns s rule: drain_loop.induct)
  case (2 sc stopped w turns s)
  then show ?case by (auto simp: built_events split: traffic_wait.split)
qed simp

lemma run_built:
  assumes "run_stats E cfg p = Inr st"
  shows "built st"
proof -
  have "built (tr_stats (run_traffic ps sc turns drains (traffic_start s)))" for ps sc turns drains s
    by (simp add: Let_def run_traffic_def traffic_start_def built_drain_loop built_traffic_loop)
  then show ?thesis
    using assms by (auto simp: run_stats_def traffic_phase_def traffic_start_def split: if_splits option.splits)
qed

text \<open>A run is a process in the sense of the fleet, as long as it took fewer than 2^32 samples.\<close>

lemma run_is_proc:
  assumes "run_stats E cfg p = Inr st"
  obtains xs ys where "latency st = fold hist_add xs hist_init" "self_lag st = fold hist_add ys hist_init"
    "length xs < 2 ^ 32 \<Longrightarrow> length ys < 2 ^ 32 \<Longrightarrow> proc_ok (cfg, run_cpu E cfg p, st, xs, ys)"
  using run_built [OF assms] by (auto simp: built_def proc_ok_def)

section \<open>The exit status\<close>

text \<open>A rate that is not a number is accepted, and the run is undefined as soon as somebody is connected.\<close>

lemma nan_rate_undefined:
  assumes "parse_args (le_atof E) argv = Inr (Some (cfg, p))"
    and "le_host_ok E (cfg_host cfg)" "le_epoll_ok E" "le_slab_ok E (conn_slots E cfg)"
    and "cfg_rate cfg = Not_A_Num" "0 < cfg_duration cfg" "live_fds (connected E cfg p) \<noteq> []"
  shows "loadgen_main E argv = Inl Undefined"
  using assms by (simp add: loadgen_main_def run_stats_def traffic_phase_def)

text \<open>Rounding to the nearest \<^verbatim>\<open>double\<close> keeps the order, and keeps the integers it can represent.\<close>

definition rounding :: "(rat \<Rightarrow> rat) \<Rightarrow> bool" where
  "rounding rnd \<longleftrightarrow> mono rnd \<and> (\<forall>n :: nat. n \<le> 2 ^ 53 \<longrightarrow> rnd (of_nat n) = of_nat n)"

text \<open>The histogram bucket of the sample at 99 percent of the sorted samples, capped at the range of the histogram; 0 when
  there are too few samples for a rank.\<close>

definition p99_bucket :: "(rat \<Rightarrow> rat) \<Rightarrow> int list \<Rightarrow> nat" where
  "p99_bucket rnd xs = (let k = nat \<lfloor>rnd (rnd (99 / 100) * of_nat (length xs))\<rfloor> in
     if k = 0 then 0 else min buckets (bucket_of (sort xs ! (k - 1))))"

lemma p99_rank:
  assumes "rounding rnd" "n \<le> 2 ^ 53"
  shows "0 \<le> \<lfloor>rnd (rnd (99 / 100) * of_nat n)\<rfloor> \<and> \<lfloor>rnd (rnd (99 / 100) * of_nat n)\<rfloor> \<le> int n"
proof -
  have mono: "mono rnd" and exact: "m \<le> 2 ^ 53 \<Longrightarrow> rnd (of_nat m) = of_nat m" for m :: nat
    using assms(1) by (simp_all add: rounding_def)
  have "rnd (99 / 100) \<le> rnd 1" "rnd 0 \<le> rnd (99 / 100)" by (auto intro: monoD [OF mono])
  then have share: "rnd (99 / 100) \<le> 1" "0 \<le> rnd (99 / 100)" using exact [of 1] exact [of 0] by simp_all
  then have "rnd (99 / 100) * of_nat n \<le> of_nat n" "0 \<le> rnd (99 / 100) * of_nat n"
    by (simp_all add: mult_left_le_one_le)
  then have "rnd (rnd (99 / 100) * of_nat n) \<le> rnd (of_nat n)" "rnd 0 \<le> rnd (rnd (99 / 100) * of_nat n)"
    by (auto intro: monoD [OF mono])
  then have le: "rnd (rnd (99 / 100) * of_nat n) \<le> of_nat n" "0 \<le> rnd (rnd (99 / 100) * of_nat n)"
    using exact [OF assms(2)] exact [of 0] by simp_all
  then show ?thesis by (simp add: floor_le_iff le_floor_iff)
qed

lemma hist_pct_0: "total h \<noteq> 0 \<Longrightarrow> hist_pct 0 h = (0, False)"
proof -
  have "buckets \<noteq> 0" by (simp add: buckets_def)
  then obtain n where n: "buckets = Suc n" using not0_implies_Suc by blast
  have "pct_scan (counts h) 0 buckets 0 0 = Some 0" unfolding n by simp
  then show "total h \<noteq> 0 \<Longrightarrow> hist_pct 0 h = (0, False)" by (simp add: hist_pct_def)
qed

lemma unat_total: "length xs < 2 ^ 32 \<Longrightarrow> unat (total (fold hist_add xs hist_init)) = length xs"
  using hist_fold [of xs] by (simp add: unat_of_nat_usize)

lemma pct99_samples:
  assumes "rounding rnd" "length xs < 2 ^ 32"
  shows "pct99 rnd (fold hist_add xs hist_init) = (int (p99_bucket rnd xs) * bucket_ns, p99_bucket rnd xs = buckets)"
proof -
  let ?h = "fold hist_add xs hist_init"
  let ?k = "nat \<lfloor>rnd (rnd (99 / 100) * of_nat (length xs))\<rfloor>"
  have t: "unat (total ?h) = length xs" by (rule unat_total [OF assms(2)])
  have n: "length xs \<le> 2 ^ 53" using assms(2) by simp
  have exact: "rnd (of_nat (length xs)) = of_nat (length xs)" using assms(1) n by (simp add: rounding_def)
  have k: "?k \<le> length xs" "\<lfloor>rnd (rnd (99 / 100) * of_nat (length xs))\<rfloor> = int ?k"
    using p99_rank [OF assms(1) n] by (simp_all only: nat_le_iff nat_0_le)
  have w: "pct99 rnd ?h = hist_pct (of_nat ?k) ?h"
    unfolding pct99_def t exact by (subst k(2)) (simp only: of_int_of_nat_eq)
  have b: "buckets \<noteq> 0" by (simp add: buckets_def)
  show ?thesis
  proof (cases "?k = 0")
    case True
    have "hist_pct 0 ?h = (0, False)" using hist_pct_0 [of ?h] by (auto simp: hist_pct_def)
    then show ?thesis using w True b by (simp add: p99_bucket_def)
  next
    case False
    then show ?thesis
      using hist_pct_is_rank [OF assms(2) _ k(1)] w by (auto simp: p99_bucket_def Let_def min_def)
  qed
qed

text \<open>
  C31. The exit status is the gate. Let the load generator accept its command line and set up its descriptors, and
  let \<open>xs\<close> and \<open>ys\<close> be the latencies and the lags of the run, fewer than 2^32 of each. An offered load ends with status 3
  exactly when no latency was sampled (nobody connected is such a case), or deliveries per message sent are off the room size
  by more than 5 percent, or more than half a percent of the connections was counted as lost, or the 99th
  percentile of the latencies lies beyond the histogram's range of one second, or that of the lags is at least
  a millisecond and more than a fifth of it; it ends with 0 otherwise. A run whose settings ask for no load always
  ends with 0. The percentiles are the lower edges of the microsecond buckets of the ranked samples; fractions are rounded as \<^verbatim>\<open>double\<close>s are.
\<close>
theorem exit_status_is_the_gate:
  assumes "parse_args (le_atof E) argv = Inr (Some (cfg, p))"
    and "le_host_ok E (cfg_host cfg)" "le_epoll_ok E" "le_slab_ok E (conn_slots E cfg)"
    and "run_stats E cfg p = Inr st" "latency st = fold hist_add xs hist_init" "self_lag st = fold hist_add ys hist_init"
    and "length xs < 2 ^ 32" "length ys < 2 ^ 32" "rounding rnd" "rnd = le_rnd E"
  shows "\<exists>d. loadgen_main E argv
    = Inr (if \<not> not_above_zero (cfg_rate cfg) \<and> 0 < cfg_duration cfg \<and>
         (xs = []
          \<or> sent st \<noteq> 0 \<and>
             (let deliveries = rnd (rnd (of_nat (unat (frames_in st))) / rnd (of_nat (unat (sent st))));
                  room = of_int (cfg_per_room cfg) in
              deliveries < rnd (room * rnd (95 / 100)) \<or> rnd (room * rnd (105 / 100)) < deliveries)
          \<or> \<lfloor>rnd (rnd (5 / 1000) * of_int (cfg_conns cfg))\<rfloor> < lost_conns st
          \<or> 1000000 \<le> p99_bucket rnd xs
          \<or> 1000 \<le> p99_bucket rnd ys \<and> p99_bucket rnd xs < 5 * p99_bucket rnd ys)
       then 3 else 0, d)"
proof -
  have conns: "0 < cfg_conns cfg" using parse_args_ok [OF assms(1)] by (simp add: config_ok_def)
  have total: "total (latency st) = 0 \<longleftrightarrow> xs = []"
    using unat_total [OF assms(8)] assms(6) by (metis length_0_conv unat_eq_0)
  have le: "p99_bucket rnd zs \<le> buckets" for zs by (simp add: p99_bucket_def Let_def)
  have p99: "pct99 rnd (latency st) = (int (p99_bucket rnd xs) * 1000, 1000000 \<le> p99_bucket rnd xs)"
      "pct99 rnd (self_lag st) = (int (p99_bucket rnd ys) * 1000, 1000000 \<le> p99_bucket rnd ys)"
    using pct99_samples [OF assms(10,8)] pct99_samples [OF assms(10,9)] assms(6,7) le [of xs] le [of ys]
    by (auto simp: bucket_ns_def buckets_def)
  have "report rnd cfg st \<longleftrightarrow> \<not> (\<not> not_above_zero (cfg_rate cfg) \<and> 0 < cfg_duration cfg \<and>
         (xs = [] \<or> fanout_bad rnd cfg st \<or> \<lfloor>rnd (rnd (5 / 1000) * of_int (cfg_conns cfg))\<rfloor> < lost_conns st
          \<or> 1000000 \<le> p99_bucket rnd xs
          \<or> 1000 \<le> p99_bucket rnd ys \<and> p99_bucket rnd xs < 5 * p99_bucket rnd ys))"
    using conns by (auto simp: report_def verdict_def p99 total k_lag_ratio_def k_lag_floor_ns_def)
  moreover have "fanout_bad rnd cfg st \<longleftrightarrow> sent st \<noteq> 0 \<and>
             (let deliveries = rnd (rnd (of_nat (unat (frames_in st))) / rnd (of_nat (unat (sent st))));
                  room = of_int (cfg_per_room cfg) in
              deliveries < rnd (room * rnd (95 / 100)) \<or> rnd (room * rnd (105 / 100)) < deliveries)"
    by (auto simp: fanout_bad_def Let_def)
  ultimately show ?thesis using assms(1-5,11) by (simp add: loadgen_main_def)
qed

text \<open>A run stopped before anybody connected.\<close>

definition demo_env :: load_env where
  "demo_env = \<lparr>le_atof = (\<lambda>_. Finite 1), le_rnd = id, le_fmt = (\<lambda>_ _. [48]), le_host_ok = (\<lambda>_. True), le_epoll_ok = True,
     le_limit = Some (1024, 4096), le_set_ok = True, le_slab_ok = (\<lambda>n. n = 4112), le_start = (\<lambda>_. Start_error 24),
     le_connect = [(True, CW_EINTR)], le_sends = (\<lambda>_. []), le_recvs = (\<lambda>_. []), le_pools = demo_pools, le_now = 0,
     le_turns = [], le_drains = [], le_stat0 = None, le_stat1 = None, le_cpu_end = 0, le_hz = 100\<rparr>"

lemma exit_status_is_the_gate_witness: "\<exists>d. loadgen_main demo_env [] = Inr (3, d)"
proof -
  have p: "parse_args (le_atof demo_env) [] = Inr (Some (config_init, g_proto))"
    by (simp add: parse_args_def check_config_def config_init_def k_max_blob_def
        k_max_payload_def k_prefix_slack_def k_blob_header_def Let_def)
  have "conn_slots demo_env config_init = 4112"
    by (simp add: conn_slots_def raise_fd_limit_def fd_want_def demo_env_def config_init_def)
  moreover have "run_stats demo_env config_init g_proto = Inr stats_init"
    by (simp add: run_stats_def traffic_phase_def traffic_start_def connected_def run_connect_def run_init_def demo_env_def)
  moreover have "rounding (le_rnd demo_env)" by (simp add: rounding_def demo_env_def mono_def)
  ultimately show ?thesis
    using exit_status_is_the_gate [OF p, of stats_init "[]" "[]"]
    by (simp add: demo_env_def config_init_def stats_init_def)
qed

end
