(* ===== verification/Spec2Isabelle.thy ===== *)
theory Spec2Isabelle
  imports SpscPipe SessionTable LifecycleProofs PacketPool Mutex ProfilerReport EpollBoot LoadMain
begin

text \<open>
  A verification development for the repository io-uring-net-engine: a library of network-engine
  primitives (\<^verbatim>\<open>src/engine-uring\<close>), a skeleton server on them (\<^verbatim>\<open>src/server-uring\<close>), a single-threaded epoll
  chat server that serves as its control (\<^verbatim>\<open>src/server-epoll\<close>), and the load generator that measures
  both (\<^verbatim>\<open>src/client-bench\<close>).

  \<^bold>\<open>How the parts interact.\<close> The supervisor (\<^verbatim>\<open>main.cpp\<close>) spawns worker threads and then an acceptor, each
  with a control block of atomic words; threads exchange typed messages through \<^verbatim>\<open>mesh.h\<close> over
  single-producer single-consumer byte pipes (\<^verbatim>\<open>ring_buffer.h\<close>); the acceptor keeps the session table. The
  epoll server reads frames, keeps rooms and broadcasts; its optional tick load walks an arena of
  session blocks. The load generator opens connections, logs each in with a nickname and a room, sends
  chat on a fixed schedule and times the copies that come back.

  \<^bold>\<open>Theories.\<close>
  \<^item> \<open>Prelude\<close>: machine integers, \<^verbatim>\<open>LNX_CHECK\<close> as the error value \<open>Check_Trap\<close> and undefined behaviour as
    \<open>Undefined\<close>, byte images of words, lemmas on lists and power-of-two masks.
  \<^item> \<open>BytePipe\<close>, \<open>RingBuffer\<close>, \<open>SpscPipe\<close> (\<^verbatim>\<open>sds/ring_buffer.h\<close>, \<^verbatim>\<open>sds/pipe.h\<close>): the locale of a bounded byte
    queue, the ring with wrapping cursors that refines it, and the ring under every interleaving of one
    producer and one consumer thread (FIFO, no race on storage).
  \<^item> \<open>Mesh\<close> (\<^verbatim>\<open>mesh.h\<close>, \<^verbatim>\<open>message.h\<close>): typed messages over any byte pipe, interpreted on the ring; message
    queue refinement, byte layouts, and the sizing argument of the close-notify edge.
  \<^item> \<open>SessionTable\<close> (\<^verbatim>\<open>session_table.cpp\<close>): the slot array as a finite map; stale handles never validate.
  \<^item> \<open>Atomic\<close>, \<open>Lifecycle\<close>, \<open>LifecycleProofs\<close> (\<^verbatim>\<open>sync/atomic.h\<close>, \<^verbatim>\<open>thread_ctl\<close>, \<^verbatim>\<open>worker_ctl\<close>,
    \<^verbatim>\<open>acceptor_ctl\<close>, \<^verbatim>\<open>worker_engine.cpp\<close>, \<^verbatim>\<open>main.cpp\<close>): each call one atomic step, the process as a step
    relation; no fatal check fires, states move forward, shutdown can always complete.
  \<^item> \<open>CstrHashMap\<close>, \<open>MallocVector\<close>, \<open>PacketPool\<close>, \<open>Mutex\<close>, \<open>Profiler\<close>, \<open>ProfilerReport\<close> (\<^verbatim>\<open>sds/cstr_hash_map.h\<close>,
    \<^verbatim>\<open>sds/malloc_vector.h\<close>, \<^verbatim>\<open>sds/static_vector.h\<close>, \<^verbatim>\<open>memory/packet_pool\<close>, \<^verbatim>\<open>sync/mutex.h\<close>,
    \<^verbatim>\<open>diagnostic/profiler_scope\<close>): the containers with their representation invariants and refinements to
    maps and lists, the pool with its free lists in memory, lock ownership, and the profiler over the
    map and the vector, with the text of its reports.
  \<^item> \<open>TickLogic\<close>, \<open>TickSetup\<close> (\<^verbatim>\<open>tick_logic.h\<close>): histogram, bitmap of live sessions, tick walk and deadline; settings,
    calibration and dump.
  \<^item> \<open>EpollServer\<close> (\<^verbatim>\<open>server.cpp\<close>): every handler as a function on one record of the server's globals.
    \<open>EpollFraming\<close> (chunk independence), \<open>EpollSend\<close> (queues and the write mask), \<open>EpollRooms\<close> (tables),
    \<open>EpollReap\<close> (the cascade of the reaper ends), \<open>EpollDelivery\<close> (who gets a broadcast), \<open>EpollTurn\<close> and
    \<open>EpollMain\<close> (the invariants of whole turns of the event loop).
  \<^item> \<open>SdsServer\<close> (\<^verbatim>\<open>server_sds.cpp\<close>): the same server on the engine's containers, each undefined access or failed
    check an error value. \<open>SdsQueue\<close> (the send region), \<open>SdsRelation\<close> (how its state stands for the one of
    \<open>EpollServer\<close>), \<open>SdsSend\<close>, \<open>SdsRooms\<close>, \<open>SdsLeave\<close>, \<open>SdsEnter\<close>, \<open>SdsPacket\<close>, \<open>SdsRead\<close>, \<open>SdsTurn\<close> (one forward
    simulation lemma per function, in the order of the code) and \<open>SdsMain\<close> (event loop, and what the two
    servers share).
  \<^item> \<open>EpollBoot\<close>: \<^verbatim>\<open>main\<close> of both servers, from the environment to the exit status.
  \<^item> \<open>LoadWire\<close>, \<open>LoadNet\<close>, \<open>LoadConfig\<close>, \<open>LoadConnect\<close>, \<open>LoadTraffic\<close> (\<^verbatim>\<open>src/client-bench/src\<close>): wire format and
    receive parser, non-blocking sends and reads, command line and corpus, establish phase, traffic
    phase and verdict.
  \<^item> \<open>TextFormat\<close>, \<open>LoadDump\<close>, \<open>LoadMerge\<close>, \<open>LoadFleet\<close> (\<^verbatim>\<open>histogram.cpp\<close>, \<^verbatim>\<open>traffic.cpp\<close>, \<^verbatim>\<open>src/client-bench/merge.py\<close>): numbers
    and words as C prints and Python reads them, the dump of a run and its reader, one dump read back,
    and what merging the dumps of a fleet says of all its samples; also the reading of \<^verbatim>\<open>/proc/<pid>/stat\<close>.
  \<^item> \<open>LoadMain\<close> (\<^verbatim>\<open>src/client-bench/src/main.cpp\<close>): the load generator from its command line to its exit status.
  \<^item> This theory: the composition of the load generator with the epoll server.

  \<^bold>\<open>Conventions.\<close> Integers keep the width of the source where wrap-around or size matters and are \<open>nat\<close> or
  \<open>int\<close> elsewhere; pointers into arrays are indices; hash containers of the C++ library are maps with a
  walk order that is a parameter. A \<^verbatim>\<open>double\<close> the user can choose (the rate) is a rational, an infinity or not a
  number, with the comparisons of \<^verbatim>\<open>IEEE 754\<close> written out; computed ones are rationals under a rounding function. Kernel answers (\<^verbatim>\<open>send\<close>, \<^verbatim>\<open>recv\<close>, \<^verbatim>\<open>accept4\<close>, \<^verbatim>\<open>epoll_wait\<close>, clocks, \<^verbatim>\<open>malloc\<close>,
  \<^verbatim>\<open>mmap\<close>) are arguments: scripts that are used up call by call, an exhausted script answering \<^verbatim>\<open>EAGAIN\<close>.
  No theorem bounds the length of a script or of a run. The loops terminate by structure or by a
  measure, the growth of the calibration's burn by the clock readings it is given, but for the reaper's in \<open>EpollServer\<close>, a \<open>partial_function\<close> that is proved to return, and the
  loops of \<open>SdsServer\<close> through pointers and containers, which count down and answer \<open>Undefined\<close> at zero: a
  membership walk and the two index loops may take as many turns as there are slots, a parse as many as
  the ring has bytes, a read as many as the script weighs. \<open>sds_serves_the_same\<close> proves that no run gets
  there: members and listed descriptors are distinct slots, a frame retires at least its header, and
  every \<^verbatim>\<open>recv\<close> uses up script.

  \<^bold>\<open>Not modelled, and why.\<close> Text printed on the terminal, signals but for their effect on the loops, and the options of accepted
  sockets (pure I/O); the rounding of \<^verbatim>\<open>double\<close> and the printing and reading of one (the parameters \<open>rnd\<close>, \<open>fmt\<close>,
  \<open>num\<close>, \<open>flt\<close>, \<open>atof\<close>); the verdict \<^verbatim>\<open>merge.py\<close> prints on its merged numbers; the generated text of \<^verbatim>\<open>corpus_data.cpp\<close>; weak memory orders (each atomic
  call is one sequentially consistent step). \<^verbatim>\<open>CHAT_SHORT_READ\<close> is modelled, but the comparison of the two
  epoll servers is for the default drain; it also leaves out names with a NUL in them, on which they
  differ (\<open>nul_name_shares_room\<close>), and chunks of more than a ring beside an incomplete frame, where the
  two ask \<^verbatim>\<open>recv\<close> for different amounts. The invariants of whole turns assume that \<^verbatim>\<open>EPOLL_CTL_MOD\<close> succeeds on an open
  descriptor (\<open>cfg_ok\<close>, \<open>boots\<close>). The reader's view of a server in \<open>LoadWire\<close> gives all pieces of the stream
  one receive stamp and a slot without a bound; the slot's bound is in \<open>LoadNet\<close>. The send schedule of \<open>LoadTraffic\<close> is
  computed in unbounded integers: a due time exceeds the clock by at most one slot, because the next message is
  looked at only when the one before it came due, and the theorem that puts a due time on the wire asks for one
  inside \<^verbatim>\<open>int64_t\<close>.
\<close>


section \<open>A chat message, end to end\<close>

text \<open>The line the server makes of a load generator's message, and the frame the load generator makes of it.\<close>

lemma line_of_blob:
  "nick c @ ascii '': '' @ make_blob due sq nd ix fill =
    line_bytes \<lparr>l_nick = nick c, l_due = due, l_seq = sq, l_node = nd, l_index = ix, l_fill = fill\<rparr>"
  by (simp add: line_bytes_def)

lemma chat_frame_on_wire:
  "sc_proto sc = g_proto \<Longrightarrow> chat_frame sc due cl fill
    = frame c_chat (make_blob (word_of_int due) (cl_seq cl) (cfg_node (sc_cfg sc)) (word_of_int (cl_index cl)) fill)"
  by (simp add: chat_frame_def frame_def wire_header_def put_frame_def put_header_def g_proto_def c_chat_def)

text \<open>A whole frame that arrives on an empty buffer is handled and erased.\<close>

lemma parse_one_frame:
  assumes "alive w fd" "in_of fd w = []" "length p \<le> k_max_payload"
  shows "stream x (parse_frames cfg fd (append_in fd (frame t p) w)) = stream x (handle_packet cfg fd t p (append_in fd (frame t p) w))"
proof -
  let ?w = "append_in fd (frame t p) w"
  let ?e = "erase_in fd (k_header_size + length p) (handle_packet cfg fd t p ?w)"
  have in_w: "in_of fd ?w = frame t p @ []" using assms(1,2) by (simp add: in_of_append)
  then have "in_of fd ?e = []" by (simp add: frame_parts)
  moreover have "parse_frames cfg fd ?w = parse_frames cfg fd ?e"
    by (rule parse_frame [OF _ in_w assms(3)]) (simp add: assms(1))
  moreover have "stream x ?e = stream x (handle_packet cfg fd t p ?w)"
    by (simp add: stream_def out_of_def erase_in_def upd_def split: option.split)
  ultimately show ?thesis by (simp add: parse_done)
qed

text \<open>The broadcast of a load generator's message in a room that does not coalesce.\<close>

lemma handled_chat_delivered:
  fixes due :: i64 and sq nd :: u32 and ix :: i32
  assumes "conns w fd = Some c" "room c \<noteq> []" "rooms w (room c) = Some ms" "distinct ms" "\<not> coalesce cfg"
    and "length (nick c) + 2 \<le> k_prefix_slack" "58 \<notin> set (nick c)" "length fill \<le> k_max_blob - k_blob_header"
    and "x \<in> set ms" "alive w x" "length (out_of x w) + k_header_size + k_max_payload \<le> k_send_cap"
  defines "l \<equiv> \<lparr>l_nick = nick c, l_due = due, l_seq = sq, l_node = nd, l_index = ix, l_fill = fill\<rparr>"
  shows "stream x (handle_packet cfg fd c_chat (make_blob due sq nd ix fill) w) = stream x w @ server_frame (Chat l)
    \<and> consume_frames g_proto node ts (server_frame (Chat l)) stats = ([], delivered node ts l stats)"
proof -
  let ?blob = "make_blob due sq nd ix fill"
  have line: "nick c @ ascii '': '' @ ?blob = line_bytes l" unfolding l_def by (rule line_of_blob)
  have "length (line_bytes l) = length (nick c) + 2 + k_blob_header + length fill"
    by (simp add: l_def line_bytes_def ascii_def)
  then have len: "length (line_bytes l) \<le> k_max_payload"
    using assms(6,8) by (simp add: k_max_blob_def k_max_payload_def k_prefix_slack_def k_blob_header_def)
  let ?w = "w\<lparr>tk := on_msg fd (tk w)\<rparr>"
  have "handle_packet cfg fd c_chat ?blob w = broadcast cfg (room c) s_chat (line_bytes l) None ?w"
    using assms(1,2,5) by (simp add: handle_packet_def on_chat_def Let_def c_chat_def c_set_nick_def c_join_def flip: line)
  moreover have "alive ?w x = alive w x" "out_of x ?w = out_of x w" "stream x ?w = stream x w"
    by (simp_all add: alive_def out_of_def stream_def)
  ultimately have "stream x (handle_packet cfg fd c_chat ?blob w) = stream x w @ server_frame (Chat l)"
    using broadcast_member [of ?w "room c" ms "line_bytes l" x None cfg s_chat] assms(3,4,9-11) len by simp
  moreover have "consume_frames g_proto node ts (server_frame (Chat l)) stats = ([], delivered node ts l stats)"
    using consume_deliveries [of "[Chat l]" node ts stats] assms(7) len by (simp add: l_def)
  ultimately show ?thesis by blast
qed

text \<open>
  C13. A chat message is measured end to end. Let a load generator's schedule reach a message of a ready
  connection \<open>lfd\<close> that is not backpressured, and let the connection survive the send. Then what the connection has
  written or holds back grows by one frame \<open>F\<close>; and on a server that does not coalesce, when the bytes of \<open>F\<close> arrive on
  a connection with nothing left over in its buffer, in a room, under a nickname of at most 14 bytes without a colon,
  the server's parser makes the stream of every live member whose queue has room grow by bytes that
  the load generator's parser, on any node, turns into exactly one delivery of that message: one latency sample
  measured from the scheduled send time if the node is the sender's, one foreign count otherwise.
\<close>
theorem chat_measured_end_to_end:
  fixes t :: int
  assumes "lfd = fd_of sc (tr_m s)" "cl_state (tr_clients s lfd) = St_ready" "length (cl_pending (tr_clients s lfd)) \<le> 64 * 1024"
    and "corpus_ready (sc_cfg sc) s" "cl_state (tr_clients (send_due sc t s) lfd) = St_ready" "sc_proto sc = g_proto"
    and "due = due_at sc (tr_m s)" "- (2 ^ 63) \<le> due" "due < 2 ^ 63"
    and "conns w fd = Some c" "alive w fd" "inb c = []" "room c \<noteq> []" "rooms w (room c) = Some ms" "distinct ms" "\<not> coalesce cfg"
    and "length (nick c) + 2 \<le> k_prefix_slack" "58 \<notin> set (nick c)"
    and "x \<in> set ms" "alive w x" "length (out_of x w) + k_header_size + k_max_payload \<le> k_send_cap"
  shows "\<exists>F bs. tr_wire (send_due sc t s) lfd @ cl_pending (tr_clients (send_due sc t s) lfd)
      = tr_wire s lfd @ cl_pending (tr_clients s lfd) @ F
    \<and> stream x (parse_frames cfg fd (append_in fd F w)) = stream x w @ bs
    \<and> consume_frames g_proto node ts bs stats = ([], (let stats = stats\<lparr>frames_in := frames_in stats + 1\<rparr> in
        if cfg_node (sc_cfg sc) = node then stats\<lparr>latency := hist_add (ts - due) (latency stats)\<rparr>
        else stats\<lparr>foreign := foreign stats + 1\<rparr>))"
proof -
  let ?cl = "tr_clients s lfd"
  obtain fill where fill: "length fill \<le> k_max_blob - k_blob_header" and issued:
    "tr_wire (send_due sc t s) lfd @ cl_pending (tr_clients (send_due sc t s) lfd)
      = tr_wire s lfd @ cl_pending ?cl @ chat_frame sc due ?cl fill"
    using send_due_issues [OF assms(1-5)] unfolding assms(7) by blast
  let ?blob = "make_blob (word_of_int due) (cl_seq ?cl) (cfg_node (sc_cfg sc)) (word_of_int (cl_index ?cl)) fill"
  define l where "l = \<lparr>l_nick = nick c, l_due = word_of_int due, l_seq = cl_seq ?cl, l_node = cfg_node (sc_cfg sc),
    l_index = word_of_int (cl_index ?cl), l_fill = fill\<rparr>"
  let ?w = "append_in fd (frame c_chat ?blob) w"
  have short: "length ?blob \<le> k_max_payload"
    using fill by (simp add: make_blob_def k_max_blob_def k_max_payload_def k_prefix_slack_def k_blob_header_def)
  have empty: "in_of fd w = []" using assms(10,12) by (simp add: in_of_def)
  have same: "conns ?w fd = Some (c\<lparr>inb := frame c_chat ?blob\<rparr>)" "out_of x ?w = out_of x w" "stream x ?w = stream x w"
    using assms(10,12) by (auto simp: out_of_def stream_def append_in_def upd_def split: option.split)
  have "stream x (handle_packet cfg fd c_chat ?blob ?w) = stream x ?w @ server_frame (Chat l)
      \<and> consume_frames g_proto node ts (server_frame (Chat l)) stats = ([], delivered node ts l stats)"
    using handled_chat_delivered [OF same(1), of ms cfg fill x "word_of_int due"] assms(13-21) fill same(2) by (simp add: l_def)
  moreover have "sint (l_due l) = due" using assms(8,9) by (simp add: l_def sint_sbintrunc' signed_take_bit_int_eq_self)
  ultimately have "stream x (parse_frames cfg fd ?w) = stream x w @ server_frame (Chat l)"
      "consume_frames g_proto node ts (server_frame (Chat l)) stats = ([], (let stats = stats\<lparr>frames_in := frames_in stats + 1\<rparr> in
        if cfg_node (sc_cfg sc) = node then stats\<lparr>latency := hist_add (ts - due) (latency stats)\<rparr>
        else stats\<lparr>foreign := foreign stats + 1\<rparr>))"
    using parse_one_frame [OF assms(11) empty short, of x cfg c_chat] same(3) by (auto simp: delivered_def l_def Let_def)
  then show ?thesis using issued chat_frame_on_wire [OF assms(6), of due ?cl fill] by (intro exI conjI) auto
qed

text \<open>The message with index 1 is due at 110; the socket takes nothing at first.\<close>

lemma chat_measured_end_to_end_witness:
  "\<exists>F bs. tr_wire (send_due demo_schedule 135 (demo_traffic\<lparr>tr_sends := (\<lambda>_. [])\<rparr>)) 3
        @ cl_pending (tr_clients (send_due demo_schedule 135 (demo_traffic\<lparr>tr_sends := (\<lambda>_. [])\<rparr>)) 3) = F
    \<and> stream 2 (parse_frames (demo_mode True) 1 (append_in 1 F demo_room)) = bs
    \<and> consume_frames g_proto 0 8000 bs stats_init = ([], stats_init\<lparr>frames_in := 1, latency := hist_add 7890 hist_init\<rparr>)"
proof -
  let ?s = "demo_traffic\<lparr>tr_sends := (\<lambda>_. [])\<rparr>"
  have c: "corpus_ready (sc_cfg demo_schedule) ?s" "sc_cfg demo_schedule = config_init" "cfg_node config_init = 0"
    by (simp_all add: corpus_ready_def demo_schedule_def config_init_def)
  have sch: "3 = fd_of demo_schedule (tr_m ?s)" "110 = due_at demo_schedule (tr_m ?s)" "sc_proto demo_schedule = g_proto"
      "cl_state (tr_clients ?s 3) = St_ready" "cl_pending (tr_clients ?s 3) = []" "tr_wire ?s 3 = []"
    by (simp_all add: demo_schedule_def demo_traffic_def fd_of_def due_at_def client_init_def)
  have stays: "cl_state (tr_clients (send_due demo_schedule 135 ?s) 3) = St_ready"
    by (auto simp: send_due_def Let_def send_frame_def body_text_fields demo_schedule_def demo_traffic_def
        fd_of_def client_init_def split: prod.split)
  have r: "conns demo_room 1 = Some (conn_init\<lparr>room := [7], nick := [65]\<rparr>)" "rooms demo_room [7] = Some [1, 2]" "alive demo_room 1"
      "alive demo_room 2" "out_of 2 demo_room = []" "stream 2 demo_room = []" "\<not> coalesce (demo_mode True)"
    by (simp_all add: demo_room_def demo_mode_def alive_def out_of_def stream_def conn_init_def)
  have "\<exists>F bs. tr_wire (send_due demo_schedule 135 ?s) 3 @ cl_pending (tr_clients (send_due demo_schedule 135 ?s) 3)
        = tr_wire ?s 3 @ cl_pending (tr_clients ?s 3) @ F
    \<and> stream 2 (parse_frames (demo_mode True) 1 (append_in 1 F demo_room)) = stream 2 demo_room @ bs
    \<and> consume_frames g_proto 0 8000 bs stats_init = ([], (let st = stats_init\<lparr>frames_in := frames_in stats_init + 1\<rparr> in
        if cfg_node (sc_cfg demo_schedule) = 0 then st\<lparr>latency := hist_add (8000 - 110) (latency st)\<rparr>
        else st\<lparr>foreign := foreign st + 1\<rparr>))"
    by (rule chat_measured_end_to_end [where c = "conn_init\<lparr>room := [7], nick := [65]\<rparr>" and ms = "[1, 2]"
          and lfd = 3 and s = ?s and t = 135 and sc = demo_schedule, OF sch(1,4) _ c(1) stays sch(3,2)])
      (use r sch(5) in \<open>simp_all add: k_prefix_slack_def k_max_payload_def k_header_size_def k_send_cap_def conn_init_def\<close>)
  then show ?thesis using c r sch(5,6) by (simp add: stats_init_def Let_def)
qed

end
